(* ===== verification/Prelude.thy ===== *)
theory Prelude
  imports Main "HOL-Library.Word" "HOL-Library.Signed_Division"
begin

text \<open>
  Shared foundations of the development.

  \<^item> The C integer types of \<^verbatim>\<open>include/types.h\<close> as machine words.
  \<^item> The outcome type and the state-passing operations every component is written in: an
    operation takes the kernel state and either returns a value and a new state or stops
    with a \<open>fault\<close> (a panic, a lock that cannot be taken, a process that goes to sleep).
  \<^item> A weakest-precondition calculus over that type. Its equations are collected in
    \<open>wp_simps\<close>, so that most proofs about straight-line code are one \<open>simp\<close> call.
  \<^item> Generic facts on words, lists and little-endian encodings.
\<close>

unbundle bit_operations_syntax

named_theorems wp_simps
  "weakest-precondition equations of the basic operations"

section \<open>C integer types\<close>

type_synonym byte = "8 word"
type_synonym ushort = "16 word"
type_synonym uint = "32 word"
type_synonym uint64 = "64 word"

text \<open>A one-kilobyte disk block or buffer; only the indices below \<open>BSIZE\<close> are meaningful.\<close>

type_synonym block = "nat \<Rightarrow> byte"

text \<open>Conversion of a 64-bit value to a C \<open>int\<close>: the low 32 bits, read as two's complement.\<close>

definition to_int :: "uint64 \<Rightarrow> int" where
  "to_int x = sint (ucast x :: 32 word)"

lemma to_int_small:
  assumes "unat x < 2 ^ 31"
  shows "to_int x = int (unat x)"
proof -
  have "int (unat x) < int (2 ^ 31)"
    using assms by (simp only: of_nat_less_iff)
  then have "uint x < 2 ^ 31"
    by simp
  moreover have "0 \<le> uint x"
    by (rule uint_ge_0)
  ultimately have "signed_take_bit 31 (uint x) = uint x"
    by (intro signed_take_bit_int_eq_self) linarith+
  moreover have "to_int x = signed_take_bit 31 (uint x)"
    by (simp add: to_int_def sint_uint unsigned_ucast_eq signed_take_bit_take_bit)
  ultimately show ?thesis
    by simp
qed

section \<open>Faults, outcomes and operations\<close>

text \<open>
  Objects whose addresses are used as sleep channels, and the spinlocks of the kernel.
  A sleeplock is named by the buffer or inode that contains it.
\<close>

datatype sleepid = SBuf nat | SInode nat

datatype chan = ChLog | ChSleeplock sleepid | ChProc nat | ChTicks | ChDiskFree | ChBuf nat

datatype lockid =
    LKmem | LBuddy | LPid | LWait | LProc nat | LBcache | LLog | LItable | LFtable
  | LVdisk | LTicks | LPr | LCons | LSleep sleepid

text \<open>
  \<open>Panic\<close> is a call of \<^verbatim>\<open>panic()\<close>, which never returns. \<open>Spin\<close> is a busy wait on a
  spinlock another hart holds. \<open>Sleep\<close> is a call of \<^verbatim>\<open>sleep()\<close>: the process has given up
  the processor and continues only after a wake-up of the channel; \<open>Yield\<close> and \<open>Exit\<close> are
  the other two ways of giving it up, \<^verbatim>\<open>yield()\<close> and \<^verbatim>\<open>kexit()\<close>. \<open>Wild\<close> is an access
  through a null or dangling pointer. \<open>Diverge\<close> is a traversal of a broken list that never
  comes back.
\<close>

datatype fault = Panic string | Spin lockid | Sleep chan | Yield | Exit | Wild | Diverge

datatype ('s, 'a) outcome = Ret 'a 's | Fault fault 's

type_synonym ('s, 'a) oper = "'s \<Rightarrow> ('s, 'a) outcome"

text \<open>\<open>Ret a\<close> and \<open>Fault e\<close> are themselves operations: the rest is the state.\<close>

abbreviation ret :: "'a \<Rightarrow> ('s, 'a) oper" where
  "ret \<equiv> Ret"

definition bind :: "('s, 'a) oper \<Rightarrow> ('a \<Rightarrow> ('s, 'b) oper) \<Rightarrow> ('s, 'b) oper" where
  "bind m f s = (case m s of Ret a s' \<Rightarrow> f a s' | Fault e s' \<Rightarrow> Fault e s')"

abbreviation andthen :: "('s, 'a) oper \<Rightarrow> ('s, 'b) oper \<Rightarrow> ('s, 'b) oper" where
  "andthen m n \<equiv> bind m (\<lambda>_. n)"

definition gets :: "('s \<Rightarrow> 'a) \<Rightarrow> ('s, 'a) oper" where
  "gets f s = Ret (f s) s"

definition modify :: "('s \<Rightarrow> 's) \<Rightarrow> ('s, unit) oper" where
  "modify f s = Ret () (f s)"

abbreviation panic :: "string \<Rightarrow> ('s, 'a) oper" where
  "panic msg \<equiv> Fault (Panic msg)"

definition whenM :: "bool \<Rightarrow> ('s, unit) oper \<Rightarrow> ('s, unit) oper" where
  "whenM c m = (if c then m else ret ())"

primrec forM :: "'a list \<Rightarrow> ('a \<Rightarrow> ('s, unit) oper) \<Rightarrow> ('s, unit) oper" where
  "forM [] f = ret ()"
| "forM (x # xs) f = andthen (f x) (forM xs f)"

text \<open>Running an operation to its value, for evaluation of concrete inputs.\<close>

primrec returned :: "('s, 'a) outcome \<Rightarrow> bool" where
  "returned (Ret a s) \<longleftrightarrow> True"
| "returned (Fault e s) \<longleftrightarrow> False"

primrec fault_of :: "('s, 'a) outcome \<Rightarrow> fault option" where
  "fault_of (Ret a s) = None"
| "fault_of (Fault e s) = Some e"

primrec state_of :: "('s, 'a) outcome \<Rightarrow> 's" where
  "state_of (Ret a s) = s"
| "state_of (Fault e s) = s"

lemma bind_Ret_iff:
  "bind m f s = Ret b t \<longleftrightarrow> (\<exists>a u. m s = Ret a u \<and> f a u = Ret b t)"
  by (auto simp: bind_def split: outcome.splits)

lemma bind_run [simp]:
  "m s = Ret a u \<Longrightarrow> bind m f s = f a u"
  "m s = Fault e u \<Longrightarrow> bind m f s = Fault e u"
  by (simp_all add: bind_def)

lemma bind_assoc: "bind (bind m f) g = bind m (\<lambda>a. bind (f a) g)"
  by (rule ext) (simp add: bind_def split: outcome.splits)

lemma run_basic [simp]:
  "bind (Ret a) h s = h a s" "bind (Fault e) h s = Fault e s"
  "bind (gets f) h s = h (f s) s" "bind (modify g) k s = k () (g s)"
  "gets f s = Ret (f s) s" "modify g s = Ret () (g s)" "whenM True m = m" "whenM False m = ret ()"
  by (simp_all add: bind_def gets_def modify_def whenM_def)

section \<open>Weakest preconditions\<close>

text \<open>
  \<open>wp m Q F s\<close>: run from \<open>s\<close>, the operation \<open>m\<close> either returns with \<open>Q\<close> or stops with a
  fault that satisfies \<open>F\<close>. With \<open>F = never\<close> it is total correctness.
\<close>

definition wp :: "('s, 'a) oper \<Rightarrow> ('a \<Rightarrow> 's \<Rightarrow> bool) \<Rightarrow> (fault \<Rightarrow> 's \<Rightarrow> bool) \<Rightarrow> 's \<Rightarrow> bool" where
  "wp m Q F s = (case m s of Ret a t \<Rightarrow> Q a t | Fault e t \<Rightarrow> F e t)"

abbreviation (input) never :: "fault \<Rightarrow> 's \<Rightarrow> bool" where
  "never \<equiv> (\<lambda>_ _. False)"

abbreviation (input) any :: "fault \<Rightarrow> 's \<Rightarrow> bool" where
  "any \<equiv> (\<lambda>_ _. True)"

lemma wp_ret [wp_simps]: "wp (Ret a) Q F s = Q a s"
  by (simp add: wp_def)

lemma wp_bind [wp_simps]: "wp (bind m f) Q F s = wp m (\<lambda>a. wp (f a) Q F) F s"
  by (simp add: wp_def bind_def split: outcome.splits)

lemma wp_gets [wp_simps]: "wp (gets f) Q F s = Q (f s) s"
  by (simp add: wp_def)

lemma wp_modify [wp_simps]: "wp (modify f) Q F s = Q () (f s)"
  by (simp add: wp_def)

lemma wp_fault [wp_simps]: "wp (Fault e) Q F s = F e s"
  by (simp add: wp_def)

lemma wp_if [wp_simps]: "wp (if c then m else n) Q F s = (if c then wp m Q F s else wp n Q F s)"
  by simp

lemma wp_whenM [wp_simps]: "wp (whenM c m) Q F s = (if c then wp m Q F s else Q () s)"
  by (simp add: whenM_def wp_ret)

lemma wp_mono:
  assumes "wp m Q F s"
    and "\<And>a t. Q a t \<Longrightarrow> Q' a t" and "\<And>e t. F e t \<Longrightarrow> F' e t"
  shows "wp m Q' F' s"
  using assms by (auto simp: wp_def split: outcome.splits)

lemma wp_bindI:
  assumes "wp m R G s" "\<And>a t. R a t \<Longrightarrow> wp (f a) Q F t" "\<And>e t. G e t \<Longrightarrow> F e t"
  shows "wp (bind m f) Q F s"
  using wp_mono [OF assms] by (simp add: wp_bind)

text \<open>One step of a sequence at a time: reading, updating, and a call whose outcome is known.\<close>

lemma wp_bind_gets: "wp (bind (gets f) g) Q F s = wp (g (f s)) Q F s"
  by (simp add: wp_bind wp_gets)

lemma wp_bind_modify: "wp (andthen (modify f) m) Q F s = wp m Q F (f s)"
  by (simp add: wp_bind wp_modify)

lemma wp_bind_run: "m s = Ret a t \<Longrightarrow> wp (bind m f) Q F s = wp (f a) Q F t"
  by (simp add: wp_def bind_def)

lemma wp_run: "m s = Ret a t \<Longrightarrow> wp m Q F s = Q a t"
  by (simp add: wp_def)

lemma wp_returns: "wp m Q never s \<longleftrightarrow> (\<exists>a t. m s = Ret a t \<and> Q a t)"
  by (auto simp: wp_def split: outcome.splits)

lemma wp_partial: "wp m Q any s \<longleftrightarrow> (\<forall>a t. m s = Ret a t \<longrightarrow> Q a t)"
  by (auto simp: wp_def split: outcome.splits)

text \<open>The loop rule: an invariant over the elements already processed.\<close>

lemma wp_forM:
  assumes "I [] s"
    and "\<And>ys y zs t. xs = ys @ y # zs \<Longrightarrow> I ys t \<Longrightarrow> wp (f y) (\<lambda>_. I (ys @ [y])) F t"
  shows "wp (forM xs f) (\<lambda>_. I xs) F s"
proof -
  have "wp (forM zs f) (\<lambda>_. I (ys @ zs)) F t" if "xs = ys @ zs" and "I ys t" for ys zs t
    using that
  proof (induction zs arbitrary: ys t)
    case Nil
    then show ?case by (simp add: wp_ret)
  next
    case (Cons z zs)
    have "wp (f z) (\<lambda>_. I (ys @ [z])) F t"
      using assms(2) Cons.prems by blast
    moreover have "wp (forM zs f) (\<lambda>_. I ((ys @ [z]) @ zs)) F u" if "I (ys @ [z]) u" for u
      by (rule Cons.IH) (use Cons.prems that in simp_all)
    ultimately show ?case
      by (auto simp: wp_bind intro: wp_mono)
  qed
  from this [of "[]" xs s] assms(1) show ?thesis by simp
qed

lemma wp_for:
  assumes "I 0 s" "\<And>i t. i < n \<Longrightarrow> I i t \<Longrightarrow> wp (f i) (\<lambda>_. I (Suc i)) F t"
  shows "wp (forM [0..<n] f) (\<lambda>_. I n) F s"
proof -
  have "wp (forM [0..<n] f) (\<lambda>_. I (length [0..<n])) F s"
  proof (rule wp_forM [where I = "\<lambda>ys. I (length ys)"])
    fix ys y zs t assume x: "[0..<n] = ys @ y # zs" and I: "I (length ys) t"
    have l: "length ys < n"
      using arg_cong [OF x, of length] by simp
    have "y = [0..<n] ! length ys"
      unfolding x by simp
    with l have "y = length ys"
      by simp
    with assms(2) [OF l I] show "wp (f y) (\<lambda>_. I (length (ys @ [y]))) F t"
      by simp
  qed (use assms(1) in simp)
  then show ?thesis by simp
qed

section \<open>Little-endian fields of a block\<close>

definition get16 :: "block \<Rightarrow> nat \<Rightarrow> ushort" where
  "get16 d k = ucast (d k) OR push_bit 8 (ucast (d (k + 1)))"

definition put16 :: "block \<Rightarrow> nat \<Rightarrow> ushort \<Rightarrow> block" where
  "put16 d k v = d(k := ucast v, k + 1 := ucast (drop_bit 8 v))"

definition get32 :: "block \<Rightarrow> nat \<Rightarrow> uint" where
  "get32 d k = ucast (d k) OR push_bit 8 (ucast (d (k + 1))) OR push_bit 16 (ucast (d (k + 2)))
     OR push_bit 24 (ucast (d (k + 3)))"

definition put32 :: "block \<Rightarrow> nat \<Rightarrow> uint \<Rightarrow> block" where
  "put32 d k v = d(k := ucast v, k + 1 := ucast (drop_bit 8 v), k + 2 := ucast (drop_bit 16 v),
     k + 3 := ucast (drop_bit 24 v))"

lemma unat_ucast64 [simp]: "unat (ucast (x :: uint) :: uint64) = unat x"
proof -
  have "unat x < 2 ^ 32"
    using unsigned_less [of x] by simp
  then show ?thesis
    by (simp add: unsigned_ucast_eq take_bit_nat_eq_self_iff)
qed

end
