(* ===== verification/Machine.thy ===== *)
theory Machine
  imports Prelude
begin

text \<open>
  The processor state and the spinlocks: the interrupt bit of \<^verbatim>\<open>sstatus\<close>
  (\<^verbatim>\<open>include/riscv.h\<close>), the per-hart \<^verbatim>\<open>struct cpu\<close> (\<^verbatim>\<open>include/proc.h\<close>) and
  \<^verbatim>\<open>kernel/lib/spinlock.c\<close>. The state record is extended by every later component, so its
  operations are polymorphic in the extension. A pointer to \<^verbatim>\<open>struct cpu\<close> is the hart number.
\<close>

section \<open>State\<close>

record spinlock =
  locked :: bool
  lk_name :: string
  lk_cpu :: "nat option"

record cpu =
  c_proc :: "nat option"
  noff :: int
  intena :: bool

record machine =
  tp :: nat
  sstatus :: "nat \<Rightarrow> uint64"
  cpus :: "nat \<Rightarrow> cpu"
  locks :: "lockid \<Rightarrow> spinlock"

section \<open>Interrupt control (riscv.h)\<close>

definition SSTATUS_SIE :: uint64 where
  "SSTATUS_SIE = push_bit 1 1"

definition r_tp :: "'z machine_scheme \<Rightarrow> nat" where
  "r_tp s = tp s"

definition r_sstatus :: "'z machine_scheme \<Rightarrow> uint64" where
  "r_sstatus s = sstatus s (tp s)"

definition w_sstatus :: "uint64 \<Rightarrow> 'z machine_scheme \<Rightarrow> 'z machine_scheme" where
  "w_sstatus x s = s\<lparr>sstatus := (sstatus s)(tp s := x)\<rparr>"

definition intr_on :: "'z machine_scheme \<Rightarrow> 'z machine_scheme" where
  "intr_on s = w_sstatus (r_sstatus s OR SSTATUS_SIE) s"

definition intr_off :: "'z machine_scheme \<Rightarrow> 'z machine_scheme" where
  "intr_off s = w_sstatus (r_sstatus s AND NOT SSTATUS_SIE) s"

definition intr_get :: "'z machine_scheme \<Rightarrow> bool" where
  "intr_get s \<longleftrightarrow> r_sstatus s AND SSTATUS_SIE \<noteq> 0"

section \<open>Spinlocks (spinlock.c)\<close>

definition cpuid :: "'z machine_scheme \<Rightarrow> nat" where
  "cpuid s = r_tp s"

definition mycpu :: "'z machine_scheme \<Rightarrow> cpu" where
  "mycpu s = cpus s (cpuid s)"

definition set_mycpu :: "cpu \<Rightarrow> 'z machine_scheme \<Rightarrow> 'z machine_scheme" where
  "set_mycpu c s = s\<lparr>cpus := (cpus s)(cpuid s := c)\<rparr>"

definition holding :: "lockid \<Rightarrow> 'z machine_scheme \<Rightarrow> bool" where
  "holding L s \<longleftrightarrow> locked (locks s L) \<and> lk_cpu (locks s L) = Some (cpuid s)"

definition initlock :: "lockid \<Rightarrow> string \<Rightarrow> 'z machine_scheme \<Rightarrow> 'z machine_scheme" where
  "initlock L name s =
     s\<lparr>locks := (locks s)(L := \<lparr>locked = False, lk_name = name, lk_cpu = None\<rparr>)\<rparr>"

definition push_off :: "('z machine_scheme, unit) oper" where
  "push_off s =
     (let old = intr_get s;
          s1 = intr_off s;
          s2 = (if noff (mycpu s1) = 0 then set_mycpu ((mycpu s1)\<lparr>intena := old\<rparr>) s1 else s1)
      in Ret () (set_mycpu ((mycpu s2)\<lparr>noff := noff (mycpu s2) + 1\<rparr>) s2))"

definition pop_off :: "('z machine_scheme, unit) oper" where
  "pop_off s =
     (if intr_get s then Fault (Panic ''pop_off - interruptible'') s
      else if noff (mycpu s) < 1 then Fault (Panic ''pop_off'') s
      else
        let s1 = set_mycpu ((mycpu s)\<lparr>noff := noff (mycpu s) - 1\<rparr>) s
        in Ret () (if noff (mycpu s1) = 0 \<and> intena (mycpu s1) then intr_on s1 else s1))"

text \<open>
  The loop on \<^verbatim>\<open>__sync_lock_test_and_set\<close> leaves a held lock held, so it ends only when the
  lock was free; on a lock some other hart holds it is \<open>Spin\<close>.
\<close>

definition acquire :: "lockid \<Rightarrow> ('z machine_scheme, unit) oper" where
  "acquire L =
     andthen push_off
     (bind (gets (holding L)) (\<lambda>h.
      if h then panic ''acquire''
      else bind (gets (\<lambda>s. locked (locks s L))) (\<lambda>busy.
      if busy then Fault (Spin L)
      else modify (\<lambda>s. s\<lparr>locks := (locks s)(L := (locks s L)\<lparr>locked := True,
             lk_cpu := Some (cpuid s)\<rparr>)\<rparr>))))"

text \<open>
  Before it panics, \<^verbatim>\<open>release\<close> prints \<^verbatim>\<open>mycpu()->proc->pid\<close>, which dereferences a null
  pointer on a hart that runs no process.
\<close>

definition release :: "lockid \<Rightarrow> ('z machine_scheme, unit) oper" where
  "release L =
     bind (gets (holding L)) (\<lambda>h.
      if \<not> h then bind (gets (\<lambda>s. c_proc (mycpu s))) (\<lambda>p.
        case p of None \<Rightarrow> Fault Wild | Some _ \<Rightarrow> panic ''release'')
      else andthen
        (modify (\<lambda>s. s\<lparr>locks := (locks s)(L := (locks s L)\<lparr>locked := False, lk_cpu := None\<rparr>)\<rparr>))
        pop_off)"

section \<open>The effect of a lock operation as a state transformer\<close>

text \<open>
  \<open>acquired\<close> and \<open>released\<close> are the states after a successful acquire and release, and
  \<open>settle s\<close> is what a release leaves of \<open>s\<close> after a matching acquire: nothing but the saved
  interrupt flag of the outermost level has changed.
\<close>

definition hart_ok :: "'z machine_scheme \<Rightarrow> bool" where
  "hart_ok s \<longleftrightarrow> 0 \<le> noff (mycpu s) \<and> (0 < noff (mycpu s) \<longrightarrow> \<not> intr_get s)"

definition idle :: "lockid \<Rightarrow> 'z machine_scheme \<Rightarrow> bool" where
  "idle L s \<longleftrightarrow> \<not> locked (locks s L) \<and> lk_cpu (locks s L) = None"

definition acquired :: "lockid \<Rightarrow> 'z machine_scheme \<Rightarrow> 'z machine_scheme" where
  "acquired L s = s\<lparr>
     sstatus := (sstatus s)(tp s := r_sstatus s AND NOT SSTATUS_SIE),
     cpus := (cpus s)(tp s := (cpus s (tp s))\<lparr>
       intena := (if noff (cpus s (tp s)) = 0 then intr_get s else intena (cpus s (tp s))),
       noff := noff (cpus s (tp s)) + 1\<rparr>),
     locks := (locks s)(L := (locks s L)\<lparr>locked := True, lk_cpu := Some (tp s)\<rparr>)\<rparr>"

definition released :: "lockid \<Rightarrow> 'z machine_scheme \<Rightarrow> 'z machine_scheme" where
  "released L s = s\<lparr>
     sstatus := (if noff (cpus s (tp s)) = 1 \<and> intena (cpus s (tp s))
       then (sstatus s)(tp s := r_sstatus s OR SSTATUS_SIE) else sstatus s),
     cpus := (cpus s)(tp s := (cpus s (tp s))\<lparr>noff := noff (cpus s (tp s)) - 1\<rparr>),
     locks := (locks s)(L := (locks s L)\<lparr>locked := False, lk_cpu := None\<rparr>)\<rparr>"

definition settle :: "'z machine_scheme \<Rightarrow> 'z machine_scheme" where
  "settle s = s\<lparr>cpus := (cpus s)(tp s := (cpus s (tp s))\<lparr>
     intena := (if noff (cpus s (tp s)) = 0 then intr_get s else intena (cpus s (tp s)))\<rparr>)\<rparr>"

lemmas machine_defs =
  cpuid_def r_tp_def mycpu_def set_mycpu_def r_sstatus_def w_sstatus_def

lemma sie_cleared [simp]: "(x AND NOT SSTATUS_SIE) AND SSTATUS_SIE = 0"
  by (simp add: and.assoc)

lemma sie_set [simp]: "(x OR SSTATUS_SIE) AND SSTATUS_SIE \<noteq> 0"
proof -
  have "(x OR SSTATUS_SIE) AND SSTATUS_SIE = SSTATUS_SIE"
    by (simp add: bit_eq_iff bit_simps)
  then show ?thesis by (simp add: SSTATUS_SIE_def)
qed

lemma bit_SIE: "bit SSTATUS_SIE n \<longleftrightarrow> n = 1"
  unfolding SSTATUS_SIE_def bit_push_bit_iff by (cases n) (auto simp: bit_1_iff)

lemma sie_and: "x AND SSTATUS_SIE = (if bit x 1 then SSTATUS_SIE else 0)"
  by (rule bit_eqI) (auto simp: bit_and_iff bit_SIE)

lemma sie_bit: "x AND SSTATUS_SIE \<noteq> 0 \<longleftrightarrow> bit x 1"
  unfolding sie_and by (simp add: SSTATUS_SIE_def)

lemma sie_restore: "x AND SSTATUS_SIE \<noteq> 0 \<Longrightarrow> x AND NOT SSTATUS_SIE OR SSTATUS_SIE = x"
  unfolding sie_bit by (rule bit_eqI) (auto simp: bit_simps bit_SIE)

lemma sie_absent: "x AND SSTATUS_SIE = 0 \<Longrightarrow> x AND NOT SSTATUS_SIE = x"
  using sie_bit [of x] by (intro bit_eqI) (auto simp: bit_simps bit_SIE)

lemma acquire_free: "\<not> locked (locks s L) \<Longrightarrow> acquire L s = Ret () (acquired L s)"
  by (simp add: acquire_def acquired_def push_off_def holding_def machine_defs intr_off_def
    intr_get_def Let_def bind_def)

lemma acquire_held: "holding L s \<Longrightarrow> \<exists>t. acquire L s = Fault (Panic ''acquire'') t"
  by (simp add: acquire_def push_off_def holding_def machine_defs intr_off_def Let_def bind_def)

lemma acquire_busy:
  "locked (locks s L) \<Longrightarrow> \<not> holding L s \<Longrightarrow> \<exists>t. acquire L s = Fault (Spin L) t"
  by (simp add: acquire_def push_off_def holding_def machine_defs intr_off_def Let_def bind_def)

lemma release_not_held:
  "\<not> holding L s \<Longrightarrow>
     release L s = Fault (if c_proc (mycpu s) = None then Wild else Panic ''release'') s"
  by (simp add: release_def bind_def split: option.split)

lemma release_held:
  assumes "holding L s" "\<not> intr_get s" "1 \<le> noff (mycpu s)"
  shows "release L s = Ret () (released L s)"
  using assms
  by (simp add: release_def released_def pop_off_def holding_def machine_defs intr_on_def
    intr_get_def Let_def bind_def)

lemma released_acquired:
  assumes "hart_ok s" "idle L s"
  shows "released L (acquired L s) = settle s"
proof (cases "noff (mycpu s) = 0")
  case True
  with assms(2) show ?thesis
    by (cases "intr_get s")
      (auto simp: released_def acquired_def settle_def idle_def machine_defs intr_get_def
        sie_restore sie_absent intro!: machine.equality ext)
next
  case False
  with assms show ?thesis
    by (auto simp: released_def acquired_def settle_def idle_def hart_ok_def machine_defs
      intr_get_def sie_absent intro!: machine.equality ext)
qed

section \<open>Critical sections\<close>

text \<open>
  The pattern \<^verbatim>\<open>acquire(&lk); body; release(&lk); return r;\<close>. A body that only touches the
  component's own fields runs in \<open>acquired L s\<close> as it would in \<open>s\<close>, so a critical section
  whose lock is free behaves as its body, up to \<open>settle\<close>.
\<close>

definition critical :: "lockid \<Rightarrow> ('z machine_scheme, 'a) oper \<Rightarrow> ('z machine_scheme, 'a) oper" where
  "critical L body = andthen (acquire L) (bind body (\<lambda>r. andthen (release L) (ret r)))"

lemma machine_after_lock [simp]:
  "tp (acquired L s) = tp s" "tp (released L s) = tp s" "tp (settle s) = tp s"
  "locks (settle s) = locks s" "sstatus (settle s) = sstatus s"
  "intr_get (settle s) = intr_get s" "\<not> intr_get (acquired L s)"
  "holding L (acquired L s)" "idle K (settle s) = idle K s"
  "noff (mycpu (acquired L s)) = noff (mycpu s) + 1"
  by (simp_all add: acquired_def released_def settle_def intr_get_def holding_def idle_def
    machine_defs)

lemma c_proc_after_lock [simp]:
  "c_proc (cpus (acquired L s) h) = c_proc (cpus s h)"
  "c_proc (cpus (settle s) h) = c_proc (cpus s h)"
  by (simp_all add: acquired_def settle_def)

lemma noff_settle [simp]: "noff (cpus (settle s) h) = noff (cpus s h)"
  by (simp add: settle_def)

lemma hart_ok_settle [simp]: "hart_ok (settle s) = hart_ok s"
  by (simp add: hart_ok_def mycpu_def cpuid_def r_tp_def)

lemma hart_ok_acquired [simp]: "hart_ok s \<Longrightarrow> hart_ok (acquired L s)"
  by (simp add: hart_ok_def)

lemma idle_acquired [simp]: "idle K (acquired L s) \<longleftrightarrow> K \<noteq> L \<and> idle K s"
  by (auto simp: idle_def acquired_def)

lemma settle_settle [simp]: "settle (settle s) = settle s"
  by (simp add: settle_def intr_get_def r_sstatus_def)

lemma settle_acquired [simp]: "hart_ok s \<Longrightarrow> settle (acquired L s) = acquired L s"
  by (auto simp: settle_def acquired_def hart_ok_def machine_defs intro!: machine.equality ext)

lemma release_acquired:
  assumes "hart_ok t" "idle L t"
  shows "release L (acquired L t) = Ret () (settle t)"
proof -
  have "release L (acquired L t) = Ret () (released L (acquired L t))"
    using assms(1) by (intro release_held) (simp_all add: hart_ok_def)
  then show ?thesis
    using assms by (simp add: released_acquired)
qed

lemma critical_ret:
  assumes "idle L s" "body (acquired L s) = Ret r (acquired L t)" "hart_ok t" "idle L t"
  shows "critical L body s = Ret r (settle t)"
  using assms by (simp add: critical_def acquire_free release_acquired idle_def [of L s])

lemma critical_fault:
  assumes "idle L s" "body (acquired L s) = Fault e t"
  shows "critical L body s = Fault e t"
  using assms by (simp add: critical_def acquire_free idle_def [of L s])

section \<open>Calm states\<close>

text \<open>
  Between two operations of a kernel thread no spinlock is held, and the saved interrupt flag of
  the outermost level is up to date. In such a state a critical section has the effect of its
  body and nothing else.
\<close>

definition calm :: "'z machine_scheme \<Rightarrow> bool" where
  "calm s \<longleftrightarrow> hart_ok s \<and> (noff (mycpu s) = 0 \<longrightarrow> intena (mycpu s) = intr_get s) \<and> (\<forall>L. idle L s)"

lemma calm_of_settle: "hart_ok s \<Longrightarrow> (\<And>L. idle L s) \<Longrightarrow> calm (settle s)"
  by (simp add: calm_def mycpu_def cpuid_def r_tp_def) (simp add: settle_def)

lemma calm_hart [simp]: "calm s \<Longrightarrow> hart_ok s"
  unfolding calm_def by (rule conjunct1)

lemma calm_settle [simp]: "calm s \<Longrightarrow> settle s = s"
  unfolding calm_def settle_def
  by (auto simp: machine_defs intro!: machine.equality ext)

lemma calm_idle [simp]: "calm s \<Longrightarrow> idle L s"
  unfolding calm_def by (elim conjE) (rule spec)

lemma calm_acquire [simp]: "calm s \<Longrightarrow> acquire L s = Ret () (acquired L s)"
  using calm_idle [of s L] by (simp add: acquire_free idle_def)

lemma calm_release [simp]: "calm s \<Longrightarrow> release L (acquired L s) = Ret () s"
  by (simp add: release_acquired)

lemma calm_critical:
  assumes "calm s" "body (acquired L s) = Ret r (acquired L t)" "calm t"
  shows "critical L body s = Ret r t"
  using assms by (simp add: critical_def)

text \<open>The hart switches to another process, or to none.\<close>

definition onproc :: "nat option \<Rightarrow> 'z machine_scheme \<Rightarrow> 'z machine_scheme" where
  "onproc p s = s\<lparr>cpus := (cpus s)(tp s := (cpus s (tp s))\<lparr>c_proc := p\<rparr>)\<rparr>"

lemma onproc_simps [simp]:
  "tp (onproc p s) = tp s" "locks (onproc p s) = locks s" "sstatus (onproc p s) = sstatus s"
  "intr_get (onproc p s) = intr_get s" "mycpu (onproc p s) = (mycpu s)\<lparr>c_proc := p\<rparr>"
  "idle L (onproc p s) = idle L s" "hart_ok (onproc p s) = hart_ok s"
  "onproc p (onproc q s) = onproc p s" "calm (onproc p s) = calm s"
  by (simp_all add: onproc_def intr_get_def machine_defs idle_def hart_ok_def calm_def)

lemma onproc_lock [simp]:
  "set_mycpu ((mycpu (acquired L s))\<lparr>c_proc := p\<rparr>) (acquired L s) = acquired L (onproc p s)"
  by (auto simp: onproc_def acquired_def machine_defs intr_get_def intro!: machine.equality)

lemma set_mycpu_proc: "set_mycpu ((mycpu s)\<lparr>c_proc := p\<rparr>) s = onproc p s"
  by (simp add: onproc_def machine_defs)

lemma onproc_same: "c_proc (mycpu s) = p \<Longrightarrow> onproc p s = s"
  by (auto simp: onproc_def machine_defs intro!: machine.equality ext)

lemma intena_acquired:
  "intena (mycpu (acquired L s)) = (if noff (mycpu s) = 0 then intr_get s else intena (mycpu s))"
  by (simp add: acquired_def machine_defs)

lemma set_intena_same: "intena (mycpu s) = i \<Longrightarrow> set_mycpu ((mycpu s)\<lparr>intena := i\<rparr>) s = s"
  by (auto simp: machine_defs intro!: machine.equality ext)

lemma set_mycpu_mycpu [simp]: "set_mycpu (mycpu s) s = s"
  by (simp add: machine_defs)

end
