(* ===== verification/Spinlock.thy ===== *)
theory Spinlock
  imports Machine
begin

text \<open>
  Properties of \<^verbatim>\<open>kernel/lib/spinlock.c\<close>: nesting of \<^verbatim>\<open>push_off\<close>/\<^verbatim>\<open>pop_off\<close>, the
  acquire/release round trip, and mutual exclusion when several harts run the
  instructions of \<^verbatim>\<open>acquire\<close> and \<^verbatim>\<open>release\<close> interleaved.
\<close>

section \<open>Nested interrupt disabling\<close>

primrec repeatM :: "nat \<Rightarrow> ('s, unit) oper \<Rightarrow> ('s, unit) oper" where
  "repeatM 0 m = ret ()"
| "repeatM (Suc n) m = andthen m (repeatM n m)"

lemma repeatM_snoc: "repeatM (Suc n) m = andthen (repeatM n m) m"
proof (induction n)
  case 0
  show ?case by (rule ext) (simp add: bind_def split: outcome.splits)
next
  case (Suc n)
  have "repeatM (Suc (Suc n)) m = andthen m (andthen (repeatM n m) m)"
    using Suc.IH by simp
  then show ?case by (simp add: bind_assoc)
qed

lemma push_pop:
  assumes "hart_ok s"
  shows "\<exists>t. push_off s = Ret () t \<and> hart_ok t \<and> \<not> intr_get t \<and> pop_off t = Ret () (settle s)"
  using assms
  by (auto simp: push_off_def pop_off_def hart_ok_def settle_def machine_defs intr_on_def
    intr_off_def intr_get_def sie_restore sie_absent Let_def fun_upd_def
    intro!: machine.equality ext)

lemma push_settle: "push_off (settle s) = push_off s"
  by (auto simp: push_off_def settle_def machine_defs intr_off_def intr_get_def Let_def
    intro!: machine.equality ext)

lemma repeatM_push_pop:
  assumes "hart_ok s"
  shows "\<exists>t. repeatM n push_off s = Ret () t \<and> hart_ok t \<and> (0 < n \<longrightarrow> \<not> intr_get t)
    \<and> repeatM n pop_off t = Ret () (if n = 0 then s else settle s)"
  using assms
proof (induction n arbitrary: s)
  case 0
  then show ?case by simp
next
  case (Suc n)
  obtain t where t: "push_off s = Ret () t" "hart_ok t" "\<not> intr_get t"
      "pop_off t = Ret () (settle s)"
    using push_pop [OF Suc.prems] by blast
  obtain u where u: "repeatM n push_off t = Ret () u" "hart_ok u" "0 < n \<longrightarrow> \<not> intr_get u"
      "repeatM n pop_off u = Ret () (if n = 0 then t else settle t)"
    using Suc.IH [OF t(2)] by blast
  have "settle t = t"
    using t(1) Suc.prems
    by (auto simp: push_off_def settle_def hart_ok_def machine_defs intr_off_def Let_def
      intro!: machine.equality ext)
  with u(4) have n_pops: "repeatM n pop_off u = Ret () t"
    by (simp split: if_splits)
  have "repeatM (Suc n) push_off s = Ret () u"
    using t(1) u(1) by simp
  moreover have "repeatM (Suc n) pop_off u = Ret () (settle s)"
    unfolding repeatM_snoc using n_pops t(4) by simp
  moreover have "\<not> intr_get u"
    using t(3) u(1,3) by (cases n) simp_all
  ultimately show ?case
    using u(2) by auto
qed


text \<open>A hart with zero-initialised kernel data, interrupts enabled.\<close>

definition zero_spinlock :: spinlock where
  "zero_spinlock = \<lparr>locked = False, lk_name = [], lk_cpu = None\<rparr>"

definition zero_machine :: machine where
  "zero_machine = \<lparr>tp = 0, sstatus = (\<lambda>_. SSTATUS_SIE),
     cpus = (\<lambda>_. \<lparr>c_proc = None, noff = 0, intena = False\<rparr>), locks = (\<lambda>_. zero_spinlock)\<rparr>"

lemma zero_machine_ok: "hart_ok zero_machine" "idle L zero_machine" "intr_get zero_machine"
  by (simp_all add: zero_machine_def zero_spinlock_def hart_ok_def idle_def intr_get_def
    machine_defs SSTATUS_SIE_def)


section \<open>Acquire and release\<close>

text \<open>
  C2. Taking a free lock succeeds: the lock is then held by this hart with interrupts
  off, taking it again panics, releasing it restores the lock and the interrupt
  state, and a second release panics (or, on a hart that runs no process, faults on the null
  pointer its message dereferences).
\<close>

theorem acquire_release_contract:
  assumes "hart_ok s" "idle L s"
  shows "\<exists>t u. acquire L s = Ret () t \<and> holding L t \<and> \<not> intr_get t
    \<and> fault_of (acquire L t) = Some (Panic ''acquire'')
    \<and> release L t = Ret () u \<and> idle L u \<and> locks u = locks s \<and> sstatus u = sstatus s
    \<and> fault_of (release L u) = Some (if c_proc (mycpu s) = None then Wild else Panic ''release'')"
proof -
  have "acquire L s = Ret () (acquired L s)"
    using assms(2) by (simp add: acquire_free idle_def)
  moreover have "fault_of (acquire L (acquired L s)) = Some (Panic ''acquire'')"
    using acquire_held [of L "acquired L s"] by auto
  moreover have "release L (acquired L s) = Ret () (settle s)"
    using assms by (rule release_acquired)
  moreover have "fault_of (release L (settle s)) =
      Some (if c_proc (mycpu s) = None then Wild else Panic ''release'')"
    using assms(2) by (simp add: release_not_held holding_def idle_def machine_defs)
  ultimately show ?thesis
    using assms(2) by auto
qed

theorem acquire_release_contract_witness:
  "hart_ok zero_machine \<and> idle LKmem zero_machine \<and>
   (\<exists>t u. acquire LKmem zero_machine = Ret () t \<and> holding LKmem t \<and> \<not> intr_get t
    \<and> fault_of (acquire LKmem t) = Some (Panic ''acquire'')
    \<and> release LKmem t = Ret () u \<and> idle LKmem u \<and> locks u = locks zero_machine
    \<and> sstatus u = sstatus zero_machine
    \<and> fault_of (release LKmem u)
      = Some (if c_proc (mycpu zero_machine) = None then Wild else Panic ''release''))"
  by (intro conjI zero_machine_ok acquire_release_contract)

section \<open>Interleaved harts\<close>

text \<open>
  One lock and any number of harts, each at some instruction of \<^verbatim>\<open>acquire\<close> or
  \<^verbatim>\<open>release\<close>. \<open>Got\<close> is the point after the successful test-and-set and before
  \<^verbatim>\<open>lk->cpu = mycpu()\<close>; \<open>Cleared\<close> is the point after \<^verbatim>\<open>lk->cpu = 0\<close> and before
  \<^verbatim>\<open>__sync_lock_release\<close>. The checks of \<^verbatim>\<open>holding\<close> read \<open>locked\<close> and \<open>cpu\<close> as the other
  harts left them; a check that fails takes the hart to \<open>Panicked\<close>.
\<close>

datatype hart_pc = Outside | Spinning | Got | Inside | Cleared | Panicked

record lock_sys =
  pcs :: "nat \<Rightarrow> hart_pc"
  lk :: spinlock

definition holding_by :: "nat \<Rightarrow> spinlock \<Rightarrow> bool" where
  "holding_by h l \<longleftrightarrow> locked l \<and> lk_cpu l = Some h"

inductive lock_step :: "lock_sys \<Rightarrow> lock_sys \<Rightarrow> bool" where
  enter: "pcs s h = Outside \<Longrightarrow> \<not> holding_by h (lk s) \<Longrightarrow>
    lock_step s (s\<lparr>pcs := (pcs s)(h := Spinning)\<rparr>)"
| enter_panic: "pcs s h = Outside \<Longrightarrow> holding_by h (lk s) \<Longrightarrow>
    lock_step s (s\<lparr>pcs := (pcs s)(h := Panicked)\<rparr>)"
| tas_fail: "pcs s h = Spinning \<Longrightarrow> locked (lk s) \<Longrightarrow> lock_step s s"
| tas_ok: "pcs s h = Spinning \<Longrightarrow> \<not> locked (lk s) \<Longrightarrow>
    lock_step s (s\<lparr>pcs := (pcs s)(h := Got), lk := (lk s)\<lparr>locked := True\<rparr>\<rparr>)"
| set_cpu: "pcs s h = Got \<Longrightarrow>
    lock_step s (s\<lparr>pcs := (pcs s)(h := Inside), lk := (lk s)\<lparr>lk_cpu := Some h\<rparr>\<rparr>)"
| leave: "pcs s h = Inside \<Longrightarrow> holding_by h (lk s) \<Longrightarrow>
    lock_step s (s\<lparr>pcs := (pcs s)(h := Cleared), lk := (lk s)\<lparr>lk_cpu := None\<rparr>\<rparr>)"
| leave_panic: "pcs s h = Inside \<Longrightarrow> \<not> holding_by h (lk s) \<Longrightarrow>
    lock_step s (s\<lparr>pcs := (pcs s)(h := Panicked)\<rparr>)"
| unlock: "pcs s h = Cleared \<Longrightarrow>
    lock_step s (s\<lparr>pcs := (pcs s)(h := Outside), lk := (lk s)\<lparr>locked := False\<rparr>\<rparr>)"

definition lock_init :: "string \<Rightarrow> lock_sys" where
  "lock_init name = \<lparr>pcs = (\<lambda>_. Outside), lk = \<lparr>locked = False, lk_name = name, lk_cpu = None\<rparr>\<rparr>"

inductive lock_reach :: "string \<Rightarrow> lock_sys \<Rightarrow> bool" for name where
  start: "lock_reach name (lock_init name)"
| step: "lock_reach name s \<Longrightarrow> lock_step s t \<Longrightarrow> lock_reach name t"

definition owning :: "hart_pc \<Rightarrow> bool" where
  "owning p \<longleftrightarrow> p = Got \<or> p = Inside \<or> p = Cleared"

text \<open>The lock word says whether some hart owns the lock, and the owner is unique.\<close>

definition lock_inv :: "(nat \<Rightarrow> hart_pc) \<Rightarrow> spinlock \<Rightarrow> bool" where
  "lock_inv P l \<longleftrightarrow>
     (\<forall>h. P h \<noteq> Panicked) \<and>
     (\<forall>g h. owning (P g) \<longrightarrow> owning (P h) \<longrightarrow> g = h) \<and>
     (\<forall>h. owning (P h) \<longrightarrow> locked l) \<and>
     (\<forall>h. lk_cpu l = Some h \<longleftrightarrow> P h = Inside)"

lemma lock_invD:
  assumes "lock_inv P l"
  shows "P h \<noteq> Panicked"
    and "owning (P g) \<Longrightarrow> owning (P h) \<Longrightarrow> g = h"
    and "owning (P h) \<Longrightarrow> locked l"
    and "lk_cpu l = Some h \<longleftrightarrow> P h = Inside"
  using assms unfolding lock_inv_def by blast+

lemma owning_simps [simp]:
  "\<not> owning Outside" "\<not> owning Spinning" "owning Got" "owning Inside" "owning Cleared"
  "\<not> owning Panicked"
  by (simp_all add: owning_def)

text \<open>A step that changes only hart \<open>h\<close>: what the new state must satisfy.\<close>

lemma lock_inv_update:
  assumes inv: "lock_inv P k"
    and "p \<noteq> Panicked"
    and "owning p \<or> \<not> locked l \<Longrightarrow> \<forall>g. g \<noteq> h \<longrightarrow> \<not> owning (P g)"
    and "owning p \<Longrightarrow> locked l"
    and "\<And>g. lk_cpu l = Some g \<longleftrightarrow> (if g = h then p = Inside else P g = Inside)"
  shows "lock_inv (P(h := p)) l"
proof -
  have "owning ((P(h := p)) a) \<Longrightarrow> owning ((P(h := p)) b) \<Longrightarrow> a = b" for a b
    using assms(3) lock_invD(2) [OF inv, of a b] by (simp split: if_splits)
  moreover have "owning ((P(h := p)) a) \<Longrightarrow> locked l" for a
    using assms(3,4) by (cases "a = h") auto
  moreover have "(P(h := p)) a \<noteq> Panicked" for a
    using assms(2) lock_invD(1) [OF inv] by simp
  moreover have "lk_cpu l = Some a \<longleftrightarrow> (P(h := p)) a = Inside" for a
    using assms(5) [of a] by simp
  ultimately show ?thesis
    unfolding lock_inv_def by blast
qed

lemma lock_inv_others:
  assumes "lock_inv P l" "owning (P h)" "g \<noteq> h"
  shows "\<not> owning (P g)" "P g \<noteq> Inside"
proof -
  show "\<not> owning (P g)"
    using assms lock_invD(2) [OF assms(1), of g h] by blast
  then show "P g \<noteq> Inside"
    by auto
qed

lemma lock_inv_step: "lock_step s t \<Longrightarrow> lock_inv (pcs s) (lk s) \<Longrightarrow> lock_inv (pcs t) (lk t)"
proof (induction rule: lock_step.induct)
  case (enter s h)
  have "lock_inv ((pcs s)(h := Spinning)) (lk s)"
    using enter.prems
  proof (rule lock_inv_update)
    show "lk_cpu (lk s) = Some g \<longleftrightarrow> (if g = h then Spinning = Inside else pcs s g = Inside)" for g
      using lock_invD(4) [OF enter.prems, of g] enter.hyps by auto
    show "\<forall>g. g \<noteq> h \<longrightarrow> \<not> owning (pcs s g)" if "owning Spinning \<or> \<not> locked (lk s)"
      using that lock_invD(3) [OF enter.prems] by auto
  qed simp_all
  then show ?case by (simp add: fun_upd_def)
next
  case (enter_panic s h)
  then show ?case using lock_invD(4) [OF enter_panic.prems, of h] by (simp add: holding_by_def)
next
  case (tas_fail s h)
  then show ?case by simp
next
  case (tas_ok s h)
  then have "\<not> owning (pcs s g)" for g
    using lock_invD(3) by blast
  moreover have "pcs s g \<noteq> Inside" for g
    using calculation [of g] by auto
  ultimately have "lock_inv ((pcs s)(h := Got)) ((lk s)\<lparr>locked := True\<rparr>)"
    using lock_invD(4) [OF tas_ok.prems] by (intro lock_inv_update [OF tas_ok.prems]) auto
  then show ?case by (simp add: fun_upd_def)
next
  case (set_cpu s h)
  then have "lock_inv ((pcs s)(h := Inside)) ((lk s)\<lparr>lk_cpu := Some h\<rparr>)"
    using lock_inv_others [OF set_cpu.prems, of h] lock_invD(3) [OF set_cpu.prems, of h]
    by (intro lock_inv_update [OF set_cpu.prems]) auto
  then show ?case by (simp add: fun_upd_def)
next
  case (leave s h)
  then have "lock_inv ((pcs s)(h := Cleared)) ((lk s)\<lparr>lk_cpu := None\<rparr>)"
    using lock_inv_others [OF leave.prems, of h] lock_invD(3) [OF leave.prems, of h]
    by (intro lock_inv_update [OF leave.prems]) auto
  then show ?case by (simp add: fun_upd_def)
next
  case (leave_panic s h)
  then show ?case
    using lock_invD(3,4) [OF leave_panic.prems, of h] by (simp add: holding_by_def)
next
  case (unlock s h)
  moreover from this have "lk_cpu (lk s) \<noteq> Some g" for g
    using lock_invD(4) [OF unlock.prems, of g] lock_inv_others(2) [OF unlock.prems, of h g]
    by (cases "g = h") auto
  ultimately have "lock_inv ((pcs s)(h := Outside)) ((lk s)\<lparr>locked := False\<rparr>)"
    using lock_inv_others [OF unlock.prems, of h]
    by (intro lock_inv_update [OF unlock.prems]) auto
  then show ?case by (simp add: fun_upd_def)
qed

lemma lock_inv_reach: "lock_reach name s \<Longrightarrow> lock_inv (pcs s) (lk s)"
proof (induction rule: lock_reach.induct)
  case start
  show ?case by (simp add: lock_inv_def lock_init_def)
next
  case (step s t)
  then show ?case by (blast intro: lock_inv_step)
qed

text \<open>
  C1. Mutual exclusion of spinlocks: whatever the interleaving of the harts, two harts are
  never both between the successful test-and-set and the final store of
  \<^verbatim>\<open>release\<close>; \<^verbatim>\<open>lk->cpu\<close> names exactly the hart inside, and no hart ever fails the
  \<^verbatim>\<open>holding\<close> checks.
\<close>

theorem spinlock_mutual_exclusion:
  assumes "lock_reach name s"
  shows "(owning (pcs s g) \<and> owning (pcs s h) \<longrightarrow> g = h)
    \<and> (lk_cpu (lk s) = Some h \<longleftrightarrow> pcs s h = Inside) \<and> pcs s h \<noteq> Panicked"
  using lock_invD [OF lock_inv_reach [OF assms]] by blast

text \<open>Two harts contend: hart 1 gets inside while hart 2 spins.\<close>

lemma lock_reach_contended:
  "lock_reach ''kmem'' (lock_init ''kmem''\<lparr>pcs := (pcs (lock_init ''kmem''))(1 := Spinning, 2 := Spinning,
     1 := Got, 1 := Inside),
     lk := (lk (lock_init ''kmem''))\<lparr>locked := True, lk_cpu := Some 1\<rparr>\<rparr>)"
proof -
  let ?s0 = "lock_init ''kmem''"
  let ?s1 = "?s0\<lparr>pcs := (pcs ?s0)(1 := Spinning)\<rparr>"
  let ?s2 = "?s1\<lparr>pcs := (pcs ?s1)(2 := Spinning)\<rparr>"
  let ?s3 = "?s2\<lparr>pcs := (pcs ?s2)(1 := Got), lk := (lk ?s2)\<lparr>locked := True\<rparr>\<rparr>"
  let ?s4 = "?s3\<lparr>pcs := (pcs ?s3)(1 := Inside), lk := (lk ?s3)\<lparr>lk_cpu := Some 1\<rparr>\<rparr>"
  have "lock_step ?s0 ?s1"
    by (rule lock_step.enter) (simp_all add: lock_init_def holding_by_def)
  moreover have "lock_step ?s1 ?s2"
    by (rule lock_step.enter) (simp_all add: lock_init_def holding_by_def)
  moreover have "lock_step ?s2 ?s3"
    by (rule lock_step.tas_ok) (simp_all add: lock_init_def)
  moreover have "lock_step ?s3 ?s4"
    by (rule lock_step.set_cpu) simp
  ultimately have "lock_reach ''kmem'' ?s4"
    by (meson lock_reach.start lock_reach.step)
  then show ?thesis by simp
qed

theorem spinlock_mutual_exclusion_witness:
  "\<exists>s. lock_reach ''kmem'' s \<and> pcs s 1 = Inside \<and> pcs s 2 = Spinning \<and> \<not> owning (pcs s 2)
     \<and> lk_cpu (lk s) = Some 1"
proof -
  let ?s = "lock_init ''kmem''\<lparr>pcs := (pcs (lock_init ''kmem''))(1 := Spinning, 2 := Spinning,
     1 := Got, 1 := Inside), lk := (lk (lock_init ''kmem''))\<lparr>locked := True, lk_cpu := Some 1\<rparr>\<rparr>"
  have "owning (pcs ?s 1) \<and> owning (pcs ?s 2) \<longrightarrow> (1::nat) = 2"
    using spinlock_mutual_exclusion [OF lock_reach_contended, of 1 2] by blast
  then have "\<not> owning (pcs ?s 2)"
    by (auto simp: owning_def)
  then show ?thesis
    using lock_reach_contended by (intro exI [of _ ?s]) (simp add: owning_def)
qed

end
