(* ===== verification/Memory.thy ===== *)
theory Memory
  imports Prelude
begin

text \<open>
  Byte-addressed physical memory, the 8-byte loads and stores the kernel uses for list
  links and page-table entries, and the memory functions of
  \<^verbatim>\<open>kernel/lib/string.c\<close> that work on memory: \<^verbatim>\<open>memset\<close>, \<^verbatim>\<open>memmove\<close> and \<^verbatim>\<open>memcpy\<close>.
  Each loop of the source is a recursive function; a closed form is proved for it.
\<close>

type_synonym memory = "uint64 \<Rightarrow> byte"

section \<open>Regions\<close>

text \<open>\<open>within a n x\<close>: the address \<open>x\<close> is one of the \<open>n\<close> bytes from \<open>a\<close> on.\<close>

definition within :: "uint64 \<Rightarrow> nat \<Rightarrow> uint64 \<Rightarrow> bool" where
  "within a n x \<longleftrightarrow> unat (x - a) < n"

lemma within_nat:
  assumes "unat a + n \<le> 2 ^ 64"
  shows "within a n x \<longleftrightarrow> unat a \<le> unat x \<and> unat x < unat a + n"
  using assms unsigned_less [where ?'a = nat, of x] by (auto simp: within_def unat_sub_if')

lemma within_offset:
  assumes "i < n" "n \<le> 2 ^ 64"
  shows "within a n (a + of_nat i)"
  using assms by (simp add: within_def unat_of_nat)

lemma within_add_iff:
  assumes "n \<le> 2 ^ 64"
  shows "within a n x \<longleftrightarrow> (\<exists>i < n. x = a + of_nat i)"
proof
  assume "within a n x"
  moreover have "x = a + of_nat (unat (x - a))"
    by simp
  ultimately show "\<exists>i < n. x = a + of_nat i"
    unfolding within_def by blast
next
  assume "\<exists>i < n. x = a + of_nat i"
  with assms show "within a n x"
    by (auto intro: within_offset)
qed

section \<open>Aligned addresses\<close>

text \<open>An address aligned to a power of two, and the aligned cell an address lies in.\<close>

lemma aligned_top:
  fixes a :: uint64
  assumes "unat a mod n = 0" "0 < n" "n dvd 2 ^ 64"
  shows "unat a + n \<le> 2 ^ 64"
proof -
  obtain k where k: "unat a = n * k"
    using assms(1) by (auto simp: mod_eq_0_iff_dvd)
  obtain l where l: "(2::nat) ^ 64 = n * l"
    using assms(3) by (rule dvdE)
  have "n * k < n * l"
    using unsigned_less [where ?'a = nat, of a] k l by simp
  then have "k < l"
    by simp
  then have "n * Suc k \<le> n * l"
    by (intro mult_le_mono2) simp
  with k l show ?thesis by simp
qed

lemma within_aligned:
  assumes "unat a mod n = 0" "0 < n" "n dvd 2 ^ 64"
  shows "within a n x \<longleftrightarrow> unat x div n = unat a div n"
proof -
  obtain k where k: "unat a = n * k"
    using assms(1) by (auto simp: mod_eq_0_iff_dvd)
  have "within a n x \<longleftrightarrow> n * k \<le> unat x \<and> unat x < n * k + n"
    using aligned_top [OF assms] k by (simp add: within_nat)
  also have "\<dots> \<longleftrightarrow> unat x div n = k"
    using assms(2) dividend_less_times_div [of n "unat x"]
    by (auto simp: div_nat_eqI mult.commute)
  finally show ?thesis
    using k assms(2) by simp
qed

section \<open>Loads and stores of 8 bytes\<close>

definition load64 :: "memory \<Rightarrow> uint64 \<Rightarrow> uint64" where
  "load64 m a =
     ucast (m a) OR push_bit 8 (ucast (m (a + 1))) OR push_bit 16 (ucast (m (a + 2)))
     OR push_bit 24 (ucast (m (a + 3))) OR push_bit 32 (ucast (m (a + 4)))
     OR push_bit 40 (ucast (m (a + 5))) OR push_bit 48 (ucast (m (a + 6)))
     OR push_bit 56 (ucast (m (a + 7)))"

definition store64 :: "memory \<Rightarrow> uint64 \<Rightarrow> uint64 \<Rightarrow> memory" where
  "store64 m a v = m(a := ucast v, a + 1 := ucast (drop_bit 8 v), a + 2 := ucast (drop_bit 16 v),
     a + 3 := ucast (drop_bit 24 v), a + 4 := ucast (drop_bit 32 v),
     a + 5 := ucast (drop_bit 40 v), a + 6 := ucast (drop_bit 48 v),
     a + 7 := ucast (drop_bit 56 v))"

lemma bit_byte_of:
  fixes v :: uint64
  shows "bit (push_bit k (ucast (ucast (drop_bit k v) :: byte)) :: uint64) n
    \<longleftrightarrow> n < 64 \<and> k \<le> n \<and> n < k + 8 \<and> bit v n"
  by (auto simp: bit_push_bit_iff bit_ucast_iff bit_drop_bit_eq)

lemma bytes_of_word64:
  fixes v :: uint64
  shows "ucast (ucast v :: byte) OR push_bit 8 (ucast (ucast (drop_bit 8 v) :: byte))
     OR push_bit 16 (ucast (ucast (drop_bit 16 v) :: byte))
     OR push_bit 24 (ucast (ucast (drop_bit 24 v) :: byte))
     OR push_bit 32 (ucast (ucast (drop_bit 32 v) :: byte))
     OR push_bit 40 (ucast (ucast (drop_bit 40 v) :: byte))
     OR push_bit 48 (ucast (ucast (drop_bit 48 v) :: byte))
     OR push_bit 56 (ucast (ucast (drop_bit 56 v) :: byte)) = v"
    (is "?l = v")
proof (rule bit_eqI)
  fix n assume "possible_bit TYPE(uint64) n"
  then have n: "n < 64" by simp
  have "bit ?l n \<longleftrightarrow> bit v n \<and> (n < 8 \<or> 8 \<le> n \<and> n < 16 \<or> 16 \<le> n \<and> n < 24 \<or> 24 \<le> n \<and> n < 32
      \<or> 32 \<le> n \<and> n < 40 \<or> 40 \<le> n \<and> n < 48 \<or> 48 \<le> n \<and> n < 56 \<or> 56 \<le> n \<and> n < 64)"
    using n by (cases "bit v n")
      (simp_all add: bit_or_iff bit_byte_of bit_byte_of [of 0 v, simplified])
  also have "\<dots> \<longleftrightarrow> bit v n"
    using n by linarith
  finally show "bit ?l n \<longleftrightarrow> bit v n" .
qed

lemma load_store_same [simp]: "load64 (store64 m a v) a = v"
  using bytes_of_word64 [of v] by (simp add: load64_def store64_def)

lemma store64_other:
  assumes "\<not> within a 8 x"
  shows "store64 m a v x = m x"
proof -
  have "x \<noteq> a + of_nat i" if "i < 8" for i
    using assms that within_offset [of i 8 a] by auto
  from this [of 0] this [of 1] this [of 2] this [of 3] this [of 4] this [of 5] this [of 6]
    this [of 7] show ?thesis
    by (simp add: store64_def)
qed

lemma load64_cong:
  assumes "\<And>x. within a 8 x \<Longrightarrow> m x = m' x"
  shows "load64 m a = load64 m' a"
proof -
  have "m (a + of_nat i) = m' (a + of_nat i)" if "i < 8" for i
    by (rule assms) (use that in \<open>simp add: within_offset\<close>)
  from this [of 0] this [of 1] this [of 2] this [of 3] this [of 4] this [of 5] this [of 6]
    this [of 7] show ?thesis
    by (simp add: load64_def)
qed

lemma load_store_other:
  assumes "unat a mod 8 = 0" "unat b mod 8 = 0" "a \<noteq> b"
  shows "load64 (store64 m a v) b = load64 m b"
proof (rule load64_cong)
  fix x assume x: "within b 8 x"
  have "unat a div 8 \<noteq> unat b div 8"
    using assms by (metis mod_div_decomp word_unat_eq_iff)
  with x assms(1,2) have "\<not> within a 8 x"
    by (simp add: within_aligned)
  then show "store64 m a v x = m x"
    by (rule store64_other)
qed

section \<open>memset, memmove, memcpy (string.c)\<close>

function memset_loop :: "memory \<Rightarrow> uint64 \<Rightarrow> byte \<Rightarrow> nat \<Rightarrow> nat \<Rightarrow> memory" where
  "memset_loop m dst c i n =
     (if i < n then memset_loop (m(dst + of_nat i := c)) dst c (Suc i) n else m)"
  by pat_completeness auto
termination
  by (relation "measure (\<lambda>(m, dst, c, i, n). n - i)") auto

declare memset_loop.simps [simp del]

definition memset :: "memory \<Rightarrow> uint64 \<Rightarrow> byte \<Rightarrow> uint \<Rightarrow> memory" where
  "memset m dst c n = memset_loop m dst c 0 (unat n)"

primrec copy_backward :: "memory \<Rightarrow> uint64 \<Rightarrow> uint64 \<Rightarrow> nat \<Rightarrow> memory" where
  "copy_backward m d s 0 = m"
| "copy_backward m d s (Suc n) = copy_backward (m(d - 1 := m (s - 1))) (d - 1) (s - 1) n"

primrec copy_forward :: "memory \<Rightarrow> uint64 \<Rightarrow> uint64 \<Rightarrow> nat \<Rightarrow> memory" where
  "copy_forward m d s 0 = m"
| "copy_forward m d s (Suc n) = copy_forward (m(d := m s)) (d + 1) (s + 1) n"

definition memmove :: "memory \<Rightarrow> uint64 \<Rightarrow> uint64 \<Rightarrow> uint \<Rightarrow> memory" where
  "memmove m dst src n =
     (if n = 0 then m
      else if src < dst \<and> src + ucast n > dst
      then copy_backward m (dst + ucast n) (src + ucast n) (unat n)
      else copy_forward m dst src (unat n))"

definition memcpy :: "memory \<Rightarrow> uint64 \<Rightarrow> uint64 \<Rightarrow> uint \<Rightarrow> memory" where
  "memcpy m dst src n = memmove m dst src n"

lemma memset_loop_closed:
  assumes "n \<le> 2 ^ 64"
  shows "memset_loop m dst c i n =
    (\<lambda>x. if i \<le> unat (x - dst) \<and> unat (x - dst) < n then c else m x)"
  using assms
proof (induction m dst c i n rule: memset_loop.induct)
  case (1 m dst c i n)
  show ?case
  proof (cases "i < n")
    case True
    have IH: "memset_loop (m(dst + of_nat i := c)) dst c (Suc i) n =
      (\<lambda>x. if Suc i \<le> unat (x - dst) \<and> unat (x - dst) < n then c else (m(dst + of_nat i := c)) x)"
      by (rule "1.IH") (use True "1.prems" in simp_all)
    have idx: "unat (x - dst) = i \<longleftrightarrow> x = dst + of_nat i" for x
    proof
      assume "unat (x - dst) = i"
      then have "of_nat (unat (x - dst)) = (of_nat i :: uint64)" by (rule arg_cong)
      then have "x - dst = of_nat i" by simp
      then show "x = dst + of_nat i" by (simp add: diff_eq_eq add.commute)
    qed (use True "1.prems" in \<open>simp add: unat_of_nat\<close>)
    have "unat (of_nat i :: uint64) = i"
      using True "1.prems" by (simp add: unat_of_nat)
    moreover have "i \<le> k \<longleftrightarrow> k = i \<or> Suc i \<le> k" for k
      by auto
    ultimately show ?thesis
      using IH True idx
      by (subst memset_loop.simps) (auto simp: fun_eq_iff)
  qed (auto simp: memset_loop.simps fun_eq_iff)
qed

lemma memset_closed:
  "memset m dst c n = (\<lambda>x. if within dst (unat n) x then c else m x)"
proof -
  have "unat n \<le> 2 ^ 64"
    using unsigned_less [where ?'a = nat, of n] by simp
  then show ?thesis
    by (simp add: memset_def memset_loop_closed within_def)
qed

lemma within_Suc:
  assumes "n < 2 ^ 64"
  shows "within d (Suc n) x \<longleftrightarrow> x = d \<or> within (d + 1) n x"
proof (cases "x = d")
  case False
  have "x - d \<noteq> 0"
    using False by simp
  then have "unat (x - d - 1) = unat (x - d) - 1" "0 < unat (x - d)"
    using unat_minus_one [of "x - d"] by (simp_all add: unat_gt_0)
  then have "unat (x - (d + 1)) = unat (x - d) - 1" "0 < unat (x - d)"
    by (simp_all only: diff_diff_eq)
  with False show ?thesis
    by (auto simp: within_def)
qed (simp add: within_def)

lemma within_succ_self: "n < 2 ^ 64 \<Longrightarrow> \<not> within (d + 1) n d"
  by (simp add: within_def unsigned_minus_1_eq_mask mask_eq_exp_minus_1)

text \<open>Copying upwards is right unless the destination starts inside the source.\<close>

lemma copy_forward_closed:
  assumes "n < 2 ^ 64" "\<And>k. 0 < k \<Longrightarrow> k < n \<Longrightarrow> s + of_nat k \<noteq> d"
  shows "copy_forward m d s n = (\<lambda>x. if within d n x then m (s + (x - d)) else m x)"
  using assms
proof (induction n arbitrary: m d s)
  case 0
  then show ?case by (simp add: within_def)
next
  case (Suc n)
  let ?m = "m(d := m s)"
  have IH: "copy_forward ?m (d + 1) (s + 1) n =
    (\<lambda>x. if within (d + 1) n x then ?m (s + 1 + (x - (d + 1))) else ?m x)"
  proof (rule Suc.IH)
    show "s + 1 + of_nat k \<noteq> d + 1" if "0 < k" "k < n" for k
      using Suc.prems(2) [of k] that by (simp add: algebra_simps)
  qed (use Suc.prems in simp)
  have "s + (x - d) \<noteq> d" if w: "within (d + 1) n x" for x
  proof -
    obtain i where i: "i < n" "x = d + 1 + of_nat i"
      using w within_add_iff [of n] Suc.prems(1) by auto
    then have "s + (x - d) = s + of_nat (Suc i)"
      by (simp add: algebra_simps)
    with Suc.prems(2) [of "Suc i"] i(1) show ?thesis by simp
  qed
  then show ?case
    using IH Suc.prems(1) within_succ_self [of n d]
    by (auto simp: fun_eq_iff within_Suc)
qed

text \<open>Copying downwards is right unless the source starts inside the destination.\<close>

lemma copy_backward_closed:
  assumes "n < 2 ^ 64" "\<And>k. 0 < k \<Longrightarrow> k < n \<Longrightarrow> s - of_nat k \<noteq> d"
  shows "copy_backward m d s n =
    (\<lambda>x. if within (d - of_nat n) n x then m (s - (d - x)) else m x)"
  using assms
proof (induction n arbitrary: m d s)
  case 0
  then show ?case by (simp add: within_def)
next
  case (Suc n)
  let ?m = "m(d - 1 := m (s - 1))"
  have IH: "copy_backward ?m (d - 1) (s - 1) n =
    (\<lambda>x. if within (d - 1 - of_nat n) n x then ?m (s - 1 - (d - 1 - x)) else ?m x)"
  proof (rule Suc.IH)
    show "s - 1 - of_nat k \<noteq> d - 1" if "0 < k" "k < n" for k
      using Suc.prems(2) [of k] that by (simp add: algebra_simps)
  qed (use Suc.prems in simp)
  have split: "within (d - of_nat (Suc n)) (Suc n) x \<longleftrightarrow>
      x = d - 1 \<or> within (d - 1 - of_nat n) n x" for x
  proof -
    have n: "unat (of_nat n :: uint64) = n"
      using Suc.prems(1) by (simp add: unat_of_nat)
    have eq: "x - (d - of_nat (Suc n)) = of_nat n \<longleftrightarrow> x = d - 1"
      by (auto simp: algebra_simps)
    have "unat (x - (d - of_nat (Suc n))) < Suc n \<longleftrightarrow>
        unat (x - (d - of_nat (Suc n))) = unat (of_nat n :: uint64)
        \<or> unat (x - (d - of_nat (Suc n))) < n"
      unfolding n by auto
    then show ?thesis
      unfolding within_def word_unat_eq_iff [symmetric] eq by (simp add: algebra_simps)
  qed
  have "s - (d - x) \<noteq> d - 1" if w: "within (d - 1 - of_nat n) n x" for x
  proof -
    obtain i where i: "i < n" "x = d - 1 - of_nat n + of_nat i"
      using w within_add_iff [of n] Suc.prems(1) by auto
    then have "s - (d - x) = s - of_nat (n - i) - 1"
      by (simp add: algebra_simps)
    moreover have "s - of_nat (n - i) \<noteq> d"
      using Suc.prems(2) [of "n - i"] i(1) by simp
    ultimately show ?thesis
      by (metis diff_add_cancel)
  qed
  then show ?case
    using IH split by (auto simp: fun_eq_iff algebra_simps)
qed

text \<open>
  C4. \<^verbatim>\<open>memmove\<close> copies correctly for every overlap of source and destination: byte \<open>i\<close>
  of the destination is byte \<open>i\<close> of the source as it was before the call, and
  no other byte changes.
\<close>

theorem memmove_correct:
  assumes "unat src + unat n < 2 ^ 64" "unat dst + unat n < 2 ^ 64"
  shows "memmove m dst src n =
    (\<lambda>x. if within dst (unat n) x then m (src + (x - dst)) else m x)"
proof -
  let ?n = "unat n"
  have n: "?n < 2 ^ 64"
    using assms by simp
  have n_word: "ucast n = (of_nat ?n :: uint64)"
    by simp
  have src_n: "unat (src + of_nat k) = unat src + k" if "k \<le> ?n" for k
    using that assms(1) by (simp add: unat_word_ariths unat_of_nat)
  have dst_n: "unat (dst + of_nat k) = unat dst + k" if "k \<le> ?n" for k
    using that assms(2) by (simp add: unat_word_ariths unat_of_nat)
  consider "n = 0" | "n \<noteq> 0" "src < dst \<and> src + ucast n > dst"
    | "n \<noteq> 0" "\<not> (src < dst \<and> src + ucast n > dst)"
    by blast
  then show ?thesis
  proof cases
    case 1
    then show ?thesis by (simp add: memmove_def within_def)
  next
    case 2
    have apart: "src + of_nat ?n - of_nat k \<noteq> dst + of_nat ?n" if "0 < k" "k < ?n" for k
    proof
      assume "src + of_nat ?n - of_nat k = dst + of_nat ?n"
      then have "src = dst + of_nat k" by (simp add: algebra_simps)
      with 2 dst_n [of k] that show False by (simp add: word_less_nat_alt)
    qed
    have "copy_backward m (dst + of_nat ?n) (src + of_nat ?n) ?n x =
      (if within dst ?n x then m (src + of_nat ?n - (dst + of_nat ?n - x)) else m x)" for x
      by (simp only: copy_backward_closed [OF n apart] add_diff_cancel_right')
    moreover have "src + of_nat ?n - (dst + of_nat ?n - x) = src + (x - dst)" for x
      by (simp only: algebra_simps)
    moreover have "memmove m dst src n = copy_backward m (dst + of_nat ?n) (src + of_nat ?n) ?n"
      using 2 unfolding memmove_def n_word by (simp only: if_False if_True simp_thms)
    ultimately show ?thesis
      by (intro ext) (simp only:)
  next
    case 3
    have apart: "src + of_nat k \<noteq> dst" if "0 < k" "k < ?n" for k
    proof
      assume "src + of_nat k = dst"
      moreover have "unat (src + ucast n) = unat src + ?n"
        using src_n [of ?n] by simp
      ultimately show False
        using 3 src_n [of k] that by (auto simp: word_less_nat_alt)
    qed
    have "memmove m dst src n = copy_forward m dst src ?n"
      using 3 by (simp only: memmove_def if_False)
    then show ?thesis
      by (simp only: copy_forward_closed [OF n apart])
  qed
qed


theorem memmove_correct_witness:
  "unat (0x1000 :: uint64) + unat (8 :: uint) < 2 ^ 64 \<and> unat (0x1004 :: uint64) + unat (8 :: uint) < 2 ^ 64
   \<and> memmove (\<lambda>x. ucast x) 0x1004 0x1000 8
     = (\<lambda>x. if within 0x1004 8 x then ucast (0x1000 + (x - 0x1004)) else ucast x)"
  using memmove_correct [where src = "0x1000" and n = 8 and dst = "0x1004" and m = "\<lambda>x. ucast x"]
  by simp

end
