(* ===== verification/Kalloc.thy ===== *)
theory Kalloc
  imports Machine Memory
begin

text \<open>
  The page allocator, \<^verbatim>\<open>kernel/mm/kalloc.c\<close>: a free list threaded through the first eight
  bytes of the free pages, and a bitmap, kept in the first pages of the managed range, with
  one bit per page that is set while the page is in use. \<^verbatim>\<open>end\<close>, which the linker
  script defines, is the field \<open>kend\<close>. Output of \<^verbatim>\<open>printf\<close> is not part of the state.
\<close>

section \<open>Constants of riscv.h and memlayout.h\<close>

definition PGSIZE :: uint64 where
  "PGSIZE = 4096"

definition PGROUNDUP :: "uint64 \<Rightarrow> uint64" where
  "PGROUNDUP sz = (sz + PGSIZE - 1) AND NOT (PGSIZE - 1)"

definition PGROUNDDOWN :: "uint64 \<Rightarrow> uint64" where
  "PGROUNDDOWN a = a AND NOT (PGSIZE - 1)"

definition KERNBASE :: uint64 where
  "KERNBASE = 0x80000000"

definition PHYSTOP :: uint64 where
  "PHYSTOP = KERNBASE + 128 * 1024 * 1024"

section \<open>State and operations\<close>

record kmem = machine +
  mem :: memory
  freelist :: uint64
  kbitmap :: uint64
  addr_base :: uint64
  kend :: uint64

definition PAGE_INDEX :: "uint64 \<Rightarrow> 'z kmem_scheme \<Rightarrow> uint64" where
  "PAGE_INDEX addr s = (addr - addr_base s) div PGSIZE"

text \<open>
  The bitmap is indexed by a C \<^verbatim>\<open>int\<close>; division and remainder round towards zero, and the
  shift distance counts modulo 32 as in the \<^verbatim>\<open>sllw\<close> instruction.
\<close>

definition shl1 :: "int \<Rightarrow> uint" where
  "shl1 b = push_bit (nat (b mod 32)) 1"

definition bitmap_byte :: "int \<Rightarrow> 'z kmem_scheme \<Rightarrow> uint64" where
  "bitmap_byte c s = kbitmap s + word_of_int c"

definition list_bit_set :: "int \<Rightarrow> ('z kmem_scheme, unit) oper" where
  "list_bit_set index =
     modify (\<lambda>s. let a = bitmap_byte (index sdiv 8) s; b = index smod 8
       in s\<lparr>mem := (mem s)(a := mem s a OR ucast (shl1 b))\<rparr>)"

definition list_bit_clear :: "int \<Rightarrow> ('z kmem_scheme, unit) oper" where
  "list_bit_clear index =
     modify (\<lambda>s. let a = bitmap_byte (index sdiv 8) s; b = index smod 8
       in s\<lparr>mem := (mem s)(a := mem s a AND ucast (NOT (shl1 b)))\<rparr>)"

definition list_bit_isset :: "int \<Rightarrow> 'z kmem_scheme \<Rightarrow> bool" where
  "list_bit_isset index s \<longleftrightarrow>
     (let a = bitmap_byte (index sdiv 8) s; b = index smod 8
      in drop_bit (nat (b mod 32)) (ucast (mem s a) :: uint) AND 1 \<noteq> 0)"

text \<open>The message of the second panic, written in Chinese, says that the page is freed twice.\<close>

definition kfree :: "uint64 \<Rightarrow> ('z kmem_scheme, unit) oper" where
  "kfree pa =
     bind (gets kend) (\<lambda>e.
     if pa mod PGSIZE \<noteq> 0 \<or> pa < e \<or> pa \<ge> PHYSTOP then panic ''kfree''
     else
       andthen (modify (\<lambda>s. s\<lparr>mem := memset (mem s) pa 1 4096\<rparr>))
       (bind (gets (\<lambda>s. to_int (PAGE_INDEX pa s))) (\<lambda>i.
        bind (gets (list_bit_isset i)) (\<lambda>used.
        if \<not> used then panic ''kfree: double free''
        else
          andthen (list_bit_clear i)
          (andthen (acquire LKmem)
          (andthen (modify (\<lambda>s. s\<lparr>mem := store64 (mem s) pa (freelist s)\<rparr>))
          (andthen (modify (\<lambda>s. s\<lparr>freelist := pa\<rparr>))
          (release LKmem))))))))"

definition kalloc :: "('z kmem_scheme, uint64) oper" where
  "kalloc =
     andthen (acquire LKmem)
     (bind (gets freelist) (\<lambda>r.
      andthen (whenM (r \<noteq> 0) (modify (\<lambda>s. s\<lparr>freelist := load64 (mem s) r\<rparr>)))
      (andthen (release LKmem)
      (bind (gets (\<lambda>s. to_int (PAGE_INDEX r s))) (\<lambda>i.
       andthen (list_bit_set i)
       (andthen (whenM (r \<noteq> 0) (modify (\<lambda>s. s\<lparr>mem := memset (mem s) r 5 4096\<rparr>)))
       (ret r)))))))"

text \<open>
  The loop of \<^verbatim>\<open>freerange\<close>. Its fuel is the number of pages below \<^verbatim>\<open>pa_end\<close>: a run that needs
  more has wrapped around the address space and never ends.
\<close>

primrec freerange_loop :: "nat \<Rightarrow> uint64 \<Rightarrow> uint64 \<Rightarrow> ('z kmem_scheme, unit) oper" where
  "freerange_loop 0 p pa_end = (if p + PGSIZE \<le> pa_end then Fault Diverge else ret ())"
| "freerange_loop (Suc k) p pa_end =
     (if p + PGSIZE \<le> pa_end
      then andthen (kfree p) (freerange_loop k (p + PGSIZE) pa_end) else ret ())"

definition freerange :: "uint64 \<Rightarrow> uint64 \<Rightarrow> ('z kmem_scheme, unit) oper" where
  "freerange pa_start pa_end =
     (let p = PGROUNDUP pa_start;
          cnt = (sint (pa_end - p) + 4096 - 1) sdiv 4096;
          meta_sz = (cnt + 8 * 4096 - 1) sdiv (8 * 4096);
          q = p + word_of_int (meta_sz * 4096)
      in andthen (modify (\<lambda>s. s\<lparr>addr_base := p\<rparr>))
         (andthen (modify (\<lambda>s. s\<lparr>mem := memset (mem s) p 0 (word_of_int (meta_sz * 4096))\<rparr>))
         (andthen (modify (\<lambda>s. s\<lparr>kbitmap := addr_base s\<rparr>))
         (andthen (modify (\<lambda>s. s\<lparr>mem := memset (mem s) (kbitmap s) 0xff (word_of_int (meta_sz * 4096))\<rparr>))
         (freerange_loop (unat pa_end div 4096) q pa_end)))))"

definition kinit :: "('z kmem_scheme, unit) oper" where
  "kinit = andthen (modify (initlock LKmem ''kmem'')) (bind (gets kend) (\<lambda>e. freerange e PHYSTOP))"

section \<open>Lock operations do not touch the allocator's fields\<close>

lemma kmem_after_lock [simp]:
  "mem (acquired L s) = mem s" "mem (released L s) = mem s" "mem (settle s) = mem s"
  "freelist (acquired L s) = freelist s" "freelist (released L s) = freelist s" "freelist (settle s) = freelist s"
  "kbitmap (acquired L s) = kbitmap s" "kbitmap (released L s) = kbitmap s" "kbitmap (settle s) = kbitmap s"
  "addr_base (acquired L s) = addr_base s" "addr_base (released L s) = addr_base s" "addr_base (settle s) = addr_base s"
  "kend (acquired L s) = kend s" "kend (released L s) = kend s" "kend (settle s) = kend s"
  by (simp_all add: acquired_def released_def settle_def)

lemma kmem_update_lock [simp]:
  "mem_update g0 (acquired L s) = acquired L (mem_update g0 s)"
  "mem_update g0 (settle s) = settle (mem_update g0 s)"
  "freelist_update g1 (acquired L s) = acquired L (freelist_update g1 s)"
  "freelist_update g1 (settle s) = settle (freelist_update g1 s)"
  "kbitmap_update g2 (acquired L s) = acquired L (kbitmap_update g2 s)"
  "kbitmap_update g2 (settle s) = settle (kbitmap_update g2 s)"
  "addr_base_update g3 (acquired L s) = acquired L (addr_base_update g3 s)"
  "addr_base_update g3 (settle s) = settle (addr_base_update g3 s)"
  "kend_update g4 (acquired L s) = acquired L (kend_update g4 s)"
  "kend_update g4 (settle s) = settle (kend_update g4 s)"
  by (simp_all add: acquired_def settle_def intr_get_def r_sstatus_def)

lemma kmem_update_ok [simp]:
  "hart_ok (mem_update g0 s) = hart_ok s" "idle L (mem_update g0 s) = idle L s"
  "hart_ok (freelist_update g1 s) = hart_ok s" "idle L (freelist_update g1 s) = idle L s"
  "hart_ok (kbitmap_update g2 s) = hart_ok s" "idle L (kbitmap_update g2 s) = idle L s"
  "hart_ok (addr_base_update g3 s) = hart_ok s" "idle L (addr_base_update g3 s) = idle L s"
  "hart_ok (kend_update g4 s) = hart_ok s" "idle L (kend_update g4 s) = idle L s"
  by (simp_all add: hart_ok_def idle_def intr_get_def machine_defs)

lemma kmem_update_calm [simp]:
  "calm (mem_update g0 s) = calm s" "mycpu (mem_update g0 s) = mycpu s"
  "calm (freelist_update g1 s) = calm s" "mycpu (freelist_update g1 s) = mycpu s"
  "calm (kbitmap_update g2 s) = calm s" "mycpu (kbitmap_update g2 s) = mycpu s"
  "calm (addr_base_update g3 s) = calm s" "mycpu (addr_base_update g3 s) = mycpu s"
  "calm (kend_update g4 s) = calm s" "mycpu (kend_update g4 s) = mycpu s"
  unfolding calm_def by (simp_all add: settle_def intr_get_def machine_defs idle_def hart_ok_def)

lemma kmem_onproc [simp]:
  "mem (onproc p s) = mem s" "onproc p (mem_update g0 s) = mem_update g0 (onproc p s)"
  "freelist (onproc p s) = freelist s" "onproc p (freelist_update g1 s) = freelist_update g1 (onproc p s)"
  "kbitmap (onproc p s) = kbitmap s" "onproc p (kbitmap_update g2 s) = kbitmap_update g2 (onproc p s)"
  "addr_base (onproc p s) = addr_base s" "onproc p (addr_base_update g3 s) = addr_base_update g3 (onproc p s)"
  "kend (onproc p s) = kend s" "onproc p (kend_update g4 s) = kend_update g4 (onproc p s)"
  by (simp_all add: onproc_def)

section \<open>The bitmap\<close>

lemma shl1_bit: "0 \<le> b \<Longrightarrow> b < 8 \<Longrightarrow> bit (ucast (shl1 b) :: byte) n \<longleftrightarrow> n = nat b"
  by (auto simp: shl1_def bit_ucast_iff bit_exp_iff)

lemma index_div_mod:
  "int i sdiv 8 = int (i div 8)" "int i smod 8 = int (i mod 8)"
  by (cases "i = 0"; simp add: signed_divide_int_def signed_modulo_int_def zdiv_int zmod_int
    minus_div_mult_eq_mod)+

text \<open>The bit of page \<open>i\<close> in a bitmap at address \<open>bm\<close>.\<close>

definition page_bit :: "memory \<Rightarrow> uint64 \<Rightarrow> nat \<Rightarrow> bool" where
  "page_bit m bm i \<longleftrightarrow> bit (m (bm + of_nat (i div 8))) (i mod 8)"

lemma isset_iff: "list_bit_isset (int i) s \<longleftrightarrow> page_bit (mem s) (kbitmap s) i"
proof -
  have "x AND 1 \<noteq> 0 \<longleftrightarrow> bit x 0" for x :: uint
    by (simp add: and_one_eq odd_iff_mod_2_eq_one bit_0)
  moreover have "nat (int (i mod 8) mod 32) = i mod 8"
    by simp
  moreover have "i mod 8 < 32"
    using mod_less_divisor [of 8 i] by linarith
  ultimately show ?thesis
    unfolding list_bit_isset_def index_div_mod page_bit_def Let_def bitmap_byte_def
    by (simp add: bit_drop_bit_eq bit_ucast_iff del: of_nat_mod)
qed

text \<open>The memory after setting or clearing the bit of page \<open>i\<close>.\<close>

definition bit_on :: "memory \<Rightarrow> uint64 \<Rightarrow> nat \<Rightarrow> memory" where
  "bit_on m bm i = m(bm + of_nat (i div 8) := m (bm + of_nat (i div 8)) OR ucast (shl1 (int (i mod 8))))"

definition bit_off :: "memory \<Rightarrow> uint64 \<Rightarrow> nat \<Rightarrow> memory" where
  "bit_off m bm i =
     m(bm + of_nat (i div 8) := m (bm + of_nat (i div 8)) AND ucast (NOT (shl1 (int (i mod 8)))))"

lemma list_bit_set_run: "list_bit_set (int i) s = Ret () (s\<lparr>mem := bit_on (mem s) (kbitmap s) i\<rparr>)"
  unfolding list_bit_set_def index_div_mod bit_on_def bitmap_byte_def by (simp add: Let_def)

lemma list_bit_clear_run: "list_bit_clear (int i) s = Ret () (s\<lparr>mem := bit_off (mem s) (kbitmap s) i\<rparr>)"
  unfolding list_bit_clear_def index_div_mod bit_off_def bitmap_byte_def by (simp add: Let_def)

lemma div_mod_inj: "(i :: nat) div n = j div n \<Longrightarrow> i mod n = j mod n \<Longrightarrow> i = j"
  by (metis div_mult_mod_eq)

lemma byte_index_eq:
  assumes "i < 2 ^ 32" "j < 2 ^ 32"
  shows "bm + of_nat (i div 8) = bm + (of_nat (j div 8) :: uint64) \<longleftrightarrow> i div 8 = j div 8"
proof -
  have "i div 8 < 2 ^ 64" "j div 8 < 2 ^ 64"
    using assms by auto
  then show ?thesis
    by (simp add: word_of_nat_eq_iff take_bit_nat_eq_self)
qed

lemma bit_on_byte:
  "bit (x OR ucast (shl1 (int (i mod 8))) :: byte) n \<longleftrightarrow> n = i mod 8 \<or> bit x n"
  by (auto simp add: bit_or_iff shl1_bit simp del: of_nat_mod)

lemma bit_off_byte:
  "bit (x AND ucast (NOT (shl1 (int (i mod 8)))) :: byte) n \<longleftrightarrow> n \<noteq> i mod 8 \<and> bit x n"
  using shl1_bit [of "int (i mod 8)" n] bit_imp_le_length [of x n]
  by (auto simp add: bit_and_iff bit_ucast_iff bit_not_iff simp del: of_nat_mod)

lemma page_bit_on:
  assumes "i < 2 ^ 32" "j < 2 ^ 32"
  shows "page_bit (bit_on m bm i) bm j \<longleftrightarrow> i = j \<or> page_bit m bm j"
proof (cases "i div 8 = j div 8")
  case True
  then have "j mod 8 = i mod 8 \<longleftrightarrow> i = j"
    using div_mod_inj by metis
  with True show ?thesis
    by (simp add: page_bit_def bit_on_def bit_on_byte)
next
  case False
  then show ?thesis
    using byte_index_eq [OF assms, of bm] by (auto simp add: page_bit_def bit_on_def)
qed

lemma page_bit_off:
  assumes "i < 2 ^ 32" "j < 2 ^ 32"
  shows "page_bit (bit_off m bm i) bm j \<longleftrightarrow> i \<noteq> j \<and> page_bit m bm j"
proof (cases "i div 8 = j div 8")
  case True
  then have "j mod 8 = i mod 8 \<longleftrightarrow> i = j"
    using div_mod_inj by metis
  with True show ?thesis
    by (simp add: page_bit_def bit_off_def bit_off_byte)
next
  case False
  then show ?thesis
    using byte_index_eq [OF assms, of bm] by (auto simp add: page_bit_def bit_off_def)
qed

section \<open>Managed pages\<close>

text \<open>The pages the allocator hands out: those between the bitmap and \<^verbatim>\<open>PHYSTOP\<close>.\<close>

definition meta_pages :: "uint64 \<Rightarrow> nat" where
  "meta_pages base = ((unat PHYSTOP - unat base) div 4096 + 32767) div 32768"

definition base_ok :: "uint64 \<Rightarrow> bool" where
  "base_ok base \<longleftrightarrow> unat base mod 4096 = 0 \<and> unat KERNBASE \<le> unat base \<and> unat base \<le> unat PHYSTOP"

definition managed :: "uint64 \<Rightarrow> uint64 \<Rightarrow> bool" where
  "managed base x \<longleftrightarrow> unat x mod 4096 = 0
     \<and> unat base + 4096 * meta_pages base \<le> unat x \<and> unat x + 4096 \<le> unat PHYSTOP"

definition pidx :: "uint64 \<Rightarrow> uint64 \<Rightarrow> nat" where
  "pidx base x = (unat x - unat base) div 4096"

lemma aligned_minus:
  assumes "(x :: nat) mod n = 0" "b mod n = 0" "b \<le> x"
  shows "x = b + n * ((x - b) div n)"
proof -
  have "n dvd x - b"
    using assms by (simp add: dvd_eq_mod_eq_0 [symmetric])
  then show ?thesis
    using assms(3) by simp
qed

lemma aligned_div_less:
  assumes "(x :: nat) mod n = 0" "b mod n = 0" "b \<le> x" "x + n \<le> t" "0 < n"
  shows "(x - b) div n < (t - b) div n"
proof -
  have "n * ((x - b) div n) + n \<le> t - b"
    using aligned_minus [OF assms(1-3)] assms(4) by linarith
  then have "(n * ((x - b) div n) + n) div n \<le> (t - b) div n"
    by (rule div_le_mono)
  then show ?thesis
    using assms(5) by simp
qed

lemma layout_numbers: "unat KERNBASE = 2147483648" "unat PHYSTOP = 2281701376"
  by (simp_all add: KERNBASE_def PHYSTOP_def)

lemma pidx_bounds:
  assumes "base_ok base" "managed base x"
  shows "pidx base x < 2 ^ 15" "pidx base x div 8 < 4096 * meta_pages base"
proof -
  have "pidx base x < (unat PHYSTOP - unat base) div 4096"
    unfolding pidx_def
    by (rule aligned_div_less) (use assms in \<open>simp_all add: managed_def base_ok_def\<close>)
  moreover have "(unat PHYSTOP - unat base) div 4096 \<le> 2 ^ 15"
    using assms(1) div_le_mono [of "unat PHYSTOP - unat base" 134217728 4096]
    unfolding base_ok_def layout_numbers by auto
  moreover have "(unat PHYSTOP - unat base) div 4096 \<le> 32768 * meta_pages base"
    using div_mult_mod_eq [of "(unat PHYSTOP - unat base) div 4096 + 32767" 32768]
      mod_less_divisor [of 32768 "(unat PHYSTOP - unat base) div 4096 + 32767"]
    unfolding meta_pages_def by linarith
  ultimately show "pidx base x < 2 ^ 15" "pidx base x div 8 < 4096 * meta_pages base"
    by simp_all
qed

lemma pidx_inj:
  assumes "base_ok base" "managed base x" "managed base y" "pidx base x = pidx base y"
  shows "x = y"
proof -
  have "unat x = unat y"
    using assms aligned_minus [of "unat x" 4096 "unat base"] aligned_minus [of "unat y" 4096 "unat base"]
    by (simp add: pidx_def managed_def base_ok_def)
  then show ?thesis by (simp add: word_unat_eq_iff)
qed

lemma page_index_managed:
  assumes "base_ok base" "managed base x" "addr_base s = base"
  shows "to_int (PAGE_INDEX x s) = int (pidx base x)"
proof -
  have "unat base \<le> unat x"
    using assms(2) by (simp add: managed_def)
  then have "unat (PAGE_INDEX x s) = pidx base x"
    by (simp add: PAGE_INDEX_def PGSIZE_def assms(3) pidx_def unat_div unat_sub_if')
  moreover have "pidx base x < 2 ^ 31"
    using pidx_bounds(1) [OF assms(1,2)] by simp
  ultimately show ?thesis
    by (simp add: to_int_small)
qed

lemma page_cell: "managed base x \<Longrightarrow> within x 4096 a \<longleftrightarrow> unat a div 4096 = unat x div 4096"
  by (rule within_aligned) (simp_all add: managed_def)

lemma page_disjoint:
  assumes "managed base x" "managed base y" "within x 4096 a" "within y 4096 a"
  shows "x = y"
proof -
  have "unat x div 4096 = unat y div 4096"
    using assms by (simp add: page_cell)
  then have "unat x = unat y"
    using assms(1,2) div_mod_inj [of "unat x" 4096 "unat y"] by (simp add: managed_def)
  then show ?thesis by (simp add: word_unat_eq_iff)
qed

lemma below_page:
  assumes "managed base x" "unat a < unat base + 4096 * meta_pages base"
  shows "\<not> within x 4096 a"
proof -
  have "within x 4096 a \<longleftrightarrow> unat x \<le> unat a \<and> unat a < unat x + 4096"
    using assms(1) by (intro within_nat) (simp add: managed_def layout_numbers)
  then show ?thesis
    using assms by (simp add: managed_def)
qed

lemma bitmap_address:
  assumes "base_ok base" "managed base x"
  shows "unat (base + of_nat (pidx base x div 8)) = unat base + pidx base x div 8"
proof -
  have "pidx base x div 8 < 2 ^ 15"
    using pidx_bounds(1) [OF assms] by simp
  then show ?thesis
    using assms(1) by (simp add: base_ok_def layout_numbers unat_word_ariths unat_of_nat)
qed

lemma bitmap_not_page:
  assumes "base_ok base" "managed base x" "managed base y"
  shows "\<not> within y 4096 (base + of_nat (pidx base x div 8))"
  by (rule below_page [OF assms(3)])
    (use pidx_bounds(2) [OF assms(1,2)] in \<open>simp only: bitmap_address [OF assms(1,2)]\<close>)

section \<open>The invariant\<close>

text \<open>\<open>chain m p xs\<close>: from \<open>p\<close>, the list links in memory lead through \<open>xs\<close> to null.\<close>

primrec chain :: "memory \<Rightarrow> uint64 \<Rightarrow> uint64 list \<Rightarrow> bool" where
  "chain m p [] \<longleftrightarrow> p = 0"
| "chain m p (x # xs) \<longleftrightarrow> p = x \<and> p \<noteq> 0 \<and> chain m (load64 m x) xs"

lemma chain_cong: "(\<And>x. x \<in> set xs \<Longrightarrow> load64 m' x = load64 m x) \<Longrightarrow> chain m' p xs = chain m p xs"
  by (induction xs arbitrary: p) auto

text \<open>
  The pages \<open>xs\<close> on the free list are distinct managed pages, the links in memory run
  through them in this order, and the bitmap marks exactly the other managed pages as used.
\<close>

definition kmem_wf :: "memory \<Rightarrow> uint64 \<Rightarrow> uint64 \<Rightarrow> uint64 list \<Rightarrow> bool" where
  "kmem_wf m f base xs \<longleftrightarrow> base_ok base \<and> distinct xs \<and> (\<forall>x \<in> set xs. managed base x) \<and> chain m f xs
     \<and> (\<forall>x. managed base x \<longrightarrow> (page_bit m base (pidx base x) \<longleftrightarrow> x \<notin> set xs))"

definition kmem_inv :: "'z kmem_scheme \<Rightarrow> uint64 list \<Rightarrow> bool" where
  "kmem_inv s xs \<longleftrightarrow> hart_ok s \<and> idle LKmem s \<and> kbitmap s = addr_base s \<and> kend s \<le> addr_base s
     \<and> kmem_wf (mem s) (freelist s) (addr_base s) xs"

lemma kmem_wfD:
  assumes "kmem_wf m f base xs"
  shows "base_ok base" "distinct xs" "x \<in> set xs \<Longrightarrow> managed base x" "chain m f xs"
    "managed base x \<Longrightarrow> page_bit m base (pidx base x) \<longleftrightarrow> x \<notin> set xs"
  using assms by (auto simp: kmem_wf_def)

lemma managed_nonzero: "base_ok base \<Longrightarrow> managed base x \<Longrightarrow> x \<noteq> 0"
  by (auto simp: managed_def base_ok_def layout_numbers)

lemma managed_aligned: "managed base x \<Longrightarrow> unat x mod 8 = 0"
  using mod_mod_cancel [of 8 4096 "unat x"] by (simp add: managed_def)

text \<open>Filling a page leaves the links of the other pages and the bitmap alone.\<close>

lemma memset_page_load:
  assumes "managed base x" "managed base y" "x \<noteq> y"
  shows "load64 (memset m x c 4096) y = load64 m y"
proof (rule load64_cong)
  fix a assume "within y 8 a"
  then have "within y 4096 a"
    by (simp add: within_def)
  with assms page_disjoint have "\<not> within x 4096 a" by blast
  then show "memset m x c 4096 a = m a"
    by (simp add: memset_closed)
qed

lemma memset_page_bit:
  assumes "base_ok base" "managed base x" "managed base y"
  shows "page_bit (memset m x c 4096) base (pidx base y) = page_bit m base (pidx base y)"
  using bitmap_not_page [OF assms(1,3,2)] by (simp add: page_bit_def memset_closed)

lemma store_page_bit:
  assumes "base_ok base" "managed base x" "managed base y"
  shows "page_bit (store64 m x v) base (pidx base y) = page_bit m base (pidx base y)"
proof -
  have "\<not> within x 8 (base + of_nat (pidx base y div 8))"
    using bitmap_not_page [OF assms(1,3,2)] by (simp add: within_def)
  then show ?thesis
    by (simp add: page_bit_def store64_other)
qed

lemma bit_page_load:
  assumes "base_ok base" "managed base x" "managed base y"
  shows "load64 (bit_on m base (pidx base x)) y = load64 m y"
    "load64 (bit_off m base (pidx base x)) y = load64 m y"
proof -
  have "a \<noteq> base + of_nat (pidx base x div 8)" if "within y 8 a" for a
  proof
    assume "a = base + of_nat (pidx base x div 8)"
    moreover have "within y 4096 a"
      using that by (simp add: within_def)
    ultimately show False
      using bitmap_not_page [OF assms] by blast
  qed
  then show "load64 (bit_on m base (pidx base x)) y = load64 m y"
    "load64 (bit_off m base (pidx base x)) y = load64 m y"
    by (auto intro!: load64_cong simp: bit_on_def bit_off_def)
qed

section \<open>kfree\<close>

definition freed_mem :: "memory \<Rightarrow> uint64 \<Rightarrow> uint64 \<Rightarrow> uint64 \<Rightarrow> memory" where
  "freed_mem m f base p = store64 (bit_off (memset m p 1 4096) base (pidx base p)) p f"

lemma kfree_guard:
  assumes "base_ok base" "managed base p" "e \<le> base"
  shows "p mod PGSIZE = 0" "\<not> p < e" "\<not> p \<ge> PHYSTOP"
proof -
  show "p mod PGSIZE = 0"
    using assms(2) by (simp add: managed_def PGSIZE_def word_unat_eq_iff unat_mod)
  show "\<not> p < e" "\<not> p \<ge> PHYSTOP"
    using assms by (simp_all add: managed_def word_less_nat_alt word_le_nat_alt)
qed

lemma kfree_run:
  assumes "kmem_inv s xs" "managed (addr_base s) p" "p \<notin> set xs"
  shows "kfree p s =
    Ret () (settle (s\<lparr>mem := freed_mem (mem s) (freelist s) (addr_base s) p, freelist := p\<rparr>))"
proof -
  let ?b = "addr_base s"
  have wf: "kmem_wf (mem s) (freelist s) ?b xs" "base_ok ?b" and b: "kbitmap s = ?b" "kend s \<le> ?b"
    and l: "hart_ok s" "idle LKmem s"
    using assms(1) by (auto simp: kmem_inv_def kmem_wfD)
  have bit: "page_bit (memset (mem s) p 1 4096) ?b (pidx ?b p)"
    using assms(2,3) wf by (simp add: memset_page_bit kmem_wfD(5))
  have idx: "to_int (PAGE_INDEX p (s\<lparr>mem := m\<rparr>)) = int (pidx ?b p)" for m
    using wf(2) assms(2) by (simp add: page_index_managed)
  show ?thesis
    using l b bit kfree_guard [OF wf(2) assms(2) b(2)]
    by (simp add: kfree_def idx isset_iff list_bit_clear_run acquire_free idle_def [of _ s]
      release_acquired freed_mem_def)
qed

lemma kmem_wf_free:
  assumes "kmem_wf m f base xs" "managed base p" "p \<notin> set xs"
  shows "kmem_wf (freed_mem m f base p) p base (p # xs)"
proof -
  note wf = kmem_wfD [OF assms(1)]
  have "load64 (freed_mem m f base p) x = load64 m x" if "x \<in> set xs" for x
  proof -
    have x: "managed base x" "p \<noteq> x"
      using wf(3) [OF that] that assms(3) by auto
    show ?thesis
      unfolding freed_mem_def load_store_other [OF managed_aligned [OF assms(2)]
        managed_aligned [OF x(1)] x(2)] bit_page_load(2) [OF wf(1) assms(2) x(1)]
      by (rule memset_page_load [OF assms(2) x])
  qed
  then have "chain (freed_mem m f base p) f xs"
    using wf(4) by (metis chain_cong)
  moreover have "load64 (freed_mem m f base p) p = f"
    by (simp add: freed_mem_def)
  moreover have "page_bit (freed_mem m f base p) base (pidx base x) \<longleftrightarrow> x \<noteq> p \<and> x \<notin> set xs"
    if "managed base x" for x
  proof -
    have "pidx base p < 2 ^ 32" "pidx base x < 2 ^ 32"
      using pidx_bounds(1) [OF wf(1) that] pidx_bounds(1) [OF wf(1) assms(2)] by simp_all
    moreover have "pidx base p = pidx base x \<longleftrightarrow> p = x"
      using pidx_inj [OF wf(1) assms(2) that] by auto
    ultimately show ?thesis
      using that assms(2) wf(1) by (auto simp: freed_mem_def store_page_bit page_bit_off
        memset_page_bit wf(5) [OF that])
  qed
  ultimately show ?thesis
    unfolding kmem_wf_def using assms(2,3) wf(1-3) managed_nonzero [OF wf(1) assms(2)] by simp
qed

lemma kfree_guard_fails:
  "p mod PGSIZE \<noteq> 0 \<or> p < kend s \<or> p \<ge> PHYSTOP \<Longrightarrow> kfree p s = Fault (Panic ''kfree'') s"
  by (auto simp: kfree_def)

lemma kfree_free_page:
  assumes "kmem_inv s xs" "p \<in> set xs"
  shows "kfree p s = Fault (Panic ''kfree: double free'') (s\<lparr>mem := memset (mem s) p 1 4096\<rparr>)"
proof -
  let ?b = "addr_base s"
  have wf: "kmem_wf (mem s) (freelist s) ?b xs" "base_ok ?b" and b: "kbitmap s = ?b" "kend s \<le> ?b"
    and p: "managed ?b p"
    using assms by (auto simp: kmem_inv_def kmem_wfD)
  have bit: "\<not> page_bit (memset (mem s) p 1 4096) ?b (pidx ?b p)"
    using assms(2) p wf by (simp add: memset_page_bit kmem_wfD(5))
  have idx: "to_int (PAGE_INDEX p (s\<lparr>mem := m\<rparr>)) = int (pidx ?b p)" for m
    using wf(2) p by (simp add: page_index_managed)
  show ?thesis
    using b bit kfree_guard [OF wf(2) p b(2)] by (simp add: kfree_def idx isset_iff)
qed

section \<open>kalloc\<close>

definition alloc_mem :: "memory \<Rightarrow> uint64 \<Rightarrow> uint64 \<Rightarrow> memory" where
  "alloc_mem m base x = memset (bit_on m base (pidx base x)) x 5 4096"

lemma kalloc_run:
  assumes "kmem_inv s (x # xs)"
  shows "kalloc s =
    Ret x (settle (s\<lparr>freelist := load64 (mem s) x, mem := alloc_mem (mem s) (addr_base s) x\<rparr>))"
proof -
  let ?b = "addr_base s"
  have wf: "base_ok ?b" "managed ?b x" "freelist s = x" and b: "kbitmap s = ?b"
    and l: "hart_ok s" "idle LKmem s"
    using assms by (auto simp: kmem_inv_def kmem_wf_def)
  have idx: "to_int (PAGE_INDEX x (settle (s\<lparr>freelist := f\<rparr>))) = int (pidx ?b x)" for f
    using wf by (simp add: page_index_managed)
  show ?thesis
    using l b managed_nonzero [OF wf(1,2)] wf(3)
    by (simp add: kalloc_def acquire_free idle_def [of _ s] release_acquired idx list_bit_set_run
      alloc_mem_def)
qed

lemma kmem_wf_alloc:
  assumes "kmem_wf m f base (x # xs)"
  shows "kmem_wf (alloc_mem m base x) (load64 m x) base xs"
proof -
  note wf = kmem_wfD [OF assms]
  have x: "managed base x" "x \<notin> set xs"
    using wf(2) wf(3) [of x] by auto
  have "load64 (alloc_mem m base x) y = load64 m y" if "y \<in> set xs" for y
  proof -
    have y: "managed base y" "x \<noteq> y"
      using wf(3) [of y] that x(2) by auto
    show ?thesis
      unfolding alloc_mem_def memset_page_load [OF x(1) y]
      by (rule bit_page_load(1) [OF wf(1) x(1) y(1)])
  qed
  then have "chain (alloc_mem m base x) (load64 m x) xs"
    using wf(4) by (metis chain_cong chain.simps(2))
  moreover have "page_bit (alloc_mem m base x) base (pidx base y) \<longleftrightarrow> y \<notin> set xs"
    if "managed base y" for y
  proof -
    have "pidx base x < 2 ^ 32" "pidx base y < 2 ^ 32"
      using pidx_bounds(1) [OF wf(1) that] pidx_bounds(1) [OF wf(1) x(1)] by simp_all
    moreover have "pidx base x = pidx base y \<longleftrightarrow> x = y"
      using pidx_inj [OF wf(1) x(1) that] by auto
    ultimately show ?thesis
      using that x wf(1) by (auto simp: alloc_mem_def page_bit_on memset_page_bit wf(5) [OF that])
  qed
  ultimately show ?thesis
    unfolding kmem_wf_def using wf(1-3) by simp
qed

text \<open>
  On an empty list \<^verbatim>\<open>kalloc\<close> still calls \<^verbatim>\<open>list_bit_set(PAGE_INDEX(0))\<close>: it writes to the byte
  \<open>stray s\<close>, which lies below the bitmap.
\<close>

definition stray :: "'z kmem_scheme \<Rightarrow> uint64" where
  "stray s = bitmap_byte (to_int (PAGE_INDEX 0 s) sdiv 8) s"

lemma kalloc_run_stray:
  assumes "kmem_inv s []"
  shows "kalloc s = Ret 0 (settle (s\<lparr>mem := (mem s)(stray s :=
    mem s (stray s) OR ucast (shl1 (to_int (PAGE_INDEX 0 s) smod 8)))\<rparr>))"
proof -
  have "freelist s = 0" and l: "hart_ok s" "idle LKmem s"
    using assms by (auto simp: kmem_inv_def kmem_wf_def)
  moreover have "PAGE_INDEX 0 (settle s) = PAGE_INDEX 0 s"
    by (simp add: PAGE_INDEX_def)
  ultimately show ?thesis
    by (simp add: kalloc_def acquire_free idle_def [of _ s] release_acquired list_bit_set_def
      Let_def stray_def bitmap_byte_def)
qed

lemma stray_index:
  assumes "base_ok (addr_base s)"
  shows "to_int (PAGE_INDEX 0 s) = - int (unat (addr_base s) div 4096)"
proof -
  define k where "k = unat (addr_base s) div 4096"
  have k: "unat (addr_base s) = 4096 * k" "0 < k" "k < 2 ^ 31"
    using assms by (auto simp: base_ok_def k_def layout_numbers)
  have "unat (- addr_base s) = 2 ^ 64 - 4096 * k"
    using k unat_sub_if' [of 0 "addr_base s"] by simp
  also have "\<dots> = 4096 * (2 ^ 52 - k)"
    by (simp add: right_diff_distrib')
  finally have "unat (PAGE_INDEX 0 s) = 2 ^ 52 - k"
    by (simp add: PAGE_INDEX_def PGSIZE_def unat_div)
  then have u: "uint (PAGE_INDEX 0 s) = 2 ^ 52 - int k"
    using k by (simp add: uint_nat of_nat_diff)
  have "take_bit 32 (2 ^ 52 - int k) = take_bit 32 (- int k)"
    by (simp add: take_bit_eq_mod mod_diff_left_eq [symmetric])
  then have "to_int (PAGE_INDEX 0 s) = signed_take_bit 31 (- int k)"
    using signed_take_bit_take_bit [of 31 32 "2 ^ 52 - int k"]
      signed_take_bit_take_bit [of 31 32 "- int k"]
    by (simp add: to_int_def sint_uint unsigned_ucast_eq u)
  also have "\<dots> = - int k"
    using k by (intro signed_take_bit_int_eq_self) auto
  finally show ?thesis
    by (simp add: k_def)
qed

lemma stray_below:
  assumes "base_ok (addr_base s)" "kbitmap s = addr_base s"
  shows "unat (stray s) = unat (addr_base s) - unat (addr_base s) div 32768"
proof -
  let ?k = "unat (addr_base s) div 32768"
  have "to_int (PAGE_INDEX 0 s) sdiv 8 = - int ?k"
    using assms(1) stray_index [OF assms(1)]
    by (simp add: signed_divide_int_def base_ok_def layout_numbers zdiv_int div_mult2_eq [symmetric]
      zdiv_zmult2_eq [symmetric] sgn_if)
  then have "stray s = addr_base s - of_nat ?k"
    by (simp add: stray_def bitmap_byte_def assms(2))
  moreover have "?k \<le> unat (addr_base s)" "?k < 2 ^ 64"
    using assms(1) by (auto simp: base_ok_def layout_numbers)
  ultimately show ?thesis
    by (simp add: unat_sub_if' unat_of_nat)
qed

section \<open>Memory outside the allocator\<close>

text \<open>A page in use keeps its contents while other pages are allocated and freed.\<close>

definition same_page :: "memory \<Rightarrow> memory \<Rightarrow> uint64 \<Rightarrow> bool" where
  "same_page m m' y \<longleftrightarrow> (\<forall>a. within y 4096 a \<longrightarrow> m' a = m a)"

lemma same_page_bits:
  assumes "base_ok base" "managed base x" "managed base y"
  shows "same_page m (bit_on m base (pidx base x)) y" "same_page m (bit_off m base (pidx base x)) y"
  using bitmap_not_page [OF assms] by (auto simp: same_page_def bit_on_def bit_off_def)

lemma same_page_memset:
  assumes "managed base x" "managed base y" "x \<noteq> y"
  shows "same_page m (memset m x c 4096) y"
  using page_disjoint [OF assms(1,2)] assms(3) by (auto simp: same_page_def memset_closed)

lemma same_page_store:
  assumes "managed base x" "managed base y" "x \<noteq> y"
  shows "same_page m (store64 m x v) y"
  unfolding same_page_def
proof (intro allI impI)
  fix a assume "within y 4096 a"
  then have "\<not> within x 4096 a"
    using page_disjoint [OF assms(1,2)] assms(3) by blast
  then have "\<not> within x 8 a"
    by (simp add: within_def)
  then show "store64 m x v a = m a"
    by (rule store64_other)
qed

lemma same_page_trans: "same_page m m' y \<Longrightarrow> same_page m' m'' y \<Longrightarrow> same_page m m'' y"
  by (simp add: same_page_def)

lemma alloc_mem_same:
  assumes "base_ok base" "managed base x" "managed base y" "x \<noteq> y"
  shows "same_page m (alloc_mem m base x) y"
  unfolding alloc_mem_def
  by (rule same_page_trans [OF same_page_bits(1) same_page_memset]) (use assms in auto)

lemma freed_mem_same:
  assumes "base_ok base" "managed base x" "managed base y" "x \<noteq> y"
  shows "same_page m (freed_mem m f base x) y"
  unfolding freed_mem_def
  by (rule same_page_trans [OF same_page_trans [OF same_page_memset same_page_bits(2)] same_page_store])
    (use assms in auto)

section \<open>The allocator's contract\<close>

lemma kmem_inv_cpu [simp]: "kmem_inv (settle s) xs = kmem_inv s xs"
  by (simp add: kmem_inv_def)

lemma kmem_invD:
  assumes "kmem_inv s xs"
  shows "base_ok (addr_base s)" "distinct xs" "x \<in> set xs \<Longrightarrow> managed (addr_base s) x"
    "kmem_wf (mem s) (freelist s) (addr_base s) xs"
  using assms by (auto simp: kmem_inv_def kmem_wf_def)

lemma kmem_inv_alloc:
  "kmem_inv s (x # xs) \<Longrightarrow>
    kmem_inv (s\<lparr>freelist := load64 (mem s) x, mem := alloc_mem (mem s) (addr_base s) x\<rparr>) xs"
  using kmem_wf_alloc by (auto simp: kmem_inv_def)

lemma kmem_inv_free:
  "kmem_inv s xs \<Longrightarrow> managed (addr_base s) p \<Longrightarrow> p \<notin> set xs \<Longrightarrow>
    kmem_inv (s\<lparr>mem := freed_mem (mem s) (freelist s) (addr_base s) p, freelist := p\<rparr>) (p # xs)"
  using kmem_wf_free by (auto simp: kmem_inv_def)

lemma kmem_inv_stray:
  assumes "kmem_inv s []"
  shows "kmem_inv (s\<lparr>mem := (mem s)(stray s := v)\<rparr>) []"
    "managed (addr_base s) y \<Longrightarrow> same_page (mem s) ((mem s)(stray s := v)) y"
proof -
  have ok: "base_ok (addr_base s)" "kbitmap s = addr_base s"
    using assms by (auto simp: kmem_inv_def kmem_wf_def)
  have less: "unat (stray s) < unat (addr_base s)"
    using stray_below [OF ok] ok(1)
    by (auto simp: base_ok_def layout_numbers div_greater_zero_iff intro!: diff_less)
  have "base + of_nat (pidx base x div 8) \<noteq> stray s"
    if "managed base x" "base = addr_base s" for x base
    using less bitmap_address [of base x] ok(1) that by auto
  then show "kmem_inv (s\<lparr>mem := (mem s)(stray s := v)\<rparr>) []"
    using assms by (auto simp: kmem_inv_def kmem_wf_def page_bit_def)
  show "same_page (mem s) ((mem s)(stray s := v)) y" if "managed (addr_base s) y"
    using below_page [OF that, of "stray s"] less by (auto simp: same_page_def)
qed

text \<open>A client may write to the pages it holds.\<close>

definition only_page :: "uint64 \<Rightarrow> memory \<Rightarrow> memory \<Rightarrow> bool" where
  "only_page p m m' \<longleftrightarrow> (\<forall>a. \<not> within p 4096 a \<longrightarrow> m' a = m a)"

lemma only_page_memset: "only_page p m (memset m p c 4096)"
  by (simp add: only_page_def memset_closed)

lemma only_page_same:
  "only_page p m m' \<Longrightarrow> managed base p \<Longrightarrow> managed base y \<Longrightarrow> p \<noteq> y \<Longrightarrow> same_page m m' y"
  unfolding only_page_def same_page_def using page_disjoint by blast

lemma same_page_load: "same_page m m' x \<Longrightarrow> load64 m' x = load64 m x"
  by (rule load64_cong) (simp add: same_page_def within_def)

lemma kmem_inv_page_write:
  assumes "kmem_inv s xs" "managed (addr_base s) p" "p \<notin> set xs" "only_page p (mem s) m'"
  shows "kmem_inv (s\<lparr>mem := m'\<rparr>) xs"
proof -
  let ?b = "addr_base s"
  note wf = kmem_wfD [OF kmem_invD(4) [OF assms(1)]]
  have "load64 m' x = load64 (mem s) x" if "x \<in> set xs" for x
    using only_page_same [OF assms(4,2) wf(3) [OF that]] that assms(3) by (auto intro: same_page_load)
  then have "chain m' (freelist s) xs"
    using wf(4) by (metis chain_cong)
  moreover have "page_bit m' ?b (pidx ?b x) = page_bit (mem s) ?b (pidx ?b x)" if "managed ?b x" for x
    using bitmap_not_page [OF wf(1) that assms(2)] assms(4) by (simp add: page_bit_def only_page_def)
  ultimately show ?thesis
    using assms(1) by (simp add: kmem_inv_def kmem_wf_def)
qed

text \<open>
  What a client relies on: pages come off a list of free pages, a request on an empty list
  returns null, and freeing a page in use puts it back. \<open>page s\<close> are the pages the allocator
  owns, \<open>view s\<close> is memory.
\<close>

locale page_allocator =
  fixes alloc :: "('s, uint64) oper"
    and free :: "uint64 \<Rightarrow> ('s, unit) oper"
    and inv :: "'s \<Rightarrow> uint64 list \<Rightarrow> bool"
    and page :: "'s \<Rightarrow> uint64 \<Rightarrow> bool"
    and view :: "'s \<Rightarrow> memory"
  assumes alloc_some: "inv s (x # xs) \<Longrightarrow> \<exists>t. alloc s = Ret x t \<and> inv t xs \<and> page t = page s
        \<and> (\<forall>y. page s y \<longrightarrow> y \<noteq> x \<longrightarrow> same_page (view s) (view t) y)"
    and alloc_none: "inv s [] \<Longrightarrow> \<exists>t. alloc s = Ret 0 t \<and> inv t [] \<and> page t = page s
        \<and> (\<forall>y. page s y \<longrightarrow> same_page (view s) (view t) y)"
    and free_page: "inv s xs \<Longrightarrow> page s p \<Longrightarrow> p \<notin> set xs \<Longrightarrow> \<exists>t. free p s = Ret () t \<and> inv t (p # xs)
        \<and> page t = page s \<and> (\<forall>y. page s y \<longrightarrow> y \<noteq> p \<longrightarrow> same_page (view s) (view t) y)"
    and free_list: "inv s xs \<Longrightarrow> distinct xs \<and> (\<forall>x \<in> set xs. page s x) \<and> \<not> page s 0"

text \<open>
  A client: a sequence of requests, a page being freed only while the client holds it.
  The run returns the set of pages the client holds at the end.
\<close>

datatype request = Alloc | Free uint64

primrec serve :: "('s, uint64) oper \<Rightarrow> (uint64 \<Rightarrow> ('s, unit) oper) \<Rightarrow> request list \<Rightarrow> uint64 set
    \<Rightarrow> ('s, uint64 set) oper" where
  "serve alloc free [] live = ret live"
| "serve alloc free (r # rs) live =
     (case r of
        Alloc \<Rightarrow> bind alloc (\<lambda>p. serve alloc free rs (if p = 0 then live else insert p live))
      | Free p \<Rightarrow> if p \<in> live then andthen (free p) (serve alloc free rs (live - {p}))
                 else serve alloc free rs live)"

context page_allocator
begin

lemma free_then_alloc:
  assumes "inv s xs" "page s p" "p \<notin> set xs"
  shows "\<exists>t u. free p s = Ret () t \<and> alloc t = Ret p u \<and> inv u xs"
  using free_page [OF assms] alloc_some by blast

lemma serve_conserves:
  assumes "inv s xs" "live \<inter> set xs = {}" "\<And>p. p \<in> live \<Longrightarrow> page s p"
  shows "\<exists>live' t ys. serve alloc free rs live s = Ret live' t \<and> inv t ys \<and> page t = page s
    \<and> live' \<inter> set ys = {} \<and> live' \<union> set ys = live \<union> set xs"
  using assms
proof (induction rs arbitrary: s xs live)
  case (Cons r rs)
  show ?case
  proof (cases r)
    case Alloc
    show ?thesis
    proof (cases xs)
      case Nil
      then obtain t where t: "alloc s = Ret 0 t" "inv t []" "page t = page s"
        using alloc_none Cons.prems(1) by blast
      then show ?thesis
        using Cons.IH [of t "[]" live] Cons.prems Alloc Nil by simp
    next
      case (Cons x zs)
      then obtain t where t: "alloc s = Ret x t" "inv t zs" "page t = page s"
        using alloc_some Cons.prems(1) by blast
      have "x \<noteq> 0" "x \<notin> set zs" "page s x"
        using free_list [OF Cons.prems(1)] Cons by auto
      then show ?thesis
        using Cons.IH [of t zs "insert x live"] Cons.prems t Alloc Cons by auto
    qed
  next
    case (Free p)
    show ?thesis
    proof (cases "p \<in> live")
      case True
      then have "p \<notin> set xs" "page s p"
        using Cons.prems by auto
      then obtain t where t: "free p s = Ret () t" "inv t (p # xs)" "page t = page s"
        using free_page Cons.prems(1) by blast
      have "live - {p} \<union> set (p # xs) = live \<union> set xs" "(live - {p}) \<inter> set (p # xs) = {}"
        using True Cons.prems(2) by auto
      then show ?thesis
        using Cons.IH [of t "p # xs" "live - {p}"] Cons.prems t Free True by auto
    next
      case False
      then show ?thesis
        using Cons.IH [of s xs live] Cons.prems Free by simp
    qed
  qed
qed auto

end

interpretation kpages: page_allocator kalloc kfree kmem_inv "\<lambda>s. managed (addr_base s)" mem
proof
  fix s :: "'a kmem_scheme" and x xs
  assume inv: "kmem_inv s (x # xs)"
  show "\<exists>t. kalloc s = Ret x t \<and> kmem_inv t xs \<and> managed (addr_base t) = managed (addr_base s)
      \<and> (\<forall>y. managed (addr_base s) y \<longrightarrow> y \<noteq> x \<longrightarrow> same_page (mem s) (mem t) y)"
    using kmem_inv_alloc [OF inv] kmem_invD(1) [OF inv] kmem_invD(3) [OF inv, of x]
    by (auto simp: kalloc_run [OF inv] intro!: alloc_mem_same)
next
  fix s :: "'a kmem_scheme"
  assume inv: "kmem_inv s []"
  obtain v where "kalloc s = Ret 0 (settle (s\<lparr>mem := (mem s)(stray s := v)\<rparr>))"
    using kalloc_run_stray [OF inv] by blast
  then show "\<exists>t. kalloc s = Ret 0 t \<and> kmem_inv t [] \<and> managed (addr_base t) = managed (addr_base s)
      \<and> (\<forall>y. managed (addr_base s) y \<longrightarrow> same_page (mem s) (mem t) y)"
    using kmem_inv_stray [OF inv] by simp
next
  fix s :: "'a kmem_scheme" and xs p
  assume inv: "kmem_inv s xs" and p: "managed (addr_base s) p" "p \<notin> set xs"
  show "\<exists>t. kfree p s = Ret () t \<and> kmem_inv t (p # xs) \<and> managed (addr_base t) = managed (addr_base s)
      \<and> (\<forall>y. managed (addr_base s) y \<longrightarrow> y \<noteq> p \<longrightarrow> same_page (mem s) (mem t) y)"
    using kmem_inv_free [OF inv p] kmem_invD(1) [OF inv] p(1)
    by (auto simp: kfree_run [OF inv p] intro!: freed_mem_same)
next
  fix s :: "'a kmem_scheme" and xs
  assume inv: "kmem_inv s xs"
  show "distinct xs \<and> (\<forall>x \<in> set xs. managed (addr_base s) x) \<and> \<not> managed (addr_base s) 0"
    using kmem_invD [OF inv] managed_nonzero by blast
qed

section \<open>Initialisation\<close>

lemma PGROUNDDOWN_div: "PGROUNDDOWN x = (x div 4096) * 4096"
proof -
  have "PGSIZE - 1 = mask 12"
    by (simp add: PGSIZE_def mask_eq_exp_minus_1)
  moreover have "x AND NOT (mask 12) = push_bit 12 (drop_bit 12 x)"
    by (rule bit_eqI) (auto simp: bit_simps)
  ultimately show ?thesis
    by (simp add: PGROUNDDOWN_def push_bit_eq_mult drop_bit_eq_div)
qed

lemma unat_PGROUNDDOWN: "unat (PGROUNDDOWN a) = unat a div 4096 * 4096"
proof -
  have "unat a div 4096 * 4096 \<le> unat a"
    by simp
  also have "\<dots> < 2 ^ 64"
    using unsigned_less [where ?'a = nat, of a] by simp
  finally have "unat a div 4096 * 4096 < 2 ^ 64" .
  then show ?thesis
    by (simp add: PGROUNDDOWN_div unat_word_ariths unat_div)
qed

lemma unat_PGROUNDUP:
  assumes "unat a + 4095 < 2 ^ 64"
  shows "unat (PGROUNDUP a) = (unat a + 4095) div 4096 * 4096"
proof -
  have "PGROUNDUP a = PGROUNDDOWN (a + 4095)"
    by (simp add: PGROUNDUP_def PGROUNDDOWN_def PGSIZE_def add.commute)
  moreover have "unat (a + 4095) = unat a + 4095"
    using assms by (simp add: unat_word_ariths)
  ultimately show ?thesis
    by (simp add: unat_PGROUNDDOWN)
qed

lemma managed_split:
  assumes "managed base p"
  shows "{x. managed base x \<and> unat p \<le> unat x} = insert p {x. managed base x \<and> unat p + 4096 \<le> unat x}"
proof -
  have "unat p + 4096 \<le> unat x" if x: "managed base x" "unat p \<le> unat x" "x \<noteq> p" for x
  proof -
    have "unat p \<noteq> unat x"
      using x(3) by (simp add: word_unat_eq_iff)
    moreover have "unat x = unat p + 4096 * ((unat x - unat p) div 4096)"
      using x assms by (intro aligned_minus) (simp_all add: managed_def)
    ultimately show ?thesis
      by (cases "(unat x - unat p) div 4096") auto
  qed
  then show ?thesis
    using assms by auto
qed

lemma freerange_loop_run:
  assumes "kmem_inv s xs" "base = addr_base s" "unat p mod 4096 = 0"
    and "unat base + 4096 * meta_pages base \<le> unat p" "unat p \<le> unat PHYSTOP"
    and "\<And>x. x \<in> set xs \<Longrightarrow> unat x < unat p" "(unat PHYSTOP - unat p) div 4096 \<le> k"
  shows "\<exists>t ys. freerange_loop k p PHYSTOP s = Ret () t \<and> kmem_inv t ys \<and> addr_base t = base
    \<and> set ys = set xs \<union> {x. managed base x \<and> unat p \<le> unat x}"
  using assms
proof (induction k arbitrary: p s xs)
  case 0
  have "(unat PHYSTOP - unat p) div 4096 = 0"
    using "0.prems"(7) by simp
  then have "unat PHYSTOP < unat p + 4096"
    by (simp add: div_eq_0_iff)
  moreover have "unat (p + PGSIZE) = unat p + 4096"
    using "0.prems"(5) by (simp add: PGSIZE_def layout_numbers unat_word_ariths)
  ultimately show ?case
    using "0.prems"(1,2) by (auto simp: word_le_nat_alt managed_def)
next
  case (Suc k)
  have next_p: "unat (p + PGSIZE) = unat p + 4096"
    using Suc.prems(5) by (simp add: PGSIZE_def layout_numbers unat_word_ariths)
  show ?case
  proof (cases "unat p + 4096 \<le> unat PHYSTOP")
    case False
    with next_p Suc.prems(1,2) show ?thesis
      by (auto simp: word_le_nat_alt managed_def)
  next
    case True
    then have p: "managed base p" "p \<notin> set xs"
      using Suc.prems(3,4,6) by (auto simp: managed_def)
    let ?s = "settle (s\<lparr>mem := freed_mem (mem s) (freelist s) (addr_base s) p, freelist := p\<rparr>)"
    have run: "kfree p s = Ret () ?s"
      using p Suc.prems(1,2) by (intro kfree_run) auto
    have inv: "kmem_inv ?s (p # xs)"
      using kmem_inv_free [OF Suc.prems(1)] p Suc.prems(2) by simp
    have "\<exists>t ys. freerange_loop k (p + PGSIZE) PHYSTOP ?s = Ret () t \<and> kmem_inv t ys \<and> addr_base t = base
        \<and> set ys = set (p # xs) \<union> {x. managed base x \<and> unat (p + PGSIZE) \<le> unat x}"
    proof (rule Suc.IH [OF inv])
      show "(unat PHYSTOP - unat (p + PGSIZE)) div 4096 \<le> k"
        using Suc.prems(7) True unfolding next_p by linarith
      show "unat (p + PGSIZE) mod 4096 = 0"
        using Suc.prems(3) unfolding next_p by simp
      show "\<And>x. x \<in> set (p # xs) \<Longrightarrow> unat x < unat (p + PGSIZE)"
        using Suc.prems(6) unfolding next_p by fastforce
    qed (use Suc.prems True next_p in simp_all)
    moreover have "freerange_loop (Suc k) p PHYSTOP s = freerange_loop k (p + PGSIZE) PHYSTOP ?s"
      using run True next_p by (simp add: word_le_nat_alt)
    ultimately show ?thesis
      unfolding managed_split [OF p(1)] next_p by auto
  qed
qed

lemma sdiv_nonneg: "0 \<le> a \<Longrightarrow> 0 < b \<Longrightarrow> a sdiv b = a div (b :: int)"
  by (cases "a = 0") (simp_all add: signed_divide_int_def sgn_if)

lemma freerange_counts:
  assumes "base_ok p"
  shows "((sint (PHYSTOP - p) + 4096 - 1) sdiv 4096 + 8 * 4096 - 1) sdiv (8 * 4096) = int (meta_pages p)"
proof -
  define n where "n = 557056 - unat p div 4096"
  have p: "unat p = 4096 * (unat p div 4096)" "unat p \<le> 2281701376" "2147483648 \<le> unat p"
    using assms by (auto simp: base_ok_def layout_numbers)
  have n: "2281701376 - unat p = 4096 * n" "n \<le> 32768"
    using p unfolding n_def by linarith+
  have "unat (PHYSTOP - p) = 4096 * n"
    using p(2) n(1) by (simp add: unat_sub_if' layout_numbers)
  then have "uint (PHYSTOP - p) = 4096 * int n"
    by (simp add: uint_nat)
  then have "sint (PHYSTOP - p) = 4096 * int n"
    using n(2) by (simp add: sint_uint signed_take_bit_int_eq_self)
  then have "(sint (PHYSTOP - p) + 4096 - 1) sdiv 4096 = int n"
    by (simp add: sdiv_nonneg)
  moreover have "meta_pages p = (n + 32767) div 32768"
    by (simp add: meta_pages_def layout_numbers n(1))
  ultimately show ?thesis
    by (simp add: sdiv_nonneg zdiv_int)
qed

lemma meta_pages_fit:
  assumes "base_ok p"
  shows "meta_pages p \<le> 1" "unat p + 4096 * meta_pages p \<le> unat PHYSTOP"
proof -
  define N where "N = (unat PHYSTOP - unat p) div 4096"
  have N: "N \<le> 32768" "4096 * N \<le> unat PHYSTOP - unat p" "meta_pages p = (N + 32767) div 32768"
    using assms div_le_mono [of "unat PHYSTOP - unat p" 134217728 4096]
    by (auto simp: N_def meta_pages_def base_ok_def layout_numbers)
  show one: "meta_pages p \<le> 1"
    using N(1) div_le_mono [of "N + 32767" 65535 32768] by (simp add: N(3))
  have "meta_pages p \<le> N"
    using one by (cases N) (simp_all add: N(3))
  then show "unat p + 4096 * meta_pages p \<le> unat PHYSTOP"
    using N(2) assms unfolding base_ok_def by linarith
qed

lemma meta_bytes:
  assumes "base_ok p"
  shows "unat (word_of_int (int (meta_pages p) * 4096) :: uint) = 4096 * meta_pages p"
    "unat (word_of_int (int (meta_pages p) * 4096) :: uint64) = 4096 * meta_pages p"
  using meta_pages_fit(1) [OF assms] by (cases "meta_pages p"; auto)+

text \<open>The state in which \<^verbatim>\<open>freerange\<close> starts to free pages: every page is marked as used.\<close>

lemma kmem_inv_start:
  assumes "base_ok p" "hart_ok s" "idle LKmem s" "kend s \<le> p" "freelist s = 0"
    and "unat n = 4096 * meta_pages p"
  shows "kmem_inv (s\<lparr>addr_base := p, kbitmap := p, mem := memset m p 0xff n\<rparr>) []"
proof -
  have "page_bit (memset m p 0xff n) p (pidx p x)" if "managed p x" for x
  proof -
    have "within p (4096 * meta_pages p) (p + of_nat (pidx p x div 8))"
      using pidx_bounds [OF assms(1) that] meta_pages_fit(1) [OF assms(1)]
      by (intro within_offset) auto
    moreover have "bit (0xff :: byte) i" if "i < 8" for i
      using bit_mask_iff [of 8 i, where ?'a = byte] that by (simp add: mask_eq_exp_minus_1)
    ultimately show ?thesis
      by (simp add: page_bit_def memset_closed assms(6))
  qed
  then show ?thesis
    using assms by (simp add: kmem_inv_def kmem_wf_def)
qed

lemma PGROUNDUP_base:
  assumes "KERNBASE \<le> e" "e \<le> PHYSTOP"
  shows "base_ok (PGROUNDUP e)" "e \<le> PGROUNDUP e"
proof -
  have e: "2147483648 \<le> unat e" "unat e \<le> 2281701376"
    using assms by (simp_all add: word_le_nat_alt layout_numbers)
  then have up: "unat (PGROUNDUP e) = (unat e + 4095) div 4096 * 4096"
    by (intro unat_PGROUNDUP) simp
  have "unat e \<le> (unat e + 4095) div 4096 * 4096"
    using div_mult_mod_eq [of "unat e + 4095" 4096] mod_less_divisor [of 4096 "unat e + 4095"]
    by linarith
  moreover have "(unat e + 4095) div 4096 \<le> 557056"
    using div_le_mono [of "unat e + 4095" 2281705471 4096] e(2) by simp
  ultimately show "base_ok (PGROUNDUP e)" "e \<le> PGROUNDUP e"
    using e by (simp_all add: base_ok_def layout_numbers word_le_nat_alt up)
qed

lemma freerange_run:
  assumes "base_ok (PGROUNDUP e)" "hart_ok s" "idle LKmem s" "kend s \<le> PGROUNDUP e" "freelist s = 0"
  shows "\<exists>t ys. freerange e PHYSTOP s = Ret () t \<and> kmem_inv t ys \<and> addr_base t = PGROUNDUP e
    \<and> set ys = {x. managed (PGROUNDUP e) x}"
proof -
  define p where "p = PGROUNDUP e"
  define n :: uint where "n = word_of_int (int (meta_pages p) * 4096)"
  let ?q = "p + word_of_int (int (meta_pages p) * 4096)"
  let ?s = "s\<lparr>addr_base := p, kbitmap := p, mem := memset (memset (mem s) p 0 n) p 0xff n\<rparr>"
  have ok: "base_ok p"
    using assms(1) by (simp add: p_def)
  have inv: "kmem_inv ?s []"
    by (rule kmem_inv_start) (use assms ok meta_bytes(1) [OF ok] in \<open>simp_all add: p_def n_def\<close>)
  have q: "unat ?q = unat p + 4096 * meta_pages p"
    using meta_bytes(2) [OF ok] meta_pages_fit(2) [OF ok] by (simp add: unat_word_ariths layout_numbers)
  have "\<exists>t ys. freerange_loop (unat PHYSTOP div 4096) ?q PHYSTOP ?s = Ret () t \<and> kmem_inv t ys
      \<and> addr_base t = p \<and> set ys = set [] \<union> {x. managed p x \<and> unat ?q \<le> unat x}"
  proof (rule freerange_loop_run [OF inv])
    show "(unat PHYSTOP - unat ?q) div 4096 \<le> unat PHYSTOP div 4096"
      by (rule div_le_mono) simp
  qed (use q ok meta_pages_fit(2) [OF ok] in \<open>simp_all add: base_ok_def\<close>)
  moreover have "freerange e PHYSTOP s = freerange_loop (unat PHYSTOP div 4096) ?q PHYSTOP ?s"
    using freerange_counts [OF ok] by (simp add: freerange_def Let_def p_def [symmetric] n_def)
  moreover have "{x. managed p x \<and> unat ?q \<le> unat x} = {x. managed p x}"
    unfolding q by (auto simp: managed_def)
  ultimately show ?thesis
    unfolding p_def [symmetric] by simp
qed

text \<open>
  C9. Booting: with the image ending at \<^verbatim>\<open>end\<close> between \<^verbatim>\<open>KERNBASE\<close> and \<^verbatim>\<open>PHYSTOP\<close>, \<^verbatim>\<open>kinit\<close>
  ends without a panic and establishes the allocator's invariant, with every page between the
  bitmap and \<^verbatim>\<open>PHYSTOP\<close> on the free list.
\<close>

theorem kinit_establishes:
  assumes "hart_ok s" "freelist s = 0" "KERNBASE \<le> kend s" "kend s \<le> PHYSTOP"
  shows "\<exists>t ys. kinit s = Ret () t \<and> kmem_inv t ys \<and> addr_base t = PGROUNDUP (kend s)
    \<and> set ys = {x. managed (PGROUNDUP (kend s)) x}"
proof -
  have "hart_ok (initlock LKmem ''kmem'' s)" "idle LKmem (initlock LKmem ''kmem'' s)"
    using assms(1) by (simp_all add: initlock_def hart_ok_def idle_def machine_defs intr_get_def)
  moreover have "kend (initlock LKmem ''kmem'' s) = kend s" "freelist (initlock LKmem ''kmem'' s) = 0"
    using assms(2) by (simp_all add: initlock_def)
  ultimately show ?thesis
    using freerange_run [of "kend s" "initlock LKmem ''kmem'' s"] PGROUNDUP_base [OF assms(3,4)]
    by (simp add: kinit_def)
qed

section \<open>Properties of the allocator\<close>

text \<open>
  A machine with two pages above the kernel image: one holds the bitmap, the other is on the
  free list (\<open>free\<close>) or in use.
\<close>

definition tiny_kmem :: "bool \<Rightarrow> kmem" where
  "tiny_kmem free = \<lparr>tp = 0, sstatus = (\<lambda>_. 0), cpus = (\<lambda>_. \<lparr>c_proc = None, noff = 0, intena = False\<rparr>),
     locks = (\<lambda>_. \<lparr>locked = False, lk_name = [], lk_cpu = None\<rparr>),
     mem = (\<lambda>a. if a = 0x87FFE000 then (if free then 0xFD else 0xFF) else 0),
     freelist = (if free then 0x87FFF000 else 0), kbitmap = 0x87FFE000, addr_base = 0x87FFE000,
     kend = 0x87FFE000\<rparr>"

lemma tiny_managed: "managed 0x87FFE000 x \<longleftrightarrow> x = 0x87FFF000"
proof
  assume "managed 0x87FFE000 x"
  then have "unat x = unat (0x87FFF000 :: uint64)"
    by (simp add: managed_def meta_pages_def layout_numbers)
  then show "x = 0x87FFF000"
    by (simp only: word_unat_eq_iff)
qed (simp add: managed_def meta_pages_def layout_numbers)

lemma tiny_kmem_fields [simp]:
  "hart_ok (tiny_kmem b)" "idle L (tiny_kmem b)" "addr_base (tiny_kmem b) = 0x87FFE000"
  "kend (tiny_kmem b) = 0x87FFE000" "freelist (tiny_kmem b) = (if b then 0x87FFF000 else 0)"
  by (simp_all add: tiny_kmem_def hart_ok_def idle_def machine_defs)

lemma tiny_kmem_inv: "kmem_inv (tiny_kmem free) (if free then [0x87FFF000] else [])"
proof -
  have "base_ok 0x87FFE000" "pidx 0x87FFE000 0x87FFF000 = 1"
    by (simp_all add: base_ok_def layout_numbers pidx_def)
  moreover have "load64 (mem (tiny_kmem True)) 0x87FFF000 = 0"
    by (simp add: tiny_kmem_def load64_def)
  moreover have "page_bit (mem (tiny_kmem free)) 0x87FFE000 1 \<longleftrightarrow> \<not> free"
    by (simp add: tiny_kmem_def page_bit_def bit_numeral_simps)
  ultimately show ?thesis
    by (simp add: kmem_inv_def kmem_wf_def tiny_managed) (simp add: tiny_kmem_def)
qed

theorem kinit_establishes_witness:
  "\<exists>t ys. kinit (tiny_kmem False) = Ret () t \<and> kmem_inv t ys \<and> set ys = {0x87FFF000}"
proof -
  have "PGROUNDUP 0x87FFE000 = 0x87FFE000"
    by (simp add: PGROUNDUP_def PGSIZE_def)
  then show ?thesis
    using kinit_establishes [of "tiny_kmem False"]
    by (auto simp: KERNBASE_def PHYSTOP_def tiny_managed)
qed

text \<open>
  C10. \<^verbatim>\<open>kalloc\<close> with a non-empty free list returns its first page, filled with the
  byte 5, takes it off the list and marks it as used; every other page keeps its contents.
\<close>

theorem kalloc_returns_free_page:
  assumes "kmem_inv s (x # xs)"
  shows "\<exists>t. kalloc s = Ret x t \<and> x \<noteq> 0 \<and> kmem_inv t xs \<and> managed (addr_base s) x
    \<and> (\<forall>a. within x 4096 a \<longrightarrow> mem t a = 5)
    \<and> (\<forall>y. managed (addr_base s) y \<and> y \<noteq> x \<longrightarrow> same_page (mem s) (mem t) y)"
proof -
  note run = kalloc_run [OF assms] and inv = kmem_inv_alloc [OF assms]
  have x: "base_ok (addr_base s)" "managed (addr_base s) x" "x \<noteq> 0"
    using kmem_invD(1) [OF assms] kmem_invD(3) [OF assms, of x] managed_nonzero by auto
  have "alloc_mem (mem s) (addr_base s) x a = 5" if "within x 4096 a" for a
    using that by (simp add: alloc_mem_def memset_closed)
  then show ?thesis
    using run inv x by (auto intro: alloc_mem_same)
qed

theorem kalloc_returns_free_page_witness:
  "kmem_inv (tiny_kmem True) [0x87FFF000] \<and> (\<exists>t. kalloc (tiny_kmem True) = Ret 0x87FFF000 t
    \<and> kmem_inv t [] \<and> mem t 0x87FFF123 = 5)"
proof -
  have "within 0x87FFF000 4096 0x87FFF123"
    by (simp add: within_def)
  then show ?thesis
    using tiny_kmem_inv [of True] kalloc_returns_free_page [of "tiny_kmem True" "0x87FFF000" "[]"] by auto
qed

text \<open>
  C11. \<^verbatim>\<open>kfree\<close> of a page in use puts it at the head of the free list and keeps the
  contents of every other page; freeing a page that is already free panics.
\<close>

theorem kfree_accepts_used_page:
  assumes "kmem_inv s xs" "managed (addr_base s) p"
  shows "if p \<in> set xs then fault_of (kfree p s) = Some (Panic ''kfree: double free'')
    else \<exists>t. kfree p s = Ret () t \<and> kmem_inv t (p # xs)
      \<and> (\<forall>y. managed (addr_base s) y \<and> y \<noteq> p \<longrightarrow> same_page (mem s) (mem t) y)"
proof (cases "p \<in> set xs")
  case True
  then show ?thesis by (simp add: kfree_free_page [OF assms(1)])
next
  case False
  then show ?thesis using kpages.free_page [OF assms False] by auto
qed

theorem kfree_accepts_used_page_witness:
  "(\<exists>t. kfree 0x87FFF000 (tiny_kmem False) = Ret () t \<and> kmem_inv t [0x87FFF000])
   \<and> fault_of (kfree 0x87FFF000 (tiny_kmem True)) = Some (Panic ''kfree: double free'')"
  using tiny_kmem_inv [of True] tiny_kmem_inv [of False]
    kfree_accepts_used_page [of "tiny_kmem False" "[]" "0x87FFF000"]
    kfree_accepts_used_page [of "tiny_kmem True" "[0x87FFF000]" "0x87FFF000"]
  by (auto simp: tiny_managed)

text \<open>
  C12. No page is lost or handed out twice: over any sequence of allocations and frees of
  pages it holds, a client never causes a panic, and the pages it holds and the pages on
  the free list always partition the pages there were at the start.
\<close>

theorem kalloc_conserves_pages:
  assumes "kmem_inv s xs"
  shows "\<exists>live t ys. serve kalloc kfree rs {} s = Ret live t \<and> kmem_inv t ys
    \<and> live \<inter> set ys = {} \<and> live \<union> set ys = set xs"
  using kpages.serve_conserves [OF assms, of "{}" rs] by auto

theorem kalloc_conserves_pages_witness:
  "\<exists>live t ys. serve kalloc kfree [Alloc, Alloc, Free 0x87FFF000, Alloc] {} (tiny_kmem True) = Ret live t
    \<and> kmem_inv t ys \<and> live \<inter> set ys = {} \<and> live \<union> set ys = {0x87FFF000}"
  using kalloc_conserves_pages [of "tiny_kmem True" "[0x87FFF000]"
    "[Alloc, Alloc, Free 0x87FFF000, Alloc]"] tiny_kmem_inv [of True] by simp

lemma stray_bit:
  assumes "base_ok (addr_base s)" "unat (addr_base s) div 4096 mod 8 = 0"
  shows "to_int (PAGE_INDEX 0 s) smod 8 = 0"
proof -
  obtain j where "unat (addr_base s) div 4096 = 8 * j"
    using assms(2) by (auto simp: mod_eq_0_iff_dvd)
  then show ?thesis
    using stray_index [OF assms(1)] by (simp add: signed_modulo_int_def signed_divide_int_def sgn_if)
qed



end
