(* ===== verification/Pagetable.thy ===== *)
theory Pagetable
  imports Kalloc
begin

text \<open>
  Sv39 page tables: the macros of \<^verbatim>\<open>include/riscv.h\<close> and the operations of
  \<^verbatim>\<open>kernel/mm/vm.c\<close> that work on page tables in memory. A \<^verbatim>\<open>pagetable_t\<close> or \<^verbatim>\<open>pte_t*\<close>
  is an address; page-table pages come from \<^verbatim>\<open>kalloc\<close>.
\<close>

section \<open>Page-table entries (riscv.h)\<close>

definition PTE_V :: uint64 where "PTE_V = push_bit 0 1"
definition PTE_R :: uint64 where "PTE_R = push_bit 1 1"
definition PTE_W :: uint64 where "PTE_W = push_bit 2 1"
definition PTE_X :: uint64 where "PTE_X = push_bit 3 1"
definition PTE_U :: uint64 where "PTE_U = push_bit 4 1"

definition PA2PTE :: "uint64 \<Rightarrow> uint64" where
  "PA2PTE pa = push_bit 10 (drop_bit 12 pa)"

definition PTE2PA :: "uint64 \<Rightarrow> uint64" where
  "PTE2PA pte = push_bit 12 (drop_bit 10 pte)"

definition PTE_FLAGS :: "uint64 \<Rightarrow> uint64" where
  "PTE_FLAGS pte = pte AND 0x3FF"

definition PXSHIFT :: "nat \<Rightarrow> nat" where
  "PXSHIFT level = 12 + 9 * level"

definition PX :: "nat \<Rightarrow> uint64 \<Rightarrow> uint64" where
  "PX level va = drop_bit (PXSHIFT level) va AND 0x1FF"

definition MAXVA :: uint64 where
  "MAXVA = push_bit (9 + 9 + 9 + 12 - 1) 1"

definition TRAMPOLINE :: uint64 where
  "TRAMPOLINE = MAXVA - PGSIZE"

definition TRAPFRAME :: uint64 where
  "TRAPFRAME = TRAMPOLINE - PGSIZE"

definition KSTACK :: "nat \<Rightarrow> uint64" where
  "KSTACK p = TRAMPOLINE - (of_nat p + 1) * 2 * PGSIZE"

definition MAKE_SATP :: "uint64 \<Rightarrow> uint64" where
  "MAKE_SATP pagetable = push_bit 60 8 OR drop_bit 12 pagetable"

section \<open>walk, mapPages and their clients (vm.c)\<close>

definition read64 :: "uint64 \<Rightarrow> ('z kmem_scheme, uint64) oper" where
  "read64 a = gets (\<lambda>s. load64 (mem s) a)"

definition write64 :: "uint64 \<Rightarrow> uint64 \<Rightarrow> ('z kmem_scheme, unit) oper" where
  "write64 a v = modify (\<lambda>s. s\<lparr>mem := store64 (mem s) a v\<rparr>)"

definition fill :: "uint64 \<Rightarrow> byte \<Rightarrow> ('z kmem_scheme, unit) oper" where
  "fill p c = modify (\<lambda>s. s\<lparr>mem := memset (mem s) p c 4096\<rparr>)"

text \<open>The loop of \<^verbatim>\<open>walk\<close>, from \<open>level\<close> down to 1.\<close>

primrec walk_loop :: "nat \<Rightarrow> uint64 \<Rightarrow> uint64 \<Rightarrow> bool \<Rightarrow> ('z kmem_scheme, uint64) oper" where
  "walk_loop 0 pagetable va alloc = ret (pagetable + 8 * PX 0 va)"
| "walk_loop (Suc level) pagetable va alloc =
     (let pte = pagetable + 8 * PX (Suc level) va
      in bind (read64 pte) (\<lambda>e.
         if e AND PTE_V \<noteq> 0 then walk_loop level (PTE2PA e) va alloc
         else if \<not> alloc then ret 0
         else bind kalloc (\<lambda>p.
           if p = 0 then ret 0
           else andthen (fill p 0)
             (andthen (write64 pte (PA2PTE p OR PTE_V)) (walk_loop level p va alloc)))))"

definition walk :: "uint64 \<Rightarrow> uint64 \<Rightarrow> bool \<Rightarrow> ('z kmem_scheme, uint64) oper" where
  "walk pagetable va alloc = (if va \<ge> MAXVA then panic ''walk'' else walk_loop 2 pagetable va alloc)"

text \<open>
  The loop of \<^verbatim>\<open>mapPages\<close>: \<open>n\<close> is the number of pages still to map after this one. The
  messages of the panics are those of the source, in translation.
\<close>

primrec mapPages_loop :: "nat \<Rightarrow> uint64 \<Rightarrow> uint64 \<Rightarrow> uint64 \<Rightarrow> uint64 \<Rightarrow> ('z kmem_scheme, int) oper" where
  "mapPages_loop 0 pagetable a pa perm =
     bind (walk pagetable a True) (\<lambda>pte.
     if pte = 0 then ret (- 1)
     else bind (read64 pte) (\<lambda>e.
       if e AND PTE_V \<noteq> 0 then panic ''mappages: remap''
       else andthen (write64 pte (PA2PTE pa OR perm OR PTE_V)) (ret 0)))"
| "mapPages_loop (Suc n) pagetable a pa perm =
     bind (walk pagetable a True) (\<lambda>pte.
     if pte = 0 then ret (- 1)
     else bind (read64 pte) (\<lambda>e.
       if e AND PTE_V \<noteq> 0 then panic ''mappages: remap''
       else andthen (write64 pte (PA2PTE pa OR perm OR PTE_V))
         (mapPages_loop n pagetable (a + PGSIZE) (pa + PGSIZE) perm)))"

text \<open>
  The loop ends at \<^verbatim>\<open>a == va + size - PGSIZE\<close>; with \<open>va\<close> and \<open>size\<close> multiples of the page size
  and \<open>size > 0\<close> this is after exactly \<open>size / PGSIZE\<close> pages, also if the addresses wrap.
\<close>

definition mapPages :: "uint64 \<Rightarrow> uint64 \<Rightarrow> uint64 \<Rightarrow> uint64 \<Rightarrow> uint64 \<Rightarrow> ('z kmem_scheme, int) oper" where
  "mapPages pagetable va sz pa perm =
     (if va mod PGSIZE \<noteq> 0 then panic ''mappages: va not aligned''
      else if sz mod PGSIZE \<noteq> 0 then panic ''mappages: size not aligned''
      else if sz = 0 then panic ''mappages: size''
      else mapPages_loop (unat (sz div PGSIZE) - 1) pagetable va pa perm)"

definition kVmMap :: "uint64 \<Rightarrow> uint64 \<Rightarrow> uint64 \<Rightarrow> uint64 \<Rightarrow> uint64 \<Rightarrow> ('z kmem_scheme, unit) oper" where
  "kVmMap kpgtbl va pa sz perm =
     bind (mapPages kpgtbl va sz pa perm) (\<lambda>r. if r \<noteq> 0 then panic ''kVmmap'' else ret ())"

definition uVmCreate :: "('z kmem_scheme, uint64) oper" where
  "uVmCreate = bind kalloc (\<lambda>pagetable.
     if pagetable = 0 then ret 0 else andthen (fill pagetable 0) (ret pagetable))"

definition uvmclear :: "uint64 \<Rightarrow> uint64 \<Rightarrow> ('z kmem_scheme, unit) oper" where
  "uvmclear pagetable va =
     bind (walk pagetable va False) (\<lambda>pte.
     if pte = 0 then panic ''uvmclear''
     else bind (read64 pte) (\<lambda>e. write64 pte (e AND NOT PTE_U)))"

definition ismapped :: "uint64 \<Rightarrow> uint64 \<Rightarrow> ('z kmem_scheme, bool) oper" where
  "ismapped pagetable va =
     bind (walk pagetable va False) (\<lambda>pte.
     if pte = 0 then ret False else bind (read64 pte) (\<lambda>e. ret (e AND PTE_V \<noteq> 0)))"

definition uVA2PA :: "uint64 \<Rightarrow> uint64 \<Rightarrow> ('z kmem_scheme, uint64) oper" where
  "uVA2PA pagetable va =
     (if va \<ge> MAXVA then ret 0
      else bind (walk pagetable va False) (\<lambda>pte.
        if pte = 0 then ret 0
        else bind (read64 pte) (\<lambda>e.
          if e AND PTE_V = 0 then ret 0
          else if e AND PTE_U = 0 then ret 0
          else ret (PTE2PA e))))"

text \<open>
  The loop of \<^verbatim>\<open>uVmUnmap\<close> runs while \<open>a < va + npages * PGSIZE\<close>, a bound computed with
  wrap-around; \<open>stop\<close> is that bound. Its fuel, the number of pages of the address space,
  is never used up: \<open>walk\<close> panics as soon as \<open>a\<close> reaches \<open>MAXVA\<close>.
\<close>

primrec uVmUnmap_loop :: "nat \<Rightarrow> uint64 \<Rightarrow> uint64 \<Rightarrow> uint64 \<Rightarrow> bool \<Rightarrow> ('z kmem_scheme, unit) oper" where
  "uVmUnmap_loop 0 pagetable a stop do_free = Fault Diverge"
| "uVmUnmap_loop (Suc k) pagetable a stop do_free =
     (if a < stop
      then andthen
        (bind (walk pagetable a False) (\<lambda>pte.
         if pte = 0 then ret ()
         else bind (read64 pte) (\<lambda>e.
           if e AND PTE_V = 0 then ret ()
           else andthen (whenM do_free (kfree (PTE2PA e))) (write64 pte 0))))
        (uVmUnmap_loop k pagetable (a + PGSIZE) stop do_free)
      else ret ())"

definition uVmUnmap :: "uint64 \<Rightarrow> uint64 \<Rightarrow> uint64 \<Rightarrow> bool \<Rightarrow> ('z kmem_scheme, unit) oper" where
  "uVmUnmap pagetable va npages do_free =
     (if va mod PGSIZE \<noteq> 0 then panic ''uvmunmap: not aligned''
      else uVmUnmap_loop (2 ^ 26 + 2) pagetable va (va + npages * PGSIZE) do_free)"

text \<open>
  \<^verbatim>\<open>freePgtbl\<close> recurses over the levels of the tree; on a cyclic structure it would not end.
  The fuel of three levels is the depth of Sv39.
\<close>

primrec freePgtbl :: "nat \<Rightarrow> uint64 \<Rightarrow> ('z kmem_scheme, unit) oper" where
  "freePgtbl 0 pagetable = Fault Diverge"
| "freePgtbl (Suc depth) pagetable =
     andthen
       (forM [0..<512] (\<lambda>i.
          bind (read64 (pagetable + 8 * of_nat i)) (\<lambda>pte.
          if pte AND PTE_V \<noteq> 0 \<and> pte AND (PTE_R OR PTE_W OR PTE_X) = 0
          then andthen (freePgtbl depth (PTE2PA pte)) (write64 (pagetable + 8 * of_nat i) 0)
          else if pte AND PTE_V \<noteq> 0 then panic ''freePgtbl: leaf''
          else ret ())))
       (kfree pagetable)"

definition uVmFree :: "uint64 \<Rightarrow> uint64 \<Rightarrow> ('z kmem_scheme, unit) oper" where
  "uVmFree pagetable sz =
     andthen (whenM (sz > 0) (uVmUnmap pagetable 0 (PGROUNDUP sz div PGSIZE) True))
       (freePgtbl 3 pagetable)"

text \<open>The loop of \<^verbatim>\<open>uVmAlloc\<close>; \<open>oldsz\<close> is the rounded old size it frees up to on failure.\<close>

primrec uVmAlloc_loop :: "nat \<Rightarrow> uint64 \<Rightarrow> uint64 \<Rightarrow> uint64 \<Rightarrow> uint64 \<Rightarrow> uint64 \<Rightarrow> ('z kmem_scheme, uint64) oper" where
  "uVmAlloc_loop 0 pagetable oldsz a newsz xperm = Fault Diverge"
| "uVmAlloc_loop (Suc k) pagetable oldsz a newsz xperm =
     (if a < newsz
      then bind kalloc (\<lambda>p.
        if p = 0 then andthen (uVmFree pagetable oldsz) (ret 0)
        else andthen (fill p 0)
          (bind (mapPages pagetable a PGSIZE p (PTE_U OR PTE_R OR xperm)) (\<lambda>r.
           if r \<noteq> 0 then andthen (kfree p) (andthen (uVmFree pagetable oldsz) (ret 0))
           else uVmAlloc_loop k pagetable oldsz (a + PGSIZE) newsz xperm)))
      else ret newsz)"

definition uVmAlloc :: "uint64 \<Rightarrow> uint64 \<Rightarrow> uint64 \<Rightarrow> uint64 \<Rightarrow> ('z kmem_scheme, uint64) oper" where
  "uVmAlloc pagetable oldsz newsz xperm =
     (if newsz < oldsz then ret oldsz
      else uVmAlloc_loop (2 ^ 26 + 2) pagetable (PGROUNDUP oldsz) (PGROUNDUP oldsz) newsz xperm)"

definition uVmDealloc :: "uint64 \<Rightarrow> uint64 \<Rightarrow> uint64 \<Rightarrow> ('z kmem_scheme, uint64) oper" where
  "uVmDealloc pagetable oldsz newsz =
     (if newsz \<ge> oldsz then ret oldsz
      else andthen
        (whenM (PGROUNDUP newsz < PGROUNDUP oldsz)
          (uVmUnmap pagetable (PGROUNDUP newsz)
            (word_of_int (to_int ((PGROUNDUP oldsz - PGROUNDUP newsz) div PGSIZE))) True))
        (ret newsz))"

primrec uvmcopy_loop :: "nat \<Rightarrow> uint64 \<Rightarrow> uint64 \<Rightarrow> uint64 \<Rightarrow> uint64 \<Rightarrow> ('z kmem_scheme, int) oper" where
  "uvmcopy_loop 0 old new i sz = Fault Diverge"
| "uvmcopy_loop (Suc k) old new i sz =
     (if i < sz
      then bind (walk old i False) (\<lambda>pte.
        if pte = 0 then uvmcopy_loop k old new (i + PGSIZE) sz
        else bind (read64 pte) (\<lambda>e.
          if e AND PTE_V = 0 then uvmcopy_loop k old new (i + PGSIZE) sz
          else bind kalloc (\<lambda>p.
            if p = 0 then andthen (uVmUnmap new 0 (i div PGSIZE) True) (ret (- 1))
            else andthen (modify (\<lambda>s. s\<lparr>mem := memmove (mem s) p (PTE2PA e) 4096\<rparr>))
              (bind (mapPages new i PGSIZE p (PTE_FLAGS e)) (\<lambda>r.
               if r \<noteq> 0
               then andthen (kfree p) (andthen (uVmUnmap new 0 (i div PGSIZE) True) (ret (- 1)))
               else uvmcopy_loop k old new (i + PGSIZE) sz)))))
      else ret 0)"

definition uvmcopy :: "uint64 \<Rightarrow> uint64 \<Rightarrow> uint64 \<Rightarrow> ('z kmem_scheme, int) oper" where
  "uvmcopy old new sz = uvmcopy_loop (2 ^ 26 + 2) old new 0 sz"

section \<open>The kernel page table\<close>

definition proc_mapstacks :: "uint64 \<Rightarrow> ('z kmem_scheme, unit) oper" where
  "proc_mapstacks kpgtbl = forM [0..<64] (\<lambda>i.
     bind kalloc (\<lambda>pa.
     if pa = 0 then panic ''proc_mapstacks''
     else kVmMap kpgtbl (KSTACK i) pa PGSIZE (PTE_R OR PTE_W)))"

text \<open>
  \<^verbatim>\<open>etext\<close> and \<^verbatim>\<open>trampoline\<close> are symbols of the linker script. The result of \<^verbatim>\<open>kalloc\<close> is not
  checked.
\<close>

definition kVmMake :: "uint64 \<Rightarrow> uint64 \<Rightarrow> ('z kmem_scheme, uint64) oper" where
  "kVmMake etext trampoline =
     bind kalloc (\<lambda>kpgtbl.
     andthen (fill kpgtbl 0)
     (andthen (kVmMap kpgtbl 0x10000000 0x10000000 PGSIZE (PTE_R OR PTE_W))
     (andthen (kVmMap kpgtbl 0x10001000 0x10001000 PGSIZE (PTE_R OR PTE_W))
     (andthen (kVmMap kpgtbl 0x0c000000 0x0c000000 0x4000000 (PTE_R OR PTE_W))
     (andthen (kVmMap kpgtbl KERNBASE KERNBASE (etext - KERNBASE) (PTE_R OR PTE_X))
     (andthen (kVmMap kpgtbl etext etext (PHYSTOP - etext) (PTE_R OR PTE_W))
     (andthen (kVmMap kpgtbl TRAMPOLINE trampoline PGSIZE (PTE_R OR PTE_X))
     (andthen (proc_mapstacks kpgtbl)
     (ret kpgtbl)))))))))"

section \<open>Entries and indices\<close>

lemma flag_set: "x AND push_bit n 1 \<noteq> 0 \<longleftrightarrow> n < 64 \<and> bit x n" for x :: uint64
proof -
  have "x AND push_bit n 1 = (if bit x n then push_bit n 1 else 0)"
    by (rule bit_eqI) (auto simp: bit_and_iff bit_exp_iff)
  moreover have "push_bit n (1 :: uint64) \<noteq> 0" if "n < 64"
    using that by simp
  moreover have "n < 64" if "bit x n"
    using bit_imp_le_length [OF that] by simp
  ultimately show ?thesis by auto
qed

lemmas pte_flags = flag_set [of _ 0, folded PTE_V_def] flag_set [of _ 1, folded PTE_R_def]
  flag_set [of _ 2, folded PTE_W_def] flag_set [of _ 3, folded PTE_X_def]
  flag_set [of _ 4, folded PTE_U_def]

lemma PX_less: "unat (PX level va) < 512"
proof -
  have "PX level va = take_bit 9 (drop_bit (PXSHIFT level) va)"
    by (simp add: PX_def take_bit_eq_mask mask_eq_exp_minus_1)
  then show ?thesis
    by (simp add: unsigned_take_bit_eq take_bit_nat_less_exp [of 9, simplified])
qed

definition vpn :: "nat \<Rightarrow> uint64 \<Rightarrow> nat" where
  "vpn level va = unat (PX level va)"

lemma vpn_less [simp]: "vpn level va < 512"
  by (simp add: vpn_def PX_less)

lemma PX_vpn: "PX level va = of_nat (vpn level va)"
  by (simp add: vpn_def)

lemma PTE2PA_PA2PTE:
  assumes "unat p mod 4096 = 0" "unat p < 2 ^ 56" "f AND NOT (mask 10) = 0"
  shows "PTE2PA (PA2PTE p OR f) = p"
proof (rule bit_eqI)
  fix n assume "possible_bit TYPE(uint64) n"
  then have n: "n < 64" by simp
  have f: "\<not> bit f k" if "10 \<le> k" for k
    using assms(3) that by (metis bit_0_eq bit_and_iff bit_not_iff bit_mask_iff bot_apply bot_bool_def
      not_less bit_imp_le_length impossible_bit)
  have "unat (take_bit 12 p) = unat (0 :: uint64)" "unat (take_bit 56 p) = unat p"
    using assms(1,2) by (simp_all add: take_bit_eq_mod unat_mod)
  then have t: "take_bit 12 p = 0" "take_bit 56 p = p"
    by (simp_all only: word_unat_eq_iff)
  have low: "\<not> bit p k" if "k < 12" for k
    using bit_take_bit_iff [of 12 p k] that t(1) by simp
  have high: "\<not> bit p k" if "56 \<le> k" for k
    using bit_take_bit_iff [of 56 p k] that t(2) by simp
  show "bit (PTE2PA (PA2PTE p OR f)) n \<longleftrightarrow> bit p n"
    using n f [of "n - 2"] low [of n] high [of n]
    by (cases "12 \<le> n") (auto simp: PTE2PA_def PA2PTE_def bit_push_bit_iff bit_drop_bit_eq bit_or_iff)
qed

section \<open>The tree a page table is\<close>

text \<open>
  \<open>child m p i\<close> is the page the valid entry \<open>i\<close> of the page-table page \<open>p\<close> points to, \<open>node m
  root is\<close> the page reached from \<open>root\<close> along the indices \<open>is\<close>, and \<open>leaf m root va\<close> the
  last-level entry of \<open>va\<close>, 0 where there is no last-level page.
\<close>

definition child :: "memory \<Rightarrow> uint64 \<Rightarrow> nat \<Rightarrow> uint64 option" where
  "child m p i = (let e = load64 m (p + 8 * of_nat i) in if e AND PTE_V \<noteq> 0 then Some (PTE2PA e) else None)"

primrec node :: "memory \<Rightarrow> uint64 \<Rightarrow> nat list \<Rightarrow> uint64 option" where
  "node m r [] = Some r"
| "node m r (i # is) = (case child m r i of None \<Rightarrow> None | Some p \<Rightarrow> node m p is)"

definition leaf :: "memory \<Rightarrow> uint64 \<Rightarrow> uint64 \<Rightarrow> uint64" where
  "leaf m root va = (case node m root [vpn 2 va, vpn 1 va] of None \<Rightarrow> 0
     | Some p \<Rightarrow> load64 m (p + 8 * of_nat (vpn 0 va)))"

definition path_ok :: "nat list \<Rightarrow> bool" where
  "path_ok is \<longleftrightarrow> length is \<le> 2 \<and> (\<forall>i \<in> set is. i < 512)"

definition tree :: "memory \<Rightarrow> uint64 \<Rightarrow> uint64 set" where
  "tree m root = {p. \<exists>is. path_ok is \<and> node m root is = Some p}"

text \<open>A well-formed page table: a tree, with all its pages in use.\<close>

definition pt_wf :: "memory \<Rightarrow> uint64 set \<Rightarrow> uint64 \<Rightarrow> bool" where
  "pt_wf m used root \<longleftrightarrow> tree m root \<subseteq> used
     \<and> (\<forall>is js p. path_ok is \<longrightarrow> path_ok js \<longrightarrow> node m root is = Some p \<longrightarrow> node m root js = Some p \<longrightarrow> is = js)"

definition in_use :: "uint64 \<Rightarrow> uint64 list \<Rightarrow> uint64 set" where
  "in_use base xs = {p. managed base p \<and> p \<notin> set xs}"

lemma node_snoc: "node m r (is @ [i]) = (case node m r is of None \<Rightarrow> None | Some p \<Rightarrow> child m p i)"
  by (induction "is" arbitrary: r) (auto split: option.splits)

lemma pt_wfD:
  assumes "pt_wf m used root"
  shows "path_ok is \<Longrightarrow> node m root is = Some p \<Longrightarrow> p \<in> used"
    "path_ok is \<Longrightarrow> path_ok js \<Longrightarrow> node m root is = Some p \<Longrightarrow> node m root js = Some p \<Longrightarrow> is = js"
    "root \<in> used"
proof -
  show "path_ok is \<Longrightarrow> node m root is = Some p \<Longrightarrow> p \<in> used" for "is" p
    using assms by (auto simp: pt_wf_def tree_def)
  from this [of "[]" root] show "root \<in> used"
    by (simp add: path_ok_def)
  show "path_ok is \<Longrightarrow> path_ok js \<Longrightarrow> node m root is = Some p \<Longrightarrow> node m root js = Some p \<Longrightarrow> is = js"
    using assms by (simp add: pt_wf_def)
qed

lemma path_ok_snoc: "path_ok (is @ [i]) \<longleftrightarrow> length is \<le> 1 \<and> path_ok is \<and> i < 512"
  by (auto simp: path_ok_def)

section \<open>Slots of pages\<close>

lemma slot_within:
  assumes "i < 512" "within (p + 8 * of_nat i) 8 a"
  shows "within p 4096 a"
proof -
  define d where "d = a - (p + 8 * of_nat i)"
  have d: "unat d < 8"
    using assms(2) by (simp add: within_def d_def)
  have i: "unat (8 * of_nat i :: uint64) = 8 * i"
    using assms(1) by (simp add: unat_word_ariths unat_of_nat)
  have "a - p = d + 8 * of_nat i"
    by (simp add: d_def algebra_simps)
  then have "unat (a - p) = unat d + 8 * i"
    using assms(1) d i by (simp add: unat_word_ariths)
  then show ?thesis
    using assms(1) d by (simp add: within_def)
qed

lemma slot_unat:
  assumes "managed base p" "i < 512"
  shows "unat (p + 8 * of_nat i) = unat p + 8 * i"
  using assms by (simp add: managed_def layout_numbers unat_word_ariths unat_of_nat)

lemma slot_eq_iff:
  assumes "managed base p" "managed base q" "i < 512" "j < 512"
  shows "p + 8 * of_nat i = q + 8 * of_nat j \<longleftrightarrow> p = q \<and> i = j"
proof
  assume "p + 8 * of_nat i = q + 8 * of_nat j"
  then have eq: "unat p + 8 * i = unat q + 8 * j"
    by (metis slot_unat assms)
  obtain a b where ab: "unat p = 4096 * a" "unat q = 4096 * b"
    using assms(1,2) by (auto simp: managed_def mod_eq_0_iff_dvd elim!: dvdE)
  have "(4096 * a + 8 * i) mod 4096 = (4096 * b + 8 * j) mod 4096"
    using eq by (simp only: ab)
  then have "i = j"
    using assms(3,4) by simp
  with eq show "p = q \<and> i = j"
    by (simp add: word_unat_eq_iff)
qed simp

lemma slot_aligned: "managed base p \<Longrightarrow> i < 512 \<Longrightarrow> unat (p + 8 * of_nat i) mod 8 = 0"
  using managed_aligned by (auto simp: slot_unat mod_eq_0_iff_dvd)

lemma load_slot_same_page:
  "same_page m m' p \<Longrightarrow> i < 512 \<Longrightarrow> load64 m' (p + 8 * of_nat i) = load64 m (p + 8 * of_nat i)"
  by (rule load64_cong) (auto simp: same_page_def dest: slot_within)

lemma load_slot_zeroed:
  assumes "i < 512"
  shows "load64 (memset m p 0 4096) (p + 8 * of_nat i) = 0"
proof -
  have "load64 (memset m p 0 4096) (p + 8 * of_nat i) = load64 (\<lambda>_. 0) (p + 8 * of_nat i)"
    by (rule load64_cong) (auto simp: memset_closed dest: slot_within [OF assms])
  then show ?thesis
    by (simp add: load64_def)
qed

lemma load_store_slot:
  assumes "managed base p" "managed base q" "i < 512" "j < 512"
  shows "load64 (store64 m (q + 8 * of_nat j) v) (p + 8 * of_nat i) =
    (if p = q \<and> i = j then v else load64 m (p + 8 * of_nat i))"
proof (cases "p = q \<and> i = j")
  case False
  then have "q + 8 * of_nat j \<noteq> p + 8 * of_nat i"
    using slot_eq_iff [OF assms(2,1,4,3)] by auto
  then have "load64 (store64 m (q + 8 * of_nat j) v) (p + 8 * of_nat i) = load64 m (p + 8 * of_nat i)"
    by (intro load_store_other slot_aligned [OF assms(2,4)] slot_aligned [OF assms(1,3)])
  with False show ?thesis
    by (simp only: if_False)
qed simp

lemma same_page_store_slot:
  assumes "managed base p" "managed base q" "p \<noteq> q" "j < 512"
  shows "same_page m (store64 m (q + 8 * of_nat j) v) p"
  unfolding same_page_def
proof (intro allI impI)
  fix a assume "within p 4096 a"
  then have "\<not> within q 4096 a"
    using page_disjoint assms by blast
  then have "\<not> within (q + 8 * of_nat j) 8 a"
    using slot_within [OF assms(4)] by blast
  then show "store64 m (q + 8 * of_nat j) v a = m a"
    by (rule store64_other)
qed

lemma only_page_slot: "j < 512 \<Longrightarrow> only_page q m (store64 m (q + 8 * of_nat j) v)"
  unfolding only_page_def using slot_within store64_other by blast

lemma child_same_page: "same_page m m' p \<Longrightarrow> i < 512 \<Longrightarrow> child m' p i = child m p i"
  by (simp add: child_def load_slot_same_page)

text \<open>Changing memory outside the pages of a table leaves the table as it is.\<close>

lemma node_frame:
  assumes "\<And>p. p \<in> tree m root \<Longrightarrow> same_page m m' p" "path_ok is"
  shows "node m' root is = node m root is"
  using assms(2)
proof (induction "is" rule: rev_induct)
  case (snoc i "is")
  then have IH: "node m' root is = node m root is" and ok: "path_ok is" "i < 512"
    by (auto simp: path_ok_snoc)
  show ?case
  proof (cases "node m root is")
    case (Some p)
    then have "same_page m m' p"
      using assms(1) ok by (auto simp: tree_def)
    with Some IH ok show ?thesis
      by (simp add: node_snoc child_same_page)
  qed (simp add: node_snoc IH)
qed simp

lemma tree_frame:
  assumes "\<And>p. p \<in> tree m root \<Longrightarrow> same_page m m' p"
  shows "tree m' root = tree m root" "leaf m' root va = leaf m root va"
    "pt_wf m' used root = pt_wf m used root"
proof -
  show tr: "tree m' root = tree m root"
    using node_frame [OF assms] by (auto simp: tree_def)
  show "pt_wf m' used root = pt_wf m used root"
    unfolding pt_wf_def tr using node_frame [OF assms] by (metis (no_types))
  have ok: "path_ok [vpn 2 va, vpn 1 va]"
    by (simp add: path_ok_def)
  have n: "node m' root [vpn 2 va, vpn 1 va] = node m root [vpn 2 va, vpn 1 va]"
    using assms ok by (rule node_frame)
  show "leaf m' root va = leaf m root va"
  proof (cases "node m root [vpn 2 va, vpn 1 va]")
    case (Some p)
    then have "same_page m m' p"
      using assms ok by (auto simp: tree_def simp del: node.simps)
    then have "load64 m' (p + 8 * of_nat (vpn 0 va)) = load64 m (p + 8 * of_nat (vpn 0 va))"
      by (simp add: load_slot_same_page)
    with Some show ?thesis
      by (simp only: leaf_def n option.case)
  qed (simp only: leaf_def n option.case)
qed

section \<open>Hanging a new page into the tree\<close>

text \<open>
  The situation in \<^verbatim>\<open>walk\<close> after a new page \<open>p\<close> has been allocated and cleared, where the entry
  \<open>i\<close> of the page \<open>q\<close> at path \<open>is\<close> is invalid: \<open>m\<close> is memory before the allocation, \<open>m2\<close> after
  the clearing.
\<close>

definition hang_pre :: "uint64 \<Rightarrow> memory \<Rightarrow> memory \<Rightarrow> uint64 set \<Rightarrow> uint64 \<Rightarrow> nat list \<Rightarrow> nat \<Rightarrow> uint64 \<Rightarrow> uint64 \<Rightarrow> bool" where
  "hang_pre base m m2 used root is i q p \<longleftrightarrow> pt_wf m used root \<and> base_ok base \<and> (\<forall>y \<in> used. managed base y)
     \<and> path_ok (is @ [i]) \<and> node m root is = Some q \<and> child m q i = None \<and> p \<notin> used \<and> managed base p
     \<and> (\<forall>y \<in> used. same_page m m2 y) \<and> (\<forall>j < 512. load64 m2 (p + 8 * of_nat j) = 0)"

definition hung :: "memory \<Rightarrow> uint64 \<Rightarrow> nat \<Rightarrow> uint64 \<Rightarrow> memory" where
  "hung m2 q i p = store64 m2 (q + 8 * of_nat i) (PA2PTE p OR PTE_V)"

lemma managed_PTE2PA:
  assumes "managed base p" "f AND NOT (mask 10) = 0"
  shows "PTE2PA (PA2PTE p OR f) = p"
  by (rule PTE2PA_PA2PTE) (use assms in \<open>simp_all add: managed_def layout_numbers\<close>)

lemma hang_child:
  assumes "hang_pre base m m2 used root is i q p" "j < 512"
  shows "child (hung m2 q i p) q i = Some p" "child (hung m2 q i p) p j = None"
    "r \<in> used \<Longrightarrow> r \<noteq> q \<or> j \<noteq> i \<Longrightarrow> child (hung m2 q i p) r j = child m r j"
    "r \<in> used \<Longrightarrow> r \<noteq> q \<Longrightarrow> load64 (hung m2 q i p) (r + 8 * of_nat j) = load64 m (r + 8 * of_nat j)"
    "load64 (hung m2 q i p) (p + 8 * of_nat j) = 0"
proof -
  have q: "managed base q" "q \<in> used" "i < 512" and p: "managed base p" "p \<noteq> q"
    and zero: "load64 m2 (p + 8 * of_nat j) = 0" and used: "\<And>y. y \<in> used \<Longrightarrow> managed base y"
    and same: "\<And>y. y \<in> used \<Longrightarrow> same_page m m2 y"
    using assms pt_wfD(1) by (auto simp: hang_pre_def path_ok_snoc)
  have "PTE2PA (PA2PTE p OR PTE_V) = p"
    using p(1) by (rule managed_PTE2PA) (simp add: PTE_V_def mask_eq_exp_minus_1)
  moreover have "(PA2PTE p OR PTE_V) AND PTE_V \<noteq> 0"
    by (simp add: flag_set PTE_V_def bit_or_iff)
  ultimately show "child (hung m2 q i p) q i = Some p"
    using q by (simp add: child_def hung_def)
  have other: "load64 (hung m2 q i p) (r + 8 * of_nat j) = load64 m2 (r + 8 * of_nat j)"
    if "managed base r" "r \<noteq> q \<or> j \<noteq> i" for r
    using that load_store_slot [OF that(1) q(1) assms(2) q(3)] by (auto simp: hung_def)
  show "load64 (hung m2 q i p) (p + 8 * of_nat j) = 0"
    using other [OF p(1)] p(2) zero by simp
  then show "child (hung m2 q i p) p j = None"
    by (simp add: child_def)
  have "load64 (hung m2 q i p) (r + 8 * of_nat j) = load64 m (r + 8 * of_nat j)"
    if "r \<in> used" "r \<noteq> q \<or> j \<noteq> i" for r
    using other [OF used [OF that(1)] that(2)] same [OF that(1)] assms(2) by (simp add: load_slot_same_page)
  then show "r \<in> used \<Longrightarrow> r \<noteq> q \<or> j \<noteq> i \<Longrightarrow> child (hung m2 q i p) r j = child m r j"
    "r \<in> used \<Longrightarrow> r \<noteq> q \<Longrightarrow> load64 (hung m2 q i p) (r + 8 * of_nat j) = load64 m (r + 8 * of_nat j)"
    by (simp_all add: child_def)
qed

lemma hang_node:
  assumes "hang_pre base m m2 used root is i q p" "path_ok js"
  shows "node (hung m2 q i p) root js = (if js = is @ [i] then Some p else node m root js)"
  using assms(2)
proof (induction js rule: rev_induct)
  case (snoc j js)
  have wf: "pt_wf m used root" and ok: "path_ok is" "node m root is = Some q" "child m q i = None"
    using assms(1) by (auto simp: hang_pre_def path_ok_snoc)
  have js: "path_ok js" "j < 512" "length js \<le> 1"
    using snoc.prems by (simp_all add: path_ok_snoc)
  note IH = snoc.IH [OF js(1)]
  show ?case
  proof (cases "js = is @ [i]")
    case True
    then have none: "node m root js = None" "js @ [j] \<noteq> is @ [i]" "node (hung m2 q i p) root js = Some p"
      using ok IH by (auto simp: node_snoc)
    show ?thesis
      unfolding node_snoc [of _ _ js] none if_not_P [OF none(2)]
      using hang_child(2) [OF assms(1) js(2)] by simp
  next
    case False
    show ?thesis
    proof (cases "node m root js")
      case None
      then show ?thesis
        using IH False ok by (auto simp: node_snoc)
    next
      case (Some r)
      then have r: "r \<in> used" "r = q \<longleftrightarrow> js = is"
        using pt_wfD(1) [OF wf js(1)] pt_wfD(2) [OF wf js(1) ok(1)] ok(2) by auto
      then show ?thesis
        using IH False Some hang_child(1,3) [OF assms(1) js(2)]
        by (cases "r = q \<and> j = i") (auto simp: node_snoc)
    qed
  qed
qed simp

lemma hang_tree:
  assumes "hang_pre base m m2 used root is i q p"
  shows "tree (hung m2 q i p) root = insert p (tree m root)"
proof (intro equalityI subsetI)
  have ok: "path_ok (is @ [i])" "node m root (is @ [i]) = None"
    using assms by (auto simp: hang_pre_def node_snoc path_ok_snoc)
  note node = hang_node [OF assms]
  show "r \<in> insert p (tree m root)" if "r \<in> tree (hung m2 q i p) root" for r
    using that node unfolding tree_def by (auto split: if_splits)
  show "r \<in> tree (hung m2 q i p) root" if r: "r \<in> insert p (tree m root)" for r
  proof (cases "r = p")
    case True
    have "node (hung m2 q i p) root (is @ [i]) = Some p"
      using node [OF ok(1)] by simp
    then show ?thesis
      using ok(1) True unfolding tree_def by blast
  next
    case False
    then obtain js where js: "path_ok js" "node m root js = Some r"
      using r by (auto simp: tree_def)
    then have "js \<noteq> is @ [i]"
      using ok(2) by auto
    then have "node (hung m2 q i p) root js = Some r"
      using node [OF js(1)] js(2) by simp
    with js(1) show ?thesis
      by (auto simp: tree_def)
  qed
qed

lemma hang_wf:
  assumes "hang_pre base m m2 used root is i q p"
  shows "pt_wf (hung m2 q i p) (insert p used) root"
proof -
  have wf: "pt_wf m used root" and p: "p \<notin> used"
    using assms by (auto simp: hang_pre_def)
  note node = hang_node [OF assms]
  have old: "node m root js \<noteq> Some p" if "path_ok js" for js
    using pt_wfD(1) [OF wf that] p by auto
  have inj: "js = ks" if "path_ok js" "path_ok ks" "node (hung m2 q i p) root js = Some r"
    "node (hung m2 q i p) root ks = Some r" for js ks r
  proof (cases "r = p")
    case True
    then have "js = is @ [i]" "ks = is @ [i]"
      using that node old by (auto split: if_splits)
    then show ?thesis by simp
  next
    case False
    then have "node m root js = Some r" "node m root ks = Some r"
      using that node by (auto split: if_splits)
    then show ?thesis
      by (rule pt_wfD(2) [OF wf that(1,2)])
  qed
  have "insert p (tree m root) \<subseteq> insert p used"
    using wf by (auto simp: pt_wf_def)
  then show ?thesis
    unfolding pt_wf_def hang_tree [OF assms] using inj by blast
qed

lemma hang_leaf:
  assumes "hang_pre base m m2 used root is i q p"
  shows "leaf (hung m2 q i p) root va = leaf m root va"
proof -
  have wf: "pt_wf m used root" and q: "path_ok is" "node m root is = Some q" "length is \<le> 1"
    and none: "node m root (is @ [i]) = None"
    using assms by (auto simp: hang_pre_def node_snoc path_ok_snoc)
  define va' where "va' = [vpn 2 va, vpn 1 va]"
  have va: "path_ok va'" "length va' = 2"
    by (simp_all add: path_ok_def va'_def)
  note node = hang_node [OF assms va(1)]
  show ?thesis
  proof (cases "va' = is @ [i]")
    case True
    then have "node m root va' = None" "node (hung m2 q i p) root va' = Some p"
      using node none by auto
    then show ?thesis
      unfolding leaf_def va'_def [symmetric] using hang_child(5) [OF assms vpn_less] by simp
  next
    case False
    then have eq: "node (hung m2 q i p) root va' = node m root va'"
      using node by auto
    show ?thesis
    proof (cases "node m root va'")
      case (Some r)
      then have "r \<in> used" "r \<noteq> q"
        using pt_wfD(1) [OF wf va(1) Some] pt_wfD(2) [OF wf va(1) q(1) Some] q(2,3) va(2) by auto
      then show ?thesis
        using hang_child(4) [OF assms vpn_less]
        by (simp only: leaf_def va'_def [symmetric] eq Some option.case)
    qed (simp only: leaf_def va'_def [symmetric] eq option.case)
  qed
qed

section \<open>walk\<close>

text \<open>The state changes only in memory and the free list (and a saved interrupt flag).\<close>

inductive kstep :: "'z kmem_scheme \<Rightarrow> 'z kmem_scheme \<Rightarrow> bool" for s where
  kstep_refl [intro]: "kstep s s"
| kstep_mem [intro]: "kstep s t \<Longrightarrow> kstep s (t\<lparr>mem := m\<rparr>)"
| kstep_freelist [intro]: "kstep s t \<Longrightarrow> kstep s (t\<lparr>freelist := f\<rparr>)"
| kstep_settle [intro]: "kstep s t \<Longrightarrow> kstep s (settle t)"

lemma kstep_trans: "kstep t u \<Longrightarrow> kstep s t \<Longrightarrow> kstep s u"
  by (induction rule: kstep.induct) auto

lemma kstep_keeps:
  "kstep s t \<Longrightarrow> addr_base t = addr_base s" "kstep s t \<Longrightarrow> kbitmap t = kbitmap s"
  "kstep s t \<Longrightarrow> kend t = kend s" "kstep s t \<Longrightarrow> tp t = tp s" "kstep s t \<Longrightarrow> locks t = locks s"
  by (induction rule: kstep.induct; simp)+

text \<open>
  What \<^verbatim>\<open>walk\<close> and its clients may do: the page table \<open>root\<close> may gain pages from the free list
  but keeps the ones it has, and pages outside the table keep their contents.
\<close>

definition walked :: "uint64 \<Rightarrow> 'z kmem_scheme \<Rightarrow> uint64 list \<Rightarrow> 'z kmem_scheme \<Rightarrow> uint64 list \<Rightarrow> bool" where
  "walked root s xs t ys \<longleftrightarrow> kstep s t \<and> kmem_inv t ys \<and> set ys \<subseteq> set xs
     \<and> pt_wf (mem t) (in_use (addr_base s) ys) root
     \<and> tree (mem t) root \<subseteq> tree (mem s) root \<union> (set xs - set ys)
     \<and> (\<forall>is p. path_ok is \<longrightarrow> node (mem s) root is = Some p \<longrightarrow> node (mem t) root is = Some p)
     \<and> (\<forall>y. y \<in> in_use (addr_base s) xs \<longrightarrow> y \<notin> tree (mem s) root \<longrightarrow> same_page (mem s) (mem t) y)"

lemma walkedD:
  assumes "walked root s xs t ys"
  shows "kstep s t" "kmem_inv t ys" "set ys \<subseteq> set xs" "pt_wf (mem t) (in_use (addr_base s) ys) root"
    "tree (mem t) root \<subseteq> tree (mem s) root \<union> (set xs - set ys)"
    "path_ok is \<Longrightarrow> node (mem s) root is = Some p \<Longrightarrow> node (mem t) root is = Some p"
    "y \<in> in_use (addr_base s) xs \<Longrightarrow> y \<notin> tree (mem s) root \<Longrightarrow> same_page (mem s) (mem t) y"
    "addr_base t = addr_base s"
  using assms kstep_keeps(1) [of s t] by (auto simp: walked_def)

lemma walked_refl:
  "kmem_inv s xs \<Longrightarrow> pt_wf (mem s) (in_use (addr_base s) xs) root \<Longrightarrow> walked root s xs s xs"
  by (auto simp: walked_def same_page_def)

lemma walked_trans:
  assumes 1: "walked root s xs t ys" and 2: "walked root t ys u zs"
  shows "walked root s xs u zs"
  unfolding walked_def
proof (intro conjI allI impI)
  note d1 = walkedD [OF 1] and d2 = walkedD [OF 2]
  show "kstep s u"
    using d2(1) d1(1) by (rule kstep_trans)
  show "set zs \<subseteq> set xs"
    using d1(3) d2(3) by simp
  show "pt_wf (mem u) (in_use (addr_base s) zs) root"
    using d2(4) d1(8) by simp
  show "tree (mem u) root \<subseteq> tree (mem s) root \<union> (set xs - set zs)"
    using d1(3,5) d2(3,5) by blast
  show "node (mem u) root is = Some p" if "path_ok is" "node (mem s) root is = Some p" for "is" p
    using d2(6) [OF that(1) d1(6) [OF that]] .
  show "same_page (mem s) (mem u) y" if "y \<in> in_use (addr_base s) xs" "y \<notin> tree (mem s) root" for y
  proof (rule same_page_trans [OF d1(7) [OF that]])
    have "y \<notin> set xs"
      using that(1) by (simp add: in_use_def)
    then have "y \<notin> tree (mem t) root" "y \<in> in_use (addr_base t) ys"
      using that d1(3,5,8) by (auto simp: in_use_def)
    then show "same_page (mem t) (mem u) y"
      using d2(7) by simp
  qed
qed (rule walkedD(2) [OF 2])

text \<open>Allocating a page and hanging it into the tree.\<close>

lemma hang_step:
  fixes s :: "'z kmem_scheme"
  assumes inv: "kmem_inv s (p # xs)" and wf: "pt_wf (mem s) (in_use (addr_base s) (p # xs)) root"
    and "path_ok (is @ [i])" "node (mem s) root is = Some q" "child (mem s) q i = None"
  defines "t \<equiv> settle (s\<lparr>freelist := load64 (mem s) p,
    mem := hung (memset (alloc_mem (mem s) (addr_base s) p) p 0 4096) q i p\<rparr>)"
  shows "walked root s (p # xs) t xs" "node (mem t) root (is @ [i]) = Some p"
    "leaf (mem t) root va = leaf (mem s) root va"
proof -
  let ?b = "addr_base s"
  let ?used = "in_use ?b (p # xs)" and ?m2 = "memset (alloc_mem (mem s) ?b p) p 0 4096"
  have b: "base_ok ?b" and p: "managed ?b p" "p \<notin> set xs"
    using kmem_invD(1-3) [OF inv] by auto
  have same: "same_page (mem s) ?m2 y" if "managed ?b y" "y \<noteq> p" for y
    using alloc_mem_same [OF b p(1) that(1)] same_page_memset [OF p(1) that(1)] that(2)
    by (auto intro: same_page_trans)
  have pre: "hang_pre ?b (mem s) ?m2 ?used root is i q p"
    using assms(2-5) b p same unfolding hang_pre_def by (auto simp: in_use_def load_slot_zeroed)
  then have q: "q \<in> ?used" "i < 512"
    using pt_wfD(1) [OF wf _ assms(4)] assms(3) by (auto simp: path_ok_snoc)
  have mem_t: "mem t = hung ?m2 q i p"
    by (simp add: t_def)
  have used: "insert p ?used = in_use ?b xs"
    using p by (auto simp: in_use_def)
  have page_q: "managed ?b q" "p \<noteq> q"
    using q by (auto simp: in_use_def)
  have far: "same_page (mem s) (mem t) y" if "managed ?b y" "y \<noteq> p" "y \<noteq> q" for y
    unfolding mem_t hung_def
    using same [OF that(1,2)] same_page_store_slot [OF that(1) page_q(1) that(3) q(2)]
    by (rule same_page_trans)
  have inv1: "kmem_inv (s\<lparr>freelist := load64 (mem s) p, mem := ?m2\<rparr>) xs"
    using kmem_inv_page_write [OF kmem_inv_alloc [OF inv] _ _ only_page_memset, of p 0] p by simp
  have inv2: "kmem_inv t xs"
    using kmem_inv_page_write [OF inv1 _ _ only_page_slot [OF q(2)], of q "PA2PTE p OR PTE_V"] q(1)
    by (auto simp: t_def hung_def in_use_def)
  have step: "kstep s t"
    unfolding t_def by (intro kstep.intros)
  have in_tree: "q \<in> tree (mem s) root"
    using assms(3,4) by (auto simp: tree_def path_ok_snoc)
  have none: "node (mem s) root (is @ [i]) = None"
    using assms(4,5) by (simp add: node_snoc)
  show "walked root s (p # xs) t xs"
    unfolding walked_def
  proof (intro conjI allI impI step inv2)
    show "pt_wf (mem t) (in_use ?b xs) root"
      using hang_wf [OF pre] by (simp only: mem_t used)
    show "tree (mem t) root \<subseteq> tree (mem s) root \<union> (set (p # xs) - set xs)"
      using hang_tree [OF pre] p(2) by (auto simp: mem_t)
    show "node (mem t) root js = Some r" if "path_ok js" "node (mem s) root js = Some r" for js r
      using hang_node [OF pre that(1)] that(2) none by (auto simp: mem_t)
    show "same_page (mem s) (mem t) y" if "y \<in> in_use ?b (p # xs)" "y \<notin> tree (mem s) root" for y
      by (rule far) (use that in_tree in \<open>auto simp: in_use_def\<close>)
  qed auto
  show "leaf (mem t) root va = leaf (mem s) root va"
    using hang_leaf [OF pre] by (simp only: mem_t)
  show "node (mem t) root (is @ [i]) = Some p"
    unfolding mem_t using hang_node [OF pre assms(3)] by simp
qed

text \<open>The indices \<^verbatim>\<open>walk\<close> has followed when it looks at a page of the given level.\<close>

definition vpath :: "uint64 \<Rightarrow> nat \<Rightarrow> nat list" where
  "vpath va level = map (\<lambda>l. vpn l va) (rev [Suc level..<3])"

lemma vpath_0: "vpath va 0 = [vpn 2 va, vpn 1 va]"
  by (simp add: vpath_def upt_conv_Cons numeral_eq_Suc)

lemma vpath_2 [simp]: "vpath va 2 = []"
  by (simp add: vpath_def)

lemma vpath_snoc: "level < 2 \<Longrightarrow> vpath va level = vpath va (Suc level) @ [vpn (Suc level) va]"
  by (simp add: vpath_def upt_conv_Cons)

lemma vpath_ok: "path_ok (vpath va level)"
  by (auto simp: path_ok_def vpath_def)

definition slot :: "memory \<Rightarrow> uint64 \<Rightarrow> uint64 \<Rightarrow> uint64" where
  "slot m root va = (case node m root (vpath va 0) of None \<Rightarrow> 0 | Some p \<Rightarrow> p + 8 * of_nat (vpn 0 va))"

lemma child_read:
  "child m p (vpn l va) = (let e = load64 m (p + 8 * PX l va) in if e AND PTE_V \<noteq> 0 then Some (PTE2PA e) else None)"
  by (simp add: child_def PX_vpn)

lemma walk_loop_lookup:
  assumes "level \<le> 2" "node (mem s) root (vpath va level) = Some q"
  shows "walk_loop level q va False s = Ret (slot (mem s) root va) s"
  using assms
proof (induction level arbitrary: q)
  case 0
  then show ?case by (simp only: walk_loop.simps slot_def PX_vpn option.case)
next
  case (Suc level)
  have path: "vpath va level = vpath va (Suc level) @ [vpn (Suc level) va]"
    using Suc.prems(1) by (intro vpath_snoc) simp
  let ?e = "load64 (mem s) (q + 8 * PX (Suc level) va)"
  have next_node: "node (mem s) root (vpath va level) = (if ?e AND PTE_V \<noteq> 0 then Some (PTE2PA ?e) else None)"
    unfolding path node_snoc Suc.prems(2) by (simp add: child_read Let_def)
  show ?case
  proof (cases "?e AND PTE_V \<noteq> 0")
    case True
    then show ?thesis
      using Suc.IH [of "PTE2PA ?e"] Suc.prems(1) next_node by (simp add: read64_def Let_def)
  next
    case False
    have "node (mem s) root (vpath va 0) = None"
    proof (cases level)
      case 0
      then show ?thesis using next_node False by simp
    next
      case (Suc k)
      then have "vpath va 0 = vpath va level @ [vpn 1 va]"
        using Suc.prems(1) vpath_snoc [of 0 va] by (simp add: numeral_eq_Suc)
      then show ?thesis
        using next_node False by (simp only: node_snoc if_False option.case)
    qed
    then show ?thesis
      using False by (simp add: read64_def Let_def slot_def)
  qed
qed

lemma walk_lookup: "va < MAXVA \<Longrightarrow> walk root va False s = Ret (slot (mem s) root va) s"
  using walk_loop_lookup [of 2 s root va root] by (simp add: walk_def)

lemma walked_stray:
  assumes "kmem_inv s []" "pt_wf (mem s) (in_use (addr_base s) []) root"
  shows "walked root s [] (settle (s\<lparr>mem := (mem s)(stray s := v)\<rparr>)) []"
    "leaf ((mem s)(stray s := v)) root va = leaf (mem s) root va"
proof -
  have same: "same_page (mem s) ((mem s)(stray s := v)) y" if "y \<in> in_use (addr_base s) []" for y
    using kmem_inv_stray(2) [OF assms(1)] that by (simp add: in_use_def)
  then have "same_page (mem s) ((mem s)(stray s := v)) y" if "y \<in> tree (mem s) root" for y
    using that assms(2) by (auto simp: pt_wf_def)
  note frame = tree_frame [OF this] node_frame [OF this]
  show "leaf ((mem s)(stray s := v)) root va = leaf (mem s) root va"
    by (rule frame(2))
  show "walked root s [] (settle (s\<lparr>mem := (mem s)(stray s := v)\<rparr>)) []"
    unfolding walked_def using kmem_inv_stray(1) [OF assms(1)] assms(2) same frame(1,3,4)
    by (auto intro!: kstep.intros)
qed

lemma walk_loop_alloc:
  assumes "level \<le> 2" "kmem_inv s xs" "pt_wf (mem s) (in_use (addr_base s) xs) root"
    and "node (mem s) root (vpath va level) = Some q"
  shows "\<exists>r t ys. walk_loop level q va True s = Ret r t \<and> walked root s xs t ys
    \<and> (\<forall>va'. leaf (mem t) root va' = leaf (mem s) root va')
    \<and> (r = 0 \<longrightarrow> ys = [] \<and> length xs < level) \<and> length xs \<le> length ys + level \<and> (r \<noteq> 0 \<longrightarrow> node (mem t) root (vpath va 0) \<noteq> None \<and> r = slot (mem t) root va)"
  using assms
proof (induction level arbitrary: q s xs)
  case 0
  have "q \<in> in_use (addr_base s) xs"
    using pt_wfD(1) [OF "0.prems"(3) vpath_ok "0.prems"(4)] .
  then have "unat (q + 8 * of_nat (vpn 0 va)) = unat q + 8 * vpn 0 va" "q \<noteq> 0"
    using managed_nonzero kmem_invD(1) [OF "0.prems"(2)] by (auto simp: in_use_def slot_unat)
  then have "q + 8 * of_nat (vpn 0 va) \<noteq> 0"
    by (metis add_is_0 unat_eq_0)
  moreover have "walk_loop 0 q va True s = Ret (slot (mem s) root va) s"
    using "0.prems"(4) by (simp only: walk_loop.simps slot_def PX_vpn option.case)
  ultimately show ?case
    using walked_refl [OF "0.prems"(2,3)] "0.prems"(4) by (auto simp: slot_def)
next
  case (Suc level)
  have path: "vpath va level = vpath va (Suc level) @ [vpn (Suc level) va]"
    using Suc.prems(1) by (intro vpath_snoc) simp
  let ?e = "load64 (mem s) (q + 8 * PX (Suc level) va)"
  have next_node: "child (mem s) q (vpn (Suc level) va) = (if ?e AND PTE_V \<noteq> 0 then Some (PTE2PA ?e) else None)"
    by (simp add: child_read Let_def)
  show ?case
  proof (cases "?e AND PTE_V \<noteq> 0")
    case True
    then have "node (mem s) root (vpath va level) = Some (PTE2PA ?e)"
      unfolding path node_snoc Suc.prems(4) using next_node by simp
    then obtain r t ys where "walk_loop level (PTE2PA ?e) va True s = Ret r t" "walked root s xs t ys"
      "\<forall>va'. leaf (mem t) root va' = leaf (mem s) root va'"
      "r = 0 \<longrightarrow> ys = [] \<and> length xs < level" "length xs \<le> length ys + level"
      "r \<noteq> 0 \<longrightarrow> node (mem t) root (vpath va 0) \<noteq> None \<and> r = slot (mem t) root va"
      using Suc.IH [OF _ Suc.prems(2,3)] Suc.prems(1) by fastforce
    then show ?thesis
      using True by (intro exI [of _ r] exI [of _ t] exI [of _ ys]) (auto simp: read64_def Let_def)
  next
    case False
    show ?thesis
    proof (cases xs)
      case Nil
      then show ?thesis
        using False walked_stray [of s root] Suc.prems(2,3) kalloc_run_stray [of s]
        by (simp add: read64_def Let_def)
    next
      case (Cons p zs)
      let ?t = "settle (s\<lparr>freelist := load64 (mem s) p,
        mem := hung (memset (alloc_mem (mem s) (addr_base s) p) p 0 4096) q (vpn (Suc level) va) p\<rparr>)"
      have step: "walked root s (p # zs) ?t zs" "node (mem ?t) root (vpath va level) = Some p"
        "\<And>va'. leaf (mem ?t) root va' = leaf (mem s) root va'"
        unfolding path using hang_step [OF _ _ vpath_ok [of va level, unfolded path] Suc.prems(4)]
          Suc.prems(2,3) Cons next_node False by auto
      have "p \<noteq> 0"
        using kmem_invD(1,3) [OF Suc.prems(2)] managed_nonzero Cons by auto
      then have run: "walk_loop (Suc level) q va True s = walk_loop level p va True ?t"
        using False kalloc_run [of s p zs] Suc.prems(2) Cons
        by (simp add: read64_def Let_def fill_def write64_def hung_def PX_vpn)
      have "level \<le> 2" "pt_wf (mem ?t) (in_use (addr_base ?t) zs) root"
        using Suc.prems(1) walkedD(4) [OF step(1)] by simp_all
      from Suc.IH [OF this(1) walkedD(2) [OF step(1)] this(2) step(2)] obtain r t ys
        where r: "walk_loop level p va True ?t = Ret r t" "walked root ?t zs t ys"
          "\<forall>va'. leaf (mem t) root va' = leaf (mem ?t) root va'" "r = 0 \<longrightarrow> ys = [] \<and> length zs < level" "length zs \<le> length ys + level"
          "r \<noteq> 0 \<longrightarrow> node (mem t) root (vpath va 0) \<noteq> None \<and> r = slot (mem t) root va"
        by blast
      show ?thesis
        unfolding run Cons
        using r(1,3-6) walked_trans [OF step(1) r(2)] step(3)
        by (intro exI [of _ r] exI [of _ t] exI [of _ ys]) auto
    qed
  qed
qed

lemma walk_alloc:
  assumes "va < MAXVA" "kmem_inv s xs" "pt_wf (mem s) (in_use (addr_base s) xs) root"
  shows "\<exists>r t ys. walk root va True s = Ret r t \<and> walked root s xs t ys
    \<and> (\<forall>va'. leaf (mem t) root va' = leaf (mem s) root va')
    \<and> (r = 0 \<longrightarrow> ys = [] \<and> length xs < 2) \<and> length xs \<le> length ys + 2 \<and> (r \<noteq> 0 \<longrightarrow> node (mem t) root (vpath va 0) \<noteq> None \<and> r = slot (mem t) root va)"
proof -
  have "walk root va True s = walk_loop 2 root va True s"
    using assms(1) by (simp add: walk_def not_le [symmetric])
  then show ?thesis
    using walk_loop_alloc [OF _ assms(2,3), of 2 va root] by simp
qed

section \<open>Writing a last-level entry\<close>

text \<open>Virtual addresses below \<open>MAXVA\<close> share a last-level entry exactly when they share a page.\<close>

definition vpage :: "uint64 \<Rightarrow> nat" where
  "vpage va = unat va div 4096"

lemma vpn_vpage: "vpn level va = vpage va div 512 ^ level mod 512"
proof -
  have "vpn level va = unat (drop_bit (PXSHIFT level) va) mod 512"
  proof -
    have "PX level va = take_bit 9 (drop_bit (PXSHIFT level) va)"
      by (simp add: PX_def take_bit_eq_mask mask_eq_exp_minus_1)
    then show ?thesis
      by (simp add: vpn_def take_bit_eq_mod unat_mod)
  qed
  also have "\<dots> = unat va div 2 ^ PXSHIFT level mod 512"
    unfolding unat_drop_bit_eq by (simp only: drop_bit_eq_div)
  also have "(2 :: nat) ^ PXSHIFT level = 4096 * 512 ^ level"
    by (simp add: PXSHIFT_def power_add power_mult)
  finally show ?thesis
    by (simp add: vpage_def div_mult2_eq)
qed

lemma MAXVA_unat: "va < MAXVA \<longleftrightarrow> unat va < 2 ^ 38"
  by (simp add: MAXVA_def word_less_nat_alt)

lemma vpage_bound: "va < MAXVA \<Longrightarrow> vpage va < 2 ^ 26"
  by (simp add: MAXVA_unat vpage_def less_mult_imp_div_less)

lemma vpage_digits:
  assumes "(n :: nat) < 2 ^ 27"
  shows "n = n mod 512 + 512 * (n div 512 mod 512) + 262144 * (n div 262144 mod 512)"
proof -
  have "n div 262144 < 512"
    using assms by (simp add: less_mult_imp_div_less)
  then have "n div 262144 mod 512 = n div 262144"
    by simp
  moreover have "n = n mod 512 + 512 * (n div 512)" "n div 512 = n div 512 mod 512 + 512 * (n div 512 div 512)"
    by simp_all
  moreover have "n div 512 div 512 = n div 262144"
    by (simp add: div_mult2_eq [symmetric])
  ultimately show ?thesis
    by linarith
qed

lemma vpath_slot_eq:
  assumes "va < MAXVA" "va' < MAXVA"
  shows "vpath va 0 = vpath va' 0 \<and> vpn 0 va = vpn 0 va' \<longleftrightarrow> vpage va = vpage va'"
proof
  assume "vpath va 0 = vpath va' 0 \<and> vpn 0 va = vpn 0 va'"
  then have eq: "vpage va mod 512 = vpage va' mod 512" "vpage va div 512 mod 512 = vpage va' div 512 mod 512"
    "vpage va div 262144 mod 512 = vpage va' div 262144 mod 512"
    by (simp_all add: vpath_0 vpn_vpage)
  have "vpage va = vpage va mod 512 + 512 * (vpage va div 512 mod 512) + 262144 * (vpage va div 262144 mod 512)"
    using vpage_bound [OF assms(1)] by (intro vpage_digits) simp
  also have "\<dots> = vpage va'"
    unfolding eq using vpage_bound [OF assms(2)] by (intro vpage_digits [symmetric]) simp
  finally show "vpage va = vpage va'" .
qed (simp add: vpath_0 vpn_vpage)

lemma leaf_vpath: "leaf m root va =
    (case node m root (vpath va 0) of None \<Rightarrow> 0 | Some p \<Rightarrow> load64 m (p + 8 * of_nat (vpn 0 va)))"
  unfolding leaf_def vpath_0 ..

lemma store_leaf:
  assumes wf: "pt_wf m used root" and used: "\<forall>y \<in> used. managed base y"
    and p: "node m root (vpath va 0) = Some p"
  shows "path_ok js \<Longrightarrow> node (store64 m (slot m root va) v) root js = node m root js"
    "va < MAXVA \<Longrightarrow> va' < MAXVA \<Longrightarrow> leaf (store64 m (slot m root va) v) root va' =
      (if vpage va' = vpage va then v else leaf m root va')"
proof -
  let ?m = "store64 m (slot m root va) v"
  have pu: "managed base p" "p \<in> used"
    using pt_wfD(1) [OF wf vpath_ok p] used by auto
  have sl: "slot m root va = p + 8 * of_nat (vpn 0 va)"
    using p by (simp only: slot_def option.case)
  have load: "load64 ?m (r + 8 * of_nat j) = (if r = p \<and> j = vpn 0 va then v else load64 m (r + 8 * of_nat j))"
    if "r \<in> used" "j < 512" for r j
    unfolding sl using load_store_slot [OF bspec [OF used that(1)] pu(1) that(2) vpn_less] .
  show node: "node ?m root js = node m root js" if "path_ok js" for js
    using that
  proof (induction js rule: rev_induct)
    case (snoc j js)
    then have js: "path_ok js" "j < 512" "length js \<le> 1" "node ?m root js = node m root js"
      by (auto simp: path_ok_snoc)
    have "r \<noteq> p" "r \<in> used" if "node m root js = Some r" for r
    proof -
      have "length js \<noteq> length (vpath va 0)"
        using js(3) by (simp add: vpath_0)
      then show "r \<noteq> p"
        using pt_wfD(2) [OF wf js(1) vpath_ok [of va 0] that] p by auto
      show "r \<in> used"
        using pt_wfD(1) [OF wf js(1) that] .
    qed
    then have "child ?m r j = child m r j" if "node m root js = Some r" for r
      using load [OF _ js(2), of r] that by (simp add: child_def)
    then show ?case
      unfolding node_snoc js(4) by (cases "node m root js") simp_all
  qed simp
  show "leaf ?m root va' = (if vpage va' = vpage va then v else leaf m root va')"
    if va: "va < MAXVA" "va' < MAXVA"
  proof (cases "node m root (vpath va' 0)")
    case None
    then have "vpage va' \<noteq> vpage va"
      using vpath_slot_eq [OF va(2,1)] p by fastforce
    then show ?thesis
      using None node [OF vpath_ok] by (simp only: leaf_vpath option.case if_False)
  next
    case (Some r)
    have "r = p \<longleftrightarrow> vpath va' 0 = vpath va 0"
    proof
      assume "r = p"
      with p show "vpath va' 0 = vpath va 0"
        by (intro pt_wfD(2) [OF wf vpath_ok vpath_ok Some]) simp
    next
      assume "vpath va' 0 = vpath va 0"
      with p Some show "r = p" by simp
    qed
    then have "r = p \<and> vpn 0 va' = vpn 0 va \<longleftrightarrow> vpage va' = vpage va"
      using vpath_slot_eq [OF va(2,1)] by blast
    then show ?thesis
      using Some node [OF vpath_ok] load [OF pt_wfD(1) [OF wf vpath_ok Some] vpn_less]
      by (simp only: leaf_vpath option.case)
  qed
qed

section \<open>mapPages\<close>

lemma map_one:
  fixes s :: "'z kmem_scheme"
  assumes "a < MAXVA" "kmem_inv s xs" "pt_wf (mem s) (in_use (addr_base s) xs) root"
  shows "(\<exists>t. walk root a True s = Ret 0 t \<and> walked root s xs t [] \<and> length xs < 2 \<and> (\<forall>va. leaf (mem t) root va = leaf (mem s) root va))
    \<or> (\<exists>r u ys. walk root a True s = Ret r u \<and> r \<noteq> 0 \<and> load64 (mem u) r = leaf (mem s) root a
       \<and> length xs \<le> length ys + 2 \<and> walked root s xs (u\<lparr>mem := store64 (mem u) r v\<rparr>) ys
       \<and> (\<forall>va < MAXVA. leaf (store64 (mem u) r v) root va = (if vpage va = vpage a then v else leaf (mem s) root va)))"
proof -
  from walk_alloc [OF assms] obtain r u ys where w: "walk root a True s = Ret r u" "walked root s xs u ys"
    "\<And>va. leaf (mem u) root va = leaf (mem s) root va" "r = 0 \<longrightarrow> ys = [] \<and> length xs < 2"
    "length xs \<le> length ys + 2"
    and slot: "r \<noteq> 0 \<longrightarrow> node (mem u) root (vpath a 0) \<noteq> None \<and> r = slot (mem u) root a"
    by blast
  show ?thesis
  proof (cases "r = 0")
    case True
    then show ?thesis using w by auto
  next
    case False
    then obtain p where p: "node (mem u) root (vpath a 0) = Some p" and r: "r = slot (mem u) root a"
      using slot by auto
    note d = walkedD [OF w(2)]
    have used: "\<forall>y \<in> in_use (addr_base s) ys. managed (addr_base s) y"
      by (simp add: in_use_def)
    note st = store_leaf [OF d(4) used p, of _ v, folded r]
    have pu: "p \<in> in_use (addr_base u) ys"
      using pt_wfD(1) [OF d(4) vpath_ok p] d(8) by simp
    have rp: "r = p + 8 * of_nat (vpn 0 a)"
      using p r by (simp only: slot_def option.case)
    have only: "only_page p (mem u) (store64 (mem u) r v)"
      unfolding rp by (rule only_page_slot) simp
    have inv: "kmem_inv (u\<lparr>mem := store64 (mem u) r v\<rparr>) ys"
      using kmem_inv_page_write [OF d(2) _ _ only] pu by (simp add: in_use_def)
    have tr: "tree (store64 (mem u) r v) root = tree (mem u) root"
      using st(1) by (auto simp: tree_def)
    have "walked root u ys (u\<lparr>mem := store64 (mem u) r v\<rparr>) ys"
      unfolding walked_def
    proof (intro conjI allI impI)
      show "pt_wf (mem (u\<lparr>mem := store64 (mem u) r v\<rparr>)) (in_use (addr_base u) ys) root"
        using d(4,8) st(1) by (simp add: pt_wf_def tr)
      show "same_page (mem u) (mem (u\<lparr>mem := store64 (mem u) r v\<rparr>)) y"
        if "y \<in> in_use (addr_base u) ys" "y \<notin> tree (mem u) root" for y
      proof -
        have "p \<noteq> y"
          using that(2) p vpath_ok by (auto simp: tree_def)
        then show ?thesis
          using only_page_same [OF only, of "addr_base u" y] that(1) pu by (simp add: in_use_def)
      qed
    qed (use inv st(1) tr in auto)
    then have "walked root s xs (u\<lparr>mem := store64 (mem u) r v\<rparr>) ys"
      by (rule walked_trans [OF w(2)])
    moreover have "load64 (mem u) r = leaf (mem s) root a"
      using w(3) [of a] p by (simp only: leaf_vpath rp option.case)
    ultimately show ?thesis
      using w(1,3,5) False st(2) [OF assms(1)] by auto
  qed
qed

text \<open>The last-level entries after mapping \<open>j\<close> pages from \<open>a\<close> to \<open>pa\<close> on.\<close>

definition mapping :: "uint64 \<Rightarrow> nat \<Rightarrow> uint64 \<Rightarrow> uint64 \<Rightarrow> uint64 \<Rightarrow> uint64 \<Rightarrow> uint64" where
  "mapping a j pa perm old va =
     (if vpage a \<le> vpage va \<and> vpage va < vpage a + j
      then PA2PTE (pa + of_nat (vpage va - vpage a) * PGSIZE) OR perm OR PTE_V else old)"

lemma mapping_Suc:
  assumes "vpage (a + PGSIZE) = Suc (vpage a)"
  shows "mapping a (Suc j) pa perm old va = mapping (a + PGSIZE) j (pa + PGSIZE) perm
    (if vpage va = vpage a then PA2PTE pa OR perm OR PTE_V else old) va"
proof (cases "vpage va \<le> vpage a")
  case False
  then obtain k where "vpage va = Suc (vpage a + k)"
    by (metis less_iff_Suc_add not_le)
  then show ?thesis
    using False assms by (simp add: mapping_def algebra_simps)
qed (use assms in \<open>auto simp: mapping_def\<close>)

lemma mapPages_loop_spec:
  fixes s :: "'z kmem_scheme"
  assumes "kmem_inv s xs" "pt_wf (mem s) (in_use (addr_base s) xs) root"
    and "unat a mod 4096 = 0" "unat a + 4096 * Suc n \<le> 2 ^ 38"
    and "\<And>va. va < MAXVA \<Longrightarrow> vpage a \<le> vpage va \<Longrightarrow> vpage va \<le> vpage a + n \<Longrightarrow> leaf (mem s) root va AND PTE_V = 0"
  shows "\<exists>j r t ys. mapPages_loop n root a pa perm s = Ret r t \<and> walked root s xs t ys
    \<and> (\<forall>va < MAXVA. leaf (mem t) root va = mapping a j pa perm (leaf (mem s) root va) va)
    \<and> (r = 0 \<and> j = Suc n \<or> r = - 1 \<and> j \<le> n \<and> ys = [] \<and> length xs < 2 * Suc n)"
  using assms
proof (induction n arbitrary: a pa s xs)
  case 0
  have a: "a < MAXVA" and free: "leaf (mem s) root a AND PTE_V = 0"
    using "0.prems"(4) "0.prems"(5) [of a] by (simp_all add: MAXVA_unat)
  let ?v = "PA2PTE pa OR perm OR PTE_V"
  have m0: "mapping a 0 pa perm old va = old" "mapping a (Suc 0) pa perm old va = (if vpage va = vpage a then ?v else old)" for old va
    by (auto simp: mapping_def)
  from map_one [OF a "0.prems"(1,2), of ?v] show ?case
  proof (elim disjE exE conjE)
    fix t assume "walk root a True s = Ret 0 t" "walked root s xs t []" "length xs < 2" "\<forall>va. leaf (mem t) root va = leaf (mem s) root va"
    then show ?thesis
      by (intro exI [of _ 0] exI [of _ "- 1"] exI [of _ t] exI [of _ "[]"]) (simp add: m0)
  next
    fix r u ys assume "walk root a True s = Ret r u" "r \<noteq> 0" "load64 (mem u) r = leaf (mem s) root a" "length xs \<le> length ys + 2"
      "walked root s xs (u\<lparr>mem := store64 (mem u) r ?v\<rparr>) ys"
      "\<forall>va < MAXVA. leaf (store64 (mem u) r ?v) root va = (if vpage va = vpage a then ?v else leaf (mem s) root va)"
    then show ?thesis
      using free by (intro exI [of _ "Suc 0"] exI [of _ 0] exI [of _ "u\<lparr>mem := store64 (mem u) r ?v\<rparr>"] exI [of _ ys])
        (simp add: m0 read64_def write64_def)
  qed
next
  case (Suc n)
  have a: "a < MAXVA" and free: "leaf (mem s) root a AND PTE_V = 0"
    using Suc.prems(4) Suc.prems(5) [of a] by (simp_all add: MAXVA_unat)
  let ?v = "PA2PTE pa OR perm OR PTE_V"
  have next_a: "unat (a + PGSIZE) = unat a + 4096" "vpage (a + PGSIZE) = Suc (vpage a)"
    using Suc.prems(4) by (simp_all add: PGSIZE_def unat_word_ariths vpage_def)
  have m0: "mapping a 0 pa perm old va = old" for old va
    by (auto simp: mapping_def)
  from map_one [OF a Suc.prems(1,2), of ?v] show ?case
  proof (elim disjE exE conjE)
    fix t assume "walk root a True s = Ret 0 t" "walked root s xs t []" "length xs < 2" "\<forall>va. leaf (mem t) root va = leaf (mem s) root va"
    then show ?thesis
      by (intro exI [of _ 0] exI [of _ "- 1"] exI [of _ t] exI [of _ "[]"]) (simp add: m0)
  next
    fix r u ys assume w: "walk root a True s = Ret r u" "r \<noteq> 0" "load64 (mem u) r = leaf (mem s) root a" "length xs \<le> length ys + 2"
      "walked root s xs (u\<lparr>mem := store64 (mem u) r ?v\<rparr>) ys"
      "\<forall>va < MAXVA. leaf (store64 (mem u) r ?v) root va = (if vpage va = vpage a then ?v else leaf (mem s) root va)"
    let ?t = "u\<lparr>mem := store64 (mem u) r ?v\<rparr>"
    note d = walkedD [OF w(5)]
    have "\<exists>j r t zs. mapPages_loop n root (a + PGSIZE) (pa + PGSIZE) perm ?t = Ret r t \<and> walked root ?t ys t zs
        \<and> (\<forall>va < MAXVA. leaf (mem t) root va = mapping (a + PGSIZE) j (pa + PGSIZE) perm (leaf (mem ?t) root va) va)
        \<and> (r = 0 \<and> j = Suc n \<or> r = - 1 \<and> j \<le> n \<and> zs = [] \<and> length ys < 2 * Suc n)"
    proof (rule Suc.IH [OF d(2)])
      show "leaf (mem ?t) root va AND PTE_V = 0" if "va < MAXVA" "vpage (a + PGSIZE) \<le> vpage va"
        "vpage va \<le> vpage (a + PGSIZE) + n" for va
        using w(6) that Suc.prems(5) [of va] next_a(2) by simp
    qed (use d(4,8) Suc.prems(3,4) next_a in simp_all)
    then obtain j r' t zs where rec: "mapPages_loop n root (a + PGSIZE) (pa + PGSIZE) perm ?t = Ret r' t"
      "walked root ?t ys t zs"
      "\<forall>va < MAXVA. leaf (mem t) root va = mapping (a + PGSIZE) j (pa + PGSIZE) perm (leaf (mem ?t) root va) va"
      "r' = 0 \<and> j = Suc n \<or> r' = - 1 \<and> j \<le> n \<and> zs = [] \<and> length ys < 2 * Suc n"
      by blast
    have "mapPages_loop (Suc n) root a pa perm s = Ret r' t"
      using w(1-3) free rec(1) by (simp add: read64_def write64_def)
    moreover have "leaf (mem t) root va = mapping a (Suc j) pa perm (leaf (mem s) root va) va" if "va < MAXVA" for va
      using rec(3) w(6) that by (simp add: mapping_Suc [OF next_a(2)])
    ultimately show ?thesis
      using walked_trans [OF w(5) rec(2)] rec(4) w(4)
      by (intro exI [of _ "Suc j"] exI [of _ r'] exI [of _ t] exI [of _ zs]) auto
  qed
qed

lemma mapPages_run:
  assumes "kmem_inv s xs" "pt_wf (mem s) (in_use (addr_base s) xs) root"
    and "unat va mod 4096 = 0" "unat sz = 4096 * Suc n" "unat va + unat sz \<le> 2 ^ 38"
    and "\<And>a. a < MAXVA \<Longrightarrow> vpage va \<le> vpage a \<Longrightarrow> vpage a \<le> vpage va + n \<Longrightarrow> leaf (mem s) root a AND PTE_V = 0"
  shows "\<exists>j r t ys. mapPages root va sz pa perm s = Ret r t \<and> walked root s xs t ys
    \<and> (\<forall>a < MAXVA. leaf (mem t) root a = mapping va j pa perm (leaf (mem s) root a) a)
    \<and> (r = 0 \<and> j = Suc n \<or> r = - 1 \<and> j \<le> n \<and> ys = [] \<and> length xs < 2 * Suc n)"
proof -
  have "va mod PGSIZE = 0" "sz mod PGSIZE = 0" "sz \<noteq> 0" "unat (sz div PGSIZE) - 1 = n"
    using assms(3,4) by (auto simp: PGSIZE_def word_unat_eq_iff unat_mod unat_div)
  then have "mapPages root va sz pa perm s = mapPages_loop n root va pa perm s"
    by (simp add: mapPages_def)
  then show ?thesis
    using mapPages_loop_spec [OF assms(1-3) _ assms(6), of n] assms(4,5) by simp
qed

text \<open>
  C14. \<^verbatim>\<open>mapPages\<close> on an unmapped, page-aligned range below \<open>MAXVA\<close>: the page table stays a tree of
  pages in use, exactly the pages of the range get the entry \<^verbatim>\<open>PA2PTE(pa)|perm|PTE_V\<close> and every
  other translation and every page outside the table is unchanged. If the free pages run out
  it returns \<open>-1\<close> with a prefix of the range mapped; two free pages for each page of the
  range are enough for success.
\<close>

theorem mapPages_maps_range:
  assumes "kmem_inv s xs" "pt_wf (mem s) (in_use (addr_base s) xs) root"
    and "unat va mod 4096 = 0" "unat sz = 4096 * Suc n" "unat va + unat sz \<le> 2 ^ 38"
    and "\<And>a. a < MAXVA \<Longrightarrow> vpage va \<le> vpage a \<Longrightarrow> vpage a \<le> vpage va + n \<Longrightarrow> leaf (mem s) root a AND PTE_V = 0"
  shows "\<exists>j r t ys. mapPages root va sz pa perm s = Ret r t \<and> walked root s xs t ys
    \<and> (\<forall>a < MAXVA. leaf (mem t) root a = mapping va j pa perm (leaf (mem s) root a) a)
    \<and> (r = 0 \<and> j = Suc n \<or> r = - 1 \<and> j \<le> n \<and> ys = [] \<and> length xs < 2 * Suc n)"
  using assms by (rule mapPages_run)

section \<open>Looking up a mapping\<close>

lemma slot_nonzero:
  assumes "kmem_inv s xs" "pt_wf (mem s) (in_use (addr_base s) xs) root" "node (mem s) root (vpath va 0) = Some p"
  shows "p + 8 * of_nat (vpn 0 va) \<noteq> 0"
proof -
  have "managed (addr_base s) p"
    using pt_wfD(1) [OF assms(2) vpath_ok assms(3)] by (simp add: in_use_def)
  then have "unat (p + 8 * of_nat (vpn 0 va)) = unat p + 8 * vpn 0 va" "p \<noteq> 0"
    using managed_nonzero kmem_invD(1) [OF assms(1)] by (auto simp: slot_unat)
  then show ?thesis
    by (metis add_is_0 unat_eq_0)
qed

lemma uVA2PA_leaf:
  assumes "kmem_inv s xs" "pt_wf (mem s) (in_use (addr_base s) xs) root" "va < MAXVA"
  shows "uVA2PA root va s = Ret (if leaf (mem s) root va AND PTE_V = 0 \<or> leaf (mem s) root va AND PTE_U = 0
    then 0 else PTE2PA (leaf (mem s) root va)) s"
proof (cases "node (mem s) root (vpath va 0)")
  case None
  then have "slot (mem s) root va = 0" "leaf (mem s) root va = 0"
    by (simp_all only: slot_def leaf_vpath option.case)
  then show ?thesis
    using assms(3) by (simp add: uVA2PA_def walk_lookup)
next
  case (Some p)
  then have "slot (mem s) root va = p + 8 * of_nat (vpn 0 va)"
    "leaf (mem s) root va = load64 (mem s) (p + 8 * of_nat (vpn 0 va))"
    by (simp_all only: slot_def leaf_vpath option.case)
  then show ?thesis
    using assms(3) slot_nonzero [OF assms(1,2) Some]
    by (simp add: uVA2PA_def walk_lookup read64_def not_le [symmetric])
qed

lemma page_offset:
  assumes "unat pa mod 4096 = 0" "unat pa + (k * 4096 + 4096) \<le> 2 ^ 56"
  shows "unat (pa + of_nat k * PGSIZE) mod 4096 = 0" "unat (pa + of_nat k * PGSIZE) < 2 ^ 56"
proof -
  have "unat (of_nat k * PGSIZE) = k * 4096"
    using assms(2) by (simp add: PGSIZE_def unat_word_ariths unat_of_nat)
  then have "unat (pa + of_nat k * PGSIZE) = unat pa + k * 4096"
    using assms(2) by (simp add: unat_word_ariths)
  then show "unat (pa + of_nat k * PGSIZE) mod 4096 = 0" "unat (pa + of_nat k * PGSIZE) < 2 ^ 56"
    using assms by simp_all
qed

lemma flags_low:
  assumes "perm AND NOT (mask 10) = (0 :: uint64)"
  shows "(perm OR PTE_V) AND NOT (mask 10) = 0"
proof -
  have "PTE_V AND NOT (mask 10) = 0"
    by (simp add: PTE_V_def mask_eq_exp_minus_1)
  then show ?thesis
    using assms by (simp add: bit.conj_disj_distrib2)
qed

text \<open>
  C15. A user mapping made by \<^verbatim>\<open>mapPages\<close> is what \<^verbatim>\<open>uVA2PA\<close> finds: with \<^verbatim>\<open>PTE_U\<close> among the
  permission bits, every address of the mapped range translates to the corresponding page from
  \<open>pa\<close> on, and every other address translates as it did before.
\<close>

theorem mapPages_then_uVA2PA:
  assumes "kmem_inv s xs" "pt_wf (mem s) (in_use (addr_base s) xs) root"
    and "unat va mod 4096 = 0" "unat sz = 4096 * Suc n" "unat va + unat sz \<le> 2 ^ 38"
    and "\<And>a. a < MAXVA \<Longrightarrow> vpage va \<le> vpage a \<Longrightarrow> vpage a \<le> vpage va + n \<Longrightarrow> leaf (mem s) root a AND PTE_V = 0"
    and "perm AND PTE_U \<noteq> 0" "perm AND NOT (mask 10) = 0" "unat pa mod 4096 = 0" "unat pa + unat sz \<le> 2 ^ 56"
    and "mapPages root va sz pa perm s = Ret 0 t" "a < MAXVA"
  shows "if vpage va \<le> vpage a \<and> vpage a \<le> vpage va + n
    then uVA2PA root a t = Ret (pa + of_nat (vpage a - vpage va) * PGSIZE) t
    else \<exists>p. uVA2PA root a s = Ret p s \<and> uVA2PA root a t = Ret p t"
proof -
  from mapPages_run [OF assms(1-6), of pa perm] assms(11) obtain ys where
    w: "walked root s xs t ys" and l: "leaf (mem t) root a = mapping va (Suc n) pa perm (leaf (mem s) root a) a"
    using assms(12) by auto
  note u = uVA2PA_leaf [OF assms(1,2,12)]
  have v: "uVA2PA root a t = Ret (if leaf (mem t) root a AND PTE_V = 0 \<or> leaf (mem t) root a AND PTE_U = 0
    then 0 else PTE2PA (leaf (mem t) root a)) t"
    using walkedD(2,4,8) [OF w] assms(12) by (intro uVA2PA_leaf) simp_all
  show ?thesis
  proof (cases "vpage va \<le> vpage a \<and> vpage a \<le> vpage va + n")
    case True
    let ?pa = "pa + of_nat (vpage a - vpage va) * PGSIZE"
    have k: "vpage a - vpage va \<le> n"
      using True by linarith
    have "(vpage a - vpage va) * 4096 + 4096 \<le> unat sz"
      using k assms(4) by simp
    then have "unat ?pa mod 4096 = 0" "unat ?pa < 2 ^ 56"
      using page_offset [OF assms(9), of "vpage a - vpage va"] assms(10) by simp_all
    then have "PTE2PA (PA2PTE ?pa OR perm OR PTE_V) = ?pa"
      using flags_low [OF assms(8)] by (intro PTE2PA_PA2PTE)
    moreover have "(PA2PTE ?pa OR perm OR PTE_V) AND PTE_V \<noteq> 0" "(PA2PTE ?pa OR perm OR PTE_V) AND PTE_U \<noteq> 0"
      using assms(7) unfolding pte_flags by (simp_all add: bit_or_iff PTE_V_def)
    ultimately show ?thesis
      using v l True by (simp add: mapping_def)
  next
    case False
    then show ?thesis
      using u v l by (auto simp: mapping_def)
  qed
qed

text \<open>
  A machine with four pages above the image: the bitmap, a page that is an empty page table,
  and two free pages.
\<close>

definition small_kmem :: kmem where
  "small_kmem = (tiny_kmem True)\<lparr>
     mem := store64 (\<lambda>a. if a = 0x87FFC000 then 0xF3 else 0) 0x87FFE000 0x87FFF000,
     freelist := 0x87FFE000, kbitmap := 0x87FFC000, addr_base := 0x87FFC000, kend := 0x87FFC000\<rparr>"

lemma small_managed: "managed 0x87FFC000 x \<longleftrightarrow> x \<in> {0x87FFD000, 0x87FFE000, 0x87FFF000}"
proof
  assume m: "managed 0x87FFC000 x"
  then have b: "unat x mod 4096 = 0" "unat (0x87FFD000 :: uint64) \<le> unat x" "unat x \<le> unat (0x87FFF000 :: uint64)"
    by (simp_all add: managed_def meta_pages_def layout_numbers)
  define k where "k = (unat x - 2281689088) div 4096"
  have x: "unat x = 2281689088 + 4096 * k"
    unfolding k_def using b by (intro aligned_minus) simp_all
  have "k \<le> 2"
    unfolding k_def using b(3) div_le_mono [of "unat x - 2281689088" 8192 4096] by simp
  then consider "k = 0" | "k = 1" | "k = 2"
    by linarith
  then have "unat x = unat (0x87FFD000 :: uint64) \<or> unat x = unat (0x87FFE000 :: uint64)
      \<or> unat x = unat (0x87FFF000 :: uint64)"
    by cases (simp_all add: x)
  then have "x = 0x87FFD000 \<or> x = 0x87FFE000 \<or> x = 0x87FFF000"
    by (simp only: word_unat_eq_iff)
  then show "x \<in> {0x87FFD000, 0x87FFE000, 0x87FFF000}"
    by blast
qed (auto simp: managed_def meta_pages_def layout_numbers)

lemma small_kmem_inv: "kmem_inv small_kmem [0x87FFE000, 0x87FFF000]"
proof -
  have "base_ok 0x87FFC000" "pidx 0x87FFC000 0x87FFD000 = 1" "pidx 0x87FFC000 0x87FFE000 = 2" "pidx 0x87FFC000 0x87FFF000 = 3"
    by (simp_all add: base_ok_def layout_numbers pidx_def)
  moreover have "load64 (mem small_kmem) 0x87FFF000 = 0" "load64 (mem small_kmem) 0x87FFE000 = 0x87FFF000"
    by (simp add: small_kmem_def load64_def store64_def) (simp add: small_kmem_def)
  moreover have "mem small_kmem 0x87FFC000 = 0xF3"
    by (simp add: small_kmem_def store64_def)
  then have "page_bit (mem small_kmem) 0x87FFC000 1" "\<not> page_bit (mem small_kmem) 0x87FFC000 2"
    "\<not> page_bit (mem small_kmem) 0x87FFC000 3"
    by (simp_all add: page_bit_def bit_numeral_simps)
  moreover have "hart_ok small_kmem" "idle LKmem small_kmem" "kbitmap small_kmem = addr_base small_kmem"
    "kend small_kmem = addr_base small_kmem" "addr_base small_kmem = 0x87FFC000" "freelist small_kmem = 0x87FFE000"
    by (simp_all add: small_kmem_def)
  ultimately show ?thesis
    unfolding kmem_inv_def kmem_wf_def by (simp add: small_managed)
qed

lemma empty_leaf: "(\<And>i. i < 512 \<Longrightarrow> load64 m (root + 8 * of_nat i) = 0) \<Longrightarrow> leaf m root va = 0"
  by (simp add: leaf_def child_def)

lemma empty_table:
  assumes "\<And>i. i < 512 \<Longrightarrow> load64 m (root + 8 * of_nat i) = 0" "root \<in> used"
  shows "pt_wf m used root"
proof -
  have "node m root is = None" if "path_ok is" "is \<noteq> []" for "is"
    using that assms(1) by (cases "is") (auto simp: path_ok_def child_def)
  then have n: "node m root is = Some p \<longleftrightarrow> is = [] \<and> p = root" if "path_ok is" for "is" p
    using that by (cases "is = []") auto
  then show ?thesis
    using assms(2) by (auto simp: pt_wf_def tree_def)
qed

lemma small_kmem_table:
  "pt_wf (mem small_kmem) (in_use (addr_base small_kmem) [0x87FFE000, 0x87FFF000]) 0x87FFD000"
  "leaf (mem small_kmem) 0x87FFD000 va = 0"
proof -
  have zero: "load64 (mem small_kmem) (0x87FFD000 + 8 * of_nat i) = 0" if "i < 512" for i
  proof -
    have "mem small_kmem x = 0" if w: "within (0x87FFD000 + 8 * of_nat i) 8 x" for x
    proof -
      have "within 0x87FFD000 4096 x"
        using slot_within [OF \<open>i < 512\<close> w] .
      then have x: "2281689088 \<le> unat x" "unat x < 2281693184"
        using within_nat [of "0x87FFD000" 4096 x] by simp_all
      then have "\<not> within 0x87FFE000 8 x"
        using within_nat [of "0x87FFE000" 8 x] by simp
      moreover have "x \<noteq> 0x87FFC000"
        using x by auto
      ultimately show ?thesis
        by (simp add: small_kmem_def store64_other)
    qed
    then have "load64 (mem small_kmem) (0x87FFD000 + 8 * of_nat i) = load64 (\<lambda>_. 0) (0x87FFD000 + 8 * of_nat i)"
      by (rule load64_cong)
    then show ?thesis
      by (simp add: load64_def)
  qed
  show "pt_wf (mem small_kmem) (in_use (addr_base small_kmem) [0x87FFE000, 0x87FFF000]) 0x87FFD000"
    by (rule empty_table [OF zero]) (simp_all add: in_use_def small_managed small_kmem_def)
  show "leaf (mem small_kmem) 0x87FFD000 va = 0"
    using zero by (rule empty_leaf)
qed

theorem mapPages_maps_range_witness:
  "\<exists>j r t ys. mapPages 0x87FFD000 0x1000 0x1000 0x80001000 PTE_R small_kmem = Ret r t
    \<and> walked 0x87FFD000 small_kmem [0x87FFE000, 0x87FFF000] t ys
    \<and> r = 0 \<and> j = 1 \<and> leaf (mem t) 0x87FFD000 0x1234 = PA2PTE 0x80001000 OR PTE_R OR PTE_V"
proof -
  have "\<exists>j r t ys. mapPages 0x87FFD000 0x1000 0x1000 0x80001000 PTE_R small_kmem = Ret r t
    \<and> walked 0x87FFD000 small_kmem [0x87FFE000, 0x87FFF000] t ys
    \<and> (\<forall>a < MAXVA. leaf (mem t) 0x87FFD000 a = mapping 0x1000 j 0x80001000 PTE_R (leaf (mem small_kmem) 0x87FFD000 a) a)
    \<and> (r = 0 \<and> j = Suc 0 \<or> r = - 1 \<and> j \<le> 0 \<and> ys = [] \<and> length [0x87FFE000, 0x87FFF000 :: uint64] < 2 * Suc 0)"
    by (rule mapPages_maps_range [OF small_kmem_inv small_kmem_table(1)]) (simp_all add: small_kmem_table(2))
  moreover have "(0x1234 :: uint64) < MAXVA" "vpage 0x1000 = 1" "vpage 0x1234 = 1"
    by (simp_all add: MAXVA_unat vpage_def)
  ultimately show ?thesis
    by (auto simp: mapping_def)
qed

theorem mapPages_then_uVA2PA_witness:
  "\<exists>t. mapPages 0x87FFD000 0x1000 0x1000 0x80001000 (PTE_R OR PTE_U) small_kmem = Ret 0 t
    \<and> uVA2PA 0x87FFD000 0x1234 t = Ret 0x80001000 t"
proof -
  have "\<exists>j r t ys. mapPages 0x87FFD000 0x1000 0x1000 0x80001000 (PTE_R OR PTE_U) small_kmem = Ret r t
    \<and> walked 0x87FFD000 small_kmem [0x87FFE000, 0x87FFF000] t ys
    \<and> (\<forall>a < MAXVA. leaf (mem t) 0x87FFD000 a =
        mapping 0x1000 j 0x80001000 (PTE_R OR PTE_U) (leaf (mem small_kmem) 0x87FFD000 a) a)
    \<and> (r = 0 \<and> j = Suc 0 \<or> r = - 1 \<and> j \<le> 0 \<and> ys = [] \<and> length [0x87FFE000, 0x87FFF000 :: uint64] < 2 * Suc 0)"
    by (rule mapPages_run [OF small_kmem_inv small_kmem_table(1)]) (simp_all add: small_kmem_table(2))
  then obtain t where t: "mapPages 0x87FFD000 0x1000 0x1000 0x80001000 (PTE_R OR PTE_U) small_kmem = Ret 0 t"
    by auto
  have "vpage 0x1000 = 1" "vpage 0x1234 = 1"
    by (simp_all add: vpage_def)
  then have "uVA2PA 0x87FFD000 0x1234 t = Ret 0x80001000 t"
    using mapPages_then_uVA2PA [OF small_kmem_inv small_kmem_table(1), of "0x1000" "0x1000" 0 "PTE_R OR PTE_U"
        "0x80001000" t "0x1234"] t
    by (simp add: small_kmem_table(2) PTE_R_def PTE_U_def mask_eq_exp_minus_1 MAXVA_unat)
  with t show ?thesis by blast
qed

end
