(* ===== verification/Cstring.thy ===== *)
theory Cstring
  imports Prelude
begin

text \<open>
  The string functions of \<^verbatim>\<open>kernel/lib/string.c\<close> and the arithmetic of
  \<^verbatim>\<open>kernel/lib/math.c\<close>. A \<^verbatim>\<open>char*\<close> is the function from offsets to the bytes behind the
  pointer, so a caller passes an array of its own or a window of memory.
\<close>

type_synonym cptr = "nat \<Rightarrow> byte"

section \<open>Strings\<close>

primrec memcmp_from :: "cptr \<Rightarrow> cptr \<Rightarrow> nat \<Rightarrow> nat \<Rightarrow> int" where
  "memcmp_from s1 s2 i 0 = 0"
| "memcmp_from s1 s2 i (Suc n) =
     (if s1 i \<noteq> s2 i then uint (s1 i) - uint (s2 i) else memcmp_from s1 s2 (Suc i) n)"

definition memcmp :: "cptr \<Rightarrow> cptr \<Rightarrow> uint \<Rightarrow> int" where
  "memcmp v1 v2 n = memcmp_from v1 v2 0 (unat n)"

primrec strncmp_from :: "cptr \<Rightarrow> cptr \<Rightarrow> nat \<Rightarrow> nat \<Rightarrow> int" where
  "strncmp_from p q i 0 = 0"
| "strncmp_from p q i (Suc n) =
     (if p i \<noteq> 0 \<and> p i = q i then strncmp_from p q (Suc i) n else uint (p i) - uint (q i))"

definition strncmp :: "cptr \<Rightarrow> cptr \<Rightarrow> uint \<Rightarrow> int" where
  "strncmp p q n = strncmp_from p q 0 (unat n)"

text \<open>\<^verbatim>\<open>strlen\<close> runs past an array without a terminating zero; \<open>None\<close> is that case.\<close>

partial_function (option) strlen_from :: "cptr \<Rightarrow> nat \<Rightarrow> nat option" where
  "strlen_from s n = (if s n = 0 then Some n else strlen_from s (Suc n))"

definition strlen :: "cptr \<Rightarrow> nat option" where
  "strlen s = strlen_from s 0"

text \<open>
  The loop \<^verbatim>\<open>while(--n > 0 && (*s++ = *t++) != 0);\<close> at position \<open>i\<close>, then the final
  \<^verbatim>\<open>*s = 0\<close>. The last argument is \<^verbatim>\<open>n\<close> before the decrement, at least 1.
\<close>

fun safestrcpy_loop :: "cptr \<Rightarrow> cptr \<Rightarrow> nat \<Rightarrow> nat \<Rightarrow> cptr" where
  "safestrcpy_loop s t i (Suc (Suc n)) =
     (if t i \<noteq> 0 then safestrcpy_loop (s(i := t i)) t (Suc i) (Suc n)
      else s(i := t i, Suc i := 0))"
| "safestrcpy_loop s t i n = s(i := 0)"

definition safestrcpy :: "cptr \<Rightarrow> cptr \<Rightarrow> int \<Rightarrow> cptr" where
  "safestrcpy s t n = (if n \<le> 0 then s else safestrcpy_loop s t 0 (nat n))"

text \<open>The string an array holds, looking at no more than \<open>n\<close> bytes.\<close>

definition cstr :: "cptr \<Rightarrow> nat \<Rightarrow> byte list" where
  "cstr p n = takeWhile (\<lambda>b. b \<noteq> 0) (map p [0..<n])"

definition of_string :: "string \<Rightarrow> cptr" where
  "of_string xs = (\<lambda>i. if i < length xs then of_char (xs ! i) else 0)"

text \<open>Strings from position \<open>i\<close> on, the generalisation the loops need.\<close>

definition cstr_from :: "cptr \<Rightarrow> nat \<Rightarrow> nat \<Rightarrow> byte list" where
  "cstr_from p i n = takeWhile (\<lambda>b. b \<noteq> 0) (map p [i..<i + n])"

lemma cstr_from_0: "cstr_from p 0 n = cstr p n"
  by (simp add: cstr_from_def cstr_def)

lemma cstr_from_simps [simp]:
  "cstr_from p i 0 = []"
  "cstr_from p i (Suc n) = (if p i = 0 then [] else p i # cstr_from p (Suc i) n)"
proof -
  have "[i..<i + Suc n] = i # [Suc i..<Suc i + n]"
    by (simp add: upt_conv_Cons)
  then show "cstr_from p i (Suc n) = (if p i = 0 then [] else p i # cstr_from p (Suc i) n)"
    by (simp add: cstr_from_def del: upt_Suc)
qed (simp add: cstr_from_def)

lemma cstr_from_cong:
  "(\<And>j. i \<le> j \<Longrightarrow> j < i + n \<Longrightarrow> p j = q j) \<Longrightarrow> cstr_from p i n = cstr_from q i n"
  unfolding cstr_from_def by (rule arg_cong [where f = "takeWhile _"]) simp

lemma strncmp_from_zero: "strncmp_from p q i n = 0 \<longleftrightarrow> cstr_from p i n = cstr_from q i n"
  by (induction n arbitrary: i) (auto simp: uint_0_iff simp flip: word_uint_eq_iff)

text \<open>
  C5. \<^verbatim>\<open>strncmp\<close> returns zero exactly when the two strings agree up to the first
  \<open>n\<close> characters: the comparison the directory lookup relies on.
\<close>

theorem strncmp_zero_iff: "strncmp p q n = 0 \<longleftrightarrow> cstr p (unat n) = cstr q (unat n)"
  by (simp add: strncmp_def strncmp_from_zero cstr_from_0)

lemma memcmp_from_zero:
  "memcmp_from p q i n = 0 \<longleftrightarrow> (\<forall>j. i \<le> j \<and> j < i + n \<longrightarrow> p j = q j)"
proof (induction n arbitrary: i)
  case (Suc n)
  have "(\<forall>j. i \<le> j \<and> j < i + Suc n \<longrightarrow> p j = q j) \<longleftrightarrow>
      p i = q i \<and> (\<forall>j. Suc i \<le> j \<and> j < Suc i + n \<longrightarrow> p j = q j)"
    by (metis Suc_leD Suc_le_eq add_Suc_right add_Suc le_add1 le_less less_Suc_eq_le)
  with Suc show ?case by (simp flip: word_uint_eq_iff)
qed auto

lemma strlen_from_Some:
  assumes "\<And>j. i \<le> j \<Longrightarrow> j < n \<Longrightarrow> s j \<noteq> 0" "s n = 0" "i \<le> n"
  shows "strlen_from s i = Some n"
  using assms
proof (induction "n - i" arbitrary: i)
  case 0
  then show ?case by (simp add: strlen_from.simps)
next
  case (Suc k)
  then have "strlen_from s (Suc i) = Some n"
    by (intro Suc.hyps(1)) auto
  with Suc show ?case by (subst strlen_from.simps) auto
qed

lemma strlen_ends: "s n = 0 \<Longrightarrow> \<exists>k \<le> n. strlen s = Some k \<and> s k = 0"
proof -
  assume "s n = 0"
  then have "s (LEAST k. s k = 0) = 0" "(LEAST k. s k = 0) \<le> n"
    by (auto intro: LeastI Least_le)
  moreover have "strlen s = Some (LEAST k. s k = 0)"
    unfolding strlen_def by (rule strlen_from_Some) (use calculation not_less_Least in auto)
  ultimately show ?thesis by auto
qed

lemma safestrcpy_loop_spec:
  "0 < k \<Longrightarrow> cstr_from (safestrcpy_loop s t i k) i k = cstr_from t i (k - 1)
    \<and> (\<forall>j. j < i \<or> i + k \<le> j \<longrightarrow> safestrcpy_loop s t i k j = s j)
    \<and> (\<exists>j \<ge> i. j < i + k \<and> safestrcpy_loop s t i k j = 0)"
proof (induction s t i k rule: safestrcpy_loop.induct)
  case (1 s t i n)
  show ?case
  proof (cases "t i = 0")
    case True
    then show ?thesis by (auto intro: exI [of _ i])
  next
    case False
    let ?r = "safestrcpy_loop (s(i := t i)) t (Suc i) (Suc n)"
    from "1.IH" [OF False] have IH: "cstr_from ?r (Suc i) (Suc n) = cstr_from t (Suc i) n"
      "\<And>j. j < Suc i \<or> Suc i + Suc n \<le> j \<Longrightarrow> ?r j = (s(i := t i)) j"
      "\<exists>j \<ge> Suc i. j < Suc i + Suc n \<and> ?r j = 0"
      by (auto simp: fun_upd_def simp del: cstr_from_simps(2))
    have "?r i = t i"
      using IH(2) [of i] by simp
    moreover have "\<exists>j \<ge> i. j < i + Suc (Suc n) \<and> ?r j = 0"
      using IH(3) by (metis Suc_leD add_Suc add_Suc_right)
    ultimately show ?thesis
      using False IH(1,2) by (simp add: cstr_from_simps(2) [of ?r i "Suc n"] del: cstr_from_simps(2))
        simp
  qed
qed auto

text \<open>
  C6. \<^verbatim>\<open>safestrcpy(s, t, n)\<close> leaves in \<open>s\<close> the first \<open>n - 1\<close> characters of the
  string \<open>t\<close>, always zero-terminated within the \<open>n\<close> bytes, and writes nothing outside them.
\<close>

theorem safestrcpy_spec:
  assumes "0 < n"
  shows "cstr (safestrcpy s t n) (nat n) = cstr t (nat n - 1)
    \<and> (\<exists>j. j < nat n \<and> safestrcpy s t n j = 0) \<and> (\<forall>j. nat n \<le> j \<longrightarrow> safestrcpy s t n j = s j)"
  using assms safestrcpy_loop_spec [of "nat n" s t 0]
  by (auto simp: safestrcpy_def cstr_from_0)

theorem safestrcpy_spec_witness:
  "cstr (safestrcpy (\<lambda>_. 7) (of_string ''waiter'') 16) 16 = cstr (of_string ''waiter'') 15
    \<and> (\<exists>j. j < 16 \<and> safestrcpy (\<lambda>_. 7) (of_string ''waiter'') 16 j = 0)
    \<and> safestrcpy (\<lambda>_. 7) (of_string ''waiter'') 16 20 = 7"
  using safestrcpy_spec [of 16 "\<lambda>_. 7" "of_string ''waiter''"] by simp

section \<open>Arithmetic (math.c)\<close>

lemma unat_shiftr_1: "unat (drop_bit 1 (x :: uint64)) = unat x div 2"
  by (simp add: drop_bit_Suc unat_div)

lemma unat_above_1: "1 < x \<longleftrightarrow> 1 < unat (x :: uint64)"
  by (simp add: word_less_nat_alt)

function log2_loop :: "uint64 \<Rightarrow> int \<Rightarrow> int" where
  "log2_loop x k = (if x > 1 then log2_loop (drop_bit 1 x) (k + 1) else k)"
  by pat_completeness auto
termination
  by (relation "measure (\<lambda>(x, k). unat x)") (auto simp only: unat_shiftr_1 unat_above_1 in_measure split: prod.split)

declare log2_loop.simps [simp del]

definition log2 :: "uint64 \<Rightarrow> int" where
  "log2 x = log2_loop x 0"

partial_function (option) power_loop :: "uint \<Rightarrow> uint \<Rightarrow> int \<Rightarrow> uint option" where
  "power_loop base acc n =
     (if n = 0 then Some acc
      else power_loop (base * base) (if odd n then acc * base else acc) (n div 2))"

definition power :: "uint \<Rightarrow> int \<Rightarrow> uint option" where
  "power a n = power_loop a 1 n"

lemma log2_loop_spec:
  "x \<noteq> 0 \<Longrightarrow> \<exists>j. log2_loop x k = k + int j \<and> 2 ^ j \<le> unat x \<and> unat x < 2 ^ (j + 1)"
proof (induction x k rule: log2_loop.induct)
  case (1 x k)
  show ?case
  proof (cases "x > 1")
    case True
    then have "drop_bit 1 x \<noteq> 0"
      using unat_shiftr_1 [of x] by (auto simp: unat_above_1 simp del: drop_bit_eq_div)
    from "1.IH" [OF True this] obtain j where
      "log2_loop (drop_bit 1 x) (k + 1) = k + 1 + int j" "2 ^ j \<le> unat x div 2"
      "unat x div 2 < 2 ^ (j + 1)"
      by (auto simp only: unat_shiftr_1)
    then show ?thesis
      using True by (intro exI [of _ "Suc j"]) (subst log2_loop.simps, simp, linarith?)
  next
    case False
    then have "unat x = 1"
      using "1.prems" unat_eq_0 [of x] by (simp add: unat_above_1)
    then show ?thesis
      using False by (intro exI [of _ 0]) (simp add: log2_loop.simps [of x k])
  qed
qed

text \<open>
  C7. \<^verbatim>\<open>log2(x)\<close> is the integer logarithm of every non-zero 64-bit value.
\<close>

theorem log2_spec:
  assumes "x \<noteq> 0"
  shows "0 \<le> log2 x \<and> 2 ^ nat (log2 x) \<le> unat x \<and> unat x < 2 ^ (nat (log2 x) + 1)"
  using log2_loop_spec [OF assms, of 0] by (auto simp: log2_def)

lemma power_loop_spec: "power_loop base acc (int n) = Some (acc * base ^ n)"
proof (induction n arbitrary: base acc rule: less_induct)
  case (less n)
  show ?case
  proof (cases "n = 0")
    case False
    have half: "int n div 2 = int (n div 2)"
      by simp
    have "base ^ n = (base * base) ^ (n div 2) * (if odd n then base else 1)"
      by (cases "odd n") (auto elim!: oddE evenE simp: power_add power_mult power2_eq_square)
    with False less.IH [of "n div 2"] show ?thesis
      by (subst power_loop.simps) (simp add: half)
  qed (simp add: power_loop.simps)
qed

text \<open>
  C8. Fast exponentiation: \<^verbatim>\<open>power(a, n)\<close> ends for every \<^verbatim>\<open>n >= 0\<close> and returns the \<open>n\<close>-th
  power of \<open>a\<close> in 32-bit arithmetic.
\<close>

theorem power_spec:
  assumes "0 \<le> n"
  shows "power a n = Some (a ^ nat n)"
  using power_loop_spec [of a 1 "nat n"] assms by (simp add: power_def)

theorem power_spec_witness: "power 3 5 = Some 243"
  using power_spec [of 5 3] by simp

theorem log2_spec_witness:
  "0 \<le> log2 100 \<and> 2 ^ nat (log2 100) \<le> (100 :: nat) \<and> 100 < (2 :: nat) ^ (nat (log2 100) + 1)"
  using log2_spec [of 100] by simp

end
