(* ===== verification/Proc.thy ===== *)
theory Proc
  imports Spinlock Pagetable Cstring
begin

text \<open>
  Processes: the table of \<^verbatim>\<open>kernel/proc/proc.c\<close> with sleeping and waking, scheduling, killing,
  allocating and freeing of processes and waiting for children, and the functions of
  \<^verbatim>\<open>proc.c\<close> and \<^verbatim>\<open>vm.c\<close> that copy between kernel and user memory. A \<^verbatim>\<open>struct PCB*\<close> is the
  index into \<^verbatim>\<open>PCBs\<close>, a \<^verbatim>\<open>struct file*\<close> and a \<^verbatim>\<open>struct inode*\<close> an index into the file and inode
  table. \<^verbatim>\<open>fork\<close> and \<^verbatim>\<open>exit\<close>, which also work on open files, come later.
\<close>

section \<open>State (proc.h, param.h)\<close>

definition NPROC :: nat where "NPROC = 64"
definition NOFILE :: nat where "NOFILE = 16"

datatype procstate = UNUSED | USED | SLEEPING | RUNNABLE | RUNNING | ZOMBIE

text \<open>The callee-saved registers \<^verbatim>\<open>s0\<close> to \<^verbatim>\<open>s11\<close> of \<^verbatim>\<open>struct context\<close> are one function.\<close>

record context_regs =
  c_ra :: uint64
  c_sp :: uint64
  c_s :: "nat \<Rightarrow> uint64"

record PCB =
  p_state :: procstate
  p_pid :: int
  p_pagetable :: uint64
  p_context :: context_regs
  p_kstack :: uint64
  p_trapframe :: uint64
  p_name :: cptr
  p_killed :: int
  p_parent :: "nat option"
  p_chan :: "chan option"
  p_xstate :: int
  p_sz :: uint64
  p_ofile :: "nat \<Rightarrow> nat option"
  p_cwd :: "nat option"

text \<open>
  The addresses of \<^verbatim>\<open>trampoline\<close>, \<^verbatim>\<open>forkret\<close> and \<^verbatim>\<open>usertrap\<close> are fixed by the linker.
\<close>

record procs = kmem +
  PCBs :: "nat \<Rightarrow> PCB"
  nextpid :: int
  initproc :: "nat option"
  trampoline :: uint64
  forkret_addr :: uint64

definition set_pcb :: "nat \<Rightarrow> (PCB \<Rightarrow> PCB) \<Rightarrow> ('z procs_scheme, unit) oper" where
  "set_pcb p f = modify (\<lambda>s. s\<lparr>PCBs := (PCBs s)(p := f (PCBs s p))\<rparr>)"

section \<open>The running process, killing, sleeping and waking (proc.c)\<close>

definition myproc :: "('z procs_scheme, nat option) oper" where
  "myproc = andthen push_off
     (bind (gets (\<lambda>s. c_proc (mycpu s))) (\<lambda>p. andthen pop_off (ret p)))"

text \<open>Dereferencing the result of \<^verbatim>\<open>myproc()\<close>.\<close>

definition thisproc :: "('z procs_scheme, nat) oper" where
  "thisproc = bind myproc (\<lambda>p. case p of None \<Rightarrow> Fault Wild | Some i \<Rightarrow> ret i)"

definition setkilled :: "nat \<Rightarrow> ('z procs_scheme, unit) oper" where
  "setkilled p = critical (LProc p) (set_pcb p (\<lambda>c. c\<lparr>p_killed := 1\<rparr>))"

definition killed :: "nat \<Rightarrow> ('z procs_scheme, int) oper" where
  "killed p = critical (LProc p) (gets (\<lambda>s. p_killed (PCBs s p)))"

primrec kkill_loop :: "nat list \<Rightarrow> int \<Rightarrow> ('z procs_scheme, int) oper" where
  "kkill_loop [] pid = ret (- 1)"
| "kkill_loop (p # ps) pid =
     andthen (acquire (LProc p))
     (bind (gets (\<lambda>s. PCBs s p)) (\<lambda>c.
      if p_pid c = pid
      then andthen (set_pcb p (\<lambda>c. c\<lparr>p_killed := 1\<rparr>))
        (andthen (whenM (p_state c = SLEEPING) (set_pcb p (\<lambda>c. c\<lparr>p_state := RUNNABLE\<rparr>)))
        (andthen (release (LProc p)) (ret 0)))
      else andthen (release (LProc p)) (kkill_loop ps pid)))"

definition kkill :: "int \<Rightarrow> ('z procs_scheme, int) oper" where
  "kkill pid = kkill_loop [0..<NPROC] pid"

text \<open>
  \<^verbatim>\<open>sched\<close> checks that only the process lock is held and gives up the processor. The switch
  itself is the fault \<open>e\<close>, which says why: the kernel thread continues after it in a later
  state, when the scheduler has chosen the process again.
\<close>

definition sched :: "fault \<Rightarrow> ('z procs_scheme, 'a) oper" where
  "sched e = bind (gets (\<lambda>s. c_proc (mycpu s))) (\<lambda>cp.
     case cp of None \<Rightarrow> Fault Wild
     | Some p \<Rightarrow>
       bind (gets (holding (LProc p))) (\<lambda>h.
       if \<not> h then panic ''sched p->lock''
       else bind (gets (\<lambda>s. noff (mycpu s))) (\<lambda>n.
       if n \<noteq> 1 then panic ''sched locks''
       else bind (gets (\<lambda>s. p_state (PCBs s p))) (\<lambda>st.
       if st = RUNNING then panic ''sched RUNNING''
       else bind (gets intr_get) (\<lambda>i.
       if i then panic ''sched interruptible''
       else Fault e)))))"

definition sleep :: "chan \<Rightarrow> lockid \<Rightarrow> ('z procs_scheme, 'a) oper" where
  "sleep ch L = bind thisproc (\<lambda>p.
     andthen (acquire (LProc p))
     (andthen (release L)
     (andthen (set_pcb p (\<lambda>c. c\<lparr>p_chan := Some ch\<rparr>))
     (andthen (set_pcb p (\<lambda>c. c\<lparr>p_state := SLEEPING\<rparr>))
     (sched (Sleep ch))))))"

text \<open>
  The rest of \<^verbatim>\<open>sched\<close> and of \<^verbatim>\<open>sleep\<close>, run when the scheduler has switched back to process \<open>p\<close>;
  \<open>i\<close> is the local variable \<^verbatim>\<open>intena\<close> of \<^verbatim>\<open>sched\<close>.
\<close>

definition sched_resume :: "bool \<Rightarrow> ('z procs_scheme, unit) oper" where
  "sched_resume i = modify (\<lambda>s. set_mycpu ((mycpu s)\<lparr>intena := i\<rparr>) s)"

definition sleep_resume :: "nat \<Rightarrow> lockid \<Rightarrow> bool \<Rightarrow> ('z procs_scheme, unit) oper" where
  "sleep_resume p L i =
     andthen (sched_resume i)
     (andthen (set_pcb p (\<lambda>c. c\<lparr>p_chan := None\<rparr>))
     (andthen (release (LProc p)) (acquire L)))"

definition wakeup_slot :: "chan option \<Rightarrow> nat \<Rightarrow> ('z procs_scheme, unit) oper" where
  "wakeup_slot ch p =
     bind myproc (\<lambda>me.
     whenM (Some p \<noteq> me)
       (andthen (acquire (LProc p))
       (bind (gets (\<lambda>s. PCBs s p)) (\<lambda>c.
        andthen (whenM (p_state c = SLEEPING \<and> p_chan c = ch) (set_pcb p (\<lambda>c. c\<lparr>p_state := RUNNABLE\<rparr>)))
        (release (LProc p))))))"

definition wakeup :: "chan option \<Rightarrow> ('z procs_scheme, unit) oper" where
  "wakeup ch = forM [0..<NPROC] (wakeup_slot ch)"

definition procinit :: "('z procs_scheme, unit) oper" where
  "procinit =
     andthen (modify (initlock LPid ''nextpid''))
     (andthen (modify (initlock LWait ''wait_lock''))
     (forM [0..<NPROC] (\<lambda>p.
        andthen (modify (initlock (LProc p) ''proc''))
        (andthen (set_pcb p (\<lambda>c. c\<lparr>p_state := UNUSED\<rparr>))
        (set_pcb p (\<lambda>c. c\<lparr>p_kstack := KSTACK p\<rparr>))))))"

text \<open>
  The scheduler's loop body for one slot: up to the switch to the process, and from the
  switch back on.
\<close>

definition scheduler_pick :: "nat \<Rightarrow> ('z procs_scheme, bool) oper" where
  "scheduler_pick p =
     andthen (acquire (LProc p))
     (bind (gets (\<lambda>s. p_state (PCBs s p))) (\<lambda>st.
      if st = RUNNABLE
      then andthen (set_pcb p (\<lambda>c. c\<lparr>p_state := RUNNING\<rparr>))
        (andthen (modify (\<lambda>s. set_mycpu ((mycpu s)\<lparr>c_proc := Some p\<rparr>) s)) (ret True))
      else andthen (release (LProc p)) (ret False)))"

definition scheduler_back :: "nat \<Rightarrow> ('z procs_scheme, unit) oper" where
  "scheduler_back p =
     andthen (modify (\<lambda>s. set_mycpu ((mycpu s)\<lparr>c_proc := None\<rparr>) s)) (release (LProc p))"

text \<open>
  A complete stay in \<^verbatim>\<open>sleep\<close>, on one hart: the process gives up the processor, the scheduler
  takes over, the rest of the system runs (\<open>rest\<close>), and the scheduler switches back if the
  process has been woken. If it has not, it is still asleep.
\<close>

definition sleep_through :: "('z procs_scheme, unit) oper \<Rightarrow> chan \<Rightarrow> lockid \<Rightarrow> ('z procs_scheme, unit) oper" where
  "sleep_through rest ch L s =
     (case (sleep ch L :: ('z procs_scheme, unit) oper) s of
        Ret r t \<Rightarrow> Ret r t
      | Fault e t \<Rightarrow>
          if e \<noteq> Sleep ch then Fault e t
          else (case c_proc (mycpu t) of None \<Rightarrow> Fault Wild t
            | Some p \<Rightarrow>
               andthen (scheduler_back p)
               (andthen rest
               (bind (scheduler_pick p) (\<lambda>ok.
                if ok then sleep_resume p L (intena (mycpu t)) else Fault (Sleep ch)))) t))"

definition yield :: "('z procs_scheme, 'a) oper" where
  "yield = bind (gets (\<lambda>s. c_proc (mycpu s))) (\<lambda>cp.
     case cp of None \<Rightarrow> Fault Wild
     | Some p \<Rightarrow>
       andthen (acquire (LProc p))
       (andthen (set_pcb p (\<lambda>c. c\<lparr>p_state := RUNNABLE\<rparr>))
       (sched Yield)))"

definition allocpid :: "('z procs_scheme, int) oper" where
  "allocpid = critical LPid
     (bind (gets nextpid) (\<lambda>pid. andthen (modify (\<lambda>s. s\<lparr>nextpid := nextpid s + 1\<rparr>)) (ret pid)))"

section \<open>Allocating and freeing a process (proc.c)\<close>

definition uFreeUserVM :: "uint64 \<Rightarrow> uint64 \<Rightarrow> ('z procs_scheme, unit) oper" where
  "uFreeUserVM pagetable sz =
     andthen (uVmUnmap pagetable TRAMPOLINE 1 False)
     (andthen (uVmUnmap pagetable TRAPFRAME 1 False)
     (uVmFree pagetable sz))"

definition uFreeProc :: "nat \<Rightarrow> ('z procs_scheme, unit) oper" where
  "uFreeProc p =
     bind (gets (\<lambda>s. p_trapframe (PCBs s p))) (\<lambda>tf.
     andthen (whenM (tf \<noteq> 0) (kfree tf))
     (andthen (set_pcb p (\<lambda>c. c\<lparr>p_trapframe := 0\<rparr>))
     (bind (gets (\<lambda>s. PCBs s p)) (\<lambda>c.
      andthen (whenM (p_pagetable c \<noteq> 0) (uFreeUserVM (p_pagetable c) (p_sz c)))
      (set_pcb p (\<lambda>c. c\<lparr>p_pagetable := 0, p_sz := 0, p_pid := 0, p_parent := None,
         p_name := (p_name c)(0 := 0), p_killed := 0, p_xstate := 0, p_chan := None,
         p_state := UNUSED\<rparr>))))))"

definition procPagetable :: "nat \<Rightarrow> ('z procs_scheme, uint64) oper" where
  "procPagetable p =
     bind uVmCreate (\<lambda>pagetable.
     if pagetable = 0 then ret 0
     else bind (gets trampoline) (\<lambda>tr.
     bind (mapPages pagetable TRAMPOLINE PGSIZE tr (PTE_R OR PTE_X)) (\<lambda>r.
     if r < 0 then andthen (uVmFree pagetable 0) (ret 0)
     else bind (gets (\<lambda>s. p_trapframe (PCBs s p))) (\<lambda>tf.
     bind (mapPages pagetable TRAPFRAME PGSIZE tf (PTE_R OR PTE_W)) (\<lambda>r.
     if r < 0 then andthen (uVmUnmap pagetable TRAMPOLINE 1 False) (andthen (uVmFree pagetable 0) (ret 0))
     else ret pagetable)))))"

text \<open>The search loop of \<^verbatim>\<open>allocproc\<close>; it returns with the lock of the slot held.\<close>

primrec find_unused :: "nat list \<Rightarrow> ('z procs_scheme, nat option) oper" where
  "find_unused [] = ret None"
| "find_unused (p # ps) =
     andthen (acquire (LProc p))
     (bind (gets (\<lambda>s. p_state (PCBs s p))) (\<lambda>st.
      if st = UNUSED then ret (Some p) else andthen (release (LProc p)) (find_unused ps)))"

definition allocproc :: "('z procs_scheme, nat option) oper" where
  "allocproc = bind (find_unused [0..<NPROC]) (\<lambda>found.
     case found of None \<Rightarrow> ret None
     | Some p \<Rightarrow>
       bind allocpid (\<lambda>pid.
       andthen (set_pcb p (\<lambda>c. c\<lparr>p_pid := pid\<rparr>))
       (andthen (set_pcb p (\<lambda>c. c\<lparr>p_state := USED\<rparr>))
       (bind kalloc (\<lambda>tf.
        andthen (set_pcb p (\<lambda>c. c\<lparr>p_trapframe := tf\<rparr>))
        (if tf = 0 then andthen (uFreeProc p) (andthen (release (LProc p)) (ret None))
         else bind (procPagetable p) (\<lambda>pt.
           andthen (set_pcb p (\<lambda>c. c\<lparr>p_pagetable := pt\<rparr>))
           (if pt = 0 then andthen (uFreeProc p) (andthen (release (LProc p)) (ret None))
            else bind (gets forkret_addr) (\<lambda>ra.
              andthen (set_pcb p (\<lambda>c. c\<lparr>p_context := \<lparr>c_ra = ra, c_sp = p_kstack c + PGSIZE, c_s = (\<lambda>_. 0)\<rparr>\<rparr>))
              (ret (Some p)))))))))))"

section \<open>Page faults and copying (vm.c, proc.c)\<close>

definition vmfault :: "uint64 \<Rightarrow> uint64 \<Rightarrow> ('z procs_scheme, uint64) oper" where
  "vmfault pagetable va =
     bind thisproc (\<lambda>p.
     bind (gets (\<lambda>s. PCBs s p)) (\<lambda>c.
     if va \<ge> p_sz c then ret 0
     else let va = PGROUNDDOWN va in
       bind (ismapped pagetable va) (\<lambda>mapped.
       if mapped then ret 0
       else bind kalloc (\<lambda>m.
         if m = 0 then ret 0
         else andthen (fill m 0)
           (bind (mapPages (p_pagetable c) va PGSIZE m (PTE_W OR PTE_U OR PTE_R)) (\<lambda>r.
            if r \<noteq> 0 then andthen (kfree m) (ret 0) else ret m))))))"

text \<open>
  Kernel buffers are byte lists: \<open>copyin\<close> returns what it has stored in the destination,
  \<open>copyout\<close> takes the contents of the source.
\<close>

definition read_bytes :: "memory \<Rightarrow> uint64 \<Rightarrow> nat \<Rightarrow> byte list" where
  "read_bytes m a n = map (\<lambda>i. m (a + of_nat i)) [0..<n]"

definition write_bytes :: "memory \<Rightarrow> uint64 \<Rightarrow> byte list \<Rightarrow> memory" where
  "write_bytes m a bs = (\<lambda>x. if within a (length bs) x then bs ! unat (x - a) else m x)"

text \<open>\<^verbatim>\<open>n = PGSIZE - (va - va0)\<close>, cut to what is left to copy.\<close>

definition chunk :: "uint64 \<Rightarrow> nat \<Rightarrow> nat" where
  "chunk va len = min (unat (PGSIZE - (va - PGROUNDDOWN va))) len"

lemma chunk_pos: "0 < len \<Longrightarrow> 0 < chunk va len"
proof -
  have "unat (PGROUNDDOWN va) \<le> unat va" "unat va - unat (PGROUNDDOWN va) < 4096"
    using div_mult_mod_eq [of "unat va" 4096] mod_less_divisor [of 4096 "unat va"]
    by (simp_all add: unat_PGROUNDDOWN)
  then have "unat (va - PGROUNDDOWN va) < 4096"
    by (simp add: unat_sub_if')
  then have "unat (PGSIZE - (va - PGROUNDDOWN va)) = 4096 - unat (va - PGROUNDDOWN va)"
    by (simp add: PGSIZE_def unat_sub_if')
  then show "0 < len \<Longrightarrow> 0 < chunk va len"
    using \<open>unat (va - PGROUNDDOWN va) < 4096\<close> by (simp add: chunk_def)
qed

function copyin :: "uint64 \<Rightarrow> uint64 \<Rightarrow> nat \<Rightarrow> ('z procs_scheme, int \<times> byte list) oper" where
  "copyin pagetable srcva len =
     (if len = 0 then ret (0, [])
      else let va0 = PGROUNDDOWN srcva; n = chunk srcva len in
        bind (uVA2PA pagetable va0) (\<lambda>pa.
        bind (if pa = 0 then vmfault pagetable va0 else ret pa) (\<lambda>pa0.
        if pa0 = 0 then ret (- 1, [])
        else bind (gets (\<lambda>s. read_bytes (mem s) (pa0 + (srcva - va0)) n)) (\<lambda>bs.
          bind (copyin pagetable (va0 + PGSIZE) (len - n)) (\<lambda>(r, bs'). ret (r, bs @ bs'))))))"
  by pat_completeness auto
termination
  by (relation "measure (\<lambda>(pagetable, srcva, len). len)") (auto simp: chunk_pos)

text \<open>In \<^verbatim>\<open>copyout\<close> the result of \<^verbatim>\<open>vmfault\<close> is compared with 0 but not kept.\<close>

function copyout :: "uint64 \<Rightarrow> uint64 \<Rightarrow> byte list \<Rightarrow> ('z procs_scheme, int) oper" where
  "copyout pagetable va src =
     (if src = [] then ret 0
      else let va0 = PGROUNDDOWN va; n = chunk va (length src) in
        if va0 \<ge> MAXVA then ret (- 1)
        else bind (uVA2PA pagetable va0) (\<lambda>pa0.
        bind (if pa0 = 0 then vmfault pagetable va0 else ret 1) (\<lambda>ok.
        if ok = 0 then ret (- 1)
        else bind (walk pagetable va0 False) (\<lambda>pte.
        if pte = 0 then Fault Wild
        else bind (read64 pte) (\<lambda>e.
        if e AND PTE_W = 0 then ret (- 1)
        else andthen (modify (\<lambda>s. s\<lparr>mem := write_bytes (mem s) (pa0 + (va - va0)) (take n src)\<rparr>))
          (copyout pagetable (va0 + PGSIZE) (drop n src)))))))"
  by pat_completeness auto
termination
  by (relation "measure (\<lambda>(pagetable, va, src). length src)") (auto simp: chunk_pos)

primrec copystr_page :: "memory \<Rightarrow> uint64 \<Rightarrow> nat \<Rightarrow> byte list \<times> bool" where
  "copystr_page m p 0 = ([], False)"
| "copystr_page m p (Suc n) =
     (if m p = 0 then ([0], True) else let (bs, got_null) = copystr_page m (p + 1) n in (m p # bs, got_null))"

function copyinstr :: "uint64 \<Rightarrow> uint64 \<Rightarrow> nat \<Rightarrow> ('z procs_scheme, int \<times> byte list) oper" where
  "copyinstr pagetable srcva maxlen =
     (if maxlen = 0 then ret (- 1, [])
      else let va0 = PGROUNDDOWN srcva; n = chunk srcva maxlen in
        bind (uVA2PA pagetable va0) (\<lambda>pa0.
        if pa0 = 0 then ret (- 1, [])
        else bind (gets (\<lambda>s. copystr_page (mem s) (pa0 + (srcva - va0)) n)) (\<lambda>(bs, got_null).
          if got_null then ret (0, bs)
          else bind (copyinstr pagetable (va0 + PGSIZE) (maxlen - n)) (\<lambda>(r, bs'). ret (r, bs @ bs')))))"
  by pat_completeness auto
termination
  by (relation "measure (\<lambda>(pagetable, srcva, maxlen). maxlen)") (auto simp: chunk_pos)

declare copyin.simps [simp del] copyout.simps [simp del] copyinstr.simps [simp del]

text \<open>The kernel address of \<^verbatim>\<open>either_copyout\<close>/\<^verbatim>\<open>either_copyin\<close> with \<^verbatim>\<open>user_dst = 0\<close> is an address in \<open>mem\<close>.\<close>

definition either_copyout :: "bool \<Rightarrow> uint64 \<Rightarrow> byte list \<Rightarrow> ('z procs_scheme, int) oper" where
  "either_copyout user_dst dst src =
     bind myproc (\<lambda>me.
     if user_dst
     then (case me of None \<Rightarrow> Fault Wild
       | Some p \<Rightarrow> bind (gets (\<lambda>s. p_pagetable (PCBs s p))) (\<lambda>pt. copyout pt dst src))
     else andthen (modify (\<lambda>s. s\<lparr>mem := write_bytes (mem s) dst src\<rparr>)) (ret 0))"

definition either_copyin :: "bool \<Rightarrow> uint64 \<Rightarrow> nat \<Rightarrow> ('z procs_scheme, int \<times> byte list) oper" where
  "either_copyin user_src src len =
     bind myproc (\<lambda>me.
     if user_src
     then (case me of None \<Rightarrow> Fault Wild
       | Some p \<Rightarrow> bind (gets (\<lambda>s. p_pagetable (PCBs s p))) (\<lambda>pt. copyin pt src len))
     else bind (gets (\<lambda>s. read_bytes (mem s) src len)) (\<lambda>bs. ret (0, bs)))"

text \<open>The loop of \<^verbatim>\<open>checkUserPtr\<close>; as in \<open>uVmUnmap\<close> the fuel is the number of user pages.\<close>

primrec checkUserPtr_loop :: "nat \<Rightarrow> uint64 \<Rightarrow> uint64 \<Rightarrow> uint64 \<Rightarrow> bool \<Rightarrow> ('z procs_scheme, int) oper" where
  "checkUserPtr_loop 0 pagetable va end_va is_write = Fault Diverge"
| "checkUserPtr_loop (Suc k) pagetable va end_va is_write =
     (if va < end_va
      then bind (walk pagetable va False) (\<lambda>pte.
        if pte = 0 then ret (- 1)
        else bind (read64 pte) (\<lambda>e.
          if e AND PTE_V = 0 \<or> e AND PTE_U = 0 then ret (- 1)
          else if is_write \<and> e AND PTE_W = 0 then ret (- 1)
          else checkUserPtr_loop k pagetable (va + PGSIZE) end_va is_write))
      else ret 0)"

definition checkUserPtr :: "uint64 \<Rightarrow> uint64 \<Rightarrow> bool \<Rightarrow> ('z procs_scheme, int) oper" where
  "checkUserPtr userva len is_write =
     bind thisproc (\<lambda>p.
     bind (gets (\<lambda>s. PCBs s p)) (\<lambda>c.
     let start_va = userva; end_va = userva + len in
     if end_va < start_va then ret (- 1)
     else if end_va > p_sz c \<or> end_va > MAXVA then ret (- 1)
     else checkUserPtr_loop (2 ^ 26 + 2) (p_pagetable c) (PGROUNDDOWN start_va) end_va is_write))"

section \<open>Parents and children (proc.c)\<close>

definition reparent :: "nat \<Rightarrow> ('z procs_scheme, unit) oper" where
  "reparent p = forM [0..<NPROC] (\<lambda>pp.
     bind (gets (\<lambda>s. p_parent (PCBs s pp))) (\<lambda>par.
     whenM (par = Some p)
       (bind (gets initproc) (\<lambda>ip.
        andthen (set_pcb pp (\<lambda>c. c\<lparr>p_parent := ip\<rparr>)) (wakeup (map_option ChProc ip))))))"

definition int_bytes :: "int \<Rightarrow> byte list" where
  "int_bytes x = map (\<lambda>i. ucast (drop_bit (8 * i) (word_of_int x :: uint))) [0..<4]"

text \<open>
  One pass of \<^verbatim>\<open>kwait\<close> over the table: \<open>Inl r\<close> when it returns \<open>r\<close> (with all locks released),
  \<open>Inr havekids\<close> when the pass found no zombie child.
\<close>

primrec kwait_scan :: "nat list \<Rightarrow> nat \<Rightarrow> uint64 \<Rightarrow> bool \<Rightarrow> ('z procs_scheme, int + bool) oper" where
  "kwait_scan [] p addr havekids = ret (Inr havekids)"
| "kwait_scan (pp # ps) p addr havekids =
     bind (gets (\<lambda>s. p_parent (PCBs s pp))) (\<lambda>par.
     if par = Some p
     then andthen (acquire (LProc pp))
       (bind (gets (\<lambda>s. PCBs s pp)) (\<lambda>c.
        if p_state c = ZOMBIE
        then bind (gets (\<lambda>s. p_pagetable (PCBs s p))) (\<lambda>pt.
          bind (if addr \<noteq> 0 then copyout pt addr (int_bytes (p_xstate c)) else ret 0) (\<lambda>r.
          if r < 0
          then andthen (release (LProc pp)) (andthen (release LWait) (ret (Inl (- 1))))
          else andthen (uFreeProc pp)
            (andthen (release (LProc pp)) (andthen (release LWait) (ret (Inl (p_pid c)))))))
        else andthen (release (LProc pp)) (kwait_scan ps p addr True)))
     else kwait_scan ps p addr havekids)"

text \<open>
  \<^verbatim>\<open>kwait\<close> up to its first \<^verbatim>\<open>sleep\<close>; after a wake-up it resumes with the next pass.
\<close>

definition kwait_pass :: "nat \<Rightarrow> uint64 \<Rightarrow> ('z procs_scheme, int) oper" where
  "kwait_pass p addr =
     bind (kwait_scan [0..<NPROC] p addr False) (\<lambda>res.
     case res of Inl r \<Rightarrow> ret r
     | Inr havekids \<Rightarrow>
       bind (if havekids then killed p else ret 1) (\<lambda>k.
       if \<not> havekids \<or> k \<noteq> 0 then andthen (release LWait) (ret (- 1))
       else sleep (ChProc p) LWait))"

definition kwait :: "uint64 \<Rightarrow> ('z procs_scheme, int) oper" where
  "kwait addr = bind thisproc (\<lambda>p. andthen (acquire LWait) (kwait_pass p addr))"

section \<open>Lock operations do not touch the process table\<close>

lemma procs_after_lock [simp]:
  "PCBs (acquired L s) = PCBs s" "PCBs (released L s) = PCBs s" "PCBs (settle s) = PCBs s"
  "nextpid (acquired L s) = nextpid s" "nextpid (released L s) = nextpid s" "nextpid (settle s) = nextpid s"
  "initproc (acquired L s) = initproc s" "initproc (released L s) = initproc s" "initproc (settle s) = initproc s"
  "trampoline (acquired L s) = trampoline s" "trampoline (released L s) = trampoline s" "trampoline (settle s) = trampoline s"
  "forkret_addr (acquired L s) = forkret_addr s" "forkret_addr (released L s) = forkret_addr s" "forkret_addr (settle s) = forkret_addr s"
  by (simp_all add: acquired_def released_def settle_def)

lemma procs_update_lock [simp]:
  "PCBs_update g0 (acquired L s) = acquired L (PCBs_update g0 s)"
  "PCBs_update g0 (settle s) = settle (PCBs_update g0 s)"
  "nextpid_update g1 (acquired L s) = acquired L (nextpid_update g1 s)"
  "nextpid_update g1 (settle s) = settle (nextpid_update g1 s)"
  "initproc_update g2 (acquired L s) = acquired L (initproc_update g2 s)"
  "initproc_update g2 (settle s) = settle (initproc_update g2 s)"
  "trampoline_update g3 (acquired L s) = acquired L (trampoline_update g3 s)"
  "trampoline_update g3 (settle s) = settle (trampoline_update g3 s)"
  "forkret_addr_update g4 (acquired L s) = acquired L (forkret_addr_update g4 s)"
  "forkret_addr_update g4 (settle s) = settle (forkret_addr_update g4 s)"
  by (simp_all add: acquired_def settle_def intr_get_def r_sstatus_def)

lemma procs_update_ok [simp]:
  "hart_ok (PCBs_update g0 s) = hart_ok s" "idle L (PCBs_update g0 s) = idle L s"
  "hart_ok (nextpid_update g1 s) = hart_ok s" "idle L (nextpid_update g1 s) = idle L s"
  "hart_ok (initproc_update g2 s) = hart_ok s" "idle L (initproc_update g2 s) = idle L s"
  "hart_ok (trampoline_update g3 s) = hart_ok s" "idle L (trampoline_update g3 s) = idle L s"
  "hart_ok (forkret_addr_update g4 s) = hart_ok s" "idle L (forkret_addr_update g4 s) = idle L s"
  by (simp_all add: hart_ok_def idle_def intr_get_def machine_defs)

lemma procs_update_calm [simp]:
  "calm (PCBs_update g0 s) = calm s" "mycpu (PCBs_update g0 s) = mycpu s"
  "calm (nextpid_update g1 s) = calm s" "mycpu (nextpid_update g1 s) = mycpu s"
  "calm (initproc_update g2 s) = calm s" "mycpu (initproc_update g2 s) = mycpu s"
  "calm (trampoline_update g3 s) = calm s" "mycpu (trampoline_update g3 s) = mycpu s"
  "calm (forkret_addr_update g4 s) = calm s" "mycpu (forkret_addr_update g4 s) = mycpu s"
  unfolding calm_def by (simp_all add: settle_def intr_get_def machine_defs idle_def hart_ok_def)

lemma procs_onproc [simp]:
  "PCBs (onproc p s) = PCBs s" "onproc p (PCBs_update g0 s) = PCBs_update g0 (onproc p s)"
  "nextpid (onproc p s) = nextpid s" "onproc p (nextpid_update g1 s) = nextpid_update g1 (onproc p s)"
  "initproc (onproc p s) = initproc s" "onproc p (initproc_update g2 s) = initproc_update g2 (onproc p s)"
  "trampoline (onproc p s) = trampoline s" "onproc p (trampoline_update g3 s) = trampoline_update g3 (onproc p s)"
  "forkret_addr (onproc p s) = forkret_addr s" "onproc p (forkret_addr_update g4 s) = forkret_addr_update g4 (onproc p s)"
  by (simp_all add: onproc_def)

lemma kstep_procs:
  "kstep s t \<Longrightarrow> PCBs t = PCBs s" "kstep s t \<Longrightarrow> nextpid t = nextpid s" "kstep s t \<Longrightarrow> initproc t = initproc s"
  "kstep s t \<Longrightarrow> trampoline t = trampoline s" "kstep s t \<Longrightarrow> forkret_addr t = forkret_addr s"
  by (induction rule: kstep.induct; simp)+

lemma kmem_inv_procs [simp]:
  "kmem_inv (PCBs_update f s) xs = kmem_inv s xs" "kmem_inv (nextpid_update g s) xs = kmem_inv s xs"
  by (simp_all add: kmem_inv_def)

lemma mycpu_procs [simp]:
  "mycpu (PCBs_update f s) = mycpu s" "mycpu (nextpid_update g s) = mycpu s"
  by (simp_all add: machine_defs)

lemma c_proc_lock [simp]: "c_proc (mycpu (settle s)) = c_proc (mycpu s)" "c_proc (mycpu (acquired L s)) = c_proc (mycpu s)"
  by (simp_all add: machine_defs)

section \<open>Waking\<close>

lemma myproc_run: "hart_ok s \<Longrightarrow> myproc s = Ret (c_proc (mycpu s)) (settle s)"
proof -
  assume "hart_ok s"
  then obtain t where t: "push_off s = Ret () t" "pop_off t = Ret () (settle s)"
    using push_pop by blast
  moreover have "c_proc (mycpu t) = c_proc (mycpu s)"
    using t(1) by (auto simp: push_off_def machine_defs intr_off_def Let_def)
  ultimately show ?thesis
    by (simp add: myproc_def)
qed

definition awake :: "chan option \<Rightarrow> PCB \<Rightarrow> PCB" where
  "awake ch c = (if p_state c = SLEEPING \<and> p_chan c = ch then c\<lparr>p_state := RUNNABLE\<rparr> else c)"

definition wake_all :: "chan option \<Rightarrow> nat option \<Rightarrow> nat set \<Rightarrow> (nat \<Rightarrow> PCB) \<Rightarrow> nat \<Rightarrow> PCB" where
  "wake_all ch me P t i = (if i \<in> P \<and> Some i \<noteq> me then awake ch (t i) else t i)"

lemma wakeup_slot_run:
  assumes "hart_ok s" "Some p \<noteq> c_proc (mycpu s) \<Longrightarrow> idle (LProc p) s"
  shows "wakeup_slot ch p s
    = Ret () (settle (s\<lparr>PCBs := wake_all ch (c_proc (mycpu s)) {p} (PCBs s)\<rparr>))"
proof (cases "Some p = c_proc (mycpu s)")
  case True
  then have "wake_all ch (c_proc (mycpu s)) {p} (PCBs s) = PCBs s"
    by (auto simp: wake_all_def fun_eq_iff)
  with True assms(1) show ?thesis
    by (simp add: wakeup_slot_def myproc_run)
next
  case False
  then have idle: "idle (LProc p) s"
    by (rule assms(2))
  have "wake_all ch (c_proc (mycpu s)) {p} (PCBs s) = (PCBs s)(p := awake ch (PCBs s p))"
    using False by (auto simp: wake_all_def fun_eq_iff)
  with False idle assms(1) show ?thesis
    by (simp add: wakeup_slot_def myproc_run acquire_free idle_def [of _ s] set_pcb_def release_acquired awake_def
      whenM_def)
qed

lemma wake_all_Un: "wake_all ch me P (wake_all ch me Q t) = wake_all ch me (P \<union> Q) t"
  by (auto simp: wake_all_def awake_def fun_eq_iff)

lemma wakeup_loop:
  assumes "hart_ok s" "\<And>p. p \<in> set ps \<Longrightarrow> Some p \<noteq> c_proc (mycpu s) \<Longrightarrow> idle (LProc p) s" "ps \<noteq> []"
  shows "forM ps (wakeup_slot ch) s
    = Ret () (settle (s\<lparr>PCBs := wake_all ch (c_proc (mycpu s)) (set ps) (PCBs s)\<rparr>))"
  using assms
proof (induction ps arbitrary: s)
  case (Cons p ps)
  let ?s = "settle (s\<lparr>PCBs := wake_all ch (c_proc (mycpu s)) {p} (PCBs s)\<rparr>)"
  note one = wakeup_slot_run [OF Cons.prems(1), of p ch]
  show ?case
  proof (cases "ps = []")
    case True
    with one Cons.prems(2) show ?thesis by simp
  next
    case False
    have "hart_ok ?s" "c_proc (mycpu ?s) = c_proc (mycpu s)" "\<And>q. idle q ?s = idle q s"
      using Cons.prems(1) by simp_all
    then have "forM ps (wakeup_slot ch) ?s =
        Ret () (settle (?s\<lparr>PCBs := wake_all ch (c_proc (mycpu ?s)) (set ps) (PCBs ?s)\<rparr>))"
      using Cons.prems(2) False by (intro Cons.IH) auto
    moreover have "forM (p # ps) (wakeup_slot ch) s = forM ps (wakeup_slot ch) ?s"
      using one Cons.prems(2) by simp
    moreover have "set (p # ps) = set ps \<union> {p}"
      by auto
    ultimately show ?thesis
      by (simp add: wake_all_Un)
  qed
qed simp

text \<open>
  C16. \<^verbatim>\<open>wakeup(chan)\<close> makes runnable exactly the processes that sleep on \<open>chan\<close>, except
  the caller; no other process changes, all process locks are released again and the
  interrupt state is restored.
\<close>

theorem wakeup_wakes_sleepers:
  assumes "hart_ok s" "\<And>p. p < NPROC \<Longrightarrow> Some p \<noteq> c_proc (mycpu s) \<Longrightarrow> idle (LProc p) s"
  shows "\<exists>t. wakeup ch s = Ret () t \<and> locks t = locks s \<and> sstatus t = sstatus s \<and> mem t = mem s
    \<and> (\<forall>p. PCBs t p = (if p < NPROC \<and> Some p \<noteq> c_proc (mycpu s) \<and> p_state (PCBs s p) = SLEEPING
        \<and> p_chan (PCBs s p) = ch then (PCBs s p)\<lparr>p_state := RUNNABLE\<rparr> else PCBs s p))"
proof -
  have "wakeup ch s = Ret () (settle (s\<lparr>PCBs := wake_all ch (c_proc (mycpu s)) (set [0..<NPROC]) (PCBs s)\<rparr>))"
    unfolding wakeup_def by (rule wakeup_loop) (use assms in \<open>auto simp: NPROC_def\<close>)
  then show ?thesis
    by (simp add: wake_all_def awake_def)
qed

text \<open>A table of unused processes, used for the concrete instances.\<close>

definition zero_pcb :: PCB where
  "zero_pcb = \<lparr>p_state = UNUSED, p_pid = 0, p_pagetable = 0,
     p_context = \<lparr>c_ra = 0, c_sp = 0, c_s = (\<lambda>_. 0)\<rparr>, p_kstack = 0, p_trapframe = 0, p_name = (\<lambda>_. 0),
     p_killed = 0, p_parent = None, p_chan = None, p_xstate = 0, p_sz = 0, p_ofile = (\<lambda>_. None), p_cwd = None\<rparr>"

definition some_procs :: "(nat \<Rightarrow> PCB) \<Rightarrow> nat option \<Rightarrow> procs" where
  "some_procs t me = \<lparr>tp = 0, sstatus = (\<lambda>_. 2), cpus = (\<lambda>_. \<lparr>c_proc = me, noff = 0, intena = True\<rparr>),
     locks = (\<lambda>_. \<lparr>locked = False, lk_name = [], lk_cpu = None\<rparr>),
     mem = (\<lambda>_. 0), freelist = 0, kbitmap = 0, addr_base = 0, kend = 0,
     PCBs = t, nextpid = 5, initproc = Some 0, trampoline = 0, forkret_addr = 0\<rparr>"

lemma some_procs_ok [simp]:
  "hart_ok (some_procs t me)" "idle L (some_procs t me)" "PCBs (some_procs t me) = t"
  "c_proc (mycpu (some_procs t me)) = me" "noff (mycpu (some_procs t me)) = 0"
  by (simp_all add: some_procs_def hart_ok_def idle_def machine_defs)

theorem wakeup_wakes_sleepers_witness:
  "\<exists>t. wakeup (Some ChTicks) (some_procs (\<lambda>p. zero_pcb\<lparr>p_state := SLEEPING, p_chan := Some ChTicks\<rparr>) (Some 3)) = Ret () t
    \<and> p_state (PCBs t 7) = RUNNABLE \<and> p_state (PCBs t 3) = SLEEPING"
  using wakeup_wakes_sleepers [of "some_procs (\<lambda>p. zero_pcb\<lparr>p_state := SLEEPING, p_chan := Some ChTicks\<rparr>) (Some 3)"
    "Some ChTicks"]
  by (auto simp: NPROC_def)

section \<open>Killing\<close>

definition doomed :: "PCB \<Rightarrow> PCB" where
  "doomed c = c\<lparr>p_killed := 1, p_state := (if p_state c = SLEEPING then RUNNABLE else p_state c)\<rparr>"

lemma kkill_loop_run:
  assumes "hart_ok s" "\<And>p. p \<in> set ps \<Longrightarrow> idle (LProc p) s"
  shows "\<exists>t. kkill_loop ps pid s = Ret (case find (\<lambda>p. p_pid (PCBs s p) = pid) ps of None \<Rightarrow> - 1 | Some _ \<Rightarrow> 0) t
    \<and> locks t = locks s \<and> sstatus t = sstatus s \<and> mem t = mem s
    \<and> PCBs t = (case find (\<lambda>p. p_pid (PCBs s p) = pid) ps of None \<Rightarrow> PCBs s | Some q \<Rightarrow> (PCBs s)(q := doomed (PCBs s q)))"
  using assms
proof (induction ps arbitrary: s)
  case (Cons p ps)
  have idle: "idle (LProc p) s"
    using Cons.prems(2) by simp
  show ?case
  proof (cases "p_pid (PCBs s p) = pid")
    case True
    have "kkill_loop (p # ps) pid s = Ret 0 (settle (s\<lparr>PCBs := (PCBs s)(p := doomed (PCBs s p))\<rparr>))"
      using True idle Cons.prems(1)
      by (cases "p_state (PCBs s p) = SLEEPING")
        (simp_all add: acquire_free idle_def [of _ s] set_pcb_def release_acquired doomed_def)
    with True show ?thesis by (simp add: fun_upd_def)
  next
    case False
    then have "kkill_loop (p # ps) pid s = kkill_loop ps pid (settle s)"
      using idle Cons.prems(1) by (simp add: acquire_free idle_def [of _ s] release_acquired)
    moreover have "hart_ok (settle s)" "\<And>q. q \<in> set ps \<Longrightarrow> idle (LProc q) (settle s)"
      using Cons.prems by simp_all
    note Cons.IH [OF this]
    moreover have "find (\<lambda>q. p_pid (PCBs s q) = pid) (p # ps) = find (\<lambda>q. p_pid (PCBs s q) = pid) ps"
      using False by simp
    ultimately show ?thesis
      by (simp only: procs_after_lock kmem_after_lock machine_after_lock)
  qed
qed simp

text \<open>
  C17. \<^verbatim>\<open>kkill(pid)\<close> marks the first process of the table with that pid as killed, makes
  it runnable if it sleeps, and returns 0; it returns \<open>-1\<close> and changes no process if there is
  none. All locks are released again.
\<close>

theorem kkill_marks_first:
  assumes "hart_ok s" "\<And>p. p < NPROC \<Longrightarrow> idle (LProc p) s"
  shows "\<exists>t. kkill pid s = Ret (case find (\<lambda>p. p_pid (PCBs s p) = pid) [0..<NPROC] of None \<Rightarrow> - 1 | Some _ \<Rightarrow> 0) t
    \<and> locks t = locks s \<and> sstatus t = sstatus s \<and> mem t = mem s
    \<and> PCBs t = (case find (\<lambda>p. p_pid (PCBs s p) = pid) [0..<NPROC] of None \<Rightarrow> PCBs s
        | Some q \<Rightarrow> (PCBs s)(q := doomed (PCBs s q)))"
  unfolding kkill_def by (rule kkill_loop_run) (use assms in auto)

theorem kkill_marks_first_witness:
  "\<exists>t. kkill 9 (some_procs (\<lambda>p. zero_pcb\<lparr>p_pid := int p + 7, p_state := SLEEPING\<rparr>) None) = Ret 0 t
    \<and> p_killed (PCBs t 2) = 1 \<and> p_state (PCBs t 2) = RUNNABLE \<and> p_killed (PCBs t 3) = 0"
proof -
  have "find (\<lambda>p. int p + 7 = 9) [0..<NPROC] = Some 2"
    by (simp add: NPROC_def upt_conv_Cons)
  then show ?thesis
    using kkill_marks_first [of "some_procs (\<lambda>p. zero_pcb\<lparr>p_pid := int p + 7, p_state := SLEEPING\<rparr>) None" 9]
    by (auto simp: doomed_def zero_pcb_def)
qed

section \<open>Sleeping\<close>

lemma released_inner:
  assumes "hart_ok u" "idle L u" "L \<noteq> P"
  shows "released L (acquired P (acquired L u)) = acquired P u"
  using assms
  by (auto simp: released_def acquired_def idle_def hart_ok_def machine_defs intr_get_def sie_absent
    intro!: machine.equality ext)

lemma release_inner:
  assumes "hart_ok u" "idle L u" "L \<noteq> P"
  shows "release L (acquired P (acquired L u)) = Ret () (acquired P u)"
proof -
  have "holding L (acquired P (acquired L u))"
    using assms(3) by (simp add: holding_def acquired_def machine_defs)
  moreover have "1 \<le> noff (mycpu (acquired P (acquired L u)))"
    using assms(1) by (simp add: hart_ok_def)
  ultimately have "release L (acquired P (acquired L u)) = Ret () (released L (acquired P (acquired L u)))"
    by (intro release_held) simp_all
  then show ?thesis
    using released_inner [OF assms] by simp
qed

lemma sleep_run:
  fixes u :: "'z procs_scheme"
  assumes "hart_ok u" "idle L u" "c_proc (mycpu u) = Some p" "idle (LProc p) u" "L \<noteq> LProc p"
  shows "(sleep ch L :: (_, unit) oper) (acquired L u)
    = Fault (if noff (mycpu u) = 0 then Sleep ch else Panic ''sched locks'')
       (acquired (LProc p) (u\<lparr>PCBs := (PCBs u)(p := (PCBs u p)\<lparr>p_chan := Some ch, p_state := SLEEPING\<rparr>)\<rparr>))"
    (is "_ = Fault _ ?t")
proof -
  have me: "thisproc (acquired L u) = Ret p (acquired L u)"
    using assms(1,3) by (simp add: thisproc_def myproc_run)
  have "\<not> locked (locks (acquired L u) (LProc p))"
    using assms(4,5) by (simp add: acquired_def idle_def)
  then have "(sleep ch L :: (_, unit) oper) (acquired L u) = (sched (Sleep ch) :: (_, unit) oper) ?t"
    using me release_inner [OF assms(1,2,5)]
    by (simp add: sleep_def acquire_free set_pcb_def)
  then show ?thesis
    using assms(3) by (simp add: sched_def cong: if_cong)
qed



section \<open>Pids and page tables of processes\<close>

lemma allocpid_run:
  "hart_ok s \<Longrightarrow> idle LPid s \<Longrightarrow> allocpid s = Ret (nextpid s) (settle (s\<lparr>nextpid := nextpid s + 1\<rparr>))"
  unfolding allocpid_def by (rule critical_ret) simp_all

section \<open>A complete stay in sleep\<close>

lemma sleep_through_run:
  fixes u v :: "'z procs_scheme" and p ch
  defines "a \<equiv> u\<lparr>PCBs := (PCBs u)(p := (PCBs u p)\<lparr>p_chan := Some ch, p_state := SLEEPING\<rparr>)\<rparr>"
  assumes u: "calm u" "c_proc (mycpu u) = Some p" "noff (mycpu u) = 0" "L \<noteq> LProc p"
    and rest: "rest (onproc None a) = Ret () v"
    and v: "calm v" "noff (mycpu v) = 0" "intr_get v = intr_get u" "p_state (PCBs v p) = RUNNABLE"
  shows "sleep_through rest ch L (acquired L u) = Ret () (acquired L (onproc (Some p)
    (v\<lparr>PCBs := (PCBs v)(p := (PCBs v p)\<lparr>p_state := RUNNING, p_chan := None\<rparr>)\<rparr>)))"
proof -
  have s: "(sleep ch L :: (_, unit) oper) (acquired L u) = Fault (Sleep ch) (acquired (LProc p) a)"
    using sleep_run [of u L p ch] u by (simp add: a_def)
  have ca: "calm a" "mycpu a = mycpu u" "intr_get a = intr_get u"
    using u(1) by (simp_all add: a_def machine_defs intr_get_def)
  have away: "scheduler_back p (acquired (LProc p) a) = Ret () (onproc None a)"
    using ca(1) by (simp add: scheduler_back_def)
  have pick: "scheduler_pick p v = Ret True (acquired (LProc p)
      (onproc (Some p) (v\<lparr>PCBs := (PCBs v)(p := (PCBs v p)\<lparr>p_state := RUNNING\<rparr>)\<rparr>)))"
    using v(1,4) by (simp add: scheduler_pick_def set_pcb_def)
  let ?w = "(onproc (Some p) v)\<lparr>PCBs := (PCBs v)(p := (PCBs v p)\<lparr>p_state := RUNNING\<rparr>)\<rparr>"
  have i: "intena (mycpu (acquired (LProc p) ?w)) = intena (mycpu (acquired (LProc p) a))"
    using v(2,3) u(3) ca by (simp add: intena_acquired intr_get_def r_sstatus_def)
  have "sched_resume (intena (mycpu (acquired (LProc p) a))) (acquired (LProc p) ?w)
      = Ret () (acquired (LProc p) ?w)"
    by (simp only: sched_resume_def run_basic set_intena_same [OF i])
  then have "sleep_resume p L (intena (mycpu (acquired (LProc p) a))) (acquired (LProc p) ?w)
      = Ret () (acquired L (onproc (Some p)
         (v\<lparr>PCBs := (PCBs v)(p := (PCBs v p)\<lparr>p_state := RUNNING, p_chan := None\<rparr>)\<rparr>)))"
    using v(1) by (simp add: sleep_resume_def set_pcb_def)
  then show ?thesis
    using s away pick rest ca u(2) by (simp add: sleep_through_def)
qed

section \<open>Time slices\<close>

text \<open>
  A time slice of process \<open>p\<close> on a hart in the scheduler: the process is picked, runs \<open>m\<close> and is
  preempted by a timer interrupt (\<^verbatim>\<open>yield\<close>), or goes to sleep on the way. The result tells
  whether \<open>m\<close> came to its end. Kernel threads run with the interrupt state of the scheduler.
\<close>

definition slice :: "nat \<Rightarrow> ('z procs_scheme, unit) oper \<Rightarrow> ('z procs_scheme, bool) oper" where
  "slice p m = bind (scheduler_pick p) (\<lambda>ok.
     if \<not> ok then ret False
     else (\<lambda>s. case andthen m (yield :: ('z procs_scheme, unit) oper) s of
         Fault Yield t \<Rightarrow> andthen (scheduler_back p) (ret True) t
       | Fault (Sleep ch) t \<Rightarrow> andthen (scheduler_back p) (ret False) t
       | Fault e t \<Rightarrow> Fault e t
       | Ret _ t \<Rightarrow> Fault Wild t))"

text \<open>The rest of \<^verbatim>\<open>yield\<close>, when the process is switched to again.\<close>

definition yield_resume :: "nat \<Rightarrow> ('z procs_scheme, unit) oper" where
  "yield_resume p = bind (gets (\<lambda>s. intena (mycpu s))) (\<lambda>i. andthen (sched_resume i) (release (LProc p)))"

definition scheduled :: "nat \<Rightarrow> 'z procs_scheme \<Rightarrow> 'z procs_scheme" where
  "scheduled p s = (onproc (Some p) s)\<lparr>PCBs := (PCBs s)(p := (PCBs s p)\<lparr>p_state := RUNNING\<rparr>)\<rparr>"

lemma scheduled_simps [simp]:
  "calm (scheduled p s) = calm s" "c_proc (mycpu (scheduled p s)) = Some p"
  "noff (mycpu (scheduled p s)) = noff (mycpu s)"
  "PCBs (scheduled p s) = (PCBs s)(p := (PCBs s p)\<lparr>p_state := RUNNING\<rparr>)"
  by (simp_all add: scheduled_def)

lemma scheduler_pick_run:
  assumes "calm s" "p_state (PCBs s p) = RUNNABLE"
  shows "scheduler_pick p s = Ret True (acquired (LProc p) (scheduled p s))"
  using assms by (simp add: scheduler_pick_def set_pcb_def scheduled_def)

lemma scheduler_skip:
  assumes "calm s" "p_state (PCBs s p) \<noteq> RUNNABLE"
  shows "scheduler_pick p s = Ret False s"
  using assms by (simp add: scheduler_pick_def)

lemma yield_resume_run: "calm s \<Longrightarrow> yield_resume p (acquired (LProc p) s) = Ret () s"
  by (simp add: yield_resume_def sched_resume_def set_intena_same)

lemma sleep_resume_run:
  assumes "calm s" "intena (mycpu (acquired (LProc p) s)) = i"
  shows "sleep_resume p L i (acquired (LProc p) s)
    = Ret () (acquired L (s\<lparr>PCBs := (PCBs s)(p := (PCBs s p)\<lparr>p_chan := None\<rparr>)\<rparr>))"
  using assms by (simp add: sleep_resume_def sched_resume_def set_intena_same set_pcb_def)

lemma yield_run:
  fixes s :: "'z procs_scheme"
  assumes "calm s" "c_proc (mycpu s) = Some p" "noff (mycpu s) = 0"
  shows "(yield :: (_, unit) oper) s = Fault Yield (acquired (LProc p) (s\<lparr>PCBs := (PCBs s)(p := (PCBs s p)\<lparr>p_state := RUNNABLE\<rparr>)\<rparr>))"
  using assms by (simp add: yield_def set_pcb_def sched_def)

lemma scheduler_back_run: "calm s \<Longrightarrow> scheduler_back p (acquired (LProc p) s) = Ret () (onproc None s)"
  by (simp add: scheduler_back_def)

lemma slice_done:
  assumes "calm s" "p_state (PCBs s p) = RUNNABLE"
    and "m (acquired (LProc p) (scheduled p s)) = Ret () t"
    and "calm t" "c_proc (mycpu t) = Some p" "noff (mycpu t) = 0"
  shows "slice p m s = Ret True (onproc None (t\<lparr>PCBs := (PCBs t)(p := (PCBs t p)\<lparr>p_state := RUNNABLE\<rparr>)\<rparr>))"
  using assms by (simp add: slice_def scheduler_pick_run yield_run scheduler_back_run)

lemma slice_slept:
  assumes "calm s" "p_state (PCBs s p) = RUNNABLE"
    and "m (acquired (LProc p) (scheduled p s)) = Fault (Sleep ch) (acquired (LProc p) t)" "calm t"
  shows "slice p m s = Ret False (onproc None t)"
  using assms by (simp add: slice_def scheduler_pick_run scheduler_back_run)

end
