(* ===== verification/Sleeplock.thy ===== *)
theory Sleeplock
  imports Proc
begin

text \<open>
  Sleeplocks (\<^verbatim>\<open>kernel/lib/sleeplock.c\<close>): long-term locks held by a process. A sleeplock
  lives inside a buffer or an inode and is named by it; the spinlock inside it is \<open>LSleep\<close> of
  that name, and its address, the channel its waiters sleep on, is \<open>ChSleeplock\<close>.
\<close>

section \<open>State and operations\<close>

record sleeplock =
  sl_locked :: uint
  sl_name :: string
  sl_pid :: int

record slk = procs +
  sleeplocks :: "sleepid \<Rightarrow> sleeplock"

definition set_slk :: "sleepid \<Rightarrow> (sleeplock \<Rightarrow> sleeplock) \<Rightarrow> 'z slk_scheme \<Rightarrow> 'z slk_scheme" where
  "set_slk l f s = s\<lparr>sleeplocks := (sleeplocks s)(l := f (sleeplocks s l))\<rparr>"

definition initsleeplock :: "sleepid \<Rightarrow> string \<Rightarrow> 'z slk_scheme \<Rightarrow> 'z slk_scheme" where
  "initsleeplock l name s =
     set_slk l (\<lambda>_. \<lparr>sl_locked = 0, sl_name = name, sl_pid = 0\<rparr>) (initlock (LSleep l) ''sleep lock'' s)"

text \<open>
  The loop \<^verbatim>\<open>while (lk->locked) sleep(lk, &lk->lk)\<close>: on a locked sleeplock the process goes to
  sleep, and runs \<open>acquiresleep_resume\<close> when it has been woken up and chosen again.
\<close>

definition acquiresleep_loop :: "sleepid \<Rightarrow> ('z slk_scheme, unit) oper" where
  "acquiresleep_loop l =
     bind (gets (\<lambda>s. sl_locked (sleeplocks s l))) (\<lambda>b.
     if b \<noteq> 0 then sleep (ChSleeplock l) (LSleep l)
     else andthen (modify (set_slk l (\<lambda>k. k\<lparr>sl_locked := 1\<rparr>)))
       (bind thisproc (\<lambda>p.
        bind (gets (\<lambda>s. p_pid (PCBs s p))) (\<lambda>pid.
        andthen (modify (set_slk l (\<lambda>k. k\<lparr>sl_pid := pid\<rparr>)))
        (release (LSleep l))))))"

definition acquiresleep :: "sleepid \<Rightarrow> ('z slk_scheme, unit) oper" where
  "acquiresleep l = andthen (acquire (LSleep l)) (acquiresleep_loop l)"

definition acquiresleep_resume :: "nat \<Rightarrow> sleepid \<Rightarrow> bool \<Rightarrow> ('z slk_scheme, unit) oper" where
  "acquiresleep_resume p l i = andthen (sleep_resume p (LSleep l) i) (acquiresleep_loop l)"

definition releasesleep :: "sleepid \<Rightarrow> ('z slk_scheme, unit) oper" where
  "releasesleep l =
     andthen (acquire (LSleep l))
     (andthen (modify (set_slk l (\<lambda>k. k\<lparr>sl_locked := 0\<rparr>)))
     (andthen (modify (set_slk l (\<lambda>k. k\<lparr>sl_pid := 0\<rparr>)))
     (andthen (wakeup (Some (ChSleeplock l)))
     (release (LSleep l)))))"

text \<open>\<^verbatim>\<open>&&\<close> calls \<^verbatim>\<open>myproc()\<close> only when the lock is held by someone.\<close>

definition holdingsleep :: "sleepid \<Rightarrow> ('z slk_scheme, bool) oper" where
  "holdingsleep l = critical (LSleep l)
     (bind (gets (\<lambda>s. sleeplocks s l)) (\<lambda>k.
      if sl_locked k = 0 then ret False
      else bind thisproc (\<lambda>p. gets (\<lambda>s. sl_pid k = p_pid (PCBs s p)))))"

section \<open>Frame lemmas\<close>

lemma slk_after_lock [simp]:
  "sleeplocks (acquired L s) = sleeplocks s" "sleeplocks (released L s) = sleeplocks s" "sleeplocks (settle s) = sleeplocks s"
  by (simp_all add: acquired_def released_def settle_def)

lemma slk_update_lock [simp]:
  "sleeplocks_update g0 (acquired L s) = acquired L (sleeplocks_update g0 s)"
  "sleeplocks_update g0 (settle s) = settle (sleeplocks_update g0 s)"
  by (simp_all add: acquired_def settle_def intr_get_def r_sstatus_def)

lemma slk_update_ok [simp]:
  "hart_ok (sleeplocks_update g0 s) = hart_ok s" "idle L (sleeplocks_update g0 s) = idle L s"
  by (simp_all add: hart_ok_def idle_def intr_get_def machine_defs)

lemma slk_update_calm [simp]:
  "calm (sleeplocks_update g0 s) = calm s" "mycpu (sleeplocks_update g0 s) = mycpu s"
  unfolding calm_def by (simp_all add: settle_def intr_get_def machine_defs idle_def hart_ok_def)

lemma slk_onproc [simp]:
  "sleeplocks (onproc p s) = sleeplocks s" "onproc p (sleeplocks_update g0 s) = sleeplocks_update g0 (onproc p s)"
  by (simp_all add: onproc_def)

lemma kmem_inv_slk [simp]: "kmem_inv (sleeplocks_update f s) xs = kmem_inv s xs"
  by (simp add: kmem_inv_def)

lemma calm_myproc [simp]: "hart_ok s \<Longrightarrow> settle s = s \<Longrightarrow> myproc s = Ret (c_proc (mycpu s)) s"
  by (simp add: myproc_run)

lemma calm_thisproc [simp]:
  "hart_ok s \<Longrightarrow> settle s = s \<Longrightarrow> c_proc (mycpu s) = Some p \<Longrightarrow> thisproc s = Ret p s"
  by (simp add: thisproc_def)

section \<open>Behaviour from a calm state\<close>

text \<open>The running process, and what a wake-up leaves of the process table.\<close>

abbreviation running :: "nat \<Rightarrow> 'z procs_scheme \<Rightarrow> bool" where
  "running p s \<equiv> c_proc (mycpu s) = Some p"

definition woken :: "chan \<Rightarrow> 'z procs_scheme \<Rightarrow> nat \<Rightarrow> PCB" where
  "woken ch s = wake_all (Some ch) (c_proc (mycpu s)) {..<NPROC} (PCBs s)"

lemma wakeup_run:
  assumes "hart_ok s" "settle s = s" "\<And>p. idle (LProc p) s"
  shows "wakeup (Some ch) s = Ret () (s\<lparr>PCBs := woken ch s\<rparr>)"
proof -
  have "wakeup (Some ch) s = Ret () (settle (s\<lparr>PCBs := wake_all (Some ch) (c_proc (mycpu s)) (set [0..<NPROC]) (PCBs s)\<rparr>))"
    unfolding wakeup_def by (rule wakeup_loop) (use assms in \<open>auto simp: NPROC_def\<close>)
  moreover have "set [0..<NPROC] = {..<NPROC}"
    by auto
  moreover have "settle (s\<lparr>PCBs := g\<rparr>) = (settle s)\<lparr>PCBs := g\<rparr>" for g
    by simp
  ultimately show ?thesis
    using assms(2) by (simp add: woken_def)
qed

lemma acquiresleep_run:
  assumes "calm s" "running p s" "sl_locked (sleeplocks s l) = 0"
  shows "acquiresleep l s = Ret () (set_slk l (\<lambda>k. k\<lparr>sl_locked := 1, sl_pid := p_pid (PCBs s p)\<rparr>) s)"
  using assms by (simp add: acquiresleep_def acquiresleep_loop_def set_slk_def)

lemma releasesleep_run:
  assumes "calm s"
  shows "releasesleep l s = Ret () ((set_slk l (\<lambda>k. k\<lparr>sl_locked := 0, sl_pid := 0\<rparr>) s)
    \<lparr>PCBs := woken (ChSleeplock l) s\<rparr>)"
  using assms by (simp add: releasesleep_def set_slk_def wakeup_run woken_def)

lemma holdingsleep_run:
  assumes "calm s" "running p s"
  shows "holdingsleep l s = Ret (sl_locked (sleeplocks s l) \<noteq> 0 \<and> sl_pid (sleeplocks s l) = p_pid (PCBs s p)) s"
  using assms by (auto simp: holdingsleep_def intro!: calm_critical)

lemma acquiresleep_loop_run:
  assumes "calm s" "running p s" "noff (mycpu s) = 0"
  shows "acquiresleep_loop l (acquired (LSleep l) s) =
    (if sl_locked (sleeplocks s l) = 0
     then Ret () (set_slk l (\<lambda>k. k\<lparr>sl_locked := 1, sl_pid := p_pid (PCBs s p)\<rparr>) s)
     else Fault (Sleep (ChSleeplock l)) (acquired (LProc p)
       (s\<lparr>PCBs := (PCBs s)(p := (PCBs s p)\<lparr>p_chan := Some (ChSleeplock l), p_state := SLEEPING\<rparr>)\<rparr>)))"
  using assms by (simp add: acquiresleep_loop_def set_slk_def sleep_run)

section \<open>Processes that compete for a sleeplock\<close>

text \<open>
  Processes take turns on a hart. Each is outside, waits for the lock in \<^verbatim>\<open>acquiresleep\<close>, or is
  between \<^verbatim>\<open>acquiresleep\<close> and \<^verbatim>\<open>releasesleep\<close>. A step is a time slice of one process that runs
  the code of \<^verbatim>\<open>acquiresleep\<close>, the code after its \<^verbatim>\<open>sleep\<close>, or \<^verbatim>\<open>releasesleep\<close>.
\<close>

datatype sl_phase = SOut | SWait | SIn

fun sl_code :: "sleepid \<Rightarrow> nat \<Rightarrow> sl_phase \<Rightarrow> ('z slk_scheme, unit) oper" where
  "sl_code l p SOut = andthen (yield_resume p) (acquiresleep l)"
| "sl_code l p SWait = bind (gets (\<lambda>s. intena (mycpu s))) (acquiresleep_resume p l)"
| "sl_code l p SIn = andthen (yield_resume p) (releasesleep l)"

fun sl_next :: "sl_phase \<Rightarrow> bool \<Rightarrow> sl_phase" where
  "sl_next SIn b = SOut"
| "sl_next ph b = (if b then SIn else SWait)"

inductive sl_reach :: "sleepid \<Rightarrow> 'z slk_scheme \<Rightarrow> 'z slk_scheme \<Rightarrow> (nat \<Rightarrow> sl_phase) \<Rightarrow> bool"
  for l s0 where
  sl_start: "sl_reach l s0 s0 (\<lambda>_. SOut)"
| sl_turn: "sl_reach l s0 s ph \<Longrightarrow> p < NPROC \<Longrightarrow> p_state (PCBs s p) = RUNNABLE
    \<Longrightarrow> slice p (sl_code l p (ph p)) s = Ret b t
    \<Longrightarrow> sl_reach l s0 t (ph(p := sl_next (ph p) b))"

text \<open>The hart is in the scheduler, and the lock is as the phases say.\<close>

definition sl_inv :: "sleepid \<Rightarrow> 'z slk_scheme \<Rightarrow> (nat \<Rightarrow> sl_phase) \<Rightarrow> bool" where
  "sl_inv l s ph \<longleftrightarrow> calm s \<and> noff (mycpu s) = 0
     \<and> (sl_locked (sleeplocks s l) = 0 \<longrightarrow> (\<forall>p. ph p \<noteq> SIn \<and> (ph p = SWait \<longrightarrow> p_state (PCBs s p) = RUNNABLE)))
     \<and> (sl_locked (sleeplocks s l) \<noteq> 0 \<longrightarrow> (\<exists>q. \<forall>p. ph p = SIn \<longleftrightarrow> p = q))
     \<and> (\<forall>p. ph p = SWait \<longrightarrow> p < NPROC \<and> (p_state (PCBs s p) = RUNNABLE
          \<or> p_state (PCBs s p) = SLEEPING \<and> p_chan (PCBs s p) = Some (ChSleeplock l)))"

lemma sl_try:
  assumes "calm s" "noff (mycpu s) = 0" "p_state (PCBs s p) = RUNNABLE" "c \<noteq> SIn"
  shows "\<exists>t. slice p (sl_code l p c) s = Ret (sl_locked (sleeplocks s l) = 0) t \<and> calm t \<and> noff (mycpu t) = 0
    \<and> sl_locked (sleeplocks t l) = (if sl_locked (sleeplocks s l) = 0 then 1 else sl_locked (sleeplocks s l))
    \<and> (\<forall>q. q \<noteq> p \<longrightarrow> PCBs t q = PCBs s q)
    \<and> (if sl_locked (sleeplocks s l) = 0 then p_state (PCBs t p) = RUNNABLE
       else p_state (PCBs t p) = SLEEPING \<and> p_chan (PCBs t p) = Some (ChSleeplock l))"
proof -
  define w where "w = (if c = SWait then (scheduled p s)\<lparr>PCBs := (PCBs (scheduled p s))(p := (PCBs (scheduled p s) p)\<lparr>p_chan := None\<rparr>)\<rparr> else scheduled p s)"
  have w: "calm w" "running p w" "noff (mycpu w) = 0" "sleeplocks w = sleeplocks s" "\<And>q. q \<noteq> p \<Longrightarrow> PCBs w q = PCBs s q"
    using assms(1,2) by (simp_all add: w_def) (simp_all add: scheduled_def)
  have "sl_code l p c (acquired (LProc p) (scheduled p s)) = acquiresleep_loop l (acquired (LSleep l) w)"
    using assms(1,4)
    by (cases c) (simp_all add: w_def yield_resume_run acquiresleep_def acquiresleep_resume_def sleep_resume_run)
  note code = this [unfolded acquiresleep_loop_run [OF w(1-3)]]
  show ?thesis
  proof (cases "sl_locked (sleeplocks s l) = 0")
    case True
    with slice_done [OF assms(1,3), of "sl_code l p c", OF code [unfolded w(4), simplified True, simplified]] w
    show ?thesis by (simp add: set_slk_def)
  next
    case False
    with slice_slept [OF assms(1,3), of "sl_code l p c" "ChSleeplock l"] code w
    show ?thesis by (simp add: set_slk_def)
  qed
qed

lemma sl_leave:
  assumes "calm s" "noff (mycpu s) = 0" "p_state (PCBs s p) = RUNNABLE"
  shows "\<exists>t. slice p (sl_code l p SIn) s = Ret True t \<and> calm t \<and> noff (mycpu t) = 0
    \<and> sl_locked (sleeplocks t l) = 0 \<and> p_state (PCBs t p) = RUNNABLE
    \<and> (\<forall>q. q \<noteq> p \<longrightarrow> PCBs t q = (if q < NPROC then awake (Some (ChSleeplock l)) (PCBs s q) else PCBs s q))"
proof -
  have "sl_code l p SIn (acquired (LProc p) (scheduled p s)) =
      Ret () ((set_slk l (\<lambda>k. k\<lparr>sl_locked := 0, sl_pid := 0\<rparr>) (scheduled p s))\<lparr>PCBs := woken (ChSleeplock l) (scheduled p s)\<rparr>)"
    using assms(1) by (simp add: yield_resume_run releasesleep_run)
  from slice_done [where m = "sl_code l p SIn", OF assms(1,3) this] assms(1,2) show ?thesis
    by (auto simp: set_slk_def woken_def wake_all_def)
qed

lemma sl_inv_step:
  assumes "sl_inv l s ph" "p < NPROC" "p_state (PCBs s p) = RUNNABLE"
  shows "\<exists>b t. slice p (sl_code l p (ph p)) s = Ret b t \<and> sl_inv l t (ph(p := sl_next (ph p) b))"
proof (cases "ph p = SIn")
  case True
  have c: "calm s" "noff (mycpu s) = 0"
    using assms(1) by (simp_all add: sl_inv_def)
  from sl_leave [OF c assms(3), of l] obtain t where
    t: "slice p (sl_code l p SIn) s = Ret True t" "calm t" "noff (mycpu t) = 0" "sl_locked (sleeplocks t l) = 0"
      "p_state (PCBs t p) = RUNNABLE"
      "\<And>q. q \<noteq> p \<Longrightarrow> PCBs t q = (if q < NPROC then awake (Some (ChSleeplock l)) (PCBs s q) else PCBs s q)"
    by blast
  have "sl_locked (sleeplocks s l) \<noteq> 0"
    using assms(1) True unfolding sl_inv_def by blast
  then have only: "q = p" if "ph q = SIn" for q
    using assms(1) True that unfolding sl_inv_def by metis
  have wait: "q < NPROC \<and> (p_state (PCBs s q) = RUNNABLE
      \<or> p_state (PCBs s q) = SLEEPING \<and> p_chan (PCBs s q) = Some (ChSleeplock l))" if "ph q = SWait" for q
    using assms(1) that unfolding sl_inv_def by blast
  have wq: "p_state (PCBs t q) = RUNNABLE" if "ph q = SWait" for q
    using wait [OF that] t(6) [of q] that True by (cases "q = p") (auto simp: awake_def)
  have "sl_inv l t (ph(p := SOut))"
    unfolding sl_inv_def using t(2-5) only wq wait by auto
  with t(1) True show ?thesis by auto
next
  case False
  have c: "calm s" "noff (mycpu s) = 0"
    using assms(1) by (simp_all add: sl_inv_def)
  from sl_try [OF c assms(3) False, of l] obtain t where
    t: "slice p (sl_code l p (ph p)) s = Ret (sl_locked (sleeplocks s l) = 0) t" "calm t" "noff (mycpu t) = 0"
      "sl_locked (sleeplocks t l) = (if sl_locked (sleeplocks s l) = 0 then 1 else sl_locked (sleeplocks s l))"
      "\<And>q. q \<noteq> p \<Longrightarrow> PCBs t q = PCBs s q"
      "if sl_locked (sleeplocks s l) = 0 then p_state (PCBs t p) = RUNNABLE
       else p_state (PCBs t p) = SLEEPING \<and> p_chan (PCBs t p) = Some (ChSleeplock l)"
    by blast
  have nx: "sl_next (ph p) (sl_locked (sleeplocks s l) = 0) = (if sl_locked (sleeplocks s l) = 0 then SIn else SWait)"
    using False by (cases "ph p") auto
  have "sl_inv l t (ph(p := sl_next (ph p) (sl_locked (sleeplocks s l) = 0)))"
  proof (cases "sl_locked (sleeplocks s l) = 0")
    case True
    then have "ph q \<noteq> SIn" for q
      using assms(1) unfolding sl_inv_def by blast
    with True t assms nx show ?thesis
      unfolding sl_inv_def by (auto intro!: exI [of _ p])
  next
    case locked: False
    then obtain q where q: "\<And>r. ph r = SIn \<longleftrightarrow> r = q"
      using assms(1) unfolding sl_inv_def by blast
    have "\<forall>r. (ph(p := SWait)) r = SIn \<longleftrightarrow> r = q"
      using q False by auto
    with locked t assms nx show ?thesis
      unfolding sl_inv_def by auto
  qed
  with t(1) show ?thesis by blast
qed

lemma sl_reach_inv:
  assumes "sl_reach l s0 s ph" "sl_inv l s0 (\<lambda>_. SOut)"
  shows "sl_inv l s ph"
  using assms
proof (induction rule: sl_reach.induct)
  case (sl_turn s ph p b t)
  then obtain b' t' where "slice p (sl_code l p (ph p)) s = Ret b' t'" "sl_inv l t' (ph(p := sl_next (ph p) b'))"
    using sl_inv_step by blast
  with sl_turn(4) show ?case by (simp add: fun_upd_def)
qed simp


definition some_slk :: "(nat \<Rightarrow> PCB) \<Rightarrow> slk" where
  "some_slk t = procs.extend (some_procs t None)
     \<lparr>sleeplocks = (\<lambda>_. \<lparr>sl_locked = 0, sl_name = [], sl_pid = 0\<rparr>)\<rparr>"

lemma some_slk_ok [simp]:
  "calm (some_slk t)" "noff (mycpu (some_slk t)) = 0" "sl_locked (sleeplocks (some_slk t) l) = 0"
  "PCBs (some_slk t) = t"
  by (simp_all add: some_slk_def some_procs_def procs.extend_def calm_def hart_ok_def idle_def machine_defs
    intr_get_def SSTATUS_SIE_def)


end
