(* ===== verification/Virtio.thy ===== *)
theory Virtio
  imports Sleeplock
begin

text \<open>
  The driver of the virtio block device (\<^verbatim>\<open>kernel/driver/virtio_disk.c\<close>) and the buffers it
  transfers (\<^verbatim>\<open>include/buf.h\<close>). The descriptor table and the two rings, which the driver
  shares with the device, are typed tables; the address in a descriptor names the kernel
  object it points to. The device is not part of the program: its registers and what it
  does to the shared tables, the buffers and the disk image are fields of the state that no
  operation changes, and the theorems assume that it follows the virtio specification.
\<close>

section \<open>State (buf.h, virtio.h, virtio_disk.c)\<close>

definition BSIZE :: nat where "BSIZE = 1024"
definition NBUF :: nat where "NBUF = 90"
definition NUM :: nat where "NUM = 8"

text \<open>
  A \<^verbatim>\<open>struct buf*\<close> is an index: below \<open>NBUF\<close> an element of \<^verbatim>\<open>bcache.buf\<close>, \<open>NBUF\<close> itself the list
  head \<^verbatim>\<open>bcache.head\<close>. The sleeplock of buffer \<open>i\<close> is \<open>SBuf i\<close>. \<open>b_pad\<close> are the words the
  compiler leaves between the fields.
\<close>

record buf =
  b_valid :: uint
  b_disk :: uint
  b_dev :: uint
  b_blockno :: uint
  b_refcnt :: uint
  b_prev :: nat
  b_next :: nat
  b_data :: block
  b_pad :: "nat \<Rightarrow> uint"

text \<open>What a descriptor points to: nothing, a request header, the data of a buffer, a status byte.\<close>

datatype dma = DNull | DReq nat | DData nat | DStatus nat

record virtq_desc =
  d_addr :: dma
  d_len :: uint
  d_flags :: ushort
  d_next :: ushort

record virtq_used_elem =
  u_id :: uint
  u_len :: uint

record virtio_blk_req =
  r_type :: uint
  r_reserved :: uint
  r_sector :: uint64

record vring =
  desc :: "nat \<Rightarrow> virtq_desc"
  avail_idx :: ushort
  avail_ring :: "nat \<Rightarrow> ushort"
  used_dev_idx :: ushort
  used_ring :: "nat \<Rightarrow> virtq_used_elem"
  ops :: "nat \<Rightarrow> virtio_blk_req"
  info_status :: "nat \<Rightarrow> byte"

text \<open>The disk: the bytes of each 512-byte sector.\<close>

type_synonym image = "nat \<Rightarrow> nat \<Rightarrow> byte"

record vdisk = slk +
  bufs :: "nat \<Rightarrow> buf"
  vq :: vring
  desc_pa :: uint64
  avail_pa :: uint64
  used_pa :: uint64
  vfree :: "nat \<Rightarrow> bool"
  used_idx :: ushort
  info_b :: "nat \<Rightarrow> nat option"
  mmio_log :: "(nat \<times> uint) list"
  mmio_read :: "(nat \<times> uint) list \<Rightarrow> nat \<Rightarrow> uint"
  disk_image :: image
  device :: "vring \<Rightarrow> (nat \<Rightarrow> block) \<Rightarrow> image \<Rightarrow> vring \<times> (nat \<Rightarrow> block) \<times> image"

definition set_buf :: "nat \<Rightarrow> (buf \<Rightarrow> buf) \<Rightarrow> 'z vdisk_scheme \<Rightarrow> 'z vdisk_scheme" where
  "set_buf i f s = s\<lparr>bufs := (bufs s)(i := f (bufs s i))\<rparr>"

definition set_desc :: "nat \<Rightarrow> (virtq_desc \<Rightarrow> virtq_desc) \<Rightarrow> 'z vdisk_scheme \<Rightarrow> 'z vdisk_scheme" where
  "set_desc i f s = s\<lparr>vq := (vq s)\<lparr>desc := (desc (vq s))(i := f (desc (vq s) i))\<rparr>\<rparr>"

section \<open>Registers (virtio.h)\<close>

definition VIRTIO_MMIO_MAGIC_VALUE :: nat where "VIRTIO_MMIO_MAGIC_VALUE = 0x000"
definition VIRTIO_MMIO_VERSION :: nat where "VIRTIO_MMIO_VERSION = 0x004"
definition VIRTIO_MMIO_DEVICE_ID :: nat where "VIRTIO_MMIO_DEVICE_ID = 0x008"
definition VIRTIO_MMIO_VENDOR_ID :: nat where "VIRTIO_MMIO_VENDOR_ID = 0x00c"
definition VIRTIO_MMIO_DEVICE_FEATURES :: nat where "VIRTIO_MMIO_DEVICE_FEATURES = 0x010"
definition VIRTIO_MMIO_DRIVER_FEATURES :: nat where "VIRTIO_MMIO_DRIVER_FEATURES = 0x020"
definition VIRTIO_MMIO_QUEUE_SEL :: nat where "VIRTIO_MMIO_QUEUE_SEL = 0x030"
definition VIRTIO_MMIO_QUEUE_NUM_MAX :: nat where "VIRTIO_MMIO_QUEUE_NUM_MAX = 0x034"
definition VIRTIO_MMIO_QUEUE_NUM :: nat where "VIRTIO_MMIO_QUEUE_NUM = 0x038"
definition VIRTIO_MMIO_QUEUE_READY :: nat where "VIRTIO_MMIO_QUEUE_READY = 0x044"
definition VIRTIO_MMIO_QUEUE_NOTIFY :: nat where "VIRTIO_MMIO_QUEUE_NOTIFY = 0x050"
definition VIRTIO_MMIO_INTERRUPT_STATUS :: nat where "VIRTIO_MMIO_INTERRUPT_STATUS = 0x060"
definition VIRTIO_MMIO_INTERRUPT_ACK :: nat where "VIRTIO_MMIO_INTERRUPT_ACK = 0x064"
definition VIRTIO_MMIO_STATUS :: nat where "VIRTIO_MMIO_STATUS = 0x070"
definition VIRTIO_MMIO_QUEUE_DESC_LOW :: nat where "VIRTIO_MMIO_QUEUE_DESC_LOW = 0x080"
definition VIRTIO_MMIO_QUEUE_DESC_HIGH :: nat where "VIRTIO_MMIO_QUEUE_DESC_HIGH = 0x084"
definition VIRTIO_MMIO_DRIVER_DESC_LOW :: nat where "VIRTIO_MMIO_DRIVER_DESC_LOW = 0x090"
definition VIRTIO_MMIO_DRIVER_DESC_HIGH :: nat where "VIRTIO_MMIO_DRIVER_DESC_HIGH = 0x094"
definition VIRTIO_MMIO_DEVICE_DESC_LOW :: nat where "VIRTIO_MMIO_DEVICE_DESC_LOW = 0x0a0"
definition VIRTIO_MMIO_DEVICE_DESC_HIGH :: nat where "VIRTIO_MMIO_DEVICE_DESC_HIGH = 0x0a4"

definition VIRTIO_CONFIG_S_ACKNOWLEDGE :: uint where "VIRTIO_CONFIG_S_ACKNOWLEDGE = 1"
definition VIRTIO_CONFIG_S_DRIVER :: uint where "VIRTIO_CONFIG_S_DRIVER = 2"
definition VIRTIO_CONFIG_S_DRIVER_OK :: uint where "VIRTIO_CONFIG_S_DRIVER_OK = 4"
definition VIRTIO_CONFIG_S_FEATURES_OK :: uint where "VIRTIO_CONFIG_S_FEATURES_OK = 8"

definition VIRTIO_BLK_F_RO :: nat where "VIRTIO_BLK_F_RO = 5"
definition VIRTIO_BLK_F_SCSI :: nat where "VIRTIO_BLK_F_SCSI = 7"
definition VIRTIO_BLK_F_CONFIG_WCE :: nat where "VIRTIO_BLK_F_CONFIG_WCE = 11"
definition VIRTIO_BLK_F_MQ :: nat where "VIRTIO_BLK_F_MQ = 12"
definition VIRTIO_F_ANY_LAYOUT :: nat where "VIRTIO_F_ANY_LAYOUT = 27"
definition VIRTIO_RING_F_INDIRECT_DESC :: nat where "VIRTIO_RING_F_INDIRECT_DESC = 28"
definition VIRTIO_RING_F_EVENT_IDX :: nat where "VIRTIO_RING_F_EVENT_IDX = 29"

definition VRING_DESC_F_NEXT :: ushort where "VRING_DESC_F_NEXT = 1"
definition VRING_DESC_F_WRITE :: ushort where "VRING_DESC_F_WRITE = 2"
definition VIRTIO_BLK_T_IN :: uint where "VIRTIO_BLK_T_IN = 0"
definition VIRTIO_BLK_T_OUT :: uint where "VIRTIO_BLK_T_OUT = 1"

text \<open>
  \<^verbatim>\<open>*R(r)\<close> as a value and as an assignment. What a register reads as depends on the device and
  on what has been written so far.
\<close>

definition readR :: "nat \<Rightarrow> ('z vdisk_scheme, uint) oper" where
  "readR r = gets (\<lambda>s. mmio_read s (mmio_log s) r)"

definition writeR :: "nat \<Rightarrow> uint \<Rightarrow> ('z vdisk_scheme, unit) oper" where
  "writeR r v = modify (\<lambda>s. s\<lparr>mmio_log := mmio_log s @ [(r, v)]\<rparr>)"

section \<open>Initialisation\<close>

definition zero_desc :: virtq_desc where
  "zero_desc = \<lparr>d_addr = DNull, d_len = 0, d_flags = 0, d_next = 0\<rparr>"

text \<open>\<^verbatim>\<open>features &= ~(1 << n)\<close>: the mask is a sign-extended \<^verbatim>\<open>int\<close>.\<close>

definition drop_feature :: "nat \<Rightarrow> uint64 \<Rightarrow> uint64" where
  "drop_feature n features = features AND NOT (push_bit n 1)"

definition virtio_queue_setup :: "uint64 \<Rightarrow> uint64 \<Rightarrow> uint64 \<Rightarrow> uint \<Rightarrow> ('z vdisk_scheme, unit) oper" where
  "virtio_queue_setup d a u status =
     andthen (modify (\<lambda>s. s\<lparr>vq := (vq s)\<lparr>desc := (\<lambda>_. zero_desc), avail_idx := 0,
       avail_ring := (\<lambda>_. 0), used_dev_idx := 0, used_ring := (\<lambda>_. \<lparr>u_id = 0, u_len = 0\<rparr>)\<rparr>\<rparr>))
     (andthen (writeR VIRTIO_MMIO_QUEUE_NUM (of_nat NUM))
     (andthen (writeR VIRTIO_MMIO_QUEUE_DESC_LOW (ucast d))
     (andthen (writeR VIRTIO_MMIO_QUEUE_DESC_HIGH (ucast (drop_bit 32 d)))
     (andthen (writeR VIRTIO_MMIO_DRIVER_DESC_LOW (ucast a))
     (andthen (writeR VIRTIO_MMIO_DRIVER_DESC_HIGH (ucast (drop_bit 32 a)))
     (andthen (writeR VIRTIO_MMIO_DEVICE_DESC_LOW (ucast u))
     (andthen (writeR VIRTIO_MMIO_DEVICE_DESC_HIGH (ucast (drop_bit 32 u)))
     (andthen (writeR VIRTIO_MMIO_QUEUE_READY 1)
     (andthen (modify (\<lambda>s. s\<lparr>vfree := (\<lambda>i. if i < NUM then True else vfree s i)\<rparr>))
     (writeR VIRTIO_MMIO_STATUS (status OR VIRTIO_CONFIG_S_DRIVER_OK)))))))))))"

definition virtio_queue_init :: "uint \<Rightarrow> ('z vdisk_scheme, unit) oper" where
  "virtio_queue_init status =
     andthen (writeR VIRTIO_MMIO_QUEUE_SEL 0)
     (bind (readR VIRTIO_MMIO_QUEUE_READY) (\<lambda>ready.
      if ready \<noteq> 0 then panic ''virtio disk should not be ready''
      else bind (readR VIRTIO_MMIO_QUEUE_NUM_MAX) (\<lambda>mx.
      if mx = 0 then panic ''virtio disk has no queue 0''
      else if mx < of_nat NUM then panic ''virtio disk max queue too short''
      else bind kalloc (\<lambda>d. bind kalloc (\<lambda>a. bind kalloc (\<lambda>u.
        andthen (modify (\<lambda>s. s\<lparr>desc_pa := d, avail_pa := a, used_pa := u\<rparr>))
        (if d = 0 \<or> a = 0 \<or> u = 0 then panic ''virtio disk kalloc''
         else virtio_queue_setup d a u status)))))))"

definition virtio_disk_init :: "('z vdisk_scheme, unit) oper" where
  "virtio_disk_init =
     andthen (modify (initlock LVdisk ''virtio_disk''))
     (bind (readR VIRTIO_MMIO_MAGIC_VALUE) (\<lambda>magic.
      bind (readR VIRTIO_MMIO_VERSION) (\<lambda>version.
      bind (readR VIRTIO_MMIO_DEVICE_ID) (\<lambda>device_id.
      bind (readR VIRTIO_MMIO_VENDOR_ID) (\<lambda>vendor.
      if magic \<noteq> 0x74726976 \<or> version \<noteq> 2 \<or> device_id \<noteq> 2 \<or> vendor \<noteq> 0x554d4551
      then panic ''could not find virtio disk''
      else
        andthen (writeR VIRTIO_MMIO_STATUS 0)
        (andthen (writeR VIRTIO_MMIO_STATUS VIRTIO_CONFIG_S_ACKNOWLEDGE)
        (andthen (writeR VIRTIO_MMIO_STATUS (VIRTIO_CONFIG_S_ACKNOWLEDGE OR VIRTIO_CONFIG_S_DRIVER))
        (bind (readR VIRTIO_MMIO_DEVICE_FEATURES) (\<lambda>feat.
         let features = (drop_feature VIRTIO_RING_F_INDIRECT_DESC \<circ> drop_feature VIRTIO_RING_F_EVENT_IDX
               \<circ> drop_feature VIRTIO_F_ANY_LAYOUT \<circ> drop_feature VIRTIO_BLK_F_MQ
               \<circ> drop_feature VIRTIO_BLK_F_CONFIG_WCE \<circ> drop_feature VIRTIO_BLK_F_SCSI
               \<circ> drop_feature VIRTIO_BLK_F_RO) (ucast feat)
         in
         andthen (writeR VIRTIO_MMIO_DRIVER_FEATURES (ucast features))
         (andthen (writeR VIRTIO_MMIO_STATUS
            (VIRTIO_CONFIG_S_ACKNOWLEDGE OR VIRTIO_CONFIG_S_DRIVER OR VIRTIO_CONFIG_S_FEATURES_OK))
         (bind (readR VIRTIO_MMIO_STATUS) (\<lambda>status.
          if status AND VIRTIO_CONFIG_S_FEATURES_OK = 0 then panic ''virtio disk FEATURES_OK unset''
          else virtio_queue_init status))))))))))))"

section \<open>Descriptors\<close>

primrec alloc_desc_loop :: "nat list \<Rightarrow> ('z vdisk_scheme, int) oper" where
  "alloc_desc_loop [] = ret (- 1)"
| "alloc_desc_loop (i # is) =
     bind (gets (\<lambda>s. vfree s i)) (\<lambda>f.
     if f then andthen (modify (\<lambda>s. s\<lparr>vfree := (vfree s)(i := False)\<rparr>)) (ret (int i))
     else alloc_desc_loop is)"

definition alloc_desc :: "('z vdisk_scheme, int) oper" where
  "alloc_desc = alloc_desc_loop [0..<NUM]"

definition free_desc :: "int \<Rightarrow> ('z vdisk_scheme, unit) oper" where
  "free_desc i =
     (if i < 0 then Fault Wild
      else if int NUM \<le> i then panic ''free_desc 1''
      else bind (gets (\<lambda>s. vfree s (nat i))) (\<lambda>f.
      if f then panic ''free_desc 2''
      else
        andthen (modify (set_desc (nat i) (\<lambda>d. d\<lparr>d_addr := DNull, d_len := 0, d_flags := 0, d_next := 0\<rparr>)))
        (andthen (modify (\<lambda>s. s\<lparr>vfree := (vfree s)(nat i := True)\<rparr>))
        (wakeup (Some ChDiskFree)))))"

text \<open>
  A descriptor is freed only once, so the loop makes at most \<open>NUM\<close> rounds before it ends or
  \<^verbatim>\<open>free_desc\<close> panics; the bound \<open>NUM + 1\<close> on the rounds is never reached.
\<close>

primrec free_chain_loop :: "nat \<Rightarrow> int \<Rightarrow> ('z vdisk_scheme, unit) oper" where
  "free_chain_loop 0 i = Fault Diverge"
| "free_chain_loop (Suc n) i =
     bind (gets (\<lambda>s. d_flags (desc (vq s) (nat i)))) (\<lambda>flag.
     bind (gets (\<lambda>s. d_next (desc (vq s) (nat i)))) (\<lambda>nxt.
     andthen (free_desc i)
     (if flag AND VRING_DESC_F_NEXT \<noteq> 0 then free_chain_loop n (int (unat nxt)) else ret ())))"

definition free_chain :: "int \<Rightarrow> ('z vdisk_scheme, unit) oper" where
  "free_chain i = free_chain_loop (NUM + 1) i"

primrec alloc3_desc_loop :: "nat \<Rightarrow> int list \<Rightarrow> ('z vdisk_scheme, int list option) oper" where
  "alloc3_desc_loop 0 idx = ret (Some idx)"
| "alloc3_desc_loop (Suc n) idx =
     bind alloc_desc (\<lambda>i.
     if i < 0 then andthen (forM idx free_desc) (ret None)
     else alloc3_desc_loop n (idx @ [i]))"

definition alloc3_desc :: "('z vdisk_scheme, int list option) oper" where
  "alloc3_desc = alloc3_desc_loop 3 []"

section \<open>Transfers\<close>

definition virtio_disk_intr_one :: "('z vdisk_scheme, unit) oper" where
  "virtio_disk_intr_one =
     bind (gets (\<lambda>s. u_id (used_ring (vq s) (unat (used_idx s) mod NUM)))) (\<lambda>id.
     if NUM \<le> unat id then Fault Wild
     else bind (gets (\<lambda>s. info_status (vq s) (unat id))) (\<lambda>st.
     if st \<noteq> 0 then panic ''virtio_disk_intr status''
     else bind (gets (\<lambda>s. info_b s (unat id))) (\<lambda>b.
     case b of None \<Rightarrow> Fault Wild
     | Some b \<Rightarrow>
        andthen (modify (set_buf b (\<lambda>c. c\<lparr>b_disk := 0\<rparr>)))
        (andthen (wakeup (Some (ChBuf b)))
        (modify (\<lambda>s. s\<lparr>used_idx := used_idx s + 1\<rparr>))))))"

text \<open>
  The loop runs until \<^verbatim>\<open>used_idx\<close> has caught up with the device; both are 16-bit counters and
  the loop adds one per round, so the number of rounds is their difference modulo \<open>2^16\<close>.
\<close>

definition virtio_disk_intr :: "('z vdisk_scheme, unit) oper" where
  "virtio_disk_intr =
     andthen (acquire LVdisk)
     (bind (readR VIRTIO_MMIO_INTERRUPT_STATUS) (\<lambda>st.
      andthen (writeR VIRTIO_MMIO_INTERRUPT_ACK (st AND 3))
      (bind (gets (\<lambda>s. unat (used_dev_idx (vq s) - used_idx s))) (\<lambda>n.
       andthen (repeatM n virtio_disk_intr_one) (release LVdisk)))))"

text \<open>The device works on what it has been notified of.\<close>

definition device_turn :: "('z vdisk_scheme, unit) oper" where
  "device_turn = modify (\<lambda>s.
     case device s (vq s) (\<lambda>i. b_data (bufs s i)) (disk_image s) of
       (q, d, img) \<Rightarrow> s\<lparr>vq := q, bufs := (\<lambda>i. (bufs s i)\<lparr>b_data := d i\<rparr>), disk_image := img\<rparr>)"

text \<open>Filling in the three descriptors of a request and making it available.\<close>

definition disk_request :: "nat \<Rightarrow> bool \<Rightarrow> uint64 \<Rightarrow> nat \<Rightarrow> nat \<Rightarrow> nat \<Rightarrow> ('z vdisk_scheme, unit) oper" where
  "disk_request b write sector i0 i1 i2 =
     andthen (modify (\<lambda>s. s\<lparr>vq := (vq s)\<lparr>ops := (ops (vq s))(i0 :=
       \<lparr>r_type = (if write then VIRTIO_BLK_T_OUT else VIRTIO_BLK_T_IN), r_reserved = 0, r_sector = sector\<rparr>)\<rparr>\<rparr>))
     (andthen (modify (set_desc i0 (\<lambda>_. \<lparr>d_addr = DReq i0, d_len = 16, d_flags = VRING_DESC_F_NEXT,
       d_next = of_nat i1\<rparr>)))
     (andthen (modify (set_desc i1 (\<lambda>_. \<lparr>d_addr = DData b, d_len = of_nat BSIZE,
       d_flags = (if write then 0 else VRING_DESC_F_WRITE) OR VRING_DESC_F_NEXT, d_next = of_nat i2\<rparr>)))
     (andthen (modify (\<lambda>s. s\<lparr>vq := (vq s)\<lparr>info_status := (info_status (vq s))(i0 := 0xff)\<rparr>\<rparr>))
     (andthen (modify (set_desc i2 (\<lambda>_. \<lparr>d_addr = DStatus i0, d_len = 1, d_flags = VRING_DESC_F_WRITE,
       d_next = 0\<rparr>)))
     (andthen (modify (set_buf b (\<lambda>c. c\<lparr>b_disk := 1\<rparr>)))
     (andthen (modify (\<lambda>s. s\<lparr>info_b := (info_b s)(i0 := Some b)\<rparr>))
     (andthen (modify (\<lambda>s. s\<lparr>vq := (vq s)\<lparr>avail_ring :=
       (avail_ring (vq s))(unat (avail_idx (vq s)) mod NUM := of_nat i0)\<rparr>\<rparr>))
     (andthen (modify (\<lambda>s. s\<lparr>vq := (vq s)\<lparr>avail_idx := avail_idx (vq s) + 1\<rparr>\<rparr>))
     (writeR VIRTIO_MMIO_QUEUE_NOTIFY 0)))))))))"

text \<open>
  \<^verbatim>\<open>while(b->disk == 1) sleep(b, &disk.vdisk_lock)\<close>. While the process sleeps the device works
  and raises its interrupt; if the buffer is still in use afterwards, the process sleeps on.
\<close>

definition disk_wait :: "nat \<Rightarrow> ('z vdisk_scheme, unit) oper" where
  "disk_wait b =
     bind (gets (\<lambda>s. b_disk (bufs s b))) (\<lambda>d.
     if d \<noteq> 1 then ret ()
     else andthen (sleep_through (andthen device_turn virtio_disk_intr) (ChBuf b) LVdisk)
       (bind (gets (\<lambda>s. b_disk (bufs s b))) (\<lambda>d.
        if d \<noteq> 1 then ret () else sleep (ChBuf b) LVdisk)))"

definition virtio_disk_rw :: "nat \<Rightarrow> bool \<Rightarrow> ('z vdisk_scheme, unit) oper" where
  "virtio_disk_rw b write =
     bind (gets (\<lambda>s. ucast (b_blockno (bufs s b) * of_nat (BSIZE div 512)) :: uint64)) (\<lambda>sector.
     andthen (acquire LVdisk)
     (bind alloc3_desc (\<lambda>r.
      case r of None \<Rightarrow> sleep ChDiskFree LVdisk
      | Some idx \<Rightarrow>
        andthen (disk_request b write sector (nat (idx ! 0)) (nat (idx ! 1)) (nat (idx ! 2)))
        (andthen (disk_wait b)
        (andthen (modify (\<lambda>s. s\<lparr>info_b := (info_b s)(nat (idx ! 0) := None)\<rparr>))
        (andthen (free_chain (idx ! 0))
        (release LVdisk)))))))"

section \<open>Frame lemmas\<close>

lemma vdisk_after_lock [simp]:
  "bufs (acquired L s) = bufs s" "bufs (released L s) = bufs s" "bufs (settle s) = bufs s"
  "vq (acquired L s) = vq s" "vq (released L s) = vq s" "vq (settle s) = vq s"
  "desc_pa (acquired L s) = desc_pa s" "desc_pa (released L s) = desc_pa s" "desc_pa (settle s) = desc_pa s"
  "avail_pa (acquired L s) = avail_pa s" "avail_pa (released L s) = avail_pa s" "avail_pa (settle s) = avail_pa s"
  "used_pa (acquired L s) = used_pa s" "used_pa (released L s) = used_pa s" "used_pa (settle s) = used_pa s"
  "vfree (acquired L s) = vfree s" "vfree (released L s) = vfree s" "vfree (settle s) = vfree s"
  "used_idx (acquired L s) = used_idx s" "used_idx (released L s) = used_idx s" "used_idx (settle s) = used_idx s"
  "info_b (acquired L s) = info_b s" "info_b (released L s) = info_b s" "info_b (settle s) = info_b s"
  "mmio_log (acquired L s) = mmio_log s" "mmio_log (released L s) = mmio_log s" "mmio_log (settle s) = mmio_log s"
  "mmio_read (acquired L s) = mmio_read s" "mmio_read (released L s) = mmio_read s" "mmio_read (settle s) = mmio_read s"
  "disk_image (acquired L s) = disk_image s" "disk_image (released L s) = disk_image s" "disk_image (settle s) = disk_image s"
  "device (acquired L s) = device s" "device (released L s) = device s" "device (settle s) = device s"
  by (simp_all add: acquired_def released_def settle_def)

lemma vdisk_update_lock [simp]:
  "bufs_update g0 (acquired L s) = acquired L (bufs_update g0 s)"
  "bufs_update g0 (settle s) = settle (bufs_update g0 s)"
  "vq_update g1 (acquired L s) = acquired L (vq_update g1 s)"
  "vq_update g1 (settle s) = settle (vq_update g1 s)"
  "desc_pa_update g2 (acquired L s) = acquired L (desc_pa_update g2 s)"
  "desc_pa_update g2 (settle s) = settle (desc_pa_update g2 s)"
  "avail_pa_update g3 (acquired L s) = acquired L (avail_pa_update g3 s)"
  "avail_pa_update g3 (settle s) = settle (avail_pa_update g3 s)"
  "used_pa_update g4 (acquired L s) = acquired L (used_pa_update g4 s)"
  "used_pa_update g4 (settle s) = settle (used_pa_update g4 s)"
  "vfree_update g5 (acquired L s) = acquired L (vfree_update g5 s)"
  "vfree_update g5 (settle s) = settle (vfree_update g5 s)"
  "used_idx_update g6 (acquired L s) = acquired L (used_idx_update g6 s)"
  "used_idx_update g6 (settle s) = settle (used_idx_update g6 s)"
  "info_b_update g7 (acquired L s) = acquired L (info_b_update g7 s)"
  "info_b_update g7 (settle s) = settle (info_b_update g7 s)"
  "mmio_log_update g8 (acquired L s) = acquired L (mmio_log_update g8 s)"
  "mmio_log_update g8 (settle s) = settle (mmio_log_update g8 s)"
  "mmio_read_update g9 (acquired L s) = acquired L (mmio_read_update g9 s)"
  "mmio_read_update g9 (settle s) = settle (mmio_read_update g9 s)"
  "disk_image_update g10 (acquired L s) = acquired L (disk_image_update g10 s)"
  "disk_image_update g10 (settle s) = settle (disk_image_update g10 s)"
  "device_update g11 (acquired L s) = acquired L (device_update g11 s)"
  "device_update g11 (settle s) = settle (device_update g11 s)"
  by (simp_all add: acquired_def settle_def intr_get_def r_sstatus_def)

lemma vdisk_update_ok [simp]:
  "hart_ok (bufs_update g0 s) = hart_ok s" "idle L (bufs_update g0 s) = idle L s"
  "hart_ok (vq_update g1 s) = hart_ok s" "idle L (vq_update g1 s) = idle L s"
  "hart_ok (desc_pa_update g2 s) = hart_ok s" "idle L (desc_pa_update g2 s) = idle L s"
  "hart_ok (avail_pa_update g3 s) = hart_ok s" "idle L (avail_pa_update g3 s) = idle L s"
  "hart_ok (used_pa_update g4 s) = hart_ok s" "idle L (used_pa_update g4 s) = idle L s"
  "hart_ok (vfree_update g5 s) = hart_ok s" "idle L (vfree_update g5 s) = idle L s"
  "hart_ok (used_idx_update g6 s) = hart_ok s" "idle L (used_idx_update g6 s) = idle L s"
  "hart_ok (info_b_update g7 s) = hart_ok s" "idle L (info_b_update g7 s) = idle L s"
  "hart_ok (mmio_log_update g8 s) = hart_ok s" "idle L (mmio_log_update g8 s) = idle L s"
  "hart_ok (mmio_read_update g9 s) = hart_ok s" "idle L (mmio_read_update g9 s) = idle L s"
  "hart_ok (disk_image_update g10 s) = hart_ok s" "idle L (disk_image_update g10 s) = idle L s"
  "hart_ok (device_update g11 s) = hart_ok s" "idle L (device_update g11 s) = idle L s"
  by (simp_all add: hart_ok_def idle_def intr_get_def machine_defs)

lemma vdisk_update_calm [simp]:
  "calm (bufs_update g0 s) = calm s" "mycpu (bufs_update g0 s) = mycpu s"
  "calm (vq_update g1 s) = calm s" "mycpu (vq_update g1 s) = mycpu s"
  "calm (desc_pa_update g2 s) = calm s" "mycpu (desc_pa_update g2 s) = mycpu s"
  "calm (avail_pa_update g3 s) = calm s" "mycpu (avail_pa_update g3 s) = mycpu s"
  "calm (used_pa_update g4 s) = calm s" "mycpu (used_pa_update g4 s) = mycpu s"
  "calm (vfree_update g5 s) = calm s" "mycpu (vfree_update g5 s) = mycpu s"
  "calm (used_idx_update g6 s) = calm s" "mycpu (used_idx_update g6 s) = mycpu s"
  "calm (info_b_update g7 s) = calm s" "mycpu (info_b_update g7 s) = mycpu s"
  "calm (mmio_log_update g8 s) = calm s" "mycpu (mmio_log_update g8 s) = mycpu s"
  "calm (mmio_read_update g9 s) = calm s" "mycpu (mmio_read_update g9 s) = mycpu s"
  "calm (disk_image_update g10 s) = calm s" "mycpu (disk_image_update g10 s) = mycpu s"
  "calm (device_update g11 s) = calm s" "mycpu (device_update g11 s) = mycpu s"
  unfolding calm_def by (simp_all add: settle_def intr_get_def machine_defs idle_def hart_ok_def)

lemma vdisk_onproc [simp]:
  "bufs (onproc p s) = bufs s" "onproc p (bufs_update g0 s) = bufs_update g0 (onproc p s)"
  "vq (onproc p s) = vq s" "onproc p (vq_update g1 s) = vq_update g1 (onproc p s)"
  "desc_pa (onproc p s) = desc_pa s" "onproc p (desc_pa_update g2 s) = desc_pa_update g2 (onproc p s)"
  "avail_pa (onproc p s) = avail_pa s" "onproc p (avail_pa_update g3 s) = avail_pa_update g3 (onproc p s)"
  "used_pa (onproc p s) = used_pa s" "onproc p (used_pa_update g4 s) = used_pa_update g4 (onproc p s)"
  "vfree (onproc p s) = vfree s" "onproc p (vfree_update g5 s) = vfree_update g5 (onproc p s)"
  "used_idx (onproc p s) = used_idx s" "onproc p (used_idx_update g6 s) = used_idx_update g6 (onproc p s)"
  "info_b (onproc p s) = info_b s" "onproc p (info_b_update g7 s) = info_b_update g7 (onproc p s)"
  "mmio_log (onproc p s) = mmio_log s" "onproc p (mmio_log_update g8 s) = mmio_log_update g8 (onproc p s)"
  "mmio_read (onproc p s) = mmio_read s" "onproc p (mmio_read_update g9 s) = mmio_read_update g9 (onproc p s)"
  "disk_image (onproc p s) = disk_image s" "onproc p (disk_image_update g10 s) = disk_image_update g10 (onproc p s)"
  "device (onproc p s) = device s" "onproc p (device_update g11 s) = device_update g11 (onproc p s)"
  by (simp_all add: onproc_def)

text \<open>
  \<open>iostep s t\<close>: from \<open>s\<close> to \<open>t\<close> only the buffers, the disk and its driver, the sleeplocks, and the
  state and channel of processes have changed.
\<close>

definition same_pcb :: "PCB \<Rightarrow> PCB \<Rightarrow> bool" where
  "same_pcb c d \<longleftrightarrow> d\<lparr>p_state := p_state c, p_chan := p_chan c\<rparr> = c"

inductive iostep :: "'z vdisk_scheme \<Rightarrow> 'z vdisk_scheme \<Rightarrow> bool" for s where
  io_refl: "iostep s s"
| io_pcbs: "iostep s t \<Longrightarrow> (\<And>p. same_pcb (PCBs t p) (f (PCBs t) p)) \<Longrightarrow> iostep s (PCBs_update f t)"
| io_slk: "iostep s t \<Longrightarrow> (\<And>i. g (sleeplocks t) (SInode i) = sleeplocks t (SInode i)) \<Longrightarrow> iostep s (sleeplocks_update g t)"
| io_bufs: "iostep s t \<Longrightarrow> iostep s (bufs_update h t)"
| io_vq: "iostep s t \<Longrightarrow> iostep s (vq_update q t)"
| io_vfree: "iostep s t \<Longrightarrow> iostep s (vfree_update vf t)"
| io_used: "iostep s t \<Longrightarrow> iostep s (used_idx_update ui t)"
| io_info: "iostep s t \<Longrightarrow> iostep s (info_b_update ib t)"
| io_log: "iostep s t \<Longrightarrow> iostep s (mmio_log_update ml t)"
| io_image: "iostep s t \<Longrightarrow> iostep s (disk_image_update di t)"

lemma same_pcb_refl [simp]: "same_pcb c c"
  by (simp add: same_pcb_def)

lemma same_pcb_trans: "same_pcb c d \<Longrightarrow> same_pcb d e \<Longrightarrow> same_pcb c e"
  by (simp add: same_pcb_def) (metis (no_types, lifting) PCB.surjective PCB.update_convs(1,10))

lemma same_pcb_update [simp]:
  "same_pcb c (d\<lparr>p_state := a\<rparr>) = same_pcb c d" "same_pcb c (d\<lparr>p_chan := x\<rparr>) = same_pcb c d"
  "same_pcb c (awake ch d) = same_pcb c d"
  by (simp_all add: same_pcb_def awake_def)

lemma same_pcb_wake_all [simp]: "same_pcb c (wake_all ch me P t p) = same_pcb c (t p)"
  by (simp add: wake_all_def)

lemma iostep_trans: "iostep t u \<Longrightarrow> iostep s t \<Longrightarrow> iostep s u"
  by (induction rule: iostep.induct) (auto intro: iostep.intros)

lemma iostep_keeps:
  assumes "iostep s t"
  shows "tp t = tp s" "sstatus t = sstatus s" "cpus t = cpus s" "locks t = locks s"
    "mem t = mem s" "freelist t = freelist s" "kbitmap t = kbitmap s" "addr_base t = addr_base s" "kend t = kend s"
    "nextpid t = nextpid s" "initproc t = initproc s" "trampoline t = trampoline s" "forkret_addr t = forkret_addr s"
    "device t = device s" "mmio_read t = mmio_read s" "calm t = calm s" "mycpu t = mycpu s"
    "same_pcb (PCBs s p) (PCBs t p)" "sleeplocks t (SInode i) = sleeplocks s (SInode i)"
  using assms by (induction rule: iostep.induct) (auto simp: machine_defs intro: same_pcb_trans)

section \<open>What the device promises\<close>

text \<open>
  The behaviour of a block device in the virtio specification, for one request that the driver has
  made available: a chain of a header, a data buffer and a status byte. The device transfers the
  data between the sectors and the buffer, sets the status byte to 0 (VIRTIO\_BLK\_S\_OK) and
  enters the chain in the used ring; it touches nothing else. The reported length is not fixed.
\<close>

definition sector_read :: "image \<Rightarrow> nat \<Rightarrow> nat \<Rightarrow> block \<Rightarrow> block" where
  "sector_read img sec n old = (\<lambda>i. if i < n then img (sec + i div 512) (i mod 512) else old i)"

definition sector_write :: "image \<Rightarrow> nat \<Rightarrow> nat \<Rightarrow> block \<Rightarrow> image" where
  "sector_write img sec n d = (\<lambda>k o'. if sec \<le> k \<and> k < sec + n div 512 \<and> o' < 512 then d (512 * (k - sec) + o') else img k o')"

definition blk_used :: "vring \<Rightarrow> nat \<Rightarrow> nat \<Rightarrow> uint \<Rightarrow> vring" where
  "blk_used q i st len = q\<lparr>
     info_status := (info_status q)(st := 0),
     used_ring := (used_ring q)(unat (used_dev_idx q) mod NUM := \<lparr>u_id = of_nat i, u_len = len\<rparr>),
     used_dev_idx := used_dev_idx q + 1\<rparr>"

definition blk_chain :: "vring \<Rightarrow> nat \<Rightarrow> nat \<Rightarrow> nat \<Rightarrow> nat \<Rightarrow> bool \<Rightarrow> bool" where
  "blk_chain q i r b st wr \<longleftrightarrow> i < NUM \<and> avail_idx q = used_dev_idx q + 1
     \<and> unat (avail_ring q (unat (used_dev_idx q) mod NUM)) = i
     \<and> d_addr (desc q i) = DReq r \<and> d_flags (desc q i) = VRING_DESC_F_NEXT
     \<and> (let i1 = unat (d_next (desc q i)); i2 = unat (d_next (desc q i1)) in
        d_addr (desc q i1) = DData b \<and> d_len (desc q i1) = of_nat BSIZE
        \<and> d_flags (desc q i1) = (if wr then 0 else VRING_DESC_F_WRITE) OR VRING_DESC_F_NEXT
        \<and> d_addr (desc q i2) = DStatus st \<and> d_len (desc q i2) = 1 \<and> d_flags (desc q i2) = VRING_DESC_F_WRITE)
     \<and> r_type (ops q r) = (if wr then VIRTIO_BLK_T_OUT else VIRTIO_BLK_T_IN)"

definition blk_device :: "(vring \<Rightarrow> (nat \<Rightarrow> block) \<Rightarrow> image \<Rightarrow> vring \<times> (nat \<Rightarrow> block) \<times> image) \<Rightarrow> bool" where
  "blk_device dev \<longleftrightarrow> (\<forall>q d img i r b st wr. blk_chain q i r b st wr \<longrightarrow>
     (\<exists>len. dev q d img = (blk_used q i st len,
        if wr then d else d(b := sector_read img (unat (r_sector (ops q r))) BSIZE (d b)),
        if wr then sector_write img (unat (r_sector (ops q r))) BSIZE (d b) else img)))"

section \<open>A transfer\<close>

text \<open>Between two transfers all descriptors are free and driver and device agree on the rings.\<close>

definition vd_quiet :: "'z vdisk_scheme \<Rightarrow> bool" where
  "vd_quiet s \<longleftrightarrow> used_dev_idx (vq s) = avail_idx (vq s) \<and> used_idx s = avail_idx (vq s) \<and> (\<forall>i < NUM. vfree s i)"

lemma upt_NUM: "[0..<NUM] = [0, 1, 2, 3, 4, 5, 6, 7]"
  by (simp add: NUM_def upt_rec)

lemma alloc3_run:
  assumes "\<forall>i < NUM. vfree s i"
  shows "alloc3_desc s = Ret (Some [0, 1, 2]) (s\<lparr>vfree := (vfree s)(0 := False, 1 := False, 2 := False)\<rparr>)"
proof -
  have "vfree s 0" "vfree s 1" "vfree s 2"
    using assms by (simp_all add: NUM_def)
  then show ?thesis
    by (simp add: alloc3_desc_def numeral_3_eq_3 alloc_desc_def upt_NUM)
qed

text \<open>Freeing the chain of the three descriptors of a request.\<close>

lemma calm_wakeup:
  assumes "calm s" "\<And>p. L \<noteq> LProc p"
  shows "wakeup (Some ch) (acquired L s) = Ret () (acquired L (s\<lparr>PCBs := woken ch s\<rparr>))"
  using assms by (subst wakeup_run) (auto simp: woken_def)

definition drop_desc :: "nat \<Rightarrow> 'z vdisk_scheme \<Rightarrow> 'z vdisk_scheme" where
  "drop_desc i s = s\<lparr>vq := (vq s)\<lparr>desc := (desc (vq s))(i := zero_desc)\<rparr>, vfree := (vfree s)(i := True),
     PCBs := woken ChDiskFree s\<rparr>"

lemma cleared_desc: "d\<lparr>d_addr := DNull, d_len := 0, d_flags := 0, d_next := 0\<rparr> = zero_desc"
  by (cases d) (simp add: zero_desc_def)

lemma free_desc_run:
  assumes "calm s" "i < NUM" "\<not> vfree s i"
  shows "free_desc (int i) (acquired LVdisk s) = Ret () (acquired LVdisk (drop_desc i s))"
  using assms by (simp add: free_desc_def set_desc_def calm_wakeup woken_def drop_desc_def cleared_desc)

lemma drop_desc_simps [simp]:
  "calm (drop_desc i s) = calm s" "vfree (drop_desc i s) = (vfree s)(i := True)"
  "desc (vq (drop_desc i s)) = (desc (vq s))(i := zero_desc)"
  by (simp_all add: drop_desc_def)

lemma free_chain_run:
  assumes "calm s" "\<not> vfree s 0" "\<not> vfree s 1" "\<not> vfree s 2"
    and "d_flags (desc (vq s) 0) AND VRING_DESC_F_NEXT \<noteq> 0" "d_next (desc (vq s) 0) = 1"
    and "d_flags (desc (vq s) 1) AND VRING_DESC_F_NEXT \<noteq> 0" "d_next (desc (vq s) 1) = 2"
    and "d_flags (desc (vq s) 2) AND VRING_DESC_F_NEXT = 0"
  shows "free_chain 0 (acquired LVdisk s) = Ret () (acquired LVdisk (drop_desc 2 (drop_desc 1 (drop_desc 0 s))))"
proof -
  have "free_chain_loop (Suc n) (int i) (acquired LVdisk t) = (if d_flags (desc (vq t) i) AND VRING_DESC_F_NEXT \<noteq> 0
      then free_chain_loop n (int (unat (d_next (desc (vq t) i)))) (acquired LVdisk (drop_desc i t))
      else Ret () (acquired LVdisk (drop_desc i t)))"
    if "calm t" "i < NUM" "\<not> vfree t i" for n i and t :: "'a vdisk_scheme"
    using that by (simp add: free_desc_run)
  note step = this
  have fuel: "NUM + 1 = Suc (Suc (Suc 6))"
    by (simp add: NUM_def)
  show ?thesis
    unfolding free_chain_def fuel
    using step [of s 0 "Suc (Suc 6)"] step [of "drop_desc 0 s" 1 "Suc 6"]
      step [of "drop_desc 1 (drop_desc 0 s)" 2 6] assms
    by (simp del: free_chain_loop.simps add: NUM_def)
qed

text \<open>The rings and tables after a request for the descriptors 0, 1 and 2 has been made.\<close>

definition requested :: "nat \<Rightarrow> bool \<Rightarrow> uint64 \<Rightarrow> vring \<Rightarrow> vring" where
  "requested b wr sector q = q\<lparr>
     ops := (ops q)(0 := \<lparr>r_type = (if wr then VIRTIO_BLK_T_OUT else VIRTIO_BLK_T_IN), r_reserved = 0, r_sector = sector\<rparr>),
     info_status := (info_status q)(0 := 0xff),
     desc := (desc q)(
       0 := \<lparr>d_addr = DReq 0, d_len = 16, d_flags = VRING_DESC_F_NEXT, d_next = 1\<rparr>,
       1 := \<lparr>d_addr = DData b, d_len = of_nat BSIZE,
             d_flags = (if wr then 0 else VRING_DESC_F_WRITE) OR VRING_DESC_F_NEXT, d_next = 2\<rparr>,
       2 := \<lparr>d_addr = DStatus 0, d_len = 1, d_flags = VRING_DESC_F_WRITE, d_next = 0\<rparr>),
     avail_ring := (avail_ring q)(unat (avail_idx q) mod NUM := 0),
     avail_idx := avail_idx q + 1\<rparr>"

definition submitted :: "nat \<Rightarrow> bool \<Rightarrow> uint64 \<Rightarrow> 'z vdisk_scheme \<Rightarrow> 'z vdisk_scheme" where
  "submitted b wr sector s = s\<lparr>
     bufs := (bufs s)(b := (bufs s b)\<lparr>b_disk := 1\<rparr>),
     info_b := (info_b s)(0 := Some b),
     vq := requested b wr sector (vq s),
     mmio_log := mmio_log s @ [(VIRTIO_MMIO_QUEUE_NOTIFY, 0)]\<rparr>"

lemma disk_request_run:
  "disk_request b wr sector 0 1 2 (acquired L s) = Ret () (acquired L (submitted b wr sector s))"
  by (simp add: disk_request_def writeR_def set_desc_def set_buf_def submitted_def requested_def)

lemma requested_chain:
  assumes "used_dev_idx q = avail_idx q"
  shows "blk_chain (requested b wr sector q) 0 0 b 0 wr" "r_sector (ops (requested b wr sector q) 0) = sector"
  using assms by (simp_all add: blk_chain_def requested_def NUM_def)

text \<open>What the process finds when it wakes up: the device is done and the interrupt has been served.\<close>

definition served :: "nat \<Rightarrow> (nat \<Rightarrow> block) \<Rightarrow> image \<Rightarrow> vring \<Rightarrow> (nat \<times> uint) list \<Rightarrow> (nat \<Rightarrow> PCB) \<Rightarrow> 'z vdisk_scheme \<Rightarrow> 'z vdisk_scheme" where
  "served b d img q l P s = s\<lparr>
     vq := q,
     disk_image := img,
     mmio_log := l,
     bufs := (\<lambda>i. if i = b then (bufs s i)\<lparr>b_data := d i, b_disk := 0\<rparr> else (bufs s i)\<lparr>b_data := d i\<rparr>),
     PCBs := P,
     used_idx := used_idx s + 1\<rparr>"

lemma intr_run:
  fixes s :: "'z vdisk_scheme"
  assumes "calm s" "device s (vq s) (\<lambda>i. b_data (bufs s i)) (disk_image s) = (q, d, img)"
    and "used_dev_idx q = used_idx s + 1" "u_id (used_ring q (unat (used_idx s) mod NUM)) = 0"
    and "info_status q 0 = 0" "info_b s 0 = Some b"
  shows "\<exists>l. andthen device_turn virtio_disk_intr s = Ret () (served b d img q l (woken (ChBuf b) s) s)"
proof -
  let ?t = "s\<lparr>vq := q, bufs := (\<lambda>i. (bufs s i)\<lparr>b_data := d i\<rparr>), disk_image := img,
    mmio_log := mmio_log s @ [(VIRTIO_MMIO_INTERRUPT_ACK, mmio_read s (mmio_log s) VIRTIO_MMIO_INTERRUPT_STATUS AND 3)]\<rparr>"
  have n: "unat (used_dev_idx q - used_idx s) = 1"
    using assms(3) by simp
  have "virtio_disk_intr_one (acquired LVdisk ?t) = Ret () (acquired LVdisk
      (served b d img q (mmio_log ?t) (woken (ChBuf b) s) s))"
    using assms(1,4,5,6)
    by (simp add: virtio_disk_intr_one_def NUM_def set_buf_def calm_wakeup served_def woken_def fun_upd_def if_distrib cong: if_cong)
  then have "andthen device_turn virtio_disk_intr s = Ret () (served b d img q (mmio_log ?t) (woken (ChBuf b) s) s)"
    using assms(1,2) n
    by (simp add: device_turn_def virtio_disk_intr_def readR_def writeR_def served_def)
  then show ?thesis ..
qed

lemma disk_wait_run:
  fixes s :: "'z vdisk_scheme"
  assumes s: "calm s" "running p s" "p < NPROC" "noff (mycpu s) = 0" "blk_device (device s)"
    and quiet: "used_dev_idx (vq s) = avail_idx (vq s)" "used_idx s = avail_idx (vq s)"
  shows "\<exists>len l P. disk_wait b (acquired LVdisk (submitted b wr sector s)) = Ret () (acquired LVdisk
      (served b
        (if wr then (\<lambda>i. b_data (bufs s i)) else (\<lambda>i. b_data (bufs s i))(b := sector_read (disk_image s) (unat sector) BSIZE (b_data (bufs s b))))
        (if wr then sector_write (disk_image s) (unat sector) BSIZE (b_data (bufs s b)) else disk_image s)
        (blk_used (requested b wr sector (vq s)) 0 0 len) l P (submitted b wr sector s)))
    \<and> (\<forall>i. same_pcb (PCBs s i) (P i))"
proof -
  define u where "u = submitted b wr sector s"
  define d where "d = (if wr then (\<lambda>i. b_data (bufs s i)) else (\<lambda>i. b_data (bufs s i))(b := sector_read (disk_image s) (unat sector) BSIZE (b_data (bufs s b))))"
  define img where "img = (if wr then sector_write (disk_image s) (unat sector) BSIZE (b_data (bufs s b)) else disk_image s)"
  define a where "a = onproc None (u\<lparr>PCBs := (PCBs u)(p := (PCBs u p)\<lparr>p_chan := Some (ChBuf b), p_state := SLEEPING\<rparr>)\<rparr>)"
  have u: "calm u" "running p u" "noff (mycpu u) = 0" "device u = device s" "vq u = requested b wr sector (vq s)"
    "info_b u 0 = Some b" "used_idx u = used_idx s" "disk_image u = disk_image s" "PCBs u = PCBs s"
    "(\<lambda>i. b_data (bufs u i)) = (\<lambda>i. b_data (bufs s i))" "b_disk (bufs u b) = 1"
    using s by (auto simp: u_def submitted_def fun_eq_iff)
  obtain len where dev: "device s (vq u) (\<lambda>i. b_data (bufs s i)) (disk_image s) = (blk_used (vq u) 0 0 len, d, img)"
    using s(5) requested_chain [OF quiet(1), of b wr sector] unfolding blk_device_def u(5) d_def img_def
    by metis
  have a: "calm a" "c_proc (mycpu a) = None" "device a = device s" "vq a = vq u" "info_b a 0 = Some b"
    "used_idx a = used_idx s" "disk_image a = disk_image s" "noff (mycpu a) = 0"
    "(\<lambda>i. b_data (bufs a i)) = (\<lambda>i. b_data (bufs s i))"
    using u by (simp_all add: a_def)
  obtain l where l: "andthen device_turn virtio_disk_intr a = Ret ()
      (served b d img (blk_used (vq u) 0 0 len) l (woken (ChBuf b) a) a)"
    using intr_run [OF a(1), of "blk_used (vq u) 0 0 len" d img b] a dev quiet
    by (auto simp: blk_used_def u(5) requested_def)
  let ?v = "served b d img (blk_used (vq u) 0 0 len) l (woken (ChBuf b) a) a"
  have w: "p_state (PCBs ?v p) = RUNNABLE"
    using a(2) s(3) by (simp add: served_def woken_def wake_all_def a_def awake_def)
  have st: "sleep_through (andthen device_turn virtio_disk_intr) (ChBuf b) LVdisk (acquired LVdisk u)
      = Ret () (acquired LVdisk (onproc (Some p) (?v\<lparr>PCBs := (PCBs ?v)(p := (PCBs ?v p)\<lparr>p_state := RUNNING, p_chan := None\<rparr>)\<rparr>)))"
  proof (rule sleep_through_run [OF u(1-3)])
    show "andthen device_turn virtio_disk_intr (onproc None
        (u\<lparr>PCBs := (PCBs u)(p := (PCBs u p)\<lparr>p_chan := Some (ChBuf b), p_state := SLEEPING\<rparr>)\<rparr>)) = Ret () ?v"
      unfolding a_def [symmetric] by (rule l)
    show "intr_get ?v = intr_get u"
      by (simp add: served_def a_def intr_get_def r_sstatus_def)
  qed (use w a in \<open>simp_all add: served_def\<close>)
  define P where "P = (woken (ChBuf b) a)(p := (woken (ChBuf b) a p)\<lparr>p_state := RUNNING, p_chan := None\<rparr>)"
  have fin: "onproc (Some p) (?v\<lparr>PCBs := (PCBs ?v)(p := (PCBs ?v p)\<lparr>p_state := RUNNING, p_chan := None\<rparr>)\<rparr>)
      = served b d img (blk_used (vq u) 0 0 len) l P u"
    using onproc_same [OF u(2)] by (auto simp: served_def a_def P_def intro!: vdisk.equality ext)
  have "disk_wait b (acquired LVdisk u) = Ret () (acquired LVdisk (served b d img (blk_used (vq u) 0 0 len) l P u))"
    using u(11) st unfolding fin disk_wait_def by (simp add: served_def)
  moreover have "same_pcb (PCBs s i) (P i)" for i
    using u(9) by (simp add: P_def woken_def a_def)
  ultimately show ?thesis
    unfolding u_def d_def img_def u(5) [unfolded u_def] by blast
qed

lemma vring_flags [simp]:
  "VRING_DESC_F_NEXT \<noteq> 0" "(x OR VRING_DESC_F_NEXT) AND VRING_DESC_F_NEXT \<noteq> 0"
  "VRING_DESC_F_WRITE AND VRING_DESC_F_NEXT = 0"
proof -
  have "(x OR 1) AND 1 = (1 :: ushort)"
    by (simp add: bit_eq_iff bit_simps)
  then show "(x OR VRING_DESC_F_NEXT) AND VRING_DESC_F_NEXT \<noteq> 0"
    by (simp add: VRING_DESC_F_NEXT_def)
qed (simp_all add: VRING_DESC_F_NEXT_def VRING_DESC_F_WRITE_def)

text \<open>The sector of a block, in the 32-bit arithmetic of the driver.\<close>

definition sector_of :: "uint \<Rightarrow> nat" where
  "sector_of bno = unat (bno * 2)"

lemma virtio_disk_rw_run:
  fixes s :: "'z vdisk_scheme" and b :: nat
  assumes s: "calm s" "running p s" "p < NPROC" "noff (mycpu s) = 0" "blk_device (device s)" "vd_quiet s"
  defines "sec \<equiv> sector_of (b_blockno (bufs s b))"
  shows "\<exists>t. virtio_disk_rw b wr s = Ret () t \<and> iostep s t \<and> vd_quiet t \<and> sleeplocks t = sleeplocks s
    \<and> bufs t = (bufs s)(b := (bufs s b)\<lparr>b_disk := 0, b_data :=
         (if wr then b_data (bufs s b) else sector_read (disk_image s) sec BSIZE (b_data (bufs s b)))\<rparr>)
    \<and> disk_image t = (if wr then sector_write (disk_image s) sec BSIZE (b_data (bufs s b)) else disk_image s)"
proof -
  define sector :: uint64 where "sector = ucast (b_blockno (bufs s b) * of_nat (BSIZE div 512))"
  have sec: "unat sector = sec"
    by (simp add: sector_def sec_def sector_of_def BSIZE_def)
  define s1 where "s1 = s\<lparr>vfree := (vfree s)(0 := False, 1 := False, 2 := False)\<rparr>"
  have s1: "calm s1" "running p s1" "noff (mycpu s1) = 0" "blk_device (device s1)"
    "used_dev_idx (vq s1) = avail_idx (vq s1)" "used_idx s1 = avail_idx (vq s1)"
    using s by (simp_all add: s1_def vd_quiet_def)
  obtain len l P where w: "disk_wait b (acquired LVdisk (submitted b wr sector s1)) = Ret () (acquired LVdisk
      (served b
        (if wr then (\<lambda>i. b_data (bufs s1 i)) else (\<lambda>i. b_data (bufs s1 i))(b := sector_read (disk_image s1) (unat sector) BSIZE (b_data (bufs s1 b))))
        (if wr then sector_write (disk_image s1) (unat sector) BSIZE (b_data (bufs s1 b)) else disk_image s1)
        (blk_used (requested b wr sector (vq s1)) 0 0 len) l P (submitted b wr sector s1)))"
    and P: "\<And>i. same_pcb (PCBs s1 i) (P i)"
    using disk_wait_run [OF s1(1,2) s(3) s1(3-6), of b wr sector] by blast
  define v where "v = served b
        (if wr then (\<lambda>i. b_data (bufs s1 i)) else (\<lambda>i. b_data (bufs s1 i))(b := sector_read (disk_image s1) (unat sector) BSIZE (b_data (bufs s1 b))))
        (if wr then sector_write (disk_image s1) (unat sector) BSIZE (b_data (bufs s1 b)) else disk_image s1)
        (blk_used (requested b wr sector (vq s1)) 0 0 len) l P (submitted b wr sector s1)"
  define x where "x = v\<lparr>info_b := (info_b v)(0 := None)\<rparr>"
  define t where "t = drop_desc 2 (drop_desc 1 (drop_desc 0 x))"
  have x: "calm x"
    using s1(1) by (simp add: x_def v_def served_def submitted_def)
  have "free_chain 0 (acquired LVdisk x) = Ret () (acquired LVdisk t)"
    unfolding t_def using x
    by (rule free_chain_run) (simp_all add: x_def v_def served_def submitted_def s1_def blk_used_def requested_def)
  moreover have "s\<lparr>vfree := (vfree s)(0 := False, Suc 0 := False, 2 := False)\<rparr> = s1"
    by (simp add: s1_def)
  ultimately have "virtio_disk_rw b wr s = Ret () t"
    using s(1,6) w x disk_request_run [of b wr sector LVdisk s1] unfolding v_def [symmetric]
    by (simp add: virtio_disk_rw_def alloc3_run vd_quiet_def sector_def [symmetric] x_def t_def)
  moreover have "iostep s x"
    unfolding x_def v_def served_def submitted_def s1_def
    by (intro iostep.intros) (use P in \<open>simp add: s1_def\<close>)
  then have "iostep s t"
    unfolding t_def drop_desc_def by (intro iostep.intros) (simp_all add: woken_def)
  moreover have "vd_quiet t"
    using s(6) by (simp add: vd_quiet_def t_def drop_desc_def x_def v_def served_def submitted_def s1_def blk_used_def requested_def)
  moreover have "sleeplocks t = sleeplocks s"
    by (simp add: t_def drop_desc_def x_def v_def served_def submitted_def s1_def)
  moreover have "bufs t = (bufs s)(b := (bufs s b)\<lparr>b_disk := 0, b_data :=
         (if wr then b_data (bufs s b) else sector_read (disk_image s) sec BSIZE (b_data (bufs s b)))\<rparr>)"
    unfolding sec [symmetric]
    by (auto simp: t_def drop_desc_def x_def v_def served_def submitted_def s1_def)
  moreover have "disk_image t = (if wr then sector_write (disk_image s) sec BSIZE (b_data (bufs s b)) else disk_image s)"
    by (simp add: sec [symmetric] t_def drop_desc_def x_def v_def served_def submitted_def s1_def)
  ultimately show ?thesis by blast
qed

section \<open>The block driver\<close>

text \<open>
  C21. With a device that follows the virtio specification, \<^verbatim>\<open>virtio_disk_rw\<close> called by a running
  process returns: a read leaves the 1024 bytes of the block's two sectors in the buffer, a write
  puts the buffer's bytes into these sectors; no other byte of the disk and no other buffer changes.
  The process has slept meanwhile and been woken by the interrupt; all spinlocks and descriptors are
  free again, and nothing else in the kernel has changed.
\<close>

theorem virtio_disk_rw_transfers:
  fixes s :: "'z vdisk_scheme"
  assumes "calm s" "c_proc (mycpu s) = Some p" "p < NPROC" "noff (mycpu s) = 0"
    and "blk_device (device s)" "vd_quiet s" "sec = sector_of (b_blockno (bufs s b))"
  shows "\<exists>t. virtio_disk_rw b wr s = Ret () t \<and> iostep s t \<and> calm t \<and> vd_quiet t
    \<and> (\<forall>i. i \<noteq> b \<longrightarrow> bufs t i = bufs s i)
    \<and> b_disk (bufs t b) = 0 \<and> b_blockno (bufs t b) = b_blockno (bufs s b)
    \<and> (if wr then b_data (bufs t b) = b_data (bufs s b)
         \<and> (\<forall>k o'. disk_image t k o' = (if sec \<le> k \<and> k < sec + 2 \<and> o' < 512
               then b_data (bufs s b) (512 * (k - sec) + o') else disk_image s k o'))
       else disk_image t = disk_image s
         \<and> (\<forall>i < BSIZE. b_data (bufs t b) i = disk_image s (sec + i div 512) (i mod 512)))"
proof -
  obtain t where t: "virtio_disk_rw b wr s = Ret () t" "iostep s t" "vd_quiet t"
    "bufs t = (bufs s)(b := (bufs s b)\<lparr>b_disk := 0, b_data :=
         (if wr then b_data (bufs s b) else sector_read (disk_image s) sec BSIZE (b_data (bufs s b)))\<rparr>)"
    "disk_image t = (if wr then sector_write (disk_image s) sec BSIZE (b_data (bufs s b)) else disk_image s)"
    using virtio_disk_rw_run [OF assms(1-6), of b wr] unfolding assms(7) by blast
  have "calm t"
    using iostep_keeps(16) [OF t(2)] assms(1) by simp
  with t show ?thesis
    by (cases wr) (auto simp: sector_read_def sector_write_def BSIZE_def)
qed

text \<open>A device that does what the specification says, and a state to run the driver in.\<close>

definition ideal_device :: "vring \<Rightarrow> (nat \<Rightarrow> block) \<Rightarrow> image \<Rightarrow> vring \<times> (nat \<Rightarrow> block) \<times> image" where
  "ideal_device q d img =
     (let i = unat (avail_ring q (unat (used_dev_idx q) mod NUM));
          i1 = unat (d_next (desc q i));
          i2 = unat (d_next (desc q i1));
          r = (case d_addr (desc q i) of DReq r \<Rightarrow> r | _ \<Rightarrow> 0);
          b = (case d_addr (desc q i1) of DData b \<Rightarrow> b | _ \<Rightarrow> 0);
          st = (case d_addr (desc q i2) of DStatus st \<Rightarrow> st | _ \<Rightarrow> 0);
          wr = (r_type (ops q r) = VIRTIO_BLK_T_OUT);
          sec = unat (r_sector (ops q r))
      in (blk_used q i st 0, if wr then d else d(b := sector_read img sec BSIZE (d b)),
          if wr then sector_write img sec BSIZE (d b) else img))"

lemma ideal_device_ok [simp]: "blk_device ideal_device"
  unfolding blk_device_def
proof (intro allI impI exI)
  fix q d img i r b st wr
  assume "blk_chain q i r b st wr"
  then show "ideal_device q d img = (blk_used q i st 0,
      if wr then d else d(b := sector_read img (unat (r_sector (ops q r))) BSIZE (d b)),
      if wr then sector_write img (unat (r_sector (ops q r))) BSIZE (d b) else img)"
    by (auto simp: blk_chain_def ideal_device_def Let_def VIRTIO_BLK_T_IN_def VIRTIO_BLK_T_OUT_def)
qed

definition zero_buf :: buf where
  "zero_buf = \<lparr>b_valid = 0, b_disk = 0, b_dev = 0, b_blockno = 0, b_refcnt = 0, b_prev = 0, b_next = 0,
     b_data = (\<lambda>_. 0), b_pad = (\<lambda>_. 0)\<rparr>"

definition zero_vring :: vring where
  "zero_vring = \<lparr>desc = (\<lambda>_. zero_desc), avail_idx = 0, avail_ring = (\<lambda>_. 0), used_dev_idx = 0,
     used_ring = (\<lambda>_. \<lparr>u_id = 0, u_len = 0\<rparr>), ops = (\<lambda>_. \<lparr>r_type = 0, r_reserved = 0, r_sector = 0\<rparr>),
     info_status = (\<lambda>_. 0)\<rparr>"

definition some_disk :: "(nat \<Rightarrow> buf) \<Rightarrow> image \<Rightarrow> vdisk" where
  "some_disk bs img = slk.extend (onproc (Some 1) (some_slk (\<lambda>_. zero_pcb\<lparr>p_state := RUNNING\<rparr>)))
     \<lparr>bufs = bs, vq = zero_vring, desc_pa = 0, avail_pa = 0, used_pa = 0, vfree = (\<lambda>_. True), used_idx = 0,
       info_b = (\<lambda>_. None), mmio_log = [], mmio_read = (\<lambda>_ _. 0), disk_image = img, device = ideal_device\<rparr>"

lemma some_disk_ok [simp]:
  "calm (some_disk bs img)" "c_proc (mycpu (some_disk bs img)) = Some 1" "noff (mycpu (some_disk bs img)) = 0"
  "device (some_disk bs img) = ideal_device" "vd_quiet (some_disk bs img)" "bufs (some_disk bs img) = bs"
  "disk_image (some_disk bs img) = img"
  by (simp_all add: some_disk_def some_slk_def some_procs_def procs.extend_def slk.extend_def onproc_def calm_def
    hart_ok_def idle_def machine_defs intr_get_def SSTATUS_SIE_def vd_quiet_def zero_vring_def)

theorem virtio_disk_rw_transfers_witness:
  "\<exists>t. virtio_disk_rw 4 False (some_disk (\<lambda>_. zero_buf\<lparr>b_blockno := 3\<rparr>) (\<lambda>k _. of_nat k)) = Ret () t
    \<and> b_data (bufs t 4) 0 = 6 \<and> b_data (bufs t 4) 700 = 7 \<and> calm t"
proof -
  let ?s = "some_disk (\<lambda>_. zero_buf\<lparr>b_blockno := 3\<rparr>) (\<lambda>k _. of_nat k)"
  obtain t where "virtio_disk_rw 4 False ?s = Ret () t" "calm t"
    "\<forall>i < BSIZE. b_data (bufs t 4) i = of_nat (6 + i div 512)"
    using virtio_disk_rw_transfers [of ?s 1 6 4 False] by (auto simp: NPROC_def sector_of_def)
  then show ?thesis
    by (auto simp: BSIZE_def)
qed

end
