(* ===== verification/Ring.thy ===== *)
theory Ring
  imports Memory
begin

text \<open>
  Circular doubly-linked lists. The kernel uses them twice: \<^verbatim>\<open>kernel/lib/list.c\<close> links nodes in
  raw memory, and the buffer cache links its buffers. The shape predicate and the lemmas on
  unlinking and pushing are shared through the locale \<open>linked_nodes\<close>; here it is
  interpreted for nodes in memory.
\<close>

section \<open>Rings\<close>

text \<open>\<open>links nx pv a xs b\<close>: following \<open>nx\<close> from \<open>a\<close> leads through \<open>xs\<close> to \<open>b\<close>, and \<open>pv\<close> leads back.\<close>

primrec links :: "('n \<Rightarrow> 'n) \<Rightarrow> ('n \<Rightarrow> 'n) \<Rightarrow> 'n \<Rightarrow> 'n list \<Rightarrow> 'n \<Rightarrow> bool" where
  "links nx pv a [] b \<longleftrightarrow> nx a = b \<and> pv b = a"
| "links nx pv a (x # xs) b \<longleftrightarrow> nx a = x \<and> pv x = a \<and> links nx pv x xs b"

definition ring :: "('n \<Rightarrow> 'n) \<Rightarrow> ('n \<Rightarrow> 'n) \<Rightarrow> 'n \<Rightarrow> 'n list \<Rightarrow> bool" where
  "ring nx pv h xs \<longleftrightarrow> distinct (h # xs) \<and> links nx pv h xs h"

lemma links_append [simp]:
  "links nx pv a (xs @ y # ys) b \<longleftrightarrow> links nx pv a xs y \<and> links nx pv y ys b"
  by (induction xs arbitrary: a) auto

lemma links_cong:
  assumes "\<And>x. x \<in> set (a # xs) \<Longrightarrow> nx' x = nx x" "\<And>x. x \<in> set (xs @ [b]) \<Longrightarrow> pv' x = pv x"
  shows "links nx' pv' a xs b \<longleftrightarrow> links nx pv a xs b"
  using assms by (induction xs arbitrary: a) auto

lemma links_first: "links nx pv a xs b \<Longrightarrow> nx a = hd (xs @ [b])"
  by (cases xs) auto

lemma links_last: "links nx pv a xs b \<Longrightarrow> pv b = last (a # xs)"
  by (induction xs arbitrary: a) auto

lemma ring_empty_iff: "ring nx pv h xs \<Longrightarrow> nx h = h \<longleftrightarrow> xs = []"
  by (cases xs) (auto simp: ring_def)

lemma ring_cong:
  assumes "\<And>x. x \<in> set (h # xs) \<Longrightarrow> nx' x = nx x" "\<And>x. x \<in> set (h # xs) \<Longrightarrow> pv' x = pv x"
  shows "ring nx' pv' h xs \<longleftrightarrow> ring nx pv h xs"
  unfolding ring_def by (subst links_cong [where nx = nx and pv = pv]) (use assms in auto)

text \<open>Changing the link out of the last node and the link back into the first.\<close>

lemma links_retarget:
  assumes "links nx pv a xs b" "distinct (a # xs)" "c \<notin> set xs"
  shows "links (nx(last (a # xs) := c)) (pv(c := last (a # xs))) a xs c"
  using assms
proof (induction xs arbitrary: a)
  case (Cons x xs)
  have "x \<noteq> c" "a \<noteq> last (x # xs)" "last (a # x # xs) = last (x # xs)"
    using Cons.prems by auto
  with Cons show ?case by auto
qed auto

text \<open>Unlinking the node \<open>e\<close>: \<^verbatim>\<open>e->prev->next = e->next; e->next->prev = e->prev\<close>.\<close>

lemma ring_unlink:
  assumes "ring nx pv h (xs @ e # ys)"
  shows "ring (nx(pv e := nx e)) (pv(nx e := pv e)) h (xs @ ys)"
proof -
  have d: "distinct (h # xs @ e # ys)" and l: "links nx pv h xs e" "links nx pv e ys h"
    using assms by (auto simp: ring_def)
  have pe: "pv e = last (h # xs)"
    using l(1) by (rule links_last)
  have ne: "nx e = hd (ys @ [h])"
    using l(2) by (rule links_first)
  have "links (nx(pv e := nx e)) (pv(nx e := pv e)) h (xs @ ys) h"
  proof (cases ys)
    case Nil
    with links_retarget [OF l(1), of h] d pe ne show ?thesis by simp
  next
    case (Cons y zs)
    then have ny: "nx e = y" "links nx pv y zs h"
      using l(2) by auto
    have "links (nx(pv e := y)) (pv(y := pv e)) h xs y"
      using links_retarget [OF l(1), of y] d pe Cons by simp
    moreover have "links (nx(pv e := y)) (pv(y := pv e)) y zs h \<longleftrightarrow> links nx pv y zs h"
    proof (rule links_cong)
      have "pv e \<in> set (h # xs)"
        unfolding pe by simp
      then show "(nx(pv e := y)) x = nx x" if "x \<in> set (y # zs)" for x
        using that d Cons by auto
      show "(pv(y := pv e)) x = pv x" if "x \<in> set (zs @ [h])" for x
        using that d Cons by auto
    qed
    ultimately show ?thesis
      using ny Cons by simp
  qed
  with d show ?thesis by (auto simp: ring_def)
qed

text \<open>Pushing a node \<open>e\<close> outside the ring behind the head.\<close>

lemma ring_push:
  assumes "ring nx pv h xs" "e \<notin> set (h # xs)"
  shows "ring (nx(e := nx h, h := e)) (pv(e := h, nx h := e)) h (e # xs)"
proof -
  have d: "distinct (h # xs)" and l: "links nx pv h xs h"
    using assms(1) by (auto simp: ring_def)
  have "links (nx(e := nx h, h := e)) (pv(e := h, nx h := e)) e xs h"
  proof (cases xs)
    case Nil
    with l assms(2) show ?thesis by auto
  next
    case (Cons y ys)
    then have y: "nx h = y" "links nx pv y ys h"
      using l by auto
    have "links (nx(e := nx h, h := e)) (pv(e := h, nx h := e)) y ys h \<longleftrightarrow> links nx pv y ys h"
      by (rule links_cong) (use d assms(2) Cons y in auto)
    with y Cons assms(2) show ?thesis by auto
  qed
  with d assms(2) show ?thesis by (cases xs) (use l in \<open>auto simp: ring_def\<close>)
qed

section \<open>The interface of a store of linked nodes\<close>

text \<open>
  What the list operations rely on: two link fields per node, where writing a field of one
  valid node changes that field and no other. The lemmas give the shape after an unlinking
  in either order of the two writes, and after a push in the order of the two writers.
\<close>

locale linked_nodes =
  fixes node :: "'n \<Rightarrow> bool"
    and nx pv :: "'s \<Rightarrow> 'n \<Rightarrow> 'n"
    and set_nx set_pv :: "'n \<Rightarrow> 'n \<Rightarrow> 's \<Rightarrow> 's"
  assumes nx_set_nx: "node x \<Longrightarrow> node y \<Longrightarrow> nx (set_nx x v s) y = (if y = x then v else nx s y)"
    and pv_set_pv: "node x \<Longrightarrow> node y \<Longrightarrow> pv (set_pv x v s) y = (if y = x then v else pv s y)"
    and nx_set_pv: "node x \<Longrightarrow> node y \<Longrightarrow> nx (set_pv x v s) y = nx s y"
    and pv_set_nx: "node x \<Longrightarrow> node y \<Longrightarrow> pv (set_nx x v s) y = pv s y"
begin

lemmas links_laws = nx_set_nx pv_set_pv nx_set_pv pv_set_nx

lemma ring_members:
  assumes "ring (nx s) (pv s) h (xs @ e # ys)"
  shows "nx s e \<in> set (h # ys)" "pv s e \<in> set (h # xs)"
proof -
  have l: "links (nx s) (pv s) h xs e" "links (nx s) (pv s) e ys h"
    using assms by (auto simp: ring_def)
  show "nx s e \<in> set (h # ys)"
    using links_first [OF l(2)] by (cases ys) auto
  show "pv s e \<in> set (h # xs)"
    using links_last [OF l(1)] by (metis last_in_set list.distinct(1))
qed

lemma unlink_ring:
  assumes "ring (nx s) (pv s) h (xs @ e # ys)" "\<forall>x \<in> set (h # xs @ e # ys). node x"
  shows "ring (nx (set_pv (nx s e) (pv s e) (set_nx (pv s e) (nx s e) s)))
    (pv (set_pv (nx s e) (pv s e) (set_nx (pv s e) (nx s e) s))) h (xs @ ys)"
proof -
  have n: "node e" "node (nx s e)" "node (pv s e)"
    using ring_members [OF assms(1)] assms(2) by auto
  show ?thesis
    by (rule iffD2 [OF ring_cong ring_unlink [OF assms(1)]])
      (use assms(2) n in \<open>auto simp: links_laws\<close>)
qed

lemma unlink_ring_back:
  assumes "ring (nx s) (pv s) h (xs @ e # ys)" "\<forall>x \<in> set (h # xs @ e # ys). node x"
  shows "ring (nx (set_nx (pv s e) (nx s e) (set_pv (nx s e) (pv s e) s)))
    (pv (set_nx (pv s e) (nx s e) (set_pv (nx s e) (pv s e) s))) h (xs @ ys)"
proof -
  have n: "node e" "node (nx s e)" "node (pv s e)"
    using ring_members [OF assms(1)] assms(2) by auto
  show ?thesis
    by (rule iffD2 [OF ring_cong ring_unlink [OF assms(1)]])
      (use assms(2) n in \<open>auto simp: links_laws\<close>)
qed

lemma push_ring:
  assumes "ring (nx s) (pv s) h xs" "e \<notin> set (h # xs)" "\<forall>x \<in> set (h # e # xs). node x"
  shows "ring (nx (set_nx h e (set_pv (nx s h) e (set_pv e h (set_nx e (nx s h) s)))))
    (pv (set_nx h e (set_pv (nx s h) e (set_pv e h (set_nx e (nx s h) s))))) h (e # xs)"
proof -
  have "nx s h \<in> set (h # xs)"
    using assms(1) by (cases xs) (auto simp: ring_def)
  then have n: "node (nx s h)" "node e" "node h"
    using assms(3) by auto
  show ?thesis
    by (rule iffD2 [OF ring_cong ring_push [OF assms(1,2)]])
      (use assms(2,3) n in \<open>auto simp: links_laws\<close>)
qed

end

section \<open>Lists in memory (list.c)\<close>

text \<open>\<^verbatim>\<open>struct list\<close> (defs.h): \<^verbatim>\<open>next\<close> at offset 0, \<^verbatim>\<open>prev\<close> at offset 8.\<close>

definition lst_next :: "memory \<Rightarrow> uint64 \<Rightarrow> uint64" where
  "lst_next m e = load64 m e"

definition lst_prev :: "memory \<Rightarrow> uint64 \<Rightarrow> uint64" where
  "lst_prev m e = load64 m (e + 8)"

definition set_lst_next :: "uint64 \<Rightarrow> uint64 \<Rightarrow> memory \<Rightarrow> memory" where
  "set_lst_next e v m = store64 m e v"

definition set_lst_prev :: "uint64 \<Rightarrow> uint64 \<Rightarrow> memory \<Rightarrow> memory" where
  "set_lst_prev e v m = store64 m (e + 8) v"

definition lst_init :: "uint64 \<Rightarrow> memory \<Rightarrow> memory" where
  "lst_init lst m = set_lst_prev lst lst (set_lst_next lst lst m)"

definition lst_empty :: "uint64 \<Rightarrow> memory \<Rightarrow> bool" where
  "lst_empty lst m \<longleftrightarrow> lst_next m lst = lst"

definition lst_remove :: "uint64 \<Rightarrow> memory \<Rightarrow> memory" where
  "lst_remove e m =
     (let m = set_lst_next (lst_prev m e) (lst_next m e) m
      in set_lst_prev (lst_next m e) (lst_prev m e) m)"

definition lst_pop :: "uint64 \<Rightarrow> (memory, uint64) oper" where
  "lst_pop lst =
     bind (gets (lst_empty lst)) (\<lambda>b.
      if b then panic ''lst_pop''
      else bind (gets (\<lambda>m. lst_next m lst)) (\<lambda>p.
      andthen (modify (lst_remove p)) (ret p)))"

definition lst_push :: "uint64 \<Rightarrow> uint64 \<Rightarrow> memory \<Rightarrow> memory" where
  "lst_push lst p m =
     (let e = p;
          m = set_lst_next e (lst_next m lst) m;
          m = set_lst_prev e lst m;
          m = set_lst_prev (lst_next m lst) p m
      in set_lst_next lst e m)"

text \<open>List nodes are 16-byte aligned, so distinct nodes do not overlap.\<close>

definition lst_node :: "uint64 \<Rightarrow> bool" where
  "lst_node e \<longleftrightarrow> unat e mod 16 = 0"

lemma unat_plus_8: "lst_node e \<Longrightarrow> unat (e + 8) = unat e + 8"
proof -
  assume "lst_node e"
  then obtain k where k: "unat e = 16 * k"
    unfolding lst_node_def by (metis mod_0_imp_dvd dvdE)
  have "unat e < 2 ^ 64"
    using unsigned_less [of e] by simp
  then have "unat e + 8 < 2 ^ 64"
    using k by simp
  then show ?thesis
    by (simp add: unat_word_ariths)
qed

lemma lst_node_offsets:
  assumes "lst_node x" "lst_node y"
  shows "unat x mod 8 = 0" "unat (x + 8) mod 8 = 0" "x \<noteq> y + 8" "x + 8 = y + 8 \<longleftrightarrow> x = y"
proof -
  show "unat x mod 8 = 0"
    using assms(1) unfolding lst_node_def by presburger
  then show "unat (x + 8) mod 8 = 0"
    using unat_plus_8 [OF assms(1)] by simp
  show "x \<noteq> y + 8"
  proof
    assume "x = y + 8"
    then have "unat x = unat y + 8"
      using unat_plus_8 [OF assms(2)] by simp
    with assms show False
      unfolding lst_node_def by presburger
  qed
  show "x + 8 = y + 8 \<longleftrightarrow> x = y"
    by simp
qed

interpretation mem_list: linked_nodes lst_node lst_next lst_prev set_lst_next set_lst_prev
proof
  fix x y v and m :: memory
  assume n: "lst_node x" "lst_node y"
  note al = lst_node_offsets(1,2) [OF n] lst_node_offsets(1,2) [OF n(2,1)]
  note ne = lst_node_offsets(3,4) [OF n] lst_node_offsets(3,4) [OF n(2,1)]
  show "lst_next (set_lst_next x v m) y = (if y = x then v else lst_next m y)"
    unfolding lst_next_def set_lst_next_def
    by (cases "y = x") (simp_all only: load_store_same refl if_True if_False al load_store_other)
  show "lst_prev (set_lst_prev x v m) y = (if y = x then v else lst_prev m y)"
    unfolding lst_prev_def set_lst_prev_def
    by (cases "y = x")
      (simp_all only: load_store_same refl if_True if_False al ne(2,4) load_store_other)
  show "lst_next (set_lst_prev x v m) y = lst_next m y"
    unfolding lst_next_def set_lst_prev_def
    by (rule load_store_other [OF al(2,3) ne(3) [symmetric]])
  show "lst_prev (set_lst_next x v m) y = lst_prev m y"
    unfolding lst_prev_def set_lst_next_def
    by (rule load_store_other [OF al(1,4) ne(1)])
qed

text \<open>\<open>mlist m lst xs\<close>: in memory \<open>m\<close> the list with head \<open>lst\<close> holds the nodes \<open>xs\<close>, first to last.\<close>

definition mlist :: "memory \<Rightarrow> uint64 \<Rightarrow> uint64 list \<Rightarrow> bool" where
  "mlist m lst xs \<longleftrightarrow> ring (lst_next m) (lst_prev m) lst xs \<and> (\<forall>x \<in> set (lst # xs). lst_node x)"

lemma lst_init_spec: "lst_node lst \<Longrightarrow> mlist (lst_init lst m) lst []"
  by (simp add: mlist_def ring_def lst_init_def mem_list.links_laws)

lemma lst_empty_spec: "mlist m lst xs \<Longrightarrow> lst_empty lst m \<longleftrightarrow> xs = []"
  unfolding mlist_def lst_empty_def by (rule ring_empty_iff) (erule conjunct1)

lemma lst_remove_spec:
  assumes "mlist m lst (xs @ e # ys)"
  shows "mlist (lst_remove e m) lst (xs @ ys)"
proof -
  have r: "ring (lst_next m) (lst_prev m) lst (xs @ e # ys)"
    and n: "\<forall>x \<in> set (lst # xs @ e # ys). lst_node x"
    using assms by (simp_all add: mlist_def)
  have "e \<notin> set (lst # xs)"
    using r unfolding ring_def by auto
  with mem_list.ring_members(2) [OF r] n
  have "lst_node (lst_prev m e)" "lst_node e" "e \<noteq> lst_prev m e"
    by (auto simp only: set_append set_simps Un_iff insert_iff)
  then have "lst_remove e m = set_lst_prev (lst_next m e) (lst_prev m e)
      (set_lst_next (lst_prev m e) (lst_next m e) m)"
    unfolding lst_remove_def Let_def by (simp add: mem_list.links_laws)
  with mem_list.unlink_ring [OF r n]
  have "ring (lst_next (lst_remove e m)) (lst_prev (lst_remove e m)) lst (xs @ ys)"
    by (simp only:)
  with n show ?thesis
    by (simp add: mlist_def)
qed

lemma lst_push_spec:
  assumes "mlist m lst xs" "e \<notin> set (lst # xs)" "lst_node e"
  shows "mlist (lst_push lst e m) lst (e # xs)"
proof -
  have n: "\<forall>x \<in> set (lst # e # xs). lst_node x"
    using assms by (auto simp: mlist_def)
  then have "lst_push lst e m = set_lst_next lst e (set_lst_prev (lst_next m lst) e
      (set_lst_prev e lst (set_lst_next e (lst_next m lst) m)))"
    using assms(2) by (simp add: lst_push_def mem_list.links_laws Let_def)
  with mem_list.push_ring [of m lst xs e] n assms
  have "ring (lst_next (lst_push lst e m)) (lst_prev (lst_push lst e m)) lst (e # xs)"
    by (simp only: mlist_def simp_thms)
  with n show ?thesis
    by (simp add: mlist_def)
qed

lemma lst_pop_spec:
  assumes "mlist m lst (e # xs)"
  shows "lst_pop lst m = Ret e (lst_remove e m)" "mlist (lst_remove e m) lst xs"
proof -
  have "lst_next m lst = e"
    using assms by (simp add: mlist_def ring_def)
  then show "lst_pop lst m = Ret e (lst_remove e m)"
    using lst_empty_spec [OF assms] by (simp add: lst_pop_def)
  show "mlist (lst_remove e m) lst xs"
    using lst_remove_spec [of m lst "[]" e xs] assms by simp
qed

text \<open>A list depends on the 16 bytes of its head and of its nodes only, and the operations write nothing else.\<close>

lemma lst_node_within:
  assumes "lst_node e"
  shows "within e 8 a \<Longrightarrow> within e 16 a" "within (e + 8) 8 a \<Longrightarrow> within e 16 a"
proof -
  show "within e 8 a \<Longrightarrow> within e 16 a"
    by (simp add: within_def)
  have "unat e + 16 \<le> 2 ^ 64"
    using assms unfolding lst_node_def by (rule aligned_top) simp_all
  moreover have "unat (e + 8) = unat e + 8"
    using assms by (rule unat_plus_8)
  ultimately show "within (e + 8) 8 a \<Longrightarrow> within e 16 a"
    by (simp add: within_nat)
qed

lemma mlist_frame:
  assumes "mlist m lst xs" "\<And>x a. x \<in> set (lst # xs) \<Longrightarrow> within x 16 a \<Longrightarrow> m' a = m a"
  shows "mlist m' lst xs"
proof -
  have n: "lst_node x" if "x \<in> set (lst # xs)" for x
    using assms(1) that by (auto simp: mlist_def)
  have "lst_next m' x = lst_next m x" "lst_prev m' x = lst_prev m x" if "x \<in> set (lst # xs)" for x
    unfolding lst_next_def lst_prev_def
    by (rule load64_cong, rule assms(2) [OF that], erule lst_node_within [OF n [OF that]])+
  with assms(1) show ?thesis
    unfolding mlist_def by (subst ring_cong [where nx = "lst_next m" and pv = "lst_prev m"]) auto
qed

lemma set_link_other:
  assumes "lst_node e" "\<not> within e 16 a"
  shows "set_lst_next e v m a = m a" "set_lst_prev e v m a = m a"
  using assms lst_node_within [OF assms(1)]
  by (auto simp: set_lst_next_def set_lst_prev_def intro!: store64_other)

lemma lst_push_other:
  assumes "mlist m lst xs" "e \<notin> set (lst # xs)" "lst_node e"
    and "\<And>x. x \<in> set (lst # e # xs) \<Longrightarrow> \<not> within x 16 a"
  shows "lst_push lst e m a = m a"
proof -
  have n: "\<forall>x \<in> set (lst # e # xs). lst_node x"
    using assms by (auto simp: mlist_def)
  have f: "lst_next m lst \<in> set (lst # xs)"
    using assms(1) by (cases xs) (auto simp: mlist_def ring_def)
  have "lst_push lst e m = set_lst_next lst e (set_lst_prev (lst_next m lst) e
      (set_lst_prev e lst (set_lst_next e (lst_next m lst) m)))"
    using assms(2) n by (simp add: lst_push_def mem_list.links_laws Let_def)
  then show ?thesis
    using n f assms(4) by (auto simp: set_link_other)
qed

lemma lst_remove_other:
  assumes "mlist m lst (xs @ e # ys)" "\<And>x. x \<in> set (lst # xs @ e # ys) \<Longrightarrow> \<not> within x 16 a"
  shows "lst_remove e m a = m a"
proof -
  have r: "ring (lst_next m) (lst_prev m) lst (xs @ e # ys)"
    and n: "\<forall>x \<in> set (lst # xs @ e # ys). lst_node x"
    using assms by (simp_all add: mlist_def)
  note mem = mem_list.ring_members [OF r]
  have "e \<notin> set (lst # xs)"
    using r unfolding ring_def by auto
  then have "lst_next (set_lst_next (lst_prev m e) (lst_next m e) m) e = lst_next m e"
    using mem(2) n by (subst mem_list.nx_set_nx) auto
  then show ?thesis
    using mem n assms(2) by (auto simp: lst_remove_def Let_def set_link_other)
qed

text \<open>
  C20. The linked lists of list.c implement finite sequences: \<^verbatim>\<open>lst_init\<close> makes the empty list,
  \<^verbatim>\<open>lst_empty\<close> tells whether it is empty, \<^verbatim>\<open>lst_push\<close> puts a node in front, \<^verbatim>\<open>lst_pop\<close>
  takes the node in front off and panics exactly on the empty list, and \<^verbatim>\<open>lst_remove\<close> takes a
  node out of the middle. The nodes and the head are distinct, 16-byte aligned addresses.
\<close>

theorem list_c_implements_sequence:
  assumes "lst_node lst"
  shows "mlist (lst_init lst m) lst []
    \<and> (mlist m lst xs \<longrightarrow> (lst_empty lst m \<longleftrightarrow> xs = [])
       \<and> (lst_node e \<and> e \<notin> set (lst # xs) \<longrightarrow> mlist (lst_push lst e m) lst (e # xs))
       \<and> (case xs of [] \<Rightarrow> lst_pop lst m = Fault (Panic ''lst_pop'') m
          | y # ys \<Rightarrow> (\<exists>m'. lst_pop lst m = Ret y m' \<and> mlist m' lst ys))
       \<and> (\<forall>as y bs. xs = as @ y # bs \<longrightarrow> mlist (lst_remove y m) lst (as @ bs)))"
proof (intro conjI impI)
  show "mlist (lst_init lst m) lst []"
    using assms by (rule lst_init_spec)
  assume l: "mlist m lst xs"
  then show "lst_empty lst m \<longleftrightarrow> xs = []"
    by (rule lst_empty_spec)
  show "mlist (lst_push lst e m) lst (e # xs)" if "lst_node e \<and> e \<notin> set (lst # xs)"
    using l that by (intro lst_push_spec) auto
  show "case xs of [] \<Rightarrow> lst_pop lst m = Fault (Panic ''lst_pop'') m
      | y # ys \<Rightarrow> (\<exists>m'. lst_pop lst m = Ret y m' \<and> mlist m' lst ys)"
  proof (cases xs)
    case Nil
    then show ?thesis
      using lst_empty_spec [OF l] by (simp add: lst_pop_def)
  next
    case (Cons y ys)
    then show ?thesis
      using lst_pop_spec [of m lst y ys] l by simp
  qed
  show "\<forall>as y bs. xs = as @ y # bs \<longrightarrow> mlist (lst_remove y m) lst (as @ bs)"
    using l lst_remove_spec by blast
qed

theorem list_c_implements_sequence_witness:
  "mlist (lst_push 16 32 (lst_init 16 (\<lambda>_. 0))) 16 [32]
   \<and> mlist (lst_remove 32 (lst_push 16 32 (lst_init 16 (\<lambda>_. 0)))) 16 []
   \<and> (\<exists>m'. lst_pop 16 (lst_push 16 32 (lst_init 16 (\<lambda>_. 0))) = Ret 32 m' \<and> mlist m' 16 [])
   \<and> lst_pop 16 (lst_init 16 (\<lambda>_. 0)) = Fault (Panic ''lst_pop'') (lst_init 16 (\<lambda>_. 0))"
proof -
  have n: "lst_node 16" "lst_node 32"
    by (simp_all add: lst_node_def)
  define m0 where "m0 = lst_init 16 (\<lambda>_. 0)"
  define m1 where "m1 = lst_push 16 32 m0"
  note t = list_c_implements_sequence [OF n(1)]
  have e: "mlist m0 16 []"
    using t [of "\<lambda>_. 0" "[]" 32] unfolding m0_def by blast
  have "lst_pop 16 m0 = Fault (Panic ''lst_pop'') m0" and p: "mlist m1 16 [32]"
    using t [of m0 "[]" 32] e n(2) unfolding m1_def by simp_all
  moreover have "\<exists>m'. lst_pop 16 m1 = Ret 32 m' \<and> mlist m' 16 []"
    using t [of m1 "[32]" 48] p by simp
  moreover have "mlist (lst_remove 32 m1) 16 []"
    using t [of m1 "[32]" 48] p by fastforce
  ultimately show ?thesis
    unfolding m1_def m0_def by (intro conjI)
qed

end
