(* ===== verification/Bio.thy ===== *)
theory Bio
  imports Virtio Ring
begin

text \<open>
  The buffer cache (\<^verbatim>\<open>kernel/disk/bio.c\<close>): buffers on a circular list, looked up by device and
  block number, locked by a sleeplock while in use and recycled when their reference count is zero.
\<close>

section \<open>Operations\<close>

text \<open>\<^verbatim>\<open>&bcache.head\<close>, and the two link fields.\<close>

definition bhead :: nat where
  "bhead = NBUF"

definition b_nx :: "'z vdisk_scheme \<Rightarrow> nat \<Rightarrow> nat" where
  "b_nx s b = b_next (bufs s b)"

definition b_pv :: "'z vdisk_scheme \<Rightarrow> nat \<Rightarrow> nat" where
  "b_pv s b = b_prev (bufs s b)"

definition set_nx :: "nat \<Rightarrow> nat \<Rightarrow> 'z vdisk_scheme \<Rightarrow> 'z vdisk_scheme" where
  "set_nx b v = set_buf b (\<lambda>c. c\<lparr>b_next := v\<rparr>)"

definition set_pv :: "nat \<Rightarrow> nat \<Rightarrow> 'z vdisk_scheme \<Rightarrow> 'z vdisk_scheme" where
  "set_pv b v = set_buf b (\<lambda>c. c\<lparr>b_prev := v\<rparr>)"

text \<open>The four assignments that put a buffer behind the head, in \<^verbatim>\<open>binit\<close> and \<^verbatim>\<open>brelse\<close>.\<close>

definition bpush :: "nat \<Rightarrow> 'z vdisk_scheme \<Rightarrow> 'z vdisk_scheme" where
  "bpush b s =
     (let s = set_nx b (b_nx s bhead) s;
          s = set_pv b bhead s;
          s = set_pv (b_nx s bhead) b s
      in set_nx bhead b s)"

definition binit :: "('z vdisk_scheme, unit) oper" where
  "binit =
     andthen (modify (set_nx bhead bhead))
     (andthen (modify (set_pv bhead bhead))
     (andthen (modify (initlock LBcache ''bcache''))
     (forM [0..<NBUF] (\<lambda>i.
        andthen (modify (initsleeplock (SBuf i) ''buf'')) (modify (bpush i))))))"

text \<open>
  The two traversals of \<^verbatim>\<open>bget\<close>: the first buffer on the list that satisfies a condition. On a
  well-formed list of at most \<open>NBUF\<close> buffers \<open>NBUF + 1\<close> rounds are enough; on a list that does
  not come back to the head the loop does not end.
\<close>

primrec bfind :: "nat \<Rightarrow> (buf \<Rightarrow> bool) \<Rightarrow> nat \<Rightarrow> ('z vdisk_scheme, nat option) oper" where
  "bfind 0 P b = Fault Diverge"
| "bfind (Suc n) P b =
     (if b = bhead then ret None
      else bind (gets (\<lambda>s. bufs s b)) (\<lambda>c.
      if P c then ret (Some b) else bfind n P (b_next c)))"

definition bget :: "uint \<Rightarrow> uint \<Rightarrow> ('z vdisk_scheme, nat) oper" where
  "bget dev bnum =
     andthen (acquire LBcache)
     (bind (gets (\<lambda>s. b_nx s bhead)) (\<lambda>b0.
      bind (bfind (NBUF + 1) (\<lambda>c. b_dev c = dev \<and> b_blockno c = bnum) b0) (\<lambda>hit.
      case hit of
        Some b \<Rightarrow>
          andthen (modify (set_buf b (\<lambda>c. c\<lparr>b_refcnt := b_refcnt c + 1\<rparr>)))
          (andthen (release LBcache)
          (andthen (acquiresleep (SBuf b))
          (andthen (modify (set_buf b (\<lambda>c. c\<lparr>b_refcnt := b_refcnt c + 1\<rparr>)))
          (ret b))))
      | None \<Rightarrow>
          bind (gets (\<lambda>s. b_nx s bhead)) (\<lambda>b0.
          bind (bfind (NBUF + 1) (\<lambda>c. b_refcnt c = 0) b0) (\<lambda>free.
          case free of
            Some b \<Rightarrow>
              andthen (modify (set_buf b (\<lambda>c. c\<lparr>b_dev := dev, b_blockno := bnum, b_valid := 0, b_refcnt := 1\<rparr>)))
              (andthen (release LBcache)
              (andthen (acquiresleep (SBuf b))
              (ret b)))
          | None \<Rightarrow> panic ''bget'')))))"

definition brelse :: "nat \<Rightarrow> ('z vdisk_scheme, unit) oper" where
  "brelse b =
     bind (holdingsleep (SBuf b)) (\<lambda>h.
     if \<not> h then panic ''brelse''
     else
       andthen (releasesleep (SBuf b))
       (andthen (acquire LBcache)
       (andthen (modify (set_buf b (\<lambda>c. c\<lparr>b_refcnt := b_refcnt c - 1\<rparr>)))
       (bind (gets (\<lambda>s. b_refcnt (bufs s b))) (\<lambda>n.
        andthen (whenM (n = 0)
          (andthen (modify (\<lambda>s. set_pv (b_nx s b) (b_pv s b) s))
          (andthen (modify (\<lambda>s. set_nx (b_pv s b) (b_nx s b) s))
          (modify (bpush b)))))
        (release LBcache))))))"

definition bread :: "uint \<Rightarrow> uint \<Rightarrow> ('z vdisk_scheme, nat) oper" where
  "bread dev bnum =
     bind (bget dev bnum) (\<lambda>b.
     bind (gets (\<lambda>s. b_valid (bufs s b))) (\<lambda>v.
     andthen (whenM (v = 0)
       (andthen (virtio_disk_rw b False) (modify (set_buf b (\<lambda>c. c\<lparr>b_valid := 1\<rparr>)))))
     (ret b)))"

definition bwrite :: "nat \<Rightarrow> ('z vdisk_scheme, unit) oper" where
  "bwrite b =
     bind (holdingsleep (SBuf b)) (\<lambda>h.
     if \<not> h then panic ''bwrite'' else virtio_disk_rw b True)"

definition bpin :: "nat \<Rightarrow> ('z vdisk_scheme, unit) oper" where
  "bpin b = critical LBcache (modify (set_buf b (\<lambda>c. c\<lparr>b_refcnt := b_refcnt c + 1\<rparr>)))"

definition bunpin :: "nat \<Rightarrow> ('z vdisk_scheme, unit) oper" where
  "bunpin b = critical LBcache (modify (set_buf b (\<lambda>c. c\<lparr>b_refcnt := b_refcnt c - 1\<rparr>)))"

section \<open>The list of buffers\<close>

lemma set_buf_simps [simp]:
  "bufs (set_buf b f s) = (bufs s)(b := f (bufs s b))" "calm (set_buf b f s) = calm s"
  "mycpu (set_buf b f s) = mycpu s" "PCBs (set_buf b f s) = PCBs s" "sleeplocks (set_buf b f s) = sleeplocks s"
  "disk_image (set_buf b f s) = disk_image s" "vd_quiet (set_buf b f s) = vd_quiet s" "device (set_buf b f s) = device s"
  "set_buf b f (acquired L s) = acquired L (set_buf b f s)"
  by (simp_all add: set_buf_def vd_quiet_def)

lemma iostep_set_buf [intro]: "iostep s t \<Longrightarrow> iostep s (set_buf b f t)"
  by (simp add: set_buf_def io_bufs)

lemma iostep_set_slk [intro]: "iostep s t \<Longrightarrow> iostep s (set_slk (SBuf b) f t)"
  by (simp add: set_slk_def io_slk)

interpretation blist: linked_nodes "\<lambda>_. True" b_nx b_pv set_nx set_pv
  by unfold_locales (simp_all add: b_nx_def b_pv_def set_nx_def set_pv_def)

text \<open>The buffers of the cache on the list, most recently used first.\<close>

definition bring :: "(nat \<Rightarrow> buf) \<Rightarrow> nat list \<Rightarrow> bool" where
  "bring bs xs \<longleftrightarrow> ring (\<lambda>b. b_next (bs b)) (\<lambda>b. b_prev (bs b)) bhead xs"

lemma bring_view: "bring (bufs s) xs \<longleftrightarrow> ring (b_nx s) (b_pv s) bhead xs"
  by (simp add: bring_def b_nx_def [abs_def] b_pv_def [abs_def])

text \<open>Changes of other fields do not matter to the list.\<close>

definition core :: "buf \<Rightarrow> buf" where
  "core c = c\<lparr>b_prev := 0, b_next := 0\<rparr>"

lemma bring_cong:
  "(\<And>b. b_next (bs' b) = b_next (bs b)) \<Longrightarrow> (\<And>b. b_prev (bs' b) = b_prev (bs b)) \<Longrightarrow> bring bs' xs = bring bs xs"
  by (simp add: bring_def)

lemma bring_other [simp]:
  "(\<And>c. b_next (f c) = b_next c) \<Longrightarrow> (\<And>c. b_prev (f c) = b_prev c) \<Longrightarrow> bring (bs(b := f (bs b))) xs = bring bs xs"
  by (rule bring_cong) auto

lemma bpush_run:
  assumes "bring (bufs s) xs" "b \<notin> set xs" "b \<noteq> bhead"
  shows "bring (bufs (bpush b s)) (b # xs)" "core (bufs (bpush b s) i) = core (bufs s i)"
proof -
  have "bpush b s = set_nx bhead b (set_pv (b_nx s bhead) b (set_pv b bhead (set_nx b (b_nx s bhead) s)))"
    using assms(3) by (simp add: bpush_def Let_def blist.links_laws)
  moreover have "ring (b_nx s) (b_pv s) bhead xs"
    using assms(1) by (simp add: bring_view)
  ultimately show "bring (bufs (bpush b s)) (b # xs)"
    using blist.push_ring [of s bhead xs b] assms(2,3) unfolding bring_view by simp
  show "core (bufs (bpush b s) i) = core (bufs s i)"
    by (simp add: bpush_def Let_def set_nx_def set_pv_def core_def)
qed

definition bunlink :: "nat \<Rightarrow> 'z vdisk_scheme \<Rightarrow> 'z vdisk_scheme" where
  "bunlink b s = (let s = set_pv (b_nx s b) (b_pv s b) s in set_nx (b_pv s b) (b_nx s b) s)"

lemma bunlink_run:
  assumes "bring (bufs s) (xs @ b # ys)"
  shows "bring (bufs (bunlink b s)) (xs @ ys)" "core (bufs (bunlink b s) i) = core (bufs s i)"
proof -
  have r: "ring (b_nx s) (b_pv s) bhead (xs @ b # ys)"
    using assms by (simp add: bring_view)
  have "b \<noteq> b_nx s b"
  proof
    assume "b = b_nx s b"
    then have "b \<in> set (bhead # ys)"
      using blist.ring_members(1) [OF r] by metis
    with r show False by (auto simp: ring_def)
  qed
  then have "bunlink b s = set_nx (b_pv s b) (b_nx s b) (set_pv (b_nx s b) (b_pv s b) s)"
    by (simp add: bunlink_def Let_def blist.links_laws)
  with blist.unlink_ring_back [OF r] show "bring (bufs (bunlink b s)) (xs @ ys)"
    unfolding bring_view by simp
  show "core (bufs (bunlink b s) i) = core (bufs s i)"
    by (simp add: bunlink_def Let_def set_nx_def set_pv_def core_def)
qed

lemma bfind_links:
  assumes "links (\<lambda>b. b_next (bufs s b)) pv a xs bhead" "bhead \<notin> set xs" "length xs < n"
  shows "bfind n P (b_next (bufs s a)) s = Ret (find (\<lambda>b. P (bufs s b)) xs) s"
  using assms
proof (induction xs arbitrary: a n)
  case Nil
  then show ?case by (cases n) simp_all
next
  case (Cons x xs)
  then obtain k where k: "n = Suc k"
    by (cases n) simp_all
  with Cons show ?case by auto
qed

lemma bfind_run:
  assumes "bring (bufs s) xs" "set xs = {..<NBUF}"
  shows "bfind (NBUF + 1) P (b_nx s bhead) (acquired L s) = Ret (find (\<lambda>b. P (bufs s b)) xs) (acquired L s)"
proof -
  have "distinct xs" "bhead \<notin> set xs" and l: "links (\<lambda>b. b_next (bufs s b)) (\<lambda>b. b_prev (bufs s b)) bhead xs bhead"
    using assms(1) by (auto simp: bring_def ring_def)
  then have "length xs = NBUF"
    using distinct_card [of xs] assms(2) by simp
  then show ?thesis
    using bfind_links [of "acquired L s" "\<lambda>b. b_prev (bufs s b)" bhead xs "NBUF + 1" P] l \<open>bhead \<notin> set xs\<close>
    by (simp add: b_nx_def)
qed

section \<open>What the cache holds\<close>

text \<open>
  \<open>content s bno\<close> is the block as the kernel sees it: the data of a valid buffer for it, else what
  is on the disk. A block is a function; \<open>blk\<close> makes it zero outside its 1024 bytes.
\<close>

definition blk :: "block \<Rightarrow> block" where
  "blk d = (\<lambda>i. if i < BSIZE then d i else 0)"

definition diskblk :: "image \<Rightarrow> uint \<Rightarrow> block" where
  "diskblk img bno = blk (\<lambda>i. img (2 * unat bno + i div 512) (i mod 512))"

definition caches :: "uint \<Rightarrow> buf \<Rightarrow> bool" where
  "caches bno c \<longleftrightarrow> b_dev c = 1 \<and> b_blockno c = bno"

definition content :: "'z vdisk_scheme \<Rightarrow> uint \<Rightarrow> block" where
  "content s bno = (case find (\<lambda>b. caches bno (bufs s b) \<and> b_valid (bufs s b) \<noteq> 0) [0..<NBUF] of
     Some b \<Rightarrow> blk (b_data (bufs s b)) | None \<Rightarrow> diskblk (disk_image s) bno)"

text \<open>
  The invariant of the cache. There is one disk, device 1; block numbers stay below \<open>2 ^ 31\<close>, where
  the driver's sector arithmetic does not wrap. A buffer nobody refers to is unlocked, and what it
  holds is on the disk, so it may be recycled.
\<close>

definition bufs_ok :: "(nat \<Rightarrow> buf) \<Rightarrow> image \<Rightarrow> (sleepid \<Rightarrow> sleeplock) \<Rightarrow> bool" where
  "bufs_ok bs img sl \<longleftrightarrow>
     (\<forall>i < NBUF. b_dev (bs i) = 0 \<or> b_dev (bs i) = 1 \<and> unat (b_blockno (bs i)) < 2 ^ 31)
     \<and> (\<forall>i < NBUF. \<forall>j < NBUF. b_dev (bs i) = 1 \<and> b_dev (bs j) = 1 \<and> b_blockno (bs i) = b_blockno (bs j) \<longrightarrow> i = j)
     \<and> (\<forall>i < NBUF. b_refcnt (bs i) = 0 \<longrightarrow> sl_locked (sl (SBuf i)) = 0
          \<and> (b_dev (bs i) = 1 \<and> b_valid (bs i) \<noteq> 0 \<longrightarrow> blk (b_data (bs i)) = diskblk img (b_blockno (bs i))))"

definition bcache_ok :: "'z vdisk_scheme \<Rightarrow> bool" where
  "bcache_ok s \<longleftrightarrow> bufs_ok (bufs s) (disk_image s) (sleeplocks s) \<and> (\<exists>xs. bring (bufs s) xs \<and> set xs = {..<NBUF})"

text \<open>The context in which a process uses the disk.\<close>

definition disk_ready :: "nat \<Rightarrow> 'z vdisk_scheme \<Rightarrow> bool" where
  "disk_ready p s \<longleftrightarrow> calm s \<and> running p s \<and> p < NPROC \<and> noff (mycpu s) = 0 \<and> blk_device (device s) \<and> vd_quiet s"

lemma blk_simps [simp]: "blk (blk d) = blk d" "i < BSIZE \<Longrightarrow> blk d i = d i" "blk (diskblk img bno) = diskblk img bno"
  by (auto simp: blk_def diskblk_def)

lemma content_cached:
  assumes "bufs_ok (bufs s) img sl" "b < NBUF" "caches bno (bufs s b)" "b_valid (bufs s b) \<noteq> 0"
  shows "content s bno = blk (b_data (bufs s b))"
proof -
  let ?P = "\<lambda>b. caches bno (bufs s b) \<and> b_valid (bufs s b) \<noteq> 0"
  have "find ?P [0..<NBUF] \<noteq> None"
    using assms(2-4) by (auto simp: find_None_iff)
  then obtain c where c: "find ?P [0..<NBUF] = Some c"
    by blast
  then have "?P c" "c < NBUF"
    by (auto simp: find_Some_iff)
  with assms(1-3) have "c = b"
    unfolding bufs_ok_def caches_def by blast
  with c show ?thesis
    by (simp add: content_def)
qed

lemma content_absent:
  assumes "\<And>b. b < NBUF \<Longrightarrow> caches bno (bufs s b) \<Longrightarrow> b_valid (bufs s b) = 0"
  shows "content s bno = diskblk (disk_image s) bno"
proof -
  have "find (\<lambda>b. caches bno (bufs s b) \<and> b_valid (bufs s b) \<noteq> 0) [0..<NBUF] = None"
    using assms by (auto simp: find_None_iff)
  then show ?thesis
    by (simp add: content_def)
qed

lemma core_eq:
  assumes "core c = core d"
  shows "b_data c = b_data d" "b_dev c = b_dev d" "b_blockno c = b_blockno d" "b_valid c = b_valid d"
    "b_refcnt c = b_refcnt d" "b_disk c = b_disk d" "caches k c = caches k d"
  using assms by (cases c, cases d, simp add: core_def caches_def)+

text \<open>What a change of one buffer leaves of the contents.\<close>

lemma content_other:
  assumes "\<And>i. i < NBUF \<Longrightarrow> i \<noteq> b \<Longrightarrow> core (bufs t i) = core (bufs s i)"
    and "diskblk (disk_image t) k = diskblk (disk_image s) k"
    and "\<not> (caches k (bufs s b) \<and> b_valid (bufs s b) \<noteq> 0)" "\<not> (caches k (bufs t b) \<and> b_valid (bufs t b) \<noteq> 0)"
  shows "content t k = content s k"
proof -
  let ?P = "\<lambda>s i. caches k (bufs s i) \<and> b_valid (bufs s i) \<noteq> 0"
  have eq: "find (?P t) [0..<NBUF] = find (?P s) [0..<NBUF]"
  proof (rule find_cong)
    fix i assume "i \<in> set [0..<NBUF]"
    then show "?P t i = ?P s i"
      using assms(3,4) core_eq(4,7) [OF assms(1) [of i]] by (cases "i = b") auto
  qed simp
  show ?thesis
  proof (cases "find (?P s) [0..<NBUF]")
    case None
    then show ?thesis
      using eq assms(2) by (simp add: content_def)
  next
    case (Some i)
    then have "i < NBUF" "?P s i"
      by (auto simp: find_Some_iff)
    then have "core (bufs t i) = core (bufs s i)"
      using assms(1,3) by blast
    then show ?thesis
      using eq Some core_eq(1) [of "bufs t i" "bufs s i"] by (simp add: content_def)
  qed
qed

lemma content_same:
  assumes "\<And>i. i < NBUF \<Longrightarrow> b_data (bufs t i) = b_data (bufs s i) \<and> b_valid (bufs t i) = b_valid (bufs s i)
      \<and> b_dev (bufs t i) = b_dev (bufs s i) \<and> b_blockno (bufs t i) = b_blockno (bufs s i)"
    and "disk_image t = disk_image s"
  shows "content t = content s"
proof
  fix k
  have "find (\<lambda>b. caches k (bufs t b) \<and> b_valid (bufs t b) \<noteq> 0) [0..<NBUF]
      = find (\<lambda>b. caches k (bufs s b) \<and> b_valid (bufs s b) \<noteq> 0) [0..<NBUF]"
    using assms(1) by (intro find_cong) (auto simp: caches_def)
  moreover have "i < NBUF" if "find P [0..<NBUF] = Some i" for P i
    using that by (auto simp: find_Some_iff)
  ultimately show "content t k = content s k"
    using assms by (auto simp: content_def split: option.split)
qed

section \<open>What the operations do\<close>

lemma disk_readyD:
  assumes "disk_ready p s"
  shows "calm s" "running p s" "p < NPROC" "noff (mycpu s) = 0" "blk_device (device s)" "vd_quiet s"
  using assms by (simp_all add: disk_ready_def)

lemma disk_ready_step: "disk_ready p s \<Longrightarrow> iostep s t \<Longrightarrow> vd_quiet t \<Longrightarrow> disk_ready p t"
  by (simp add: disk_ready_def iostep_keeps)

lemma set_slk_simps [simp]:
  "sleeplocks (set_slk l f s) = (sleeplocks s)(l := f (sleeplocks s l))" "calm (set_slk l f s) = calm s"
  "mycpu (set_slk l f s) = mycpu s" "PCBs (set_slk l f s) = PCBs s" "bufs (set_slk l f t) = bufs t"
  "disk_image (set_slk l f t) = disk_image t" "vd_quiet (set_slk l f t) = vd_quiet t" "device (set_slk l f t) = device t"
  by (simp_all add: set_slk_def vd_quiet_def)

text \<open>The sleeplock of a buffer held by a process, and one more reference to a buffer.\<close>

abbreviation slk_taken :: "int \<Rightarrow> sleeplock \<Rightarrow> sleeplock" where
  "slk_taken pid k \<equiv> k\<lparr>sl_locked := 1, sl_pid := pid\<rparr>"

abbreviation bref :: "nat \<Rightarrow> 'z vdisk_scheme \<Rightarrow> 'z vdisk_scheme" where
  "bref b \<equiv> set_buf b (\<lambda>c. c\<lparr>b_refcnt := b_refcnt c + 1\<rparr>)"

abbreviation brecycle :: "uint \<Rightarrow> uint \<Rightarrow> nat \<Rightarrow> 'z vdisk_scheme \<Rightarrow> 'z vdisk_scheme" where
  "brecycle dev bno b \<equiv> set_buf b (\<lambda>c. c\<lparr>b_dev := dev, b_blockno := bno, b_valid := 0, b_refcnt := 1\<rparr>)"

lemma bget_run:
  assumes "disk_ready p s" "bring (bufs s) xs" "set xs = {..<NBUF}"
  shows "bget dev bno s = (case find (\<lambda>b. b_dev (bufs s b) = dev \<and> b_blockno (bufs s b) = bno) xs of
      Some b \<Rightarrow> andthen (acquiresleep (SBuf b)) (andthen (modify (bref b)) (ret b)) (bref b s)
    | None \<Rightarrow> (case find (\<lambda>b. b_refcnt (bufs s b) = 0) xs of
        Some b \<Rightarrow> andthen (acquiresleep (SBuf b)) (ret b) (brecycle dev bno b s)
      | None \<Rightarrow> Fault (Panic ''bget'') (acquired LBcache s)))"
  using disk_readyD(1) [OF assms(1)] bfind_run [OF assms(2,3), of _ LBcache]
  by (simp add: bget_def b_nx_def del: bfind.simps split: option.split)

lemma bufs_ok_upd:
  assumes "bufs_ok bs img sl" "b_dev c = 1" "unat (b_blockno c) < 2 ^ 31"
    and "b_refcnt c = 0 \<Longrightarrow> sl_locked k = 0 \<and> (b_valid c \<noteq> 0 \<longrightarrow> blk (b_data c) = diskblk img (b_blockno c))"
    and "\<And>i. i < NBUF \<Longrightarrow> i \<noteq> b \<Longrightarrow> \<not> caches (b_blockno c) (bs i)"
  shows "bufs_ok (bs(b := c)) img (sl(SBuf b := k))"
proof -
  have ok: "\<And>i. i < NBUF \<Longrightarrow> b_dev (bs i) = 0 \<or> b_dev (bs i) = 1 \<and> unat (b_blockno (bs i)) < 2 ^ 31"
    "\<And>i j. i < NBUF \<Longrightarrow> j < NBUF \<Longrightarrow> b_dev (bs i) = 1 \<Longrightarrow> b_dev (bs j) = 1 \<Longrightarrow> b_blockno (bs i) = b_blockno (bs j) \<Longrightarrow> i = j"
    "\<And>i. i < NBUF \<Longrightarrow> b_refcnt (bs i) = 0 \<Longrightarrow> sl_locked (sl (SBuf i)) = 0
          \<and> (b_dev (bs i) = 1 \<and> b_valid (bs i) \<noteq> 0 \<longrightarrow> blk (b_data (bs i)) = diskblk img (b_blockno (bs i)))"
    using assms(1) unfolding bufs_ok_def by blast+
  show ?thesis
    unfolding bufs_ok_def
  proof (intro conjI allI impI)
    fix i j assume "i < NBUF" "j < NBUF" "b_dev ((bs(b := c)) i) = 1 \<and> b_dev ((bs(b := c)) j) = 1
      \<and> b_blockno ((bs(b := c)) i) = b_blockno ((bs(b := c)) j)"
    then show "i = j"
      using ok(2) assms(5) by (auto simp: caches_def split: if_splits)
  qed (use ok assms in \<open>auto simp: caches_def split: if_splits\<close>)
qed

lemma bufs_okD:
  assumes "bufs_ok bs img sl" "i < NBUF" "caches k (bs i)"
  shows "unat k < 2 ^ 31" "j < NBUF \<Longrightarrow> caches k (bs j) \<Longrightarrow> j = i"
    "b_refcnt (bs i) = 0 \<Longrightarrow> b_valid (bs i) \<noteq> 0 \<Longrightarrow> blk (b_data (bs i)) = diskblk img k"
  using assms unfolding bufs_ok_def caches_def by force+

text \<open>The outcome of \<^verbatim>\<open>bget\<close>: the buffer of the block, locked by the caller.\<close>

definition bgot :: "nat \<Rightarrow> uint \<Rightarrow> 'z vdisk_scheme \<Rightarrow> nat \<Rightarrow> 'z vdisk_scheme \<Rightarrow> bool" where
  "bgot p bno s b t \<longleftrightarrow> iostep s t \<and> vd_quiet t \<and> bcache_ok t \<and> b < NBUF \<and> caches bno (bufs t b) \<and> b_refcnt (bufs t b) \<noteq> 0
     \<and> content t = content s \<and> disk_image t = disk_image s
     \<and> sleeplocks t = (sleeplocks s)(SBuf b := slk_taken (p_pid (PCBs s p)) (sleeplocks s (SBuf b)))
     \<and> (\<forall>i. i \<noteq> b \<longrightarrow> core (bufs t i) = core (bufs s i))
     \<and> (if caches bno (bufs s b) then b_refcnt (bufs t b) = b_refcnt (bufs s b) + 2
        else (\<forall>i < NBUF. \<not> caches bno (bufs s i)) \<and> b_refcnt (bufs s b) = 0 \<and> b_refcnt (bufs t b) = 1)"

lemma bget_hit:
  assumes s: "disk_ready p s" "bufs_ok (bufs s) (disk_image s) (sleeplocks s)" "bring (bufs s) xs" "set xs = {..<NBUF}"
    and b: "b < NBUF" "caches bno (bufs s b)" "sl_locked (sleeplocks s (SBuf b)) = 0"
      "unat (b_refcnt (bufs s b)) + 2 < 2 ^ 32"
  shows "\<exists>t. bget 1 bno s = Ret b t \<and> bgot p bno s b t"
proof -
  define t where "t = bref b (set_slk (SBuf b) (slk_taken (p_pid (PCBs s p))) (bref b s))"
  have "find (\<lambda>b. b_dev (bufs s b) = 1 \<and> b_blockno (bufs s b) = bno) xs = Some b"
  proof -
    have "find (caches bno \<circ> bufs s) xs \<noteq> None"
      using b(1,2) s(4) by (auto simp: find_None_iff)
    then obtain c where c: "find (caches bno \<circ> bufs s) xs = Some c"
      by blast
    then have "caches bno (bufs s c)" "c < NBUF"
      using s(4) by (auto simp: find_Some_iff dest!: nth_mem)
    then show ?thesis
      using c bufs_okD(2) [OF s(2) b(1,2)] by (simp add: comp_def caches_def [abs_def])
  qed
  then have "bget 1 bno s = Ret b t"
    using bget_run [OF s(1,3,4), of 1 bno] disk_readyD(1,2) [OF s(1)] b(3)
    by (simp add: acquiresleep_run t_def)
  moreover have two: "b_refcnt (bufs t b) = b_refcnt (bufs s b) + 2" "b_refcnt (bufs t b) \<noteq> 0"
    using b(4) by (simp_all add: t_def add.assoc unat_eq_zero [symmetric] unat_word_ariths)
  moreover have "content t = content s"
    by (rule content_same) (auto simp: t_def)
  moreover have "bufs_ok (bufs t) (disk_image t) (sleeplocks t)"
  proof -
    have "\<And>i. i < NBUF \<Longrightarrow> i \<noteq> b \<Longrightarrow> \<not> caches bno (bufs s i)"
      using bufs_okD(2) [OF s(2) b(1,2)] by blast
    then show ?thesis
      using bufs_ok_upd [OF s(2), of "bufs t b" "sleeplocks t (SBuf b)" b] b(2) bufs_okD(1) [OF s(2) b(1,2)] two(2)
      by (simp add: t_def caches_def)
  qed
  moreover have "bring (bufs t) xs"
    using s(3) by (simp add: t_def)
  moreover have "iostep s t"
    unfolding t_def by (intro iostep_set_buf iostep_set_slk io_refl)
  ultimately show ?thesis
    using b s disk_readyD(6) [OF s(1)] unfolding bgot_def bcache_ok_def by (auto simp: t_def caches_def)
qed

lemma content_recycle:
  assumes "bufs_ok (bufs s) (disk_image s) (sleeplocks s)" "b < NBUF" "b_refcnt (bufs s b) = 0"
    and "\<And>i. i < NBUF \<Longrightarrow> \<not> caches bno (bufs s i)"
    and t: "\<And>i. i \<noteq> b \<Longrightarrow> core (bufs t i) = core (bufs s i)" "disk_image t = disk_image s"
      "b_blockno (bufs t b) = bno" "b_valid (bufs t b) = 0"
  shows "content t k = content s k"
proof (cases "caches k (bufs s b) \<and> b_valid (bufs s b) \<noteq> 0")
  case True
  have "content t k = diskblk (disk_image t) k"
  proof (rule content_absent)
    fix i assume i: "i < NBUF" "caches k (bufs t i)"
    show "b_valid (bufs t i) = 0"
    proof (cases "i = b")
      case False
      then have "caches k (bufs s i)"
        using t(1) core_eq(7) i(2) by metis
      with False True i(1) bufs_okD(2) [OF assms(1,2), of k i] show ?thesis by blast
    qed (simp add: t)
  qed
  moreover have "content s k = blk (b_data (bufs s b))"
    using content_cached [OF assms(1,2)] True by blast
  ultimately show ?thesis
    using bufs_okD(3) [OF assms(1,2), of k] True assms(3) t(2) by simp
next
  case False
  then show ?thesis
    by (intro content_other [of b]) (use t in auto)
qed

lemma bget_miss:
  assumes s: "disk_ready p s" "bufs_ok (bufs s) (disk_image s) (sleeplocks s)" "bring (bufs s) xs" "set xs = {..<NBUF}"
    and b: "\<And>i. i < NBUF \<Longrightarrow> \<not> caches bno (bufs s i)" "find (\<lambda>b. b_refcnt (bufs s b) = 0) xs = Some b"
    and bno: "unat bno < 2 ^ 31"
  shows "\<exists>t. bget 1 bno s = Ret b t \<and> bgot p bno s b t"
proof -
  define t where "t = set_slk (SBuf b) (slk_taken (p_pid (PCBs s p))) (brecycle 1 bno b s)"
  have b2: "b < NBUF" "b_refcnt (bufs s b) = 0"
    using b(2) s(4) by (auto simp: find_Some_iff dest!: nth_mem)
  then have free: "sl_locked (sleeplocks s (SBuf b)) = 0"
    using s(2) unfolding bufs_ok_def by blast
  have "find (\<lambda>b. b_dev (bufs s b) = 1 \<and> b_blockno (bufs s b) = bno) xs = None"
    using b(1) s(4) by (auto simp: find_None_iff caches_def)
  then have "bget 1 bno s = Ret b t"
    using bget_run [OF s(1,3,4), of 1 bno] b(2) disk_readyD(1,2) [OF s(1)] free
    by (simp add: acquiresleep_run t_def)
  moreover have "content t = content s"
  proof
    fix k show "content t k = content s k"
      by (rule content_recycle [OF s(2) b2 b(1)]) (auto simp: t_def)
  qed
  moreover have "bufs_ok (bufs t) (disk_image t) (sleeplocks t)"
    using bufs_ok_upd [OF s(2), of "bufs t b" "sleeplocks t (SBuf b)" b] b(1) bno by (simp add: t_def)
  moreover have "bring (bufs t) xs"
    unfolding t_def set_slk_simps set_buf_simps by (subst bring_other) (use s(3) in simp_all)
  moreover have "iostep s t"
    unfolding t_def by (intro iostep_set_buf iostep_set_slk io_refl)
  ultimately show ?thesis
    using b b2 s disk_readyD(6) [OF s(1)] unfolding bgot_def bcache_ok_def by (auto simp: t_def caches_def)
qed

text \<open>
  \<open>room n s\<close>: no reference count is within \<open>n\<close> of wrapping around. \<open>bexhausted\<close> is the panic
  of \<^verbatim>\<open>bget\<close> when the block is not cached and every buffer is referred to.
\<close>

definition room :: "nat \<Rightarrow> 'z vdisk_scheme \<Rightarrow> bool" where
  "room n s \<longleftrightarrow> (\<forall>i < NBUF. unat (b_refcnt (bufs s i)) + n < 2 ^ 32)"

definition bexhausted :: "uint \<Rightarrow> 'z vdisk_scheme \<Rightarrow> fault \<Rightarrow> 'z vdisk_scheme \<Rightarrow> bool" where
  "bexhausted bno s e t \<longleftrightarrow> e = Panic ''bget'' \<and> (\<forall>i < NBUF. b_refcnt (bufs s i) \<noteq> 0 \<and> \<not> caches bno (bufs s i))"

definition unheld :: "uint \<Rightarrow> 'z vdisk_scheme \<Rightarrow> bool" where
  "unheld bno s \<longleftrightarrow> (\<forall>i < NBUF. caches bno (bufs s i) \<longrightarrow> sl_locked (sleeplocks s (SBuf i)) = 0)"

lemma bget_spec:
  assumes "disk_ready p s" "bcache_ok s" "room 2 s" "unat bno < 2 ^ 31" "unheld bno s"
  shows "wp (bget 1 bno) (bgot p bno s) (bexhausted bno s) s"
proof -
  obtain xs where xs: "bring (bufs s) xs" "set xs = {..<NBUF}" and ok: "bufs_ok (bufs s) (disk_image s) (sleeplocks s)"
    using assms(2) unfolding bcache_ok_def by blast
  show ?thesis
  proof (cases "\<exists>b < NBUF. caches bno (bufs s b)")
    case True
    then obtain b where b: "b < NBUF" "caches bno (bufs s b)"
      by blast
    with assms(3,5) obtain t where "bget 1 bno s = Ret b t" "bgot p bno s b t"
      using bget_hit [OF assms(1) ok xs b] unfolding room_def unheld_def by blast
    then show ?thesis
      by (simp add: wp_def)
  next
    case False
    show ?thesis
    proof (cases "find (\<lambda>b. b_refcnt (bufs s b) = 0) xs")
      case None
      moreover have "find (\<lambda>b. b_dev (bufs s b) = 1 \<and> b_blockno (bufs s b) = bno) xs = None"
        using False xs(2) by (auto simp: find_None_iff caches_def)
      moreover have "\<forall>i < NBUF. b_refcnt (bufs s i) \<noteq> 0"
        using None xs(2) by (auto simp: find_None_iff)
      ultimately show ?thesis
        using bget_run [OF assms(1) xs, of 1 bno] False by (simp add: wp_def bexhausted_def)
    next
      case (Some b)
      with False show ?thesis
        using bget_miss [OF assms(1) ok xs _ Some assms(4)] by (auto simp: wp_def)
    qed
  qed
qed

lemma sector_of_small: "unat bno < 2 ^ 31 \<Longrightarrow> sector_of bno = 2 * unat bno"
  by (simp add: sector_of_def unat_word_ariths)

lemma blk_sector_read: "unat bno < 2 ^ 31 \<Longrightarrow> blk (sector_read img (sector_of bno) BSIZE d) = diskblk img bno"
  by (auto simp: blk_def diskblk_def sector_read_def sector_of_small)

text \<open>
  A buffer with references may be given other data or links without disturbing the cache; the
  contents change only at its block.
\<close>

lemma bcache_ok_upd:
  assumes "bcache_ok s" "b < NBUF" "caches bno (bufs s b)"
    and t: "bufs t = (bufs s)(b := c)" "disk_image t = disk_image s" "sleeplocks t = sleeplocks s"
    and c: "caches bno c" "b_refcnt c \<noteq> 0" "b_next c = b_next (bufs s b)" "b_prev c = b_prev (bufs s b)"
  shows "bcache_ok t" "k \<noteq> bno \<Longrightarrow> content t k = content s k"
    "b_valid c \<noteq> 0 \<Longrightarrow> content t bno = blk (b_data c)"
proof -
  have ok: "bufs_ok (bufs s) (disk_image s) (sleeplocks s)" and "\<exists>xs. bring (bufs s) xs \<and> set xs = {..<NBUF}"
    using assms(1) unfolding bcache_ok_def by auto
  moreover have bc: "b_dev c = 1" "b_blockno c = bno"
    using c(1) by (simp_all add: caches_def)
  have "\<And>i. i < NBUF \<Longrightarrow> i \<noteq> b \<Longrightarrow> \<not> caches bno (bufs s i)"
    using bufs_okD(2) [OF ok assms(2,3)] by blast
  with ok have ok': "bufs_ok (bufs t) (disk_image t) (sleeplocks t)"
    using bufs_ok_upd [OF ok, of c "sleeplocks s (SBuf b)" b] bc c(2) bufs_okD(1) [OF ok assms(2,3)] t by simp
  moreover have "bring (bufs t) xs = bring (bufs s) xs" for xs
    by (rule bring_cong) (use t(1) c in auto)
  ultimately show "bcache_ok t"
    unfolding bcache_ok_def by simp
  show "content t k = content s k" if "k \<noteq> bno"
    by (rule content_other [of b]) (use t c assms(3) that in \<open>auto simp: caches_def\<close>)
  show "content t bno = blk (b_data c)" if "b_valid c \<noteq> 0"
    using content_cached [OF ok' assms(2), of bno] t(1) c(1) that by simp
qed

lemma bgot_step:
  assumes "bgot p bno s b t" "iostep t u" "vd_quiet u" "bcache_ok u" "content u = content t" "disk_image u = disk_image t"
    "sleeplocks u = sleeplocks t" "bufs u = (bufs t)(b := c)" "caches bno c" "b_refcnt c = b_refcnt (bufs t b)"
  shows "bgot p bno s b u"
  using assms unfolding bgot_def by (auto intro: iostep_trans)

lemma bread_spec:
  assumes s: "disk_ready p s" "bcache_ok s" "room 2 s" "unat bno < 2 ^ 31" "unheld bno s"
  shows "wp (bread 1 bno) (\<lambda>b t. bgot p bno s b t \<and> b_valid (bufs t b) \<noteq> 0 \<and> blk (b_data (bufs t b)) = content s bno)
    (bexhausted bno s) s"
  unfolding bread_def wp_simps
proof (rule wp_mono [OF bget_spec [OF s]])
  fix b t assume g: "bgot p bno s b t"
  then have b: "b < NBUF" "caches bno (bufs t b)" "content t = content s" and ok: "bcache_ok t" "vd_quiet t" "iostep s t"
    "b_refcnt (bufs t b) \<noteq> 0"
    by (auto simp: bgot_def)
  have okb: "bufs_ok (bufs t) (disk_image t) (sleeplocks t)"
    using ok by (simp add: bcache_ok_def)
  let ?Q = "\<lambda>t. bgot p bno s b t \<and> b_valid (bufs t b) \<noteq> 0 \<and> blk (b_data (bufs t b)) = content s bno"
  show "if b_valid (bufs t b) = 0 then wp (virtio_disk_rw b False) (\<lambda>a t. ?Q (set_buf b (\<lambda>c. c\<lparr>b_valid := 1\<rparr>) t))
      (bexhausted bno s) t else ?Q t"
  proof (cases "b_valid (bufs t b) = 0")
    case True
    have d: "disk_ready p t"
      using disk_ready_step [OF s(1)] ok by blast
    let ?c = "(bufs t b)\<lparr>b_disk := 0, b_data := sector_read (disk_image t) (sector_of bno) BSIZE (b_data (bufs t b))\<rparr>"
    obtain u where u: "virtio_disk_rw b False t = Ret () u" "iostep t u" "vd_quiet u" "sleeplocks u = sleeplocks t"
      "bufs u = (bufs t)(b := ?c)" "disk_image u = disk_image t"
      using virtio_disk_rw_run [OF disk_readyD [OF d], of b False] b(2) unfolding caches_def by (simp add: if_False) blast
    define v where "v = set_buf b (\<lambda>c. c\<lparr>b_valid := 1\<rparr>) u"
    have vb: "bufs v = (bufs t)(b := ?c\<lparr>b_valid := 1\<rparr>)" and v: "disk_image v = disk_image t" "sleeplocks v = sleeplocks t"
      using u by (simp_all add: v_def)
    note upd = bcache_ok_upd [OF ok(1) b(1,2) vb v]
    have "content t bno = diskblk (disk_image t) bno"
      using bufs_okD(2) [OF okb b(1,2)] True by (intro content_absent) blast
    then have data: "blk (b_data ?c) = content t bno"
      using s(4) by (simp add: blk_sector_read)
    have "content v k = content t k" for k
      by (cases "k = bno") (use upd(2,3) b(2) ok(4) data in \<open>auto simp: caches_def\<close>)
    then have "bgot p bno s b v"
      by (intro bgot_step [OF g _ _ _ _ v(1,2) vb])
        (use u ok b upd in \<open>auto simp: v_def caches_def\<close>)
    then have "?Q v"
      using vb data b(3) by simp
    with True u(1) show ?thesis
      by (simp add: wp_def v_def)
  next
    case False
    with g b content_cached [OF okb b(1,2)] show ?thesis by simp
  qed
qed

definition held_by :: "int \<Rightarrow> sleeplock \<Rightarrow> bool" where
  "held_by pid k \<longleftrightarrow> sl_locked k \<noteq> 0 \<and> sl_pid k = pid"

lemma diskblk_write:
  assumes "unat bno < 2 ^ 31"
  shows "diskblk (sector_write img (sector_of bno) BSIZE d) k = (if k = bno then blk d else diskblk img k)"
proof
  fix i
  show "diskblk (sector_write img (sector_of bno) BSIZE d) k i = (if k = bno then blk d else diskblk img k) i"
  proof (cases "i < BSIZE")
    case True
    then have "i div 512 < 2" "512 * (i div 512) + i mod 512 = i" "i mod 512 < 512"
      by (auto simp: BSIZE_def)
    moreover have "unat k \<noteq> unat bno" if "k \<noteq> bno"
      using that unsigned_word_eqI by blast
    ultimately show ?thesis
      using True assms by (auto simp: diskblk_def blk_def sector_write_def sector_of_small BSIZE_def)
  qed (simp add: diskblk_def blk_def)
qed

lemma bufs_ok_cong:
  assumes "\<And>i. b_dev (bs' i) = b_dev (bs i)" "\<And>i. b_blockno (bs' i) = b_blockno (bs i)"
    "\<And>i. b_refcnt (bs' i) = b_refcnt (bs i)" "\<And>i. b_valid (bs' i) = b_valid (bs i)" "\<And>i. b_data (bs' i) = b_data (bs i)"
  shows "bufs_ok bs' img sl = bufs_ok bs img sl"
  unfolding bufs_ok_def by (simp only: assms)

lemma bwrite_spec:
  assumes s: "disk_ready p s" "bcache_ok s"
    and b: "b < NBUF" "caches bno (bufs s b)" "b_valid (bufs s b) \<noteq> 0" "b_refcnt (bufs s b) \<noteq> 0"
      "held_by (p_pid (PCBs s p)) (sleeplocks s (SBuf b))"
  shows "\<exists>t. bwrite b s = Ret () t \<and> iostep s t \<and> vd_quiet t \<and> bcache_ok t \<and> content t = content s
    \<and> sleeplocks t = sleeplocks s \<and> bufs t = (bufs s)(b := (bufs s b)\<lparr>b_disk := 0\<rparr>)
    \<and> (\<forall>k. diskblk (disk_image t) k = (if k = bno then content s bno else diskblk (disk_image s) k))"
proof -
  have ok: "bufs_ok (bufs s) (disk_image s) (sleeplocks s)"
    using s by (simp add: bcache_ok_def)
  let ?img = "sector_write (disk_image s) (sector_of bno) BSIZE (b_data (bufs s b))"
  obtain t where t: "virtio_disk_rw b True s = Ret () t" "iostep s t" "vd_quiet t" "sleeplocks t = sleeplocks s"
    "bufs t = (bufs s)(b := (bufs s b)\<lparr>b_disk := 0\<rparr>)" "disk_image t = ?img"
    using virtio_disk_rw_run [OF disk_readyD [OF s(1)], of b True] b(2) unfolding caches_def by (simp add: if_True) blast
  have cont: "content s bno = blk (b_data (bufs s b))"
    using content_cached [OF ok b(1-3)] .
  have disk: "diskblk (disk_image t) k = (if k = bno then content s bno else diskblk (disk_image s) k)" for k
    using diskblk_write [OF bufs_okD(1) [OF ok b(1,2)]] cont t(6) by simp
  have u: "i < NBUF \<Longrightarrow> caches bno (bufs s i) \<Longrightarrow> i = b" for i
    using bufs_okD(2) [OF ok b(1,2)] by blast
  have "blk (b_data (bufs s i)) = diskblk (disk_image t) (b_blockno (bufs s i))"
    if "i < NBUF" "b_refcnt (bufs s i) = 0" "b_dev (bufs s i) = 1" "b_valid (bufs s i) \<noteq> 0" for i
  proof -
    have "caches (b_blockno (bufs s i)) (bufs s i)"
      using that(3) by (simp add: caches_def)
    then show ?thesis
      using bufs_okD(3) [OF ok that(1)] that(1,2,4) b(4) u [of i] disk [of "b_blockno (bufs s i)"] by auto
  qed
  with ok have "bufs_ok (bufs s) (disk_image t) (sleeplocks s)"
    unfolding bufs_ok_def by simp
  then have okt: "bufs_ok (bufs t) (disk_image t) (sleeplocks t)"
    unfolding t(4,5) by (subst bufs_ok_cong [of _ "bufs s"]) simp_all
  moreover have "bring (bufs t) xs = bring (bufs s) xs" for xs
    by (rule bring_cong) (use t(5) in auto)
  ultimately have "bcache_ok t"
    using s(2) unfolding bcache_ok_def by simp
  moreover have "content t k = content s k" for k
  proof (cases "k = bno")
    case True
    then show ?thesis
      using content_cached [OF okt b(1), of bno] b t(5) cont by (simp add: caches_def)
  next
    case False
    then show ?thesis
      by (intro content_other [of b]) (use disk [of k] t(5) b(2) in \<open>auto simp: caches_def\<close>)
  qed
  then have "content t = content s" ..
  moreover have "bwrite b s = Ret () t"
    using t(1) b(5) disk_readyD(1,2) [OF s(1)] by (simp add: bwrite_def holdingsleep_run held_by_def)
  ultimately show ?thesis
    using t disk by blast
qed

lemma bunlink_push:
  assumes "bring (bufs s) xs" "set xs = {..<NBUF}" "b < NBUF"
  shows "\<exists>ys. bring (bufs (bpush b (bunlink b s))) ys \<and> set ys = {..<NBUF}"
    "core (bufs (bpush b (bunlink b s)) i) = core (bufs s i)"
proof -
  obtain us vs where x: "xs = us @ b # vs"
    using assms(2,3) split_list [of b xs] by auto
  have "distinct xs" "bhead \<notin> set xs"
    using assms(1) by (auto simp: bring_def ring_def)
  with x have b: "b \<notin> set (us @ vs)" "b \<noteq> bhead"
    by auto
  note r = bunlink_run [OF assms(1) [unfolded x]]
  note q = bpush_run [OF r(1) b]
  have "set (b # us @ vs) = {..<NBUF}"
    using x assms(2) by auto
  with q(1) show "\<exists>ys. bring (bufs (bpush b (bunlink b s))) ys \<and> set ys = {..<NBUF}"
    by blast
  show "core (bufs (bpush b (bunlink b s)) i) = core (bufs s i)"
    using q(2) r(2) by simp
qed

lemma blist_lock [simp]:
  "b_nx (acquired L s) b = b_nx s b" "b_pv (acquired L s) b = b_pv s b"
  "set_nx b v (acquired L s) = acquired L (set_nx b v s)" "set_pv b v (acquired L s) = acquired L (set_pv b v s)"
  "bpush b (acquired L s) = acquired L (bpush b s)" "calm (set_nx b v s) = calm s" "calm (set_pv b v s) = calm s"
  "calm (bpush b s) = calm s" "calm (bunlink b s) = calm s"
  "sleeplocks (set_nx b v s) = sleeplocks s" "sleeplocks (set_pv b v s) = sleeplocks s"
  "disk_image (set_nx b v s) = disk_image s" "disk_image (set_pv b v s) = disk_image s"
  "PCBs (set_nx b v s) = PCBs s" "PCBs (set_pv b v s) = PCBs s"
  "vd_quiet (set_nx b v s) = vd_quiet s" "vd_quiet (set_pv b v s) = vd_quiet s"
  by (simp_all add: b_nx_def b_pv_def set_nx_def set_pv_def bpush_def bunlink_def Let_def)

lemma blist_frame [simp]:
  "sleeplocks (bpush b s) = sleeplocks s" "sleeplocks (bunlink b s) = sleeplocks s"
  "disk_image (bpush b s) = disk_image s" "disk_image (bunlink b s) = disk_image s"
  "PCBs (bpush b s) = PCBs s" "PCBs (bunlink b s) = PCBs s"
  "vd_quiet (bpush b s) = vd_quiet s" "vd_quiet (bunlink b s) = vd_quiet s"
  by (simp_all add: bpush_def bunlink_def Let_def)

lemma vd_quiet_pcbs [simp]: "vd_quiet (PCBs_update f s) = vd_quiet s"
  by (simp add: vd_quiet_def)

lemma iostep_blist: "iostep s t \<Longrightarrow> iostep s (bpush b (bunlink b t))"
  by (simp add: bpush_def bunlink_def Let_def set_nx_def set_pv_def iostep_set_buf)

abbreviation bunref :: "nat \<Rightarrow> 'z vdisk_scheme \<Rightarrow> 'z vdisk_scheme" where
  "bunref b \<equiv> set_buf b (\<lambda>c. c\<lparr>b_refcnt := b_refcnt c - 1\<rparr>)"

lemma brelse_run:
  assumes s: "disk_ready p s" "held_by (p_pid (PCBs s p)) (sleeplocks s (SBuf b))"
  defines "u \<equiv> bunref b ((set_slk (SBuf b) (\<lambda>k. k\<lparr>sl_locked := 0, sl_pid := 0\<rparr>) s)\<lparr>PCBs := woken (ChSleeplock (SBuf b)) s\<rparr>)"
  shows "brelse b s = Ret () (if b_refcnt (bufs s b) = 1 then bpush b (bunlink b u) else u)"
proof -
  have "bunlink b u = set_nx (b_pv (set_pv (b_nx u b) (b_pv u b) u) b) (b_nx (set_pv (b_nx u b) (b_pv u b) u) b)
      (set_pv (b_nx u b) (b_pv u b) u)"
    by (simp add: bunlink_def Let_def)
  moreover have "(b_refcnt (bufs s b) - 1 = 0) = (b_refcnt (bufs s b) = 1)"
    by simp
  ultimately show ?thesis
    using s(2) disk_readyD(1,2) [OF s(1)]
    by (simp add: brelse_def holdingsleep_run held_by_def releasesleep_run whenM_def u_def)
qed

lemma brelse_spec:
  assumes s: "disk_ready p s" "bcache_ok s"
    and b: "b < NBUF" "caches bno (bufs s b)" "b_refcnt (bufs s b) \<noteq> 0" "held_by (p_pid (PCBs s p)) (sleeplocks s (SBuf b))"
      "b_refcnt (bufs s b) = 1 \<Longrightarrow> b_valid (bufs s b) \<noteq> 0 \<Longrightarrow> blk (b_data (bufs s b)) = diskblk (disk_image s) bno"
  shows "\<exists>t. brelse b s = Ret () t \<and> iostep s t \<and> vd_quiet t \<and> bcache_ok t \<and> content t = content s
    \<and> disk_image t = disk_image s \<and> (\<forall>i. core (bufs t i) = core (bufs (bunref b s) i))
    \<and> sleeplocks t = (sleeplocks s)(SBuf b := (sleeplocks s (SBuf b))\<lparr>sl_locked := 0, sl_pid := 0\<rparr>)"
proof -
  define u where "u = bunref b ((set_slk (SBuf b) (\<lambda>k. k\<lparr>sl_locked := 0, sl_pid := 0\<rparr>) s)
    \<lparr>PCBs := woken (ChSleeplock (SBuf b)) s\<rparr>)"
  define t where "t = (if b_refcnt (bufs s b) = 1 then bpush b (bunlink b u) else u)"
  obtain xs where xs: "bring (bufs s) xs" "set xs = {..<NBUF}" and ok: "bufs_ok (bufs s) (disk_image s) (sleeplocks s)"
    using s(2) unfolding bcache_ok_def by blast
  have u: "bring (bufs u) xs" "bufs u = bufs (bunref b s)"
    using xs by (simp_all add: u_def)
  have ring: "\<exists>ys. bring (bufs t) ys \<and> set ys = {..<NBUF}" and core: "\<And>i. core (bufs t i) = core (bufs (bunref b s) i)"
    using bunlink_push [OF u(1) xs(2) b(1)] u xs(2) by (auto simp: t_def)
  have slk: "sleeplocks t = (sleeplocks s)(SBuf b := (sleeplocks s (SBuf b))\<lparr>sl_locked := 0, sl_pid := 0\<rparr>)"
    by (simp add: t_def u_def)
  have "\<And>i. i < NBUF \<Longrightarrow> i \<noteq> b \<Longrightarrow> \<not> caches bno (bufs s i)"
    using bufs_okD(2) [OF ok b(1,2)] by blast
  then have "bufs_ok (bufs (bunref b s)) (disk_image s) (sleeplocks t)"
    using bufs_ok_upd [OF ok, of "bufs (bunref b s) b" "sleeplocks t (SBuf b)" b] b(2,5) bufs_okD(1) [OF ok b(1,2)]
    by (simp add: slk caches_def)
  then have "bufs_ok (bufs t) (disk_image s) (sleeplocks t)"
    by (subst bufs_ok_cong [of _ "bufs (bunref b s)"]) (use core_eq [OF core] in auto)
  moreover have "disk_image t = disk_image s"
    by (simp add: t_def u_def)
  ultimately have "bcache_ok t"
    using ring unfolding bcache_ok_def by simp
  moreover have "content t = content s"
    by (rule content_same) (use core_eq [OF core] in \<open>auto simp: t_def u_def\<close>)
  moreover have "iostep s u"
    unfolding u_def by (intro iostep_set_buf iostep_set_slk io_refl io_pcbs) (simp add: woken_def)
  then have "iostep s t"
    by (simp add: t_def iostep_blist)
  moreover have "brelse b s = Ret () t"
    using brelse_run [OF s(1) b(4)] by (simp add: t_def u_def)
  moreover have "vd_quiet t"
    using disk_readyD(6) [OF s(1)] by (simp add: t_def u_def)
  ultimately show ?thesis
    using core slk \<open>disk_image t = disk_image s\<close> by blast
qed

lemma bring_empty: "bring (bufs (set_pv bhead bhead (set_nx bhead bhead s))) []"
  by (simp add: bring_def ring_def set_nx_def set_pv_def)

lemma initsleeplock_simps [simp]:
  "bufs (initsleeplock l n s) = bufs s" "disk_image (initsleeplock l n s) = disk_image s"
  "sleeplocks (initsleeplock l n s) = (sleeplocks s)(l := \<lparr>sl_locked = 0, sl_name = n, sl_pid = 0\<rparr>)"
  "bufs (initlock L n s) = bufs s" "disk_image (initlock L n s) = disk_image s" "sleeplocks (initlock L n s) = sleeplocks s"
  by (simp_all add: initsleeplock_def initlock_def set_slk_def)

lemma binit_run:
  "wp binit (\<lambda>_ t. bring (bufs t) (rev [0..<NBUF]) \<and> (\<forall>i. core (bufs t i) = core (bufs s i)) \<and> disk_image t = disk_image s
     \<and> (\<forall>i < NBUF. sl_locked (sleeplocks t (SBuf i)) = 0)) never s"
proof -
  let ?I = "\<lambda>xs t. bring (bufs t) (rev xs) \<and> (\<forall>i. core (bufs t i) = core (bufs s i)) \<and> disk_image t = disk_image s
     \<and> (\<forall>i \<in> set xs. sl_locked (sleeplocks t (SBuf i)) = 0)"
  let ?f = "\<lambda>i. andthen (modify (initsleeplock (SBuf i) ''buf'')) (modify (bpush i))"
  have "wp (forM [0..<NBUF] ?f) (\<lambda>_. ?I [0..<NBUF]) never (initlock LBcache ''bcache'' (set_pv bhead bhead (set_nx bhead bhead s)))"
  proof (rule wp_forM)
    show "?I [] (initlock LBcache ''bcache'' (set_pv bhead bhead (set_nx bhead bhead s)))"
      using bring_empty [of s] by (simp add: set_nx_def set_pv_def core_def)
    fix ys y zs t assume x: "[0..<NBUF] = ys @ y # zs" and I: "?I ys t"
    have "y \<in> set [0..<NBUF]"
      unfolding x by simp
    moreover have "distinct (ys @ y # zs)"
      by (simp flip: x)
    ultimately
    have y: "y \<notin> set (rev ys)" "y \<noteq> bhead"
      by (auto simp: bhead_def)
    let ?t = "initsleeplock (SBuf y) ''buf'' t"
    have "bring (bufs ?t) (rev ys)"
      using I by simp
    note q = bpush_run [OF this y]
    show "wp (?f y) (\<lambda>_. ?I (ys @ [y])) never t"
      using q I by (auto simp: wp_simps)
  qed
  then show ?thesis
    by (simp add: binit_def wp_simps Ball_def)
qed

lemma binit_ok:
  assumes "\<And>i. b_dev (bufs s i) = 0" "\<And>i. b_refcnt (bufs s i) = 0"
  shows "wp binit (\<lambda>_ t. bcache_ok t \<and> content t = diskblk (disk_image s) \<and> disk_image t = disk_image s) never s"
proof (rule wp_mono [OF binit_run])
  fix t
  assume t: "bring (bufs t) (rev [0..<NBUF]) \<and> (\<forall>i. core (bufs t i) = core (bufs s i)) \<and> disk_image t = disk_image s
     \<and> (\<forall>i < NBUF. sl_locked (sleeplocks t (SBuf i)) = 0)"
  then have dev: "b_dev (bufs t i) = 0" for i
    using core_eq(2) assms(1) by metis
  then have "content t k = diskblk (disk_image s) k" for k
    using content_absent [of k t] t by (simp add: caches_def)
  moreover have "set (rev [0..<NBUF]) = {..<NBUF}"
    by auto
  with t have "\<exists>xs. bring (bufs t) xs \<and> set xs = {..<NBUF}"
    by blast
  with t dev have "bcache_ok t"
    unfolding bcache_ok_def bufs_ok_def by simp
  ultimately show "bcache_ok t \<and> content t = diskblk (disk_image s) \<and> disk_image t = disk_image s"
    using t by auto
qed simp

section \<open>Reading, updating and releasing a block\<close>

lemma same_pcb_pid: "same_pcb c d \<Longrightarrow> p_pid d = p_pid c"
  by (auto simp: same_pcb_def dest: arg_cong [where f = p_pid])

lemma bgotD:
  assumes "bgot p bno s b t"
  shows "iostep s t" "vd_quiet t" "bcache_ok t" "b < NBUF" "caches bno (bufs t b)" "b_refcnt (bufs t b) \<noteq> 0"
    "content t = content s" "disk_image t = disk_image s" "held_by (p_pid (PCBs t p)) (sleeplocks t (SBuf b))"
    "i \<noteq> b \<Longrightarrow> core (bufs t i) = core (bufs s i)"
    "sleeplocks t = (sleeplocks s)(SBuf b := slk_taken (p_pid (PCBs s p)) (sleeplocks s (SBuf b)))"
proof -
  show "iostep s t" "vd_quiet t" "bcache_ok t" "b < NBUF" "caches bno (bufs t b)" "b_refcnt (bufs t b) \<noteq> 0"
    "content t = content s" "disk_image t = disk_image s" "i \<noteq> b \<Longrightarrow> core (bufs t i) = core (bufs s i)"
    and slk: "sleeplocks t = (sleeplocks s)(SBuf b := slk_taken (p_pid (PCBs s p)) (sleeplocks s (SBuf b)))"
    using assms unfolding bgot_def by auto
  have "same_pcb (PCBs s p) (PCBs t p)"
    using assms iostep_keeps(18) unfolding bgot_def by blast
  then have "p_pid (PCBs t p) = p_pid (PCBs s p)"
    by (rule same_pcb_pid)
  with slk show "held_by (p_pid (PCBs t p)) (sleeplocks t (SBuf b))"
    by (simp add: held_by_def)
qed

text \<open>A buffer that has only been read is clean or has further references.\<close>

lemma bgot_clean:
  assumes "bgot p bno s b t" "bcache_ok s" "room 2 s" "b_refcnt (bufs t b) = 1"
  shows "content s bno = diskblk (disk_image s) bno"
proof -
  have "b < NBUF"
    using assms(1) by (rule bgotD)
  then have "b_refcnt (bufs s b) + 2 \<noteq> 1"
    using assms(3) unfolding room_def by (auto dest!: arg_cong [where f = unat] simp: unat_word_ariths)
  then have "\<forall>i < NBUF. \<not> caches bno (bufs s i)"
    using assms(1,4) unfolding bgot_def by (auto split: if_splits)
  then show ?thesis
    by (intro content_absent) blast
qed

text \<open>Between two accesses of a process no buffer is held.\<close>

definition bidle :: "nat \<Rightarrow> 'z vdisk_scheme \<Rightarrow> bool" where
  "bidle p s \<longleftrightarrow> disk_ready p s \<and> bcache_ok s \<and> (\<forall>i. sl_locked (sleeplocks s (SBuf i)) = 0)"

lemma bidle_unheld: "bidle p s \<Longrightarrow> unheld bno s"
  by (simp add: bidle_def unheld_def)

text \<open>Overwriting a block through the cache, as the log does.\<close>

definition block_put :: "uint \<Rightarrow> block \<Rightarrow> ('z vdisk_scheme, unit) oper" where
  "block_put bno d = bind (bread 1 bno) (\<lambda>b.
     andthen (modify (set_buf b (\<lambda>c. c\<lparr>b_data := d\<rparr>))) (andthen (bwrite b) (brelse b)))"

lemma write_release:
  assumes t: "disk_ready p t" "bcache_ok t" "b < NBUF" "caches bno (bufs t b)" "b_valid (bufs t b) \<noteq> 0"
    "b_refcnt (bufs t b) \<noteq> 0" "held_by (p_pid (PCBs t p)) (sleeplocks t (SBuf b))"
  shows "wp (andthen (modify (set_buf b (\<lambda>c. c\<lparr>b_data := d\<rparr>))) (andthen (bwrite b) (brelse b)))
    (\<lambda>_ w. iostep t w \<and> disk_ready p w \<and> bcache_ok w \<and> content w = (content t)(bno := blk d)
       \<and> (\<forall>k. diskblk (disk_image w) k = (if k = bno then blk d else diskblk (disk_image t) k))
       \<and> sleeplocks w = (sleeplocks t)(SBuf b := (sleeplocks t (SBuf b))\<lparr>sl_locked := 0, sl_pid := 0\<rparr>)
       \<and> (\<forall>i. b_refcnt (bufs w i) = b_refcnt (bufs (bunref b t) i))) never t"
proof -
  define u where "u = set_buf b (\<lambda>c. c\<lparr>b_data := d\<rparr>) t"
  have ub: "bufs u = (bufs t)(b := (bufs t b)\<lparr>b_data := d\<rparr>)" "disk_image u = disk_image t" "sleeplocks u = sleeplocks t"
    by (simp_all add: u_def)
  note upd = bcache_ok_upd [OF t(2-4) ub]
  have cu: "content u = (content t)(bno := blk d)"
    using upd(2,3) t(4-6) by (auto simp: caches_def)
  have du: "disk_ready p u"
    using t(1) unfolding disk_ready_def u_def by simp
  obtain v where v: "bwrite b u = Ret () v" "iostep u v" "vd_quiet v" "bcache_ok v" "content v = content u"
    "sleeplocks v = sleeplocks u" "bufs v = (bufs u)(b := (bufs u b)\<lparr>b_disk := 0\<rparr>)"
    "\<forall>k. diskblk (disk_image v) k = (if k = bno then content u bno else diskblk (disk_image u) k)"
    using bwrite_spec [OF du _ t(3), of bno] upd(1) t ub unfolding u_def by (auto simp: caches_def)
  have dv: "disk_ready p v"
    using disk_ready_step [OF du v(2,3)] .
  have "held_by (p_pid (PCBs v p)) (sleeplocks v (SBuf b))"
    using t(7) same_pcb_pid [OF iostep_keeps(18) [OF v(2)], of p] v(6) by (simp add: u_def)
  moreover have "blk (b_data (bufs v b)) = diskblk (disk_image v) bno"
    using v(7,8) ub cu by simp
  ultimately obtain w where w: "brelse b v = Ret () w" "iostep v w" "vd_quiet w" "bcache_ok w" "content w = content v"
    "disk_image w = disk_image v" "\<forall>i. core (bufs w i) = core (bufs (bunref b v) i)"
    "sleeplocks w = (sleeplocks v)(SBuf b := (sleeplocks v (SBuf b))\<lparr>sl_locked := 0, sl_pid := 0\<rparr>)"
    using brelse_spec [OF dv v(4) t(3), of bno] t v(7) ub by (auto simp: caches_def)
  have "iostep t w"
    using iostep_trans [OF w(2) iostep_trans [OF v(2)]] iostep_set_buf [OF io_refl] by (auto simp: u_def)
  moreover have "disk_ready p w"
    using disk_ready_step [OF dv w(2,3)] .
  moreover have "b_refcnt (bufs w i) = b_refcnt (bufs (bunref b t) i)" for i
    using core_eq(5) [of "bufs w i"] w(7) v(7) ub by simp
  moreover have "\<forall>k. diskblk (disk_image w) k = (if k = bno then blk d else diskblk (disk_image t) k)"
    using v(8) w(6) ub(2) cu by simp
  moreover have "andthen (modify (set_buf b (\<lambda>c. c\<lparr>b_data := d\<rparr>))) (andthen (bwrite b) (brelse b)) t = Ret () w"
    using v(1) w(1) by (simp add: u_def)
  ultimately show ?thesis
    using w(4,5,8) v(5,6) cu ub(3) by (simp add: wp_def)
qed

lemma bread_idle:
  assumes "bidle p s" "room 2 s" "unat bno < 2 ^ 31"
  shows "wp (bread 1 bno) (\<lambda>b t. bgot p bno s b t \<and> b_valid (bufs t b) \<noteq> 0 \<and> blk (b_data (bufs t b)) = content s bno)
    (bexhausted bno s) s"
  using bread_spec [of p s bno] assms bidle_unheld [OF assms(1)] unfolding bidle_def by blast

lemma block_put_spec:
  assumes "bidle p s" "room 2 s" "unat bno < 2 ^ 31"
  shows "wp (block_put bno d) (\<lambda>_ t. iostep s t \<and> bidle p t \<and> content t = (content s)(bno := blk d)
      \<and> (\<forall>k. diskblk (disk_image t) k = (if k = bno then blk d else diskblk (disk_image s) k)))
    (bexhausted bno s) s"
  unfolding block_put_def
proof (rule wp_bindI [OF bread_idle [OF assms]])
  fix b t assume g: "bgot p bno s b t \<and> b_valid (bufs t b) \<noteq> 0 \<and> blk (b_data (bufs t b)) = content s bno"
  note got = bgotD [OF conjunct1 [OF g]]
  have ready: "disk_ready p t"
    using disk_ready_step [OF _ got(1,2)] assms(1) unfolding bidle_def by blast
  show "wp (andthen (modify (set_buf b (\<lambda>c. c\<lparr>b_data := d\<rparr>))) (andthen (bwrite b) (brelse b)))
    (\<lambda>_ t. iostep s t \<and> bidle p t \<and> content t = (content s)(bno := blk d)
      \<and> (\<forall>k. diskblk (disk_image t) k = (if k = bno then blk d else diskblk (disk_image s) k)))
    (bexhausted bno s) t"
  proof (rule wp_mono [OF write_release [OF ready got(3-5) _ got(6,9)]])
    show "b_valid (bufs t b) \<noteq> 0"
      using g by blast
    fix u w
    assume w: "iostep t w \<and> disk_ready p w \<and> bcache_ok w \<and> content w = (content t)(bno := blk d)
       \<and> (\<forall>k. diskblk (disk_image w) k = (if k = bno then blk d else diskblk (disk_image t) k))
       \<and> sleeplocks w = (sleeplocks t)(SBuf b := (sleeplocks t (SBuf b))\<lparr>sl_locked := 0, sl_pid := 0\<rparr>)
       \<and> (\<forall>i. b_refcnt (bufs w i) = b_refcnt (bufs (bunref b t) i))"
    then have "bidle p w"
      using assms(1) got(11) unfolding bidle_def by simp
    then show "iostep s w \<and> bidle p w \<and> content w = (content s)(bno := blk d)
      \<and> (\<forall>k. diskblk (disk_image w) k = (if k = bno then blk d else diskblk (disk_image s) k))"
      using w got(1,7,8) iostep_trans by (simp only: if_cancel) blast
  qed simp
qed simp

lemma bread_brelse:
  assumes "bidle p s" "room 2 s" "unat bno < 2 ^ 31"
  shows "wp (bind (bread 1 bno) brelse) (\<lambda>_ t. iostep s t \<and> bidle p t \<and> content t = content s \<and> disk_image t = disk_image s
      \<and> (\<exists>b u. bgot p bno s b u \<and> (\<forall>i. core (bufs t i) = core (bufs (bunref b u) i)))) (bexhausted bno s) s"
proof (rule wp_bindI [OF bread_idle [OF assms]])
  fix b t assume g: "bgot p bno s b t \<and> b_valid (bufs t b) \<noteq> 0 \<and> blk (b_data (bufs t b)) = content s bno"
  note got = bgotD [OF conjunct1 [OF g]]
  have s: "bcache_ok s" "disk_ready p s"
    using assms(1) by (simp_all add: bidle_def)
  have ready: "disk_ready p t"
    using disk_ready_step [OF s(2) got(1,2)] .
  have "blk (b_data (bufs t b)) = diskblk (disk_image t) bno" if "b_refcnt (bufs t b) = 1"
    using bgot_clean [OF conjunct1 [OF g] s(1) assms(2) that] g got(8) by simp
  then obtain w where w: "brelse b t = Ret () w" "iostep t w" "vd_quiet w" "bcache_ok w" "content w = content t"
    "disk_image w = disk_image t" "\<forall>i. core (bufs w i) = core (bufs (bunref b t) i)"
    "sleeplocks w = (sleeplocks t)(SBuf b := (sleeplocks t (SBuf b))\<lparr>sl_locked := 0, sl_pid := 0\<rparr>)"
    using brelse_spec [OF ready got(3-6,9)] by blast
  have "bidle p w"
    using disk_ready_step [OF ready w(2,3)] w(4,8) assms(1) got(11) unfolding bidle_def by simp
  moreover have "iostep s w"
    using iostep_trans [OF w(2) got(1)] .
  ultimately show "wp (brelse b) (\<lambda>_ t. iostep s t \<and> bidle p t \<and> content t = content s \<and> disk_image t = disk_image s
      \<and> (\<exists>b u. bgot p bno s b u \<and> (\<forall>i. core (bufs t i) = core (bufs (bunref b u) i)))) (bexhausted bno s) t"
    using w(1,5-7) got(7,8) conjunct1 [OF g] by (simp add: wp_def) blast
qed simp

section \<open>The cache as its clients see it\<close>

text \<open>
  A process holds the buffers \<open>H\<close>. A block is pinned when a buffer for it would keep a reference
  after the process has released what it holds. \<open>csafe\<close>: the cache is in order, the buffers in \<open>H\<close>
  are held and valid, the others unlocked, and every block whose content is not on the disk yet is
  pinned, so that no change can be lost.
\<close>

definition pinned :: "nat set \<Rightarrow> uint \<Rightarrow> 'z vdisk_scheme \<Rightarrow> bool" where
  "pinned H k s \<longleftrightarrow> (\<exists>i < NBUF. caches k (bufs s i) \<and> (if i \<in> H then 1 else 0) < unat (b_refcnt (bufs s i)))"

definition csafe :: "nat \<Rightarrow> nat set \<Rightarrow> 'z vdisk_scheme \<Rightarrow> bool" where
  "csafe p H s \<longleftrightarrow> disk_ready p s \<and> bcache_ok s \<and> (\<forall>i. i \<notin> H \<longrightarrow> sl_locked (sleeplocks s (SBuf i)) = 0)
     \<and> (\<forall>i \<in> H. i < NBUF \<and> b_dev (bufs s i) = 1 \<and> b_valid (bufs s i) \<noteq> 0 \<and> b_refcnt (bufs s i) \<noteq> 0
          \<and> held_by (p_pid (PCBs s p)) (sleeplocks s (SBuf i)))
     \<and> (\<forall>k. content s k \<noteq> diskblk (disk_image s) k \<longrightarrow> pinned H k s)"

lemma csafeD:
  assumes "csafe p H s"
  shows "disk_ready p s" "bcache_ok s" "i \<notin> H \<Longrightarrow> sl_locked (sleeplocks s (SBuf i)) = 0"
    "content s k \<noteq> diskblk (disk_image s) k \<Longrightarrow> pinned H k s" "bufs_ok (bufs s) (disk_image s) (sleeplocks s)"
  using assms unfolding csafe_def bcache_ok_def by blast+

lemma csafe_held:
  assumes "csafe p H s" "i \<in> H"
  shows "i < NBUF" "b_dev (bufs s i) = 1" "b_valid (bufs s i) \<noteq> 0" "b_refcnt (bufs s i) \<noteq> 0"
    "held_by (p_pid (PCBs s p)) (sleeplocks s (SBuf i))" "caches (b_blockno (bufs s i)) (bufs s i)"
    "content s (b_blockno (bufs s i)) = blk (b_data (bufs s i))"
proof -
  show *: "i < NBUF" "b_dev (bufs s i) = 1" "b_valid (bufs s i) \<noteq> 0" "b_refcnt (bufs s i) \<noteq> 0"
    "held_by (p_pid (PCBs s p)) (sleeplocks s (SBuf i))"
    using assms unfolding csafe_def by blast+
  then show c: "caches (b_blockno (bufs s i)) (bufs s i)"
    by (simp add: caches_def)
  show "content s (b_blockno (bufs s i)) = blk (b_data (bufs s i))"
    by (rule content_cached [OF csafeD(5) [OF assms(1)] *(1) c *(3)])
qed

lemma bgot_pinned:
  assumes "bgot p bno s b t" "b \<notin> H" "room 2 s" "pinned H k s"
  shows "pinned (insert b H) k t"
proof -
  obtain i where i: "i < NBUF" "caches k (bufs s i)" "(if i \<in> H then 1 else 0) < unat (b_refcnt (bufs s i))"
    using assms(4) unfolding pinned_def by blast
  note got = bgotD [OF assms(1)]
  show ?thesis
  proof (cases "i = b")
    case True
    with i(3) assms(2) have "b_refcnt (bufs s b) \<noteq> 0"
      by auto
    then have "b_refcnt (bufs t b) = b_refcnt (bufs s b) + 2" "caches bno (bufs s b)"
      using assms(1) unfolding bgot_def by (auto split: if_splits)
    moreover have "unat (b_refcnt (bufs s b)) + 2 < 2 ^ 32"
      using assms(3) i(1) True unfolding room_def by blast
    then have "unat (b_refcnt (bufs s b) + 2) = unat (b_refcnt (bufs s b)) + 2"
      by (simp add: unat_word_ariths)
    ultimately show ?thesis
      unfolding pinned_def using got(4,5) i(2) True by (intro exI [of _ b]) (auto simp: caches_def)
  next
    case False
    have eq: "core (bufs t i) = core (bufs s i)"
      by (rule got(10)) (fact False)
    show ?thesis
      unfolding pinned_def using i False core_eq(5,7) [OF eq] by (intro exI [of _ i]) simp
  qed
qed

lemma bgot_room:
  assumes "bgot p bno s b t" "room (n + 2) s"
  shows "room n t"
  unfolding room_def
proof (intro allI impI)
  fix i assume i: "i < NBUF"
  then have r: "unat (b_refcnt (bufs s i)) + (n + 2) < 2 ^ 32"
    using assms(2) unfolding room_def by blast
  show "unat (b_refcnt (bufs t i)) + n < 2 ^ 32"
  proof (cases "i = b")
    case True
    have "b_refcnt (bufs t b) = b_refcnt (bufs s b) + 2 \<or> b_refcnt (bufs t b) = 1"
      using assms(1) unfolding bgot_def by (auto split: if_splits)
    with r True show ?thesis
      by (auto simp: unat_word_ariths)
  next
    case False
    have "core (bufs t i) = core (bufs s i)"
      by (rule bgotD(10) [OF assms(1) False])
    with r show ?thesis
      by (simp add: core_eq(5) [of "bufs t i" "bufs s i"])
  qed
qed

lemma cread:
  assumes s: "csafe p H s" "room 2 s" "unat bno < 2 ^ 31" "\<forall>i \<in> H. b_blockno (bufs s i) \<noteq> bno"
  shows "wp (bread 1 bno) (\<lambda>b t. iostep s t \<and> csafe p (insert b H) t \<and> b \<notin> H \<and> caches bno (bufs t b)
      \<and> blk (b_data (bufs t b)) = content s bno \<and> content t = content s \<and> disk_image t = disk_image s
      \<and> (\<forall>k. pinned H k s \<longrightarrow> pinned (insert b H) k t) \<and> (\<forall>i \<in> H. core (bufs t i) = core (bufs s i))
      \<and> (\<forall>n. room (n + 2) s \<longrightarrow> room n t)) (bexhausted bno s) s"
proof -
  have free: "unheld bno s"
    using csafeD(3) [OF s(1)] s(4) unfolding unheld_def caches_def by blast
  show ?thesis
  proof (rule wp_mono [OF bread_spec [OF csafeD(1,2) [OF s(1)] s(2,3) free]])
    fix b t assume g: "bgot p bno s b t \<and> b_valid (bufs t b) \<noteq> 0 \<and> blk (b_data (bufs t b)) = content s bno"
    note got = bgotD [OF conjunct1 [OF g]]
    have b: "b \<notin> H"
    proof
      assume "b \<in> H"
      then have "caches (b_blockno (bufs s b)) (bufs s b)" "b_refcnt (bufs s b) \<noteq> 0" "b_blockno (bufs s b) \<noteq> bno"
        using csafe_held [OF s(1)] s(4) by auto
      then show False
        using g unfolding bgot_def by (auto simp: caches_def split: if_splits)
    qed
    have core: "core (bufs t i) = core (bufs s i)" if "i \<in> H" for i
      using b that got(10) by metis
    have pid: "p_pid (PCBs t p) = p_pid (PCBs s p)"
      by (rule same_pcb_pid [OF iostep_keeps(18) [OF got(1)]])
    have pins: "\<forall>k. pinned H k s \<longrightarrow> pinned (insert b H) k t"
      using bgot_pinned [OF conjunct1 [OF g] b s(2)] by blast
    have "i < NBUF \<and> b_dev (bufs t i) = 1 \<and> b_valid (bufs t i) \<noteq> 0 \<and> b_refcnt (bufs t i) \<noteq> 0
        \<and> held_by (p_pid (PCBs t p)) (sleeplocks t (SBuf i))" if i: "i \<in> insert b H" for i
    proof (cases "i = b")
      case True
      with g got(4-6,9) show ?thesis by (auto simp: caches_def)
    next
      case False
      with i have "i \<in> H"
        by simp
      then show ?thesis
        using csafe_held(1-5) [OF s(1), of i] core_eq [OF core, of i] got(11) pid False by simp
    qed
    moreover have "disk_ready p t"
      using disk_ready_step [OF csafeD(1) [OF s(1)] got(1,2)] .
    moreover have "sl_locked (sleeplocks t (SBuf i)) = 0" if "i \<notin> insert b H" for i
      using that csafeD(3) [OF s(1)] got(11) by auto
    moreover have "pinned (insert b H) k t" if "content t k \<noteq> diskblk (disk_image t) k" for k
      using that got(7,8) csafeD(4) [OF s(1)] pins by simp
    ultimately have "csafe p (insert b H) t"
      using got(3) unfolding csafe_def by blast
    then show "iostep s t \<and> csafe p (insert b H) t \<and> b \<notin> H \<and> caches bno (bufs t b)
      \<and> blk (b_data (bufs t b)) = content s bno \<and> content t = content s \<and> disk_image t = disk_image s
      \<and> (\<forall>k. pinned H k s \<longrightarrow> pinned (insert b H) k t) \<and> (\<forall>i \<in> H. core (bufs t i) = core (bufs s i))
      \<and> (\<forall>n. room (n + 2) s \<longrightarrow> room n t)"
      using got(1,5,7,8) g b core pins bgot_room [OF conjunct1 [OF g]] by blast
  qed simp
qed

lemma crelse:
  assumes s: "csafe p H s" "b \<in> H"
  shows "\<exists>t. brelse b s = Ret () t \<and> iostep s t \<and> csafe p (H - {b}) t \<and> content t = content s \<and> disk_image t = disk_image s
    \<and> (\<forall>k. pinned H k s \<longrightarrow> pinned (H - {b}) k t) \<and> (\<forall>i. i \<noteq> b \<longrightarrow> core (bufs t i) = core (bufs s i))
    \<and> (\<forall>n. room n s \<longrightarrow> room n t)"
proof -
  note h = csafe_held [OF s]
  note ok = csafeD(5) [OF s(1)]
  let ?k = "b_blockno (bufs s b)"
  have dec: "unat (b_refcnt (bufs s b) - 1) = unat (b_refcnt (bufs s b)) - 1"
    using h(4) by (simp add: unat_gt_0 unat_minus_one)
  have "blk (b_data (bufs s b)) = diskblk (disk_image s) ?k" if "b_refcnt (bufs s b) = 1"
  proof -
    have "i = b" if "i < NBUF" "caches ?k (bufs s i)" for i
      using bufs_okD(2) [OF ok h(1,6) that] .
    then have "\<not> pinned H ?k s"
      unfolding pinned_def using s(2) that by fastforce
    then show ?thesis
      using csafeD(4) [OF s(1), of ?k] h(7) by auto
  qed
  then obtain t where t: "brelse b s = Ret () t" "iostep s t" "vd_quiet t" "bcache_ok t" "content t = content s"
    "disk_image t = disk_image s" "\<forall>i. core (bufs t i) = core (bufs (bunref b s) i)"
    "sleeplocks t = (sleeplocks s)(SBuf b := (sleeplocks s (SBuf b))\<lparr>sl_locked := 0, sl_pid := 0\<rparr>)"
    using brelse_spec [OF csafeD(1,2) [OF s(1)] h(1,6,4,5)] by blast
  have core: "core (bufs t i) = core (bufs s i)" if "i \<noteq> b" for i
    using t(7) that by simp
  have cb: "b_refcnt (bufs t b) = b_refcnt (bufs s b) - 1" "caches k (bufs t b) = caches k (bufs s b)" for k
    using core_eq(5,7) [of "bufs t b" "bufs (bunref b s) b"] t(7) by (simp_all add: caches_def)
  have pins: "pinned (H - {b}) k t" if pk: "pinned H k s" for k
  proof -
    obtain i where i: "i < NBUF" "caches k (bufs s i)" "(if i \<in> H then 1 else 0) < unat (b_refcnt (bufs s i))"
      using pk unfolding pinned_def by blast
    then show ?thesis
      unfolding pinned_def using cb dec core_eq(5,7) [OF core, of i] s(2) by (intro exI [of _ i]) (cases "i = b"; simp)
  qed
  have pid: "p_pid (PCBs t p) = p_pid (PCBs s p)"
    by (rule same_pcb_pid [OF iostep_keeps(18) [OF t(2)]])
  have "i < NBUF \<and> b_dev (bufs t i) = 1 \<and> b_valid (bufs t i) \<noteq> 0 \<and> b_refcnt (bufs t i) \<noteq> 0
        \<and> held_by (p_pid (PCBs t p)) (sleeplocks t (SBuf i))" if "i \<in> H - {b}" for i
    using csafe_held(1-5) [OF s(1), of i] core_eq [OF core, of i] t(8) pid that by simp
  moreover have "disk_ready p t"
    using disk_ready_step [OF csafeD(1) [OF s(1)] t(2,3)] .
  moreover have "sl_locked (sleeplocks t (SBuf i)) = 0" if "i \<notin> H - {b}" for i
    using that csafeD(3) [OF s(1)] t(8) by auto
  moreover have "pinned (H - {b}) k t" if "content t k \<noteq> diskblk (disk_image t) k" for k
    using that t(5,6) csafeD(4) [OF s(1)] pins by simp
  ultimately have "csafe p (H - {b}) t"
    using t(4) unfolding csafe_def by blast
  moreover have "room n t" if "room n s" for n
    unfolding room_def
  proof (intro allI impI)
    fix i assume "i < NBUF"
    then have "unat (b_refcnt (bufs s i)) + n < 2 ^ 32"
      using that unfolding room_def by blast
    then show "unat (b_refcnt (bufs t i)) + n < 2 ^ 32"
      using cb(1) dec core_eq(5) [OF core, of i] by (cases "i = b") simp_all
  qed
  ultimately show ?thesis
    using t core pins by blast
qed

lemma csafe_step:
  assumes s: "csafe p H s" "iostep s t" "vd_quiet t" "bcache_ok t" "sleeplocks t = sleeplocks s"
    and same: "\<And>i. b_dev (bufs t i) = b_dev (bufs s i)" "\<And>i. b_valid (bufs t i) = b_valid (bufs s i)"
      "\<And>i. i \<in> H \<Longrightarrow> b_refcnt (bufs t i) \<noteq> 0"
    and pins: "\<And>k. content t k \<noteq> diskblk (disk_image t) k \<Longrightarrow> pinned H k t"
  shows "csafe p H t"
proof -
  have "p_pid (PCBs t p) = p_pid (PCBs s p)"
    by (rule same_pcb_pid [OF iostep_keeps(18) [OF s(2)]])
  then show ?thesis
    unfolding csafe_def using s(4,5) csafe_held(1-5) [OF s(1)] csafeD(3) [OF s(1)] same pins
      disk_ready_step [OF csafeD(1) [OF s(1)] s(2,3)] by simp
qed

lemma cput:
  assumes s: "csafe p H s" "b \<in> H" "bno = b_blockno (bufs s b)"
  shows "\<exists>t. bwrite b (set_buf b (\<lambda>c. c\<lparr>b_data := f (b_data c)\<rparr>) s) = Ret () t
    \<and> iostep s t \<and> csafe p H t \<and> content t = (content s)(bno := blk (f (b_data (bufs s b))))
    \<and> (\<forall>k. diskblk (disk_image t) k = (if k = bno then blk (f (b_data (bufs s b))) else diskblk (disk_image s) k))
    \<and> (\<forall>k. pinned H k s \<longrightarrow> pinned H k t) \<and> (\<forall>n. room n s \<longrightarrow> room n t)
    \<and> bufs t = (bufs s)(b := (bufs s b)\<lparr>b_data := f (b_data (bufs s b)), b_disk := 0\<rparr>)"
proof -
  note h = csafe_held [OF s(1,2)]
  let ?d = "f (b_data (bufs s b))"
  define u where "u = set_buf b (\<lambda>c. c\<lparr>b_data := f (b_data c)\<rparr>) s"
  have ub: "bufs u = (bufs s)(b := (bufs s b)\<lparr>b_data := ?d\<rparr>)" "disk_image u = disk_image s" "sleeplocks u = sleeplocks s"
    by (simp_all add: u_def)
  note upd = bcache_ok_upd [OF csafeD(2) [OF s(1)] h(1,6) ub]
  have cu: "content u = (content s)(bno := blk ?d)"
    using upd(2,3) h s(3) by (auto simp: caches_def)
  have du: "disk_ready p u"
    using csafeD(1) [OF s(1)] unfolding disk_ready_def u_def by simp
  obtain v where v: "bwrite b u = Ret () v" "iostep u v" "vd_quiet v" "bcache_ok v" "content v = content u"
    "sleeplocks v = sleeplocks u" "bufs v = (bufs u)(b := (bufs u b)\<lparr>b_disk := 0\<rparr>)"
    "\<forall>k. diskblk (disk_image v) k = (if k = bno then content u bno else diskblk (disk_image u) k)"
    using bwrite_spec [OF du _ h(1), of bno] upd(1) h ub s(3) unfolding u_def by (auto simp: caches_def)
  have io: "iostep s v"
    using iostep_trans [OF v(2)] iostep_set_buf [OF io_refl] by (auto simp: u_def)
  have bv: "bufs v = (bufs s)(b := (bufs s b)\<lparr>b_data := ?d, b_disk := 0\<rparr>)"
    using v(7) ub by simp
  then have same: "b_refcnt (bufs v i) = b_refcnt (bufs s i)" "caches k (bufs v i) = caches k (bufs s i)" for i k
    by (simp_all add: caches_def)
  then have pins: "pinned H k v = pinned H k s" and room: "room n v = room n s" for k n
    by (simp_all only: pinned_def room_def)
  have dv: "\<forall>k. diskblk (disk_image v) k = (if k = bno then blk ?d else diskblk (disk_image s) k)"
    using v(8) cu ub(2) by simp
  have "csafe p H v"
    by (rule csafe_step [OF s(1) io v(3,4)])
      (use v(5,6) ub(3) bv cu dv pins csafeD(4) [OF s(1)] csafe_held(4) [OF s(1)] in \<open>auto split: if_splits\<close>)
  then show ?thesis
    using v(1,5) io cu dv pins room bv by (simp add: u_def)
qed

text \<open>
  Changing the data of a held buffer: the change must be pinned before the buffer is released. The
  operations \<^verbatim>\<open>bpin\<close> and \<^verbatim>\<open>bunpin\<close> change the reference count and nothing else.
\<close>

lemma bpin_run: "calm s \<Longrightarrow> bpin b s = Ret () (bref b s)"
  unfolding bpin_def by (rule calm_critical) simp_all

lemma bunpin_run: "calm s \<Longrightarrow> bunpin b s = Ret () (bunref b s)"
  unfolding bunpin_def by (rule calm_critical) simp_all

lemma csafe_change:
  assumes s: "csafe p H s" "b \<in> H" "y = b_blockno (bufs s b)"
    and t: "bufs t = (bufs s)(b := c)" "disk_image t = disk_image s" "sleeplocks t = sleeplocks s" "iostep s t" "vd_quiet t"
    and c: "caches y c" "b_refcnt c \<noteq> 0" "b_next c = b_next (bufs s b)" "b_prev c = b_prev (bufs s b)" "b_valid c = b_valid (bufs s b)"
    and pin: "blk (b_data c) \<noteq> diskblk (disk_image s) y \<Longrightarrow> (1::nat) < unat (b_refcnt c)"
  shows "csafe p H t" "content t = (content s)(y := blk (b_data c))" "k \<noteq> y \<Longrightarrow> pinned H k s \<Longrightarrow> pinned H k t"
    "1 < unat (b_refcnt c) \<Longrightarrow> pinned H y t"
proof -
  note h = csafe_held [OF s(1,2)]
  have cy: "caches y (bufs s b)"
    using h(6) s(3) by simp
  note upd = bcache_ok_upd [OF csafeD(2) [OF s(1)] h(1) cy t(1-3) c(1-4)]
  show ct: "content t = (content s)(y := blk (b_data c))"
    using upd(2,3) h(3) c(5) by auto
  show pins: "pinned H k t" if ne: "k \<noteq> y" and pk: "pinned H k s" for k
  proof -
    obtain i where "i < NBUF" "caches k (bufs s i)" "(if i \<in> H then 1 else 0) < unat (b_refcnt (bufs s i))"
      using pk unfolding pinned_def by blast
    moreover from this have "i \<noteq> b"
      using ne cy by (auto simp: caches_def)
    ultimately show ?thesis
      unfolding pinned_def using t(1) by (intro exI [of _ i]) simp
  qed
  show py: "pinned H y t" if "1 < unat (b_refcnt c)"
    unfolding pinned_def using h(1) c(1) t(1) s(2) that by (intro exI [of _ b]) simp
  show "csafe p H t"
  proof (rule csafe_step [OF s(1) t(4,5) upd(1) t(3)])
    fix k assume "content t k \<noteq> diskblk (disk_image t) k"
    then show "pinned H k t"
      using pin py pins csafeD(4) [OF s(1), of k] ct t(2) by (cases "k = y") auto
  qed (use t(1) c cy csafe_held(4) [OF s(1)] in \<open>auto simp: caches_def\<close>)
qed

text \<open>
  The effect of a complete access, after which the process holds no buffer: \<open>n\<close> is how much room in
  the reference counts it needs, and only the blocks \<open>U\<close> may lose a pin.
\<close>

definition cdone :: "nat \<Rightarrow> nat \<Rightarrow> uint set \<Rightarrow> 'z vdisk_scheme \<Rightarrow> 'z vdisk_scheme \<Rightarrow> bool" where
  "cdone p n U s t \<longleftrightarrow> iostep s t \<and> csafe p {} t \<and> (\<forall>k. k \<notin> U \<longrightarrow> pinned {} k s \<longrightarrow> pinned {} k t)
     \<and> (\<forall>m. room (m + n) s \<longrightarrow> room m t)"

definition out_of_bufs :: "fault \<Rightarrow> 's \<Rightarrow> bool" where
  "out_of_bufs e t \<longleftrightarrow> e = Panic ''bget''"

lemma bexhausted_out: "bexhausted bno s e t \<Longrightarrow> out_of_bufs e t"
  by (simp add: bexhausted_def out_of_bufs_def)

lemma cdone_refl: "csafe p {} s \<Longrightarrow> cdone p 0 {} s s"
  by (simp add: cdone_def io_refl)

lemma cdone_trans:
  assumes "cdone p m U s t" "cdone p n V t u"
  shows "cdone p (m + n) (U \<union> V) s u"
  unfolding cdone_def
proof (intro conjI allI impI)
  show "iostep s u" "csafe p {} u"
    using assms iostep_trans unfolding cdone_def by blast+
  show "pinned {} k u" if "k \<notin> U \<union> V" "pinned {} k s" for k
    using assms that unfolding cdone_def by blast
  show "room r u" if "room (r + (m + n)) s" for r
  proof -
    have "room ((r + n) + m) s"
      using that by (simp add: ac_simps)
    then show ?thesis
      using assms unfolding cdone_def by blast
  qed
qed

lemma room_mono: "room m s \<Longrightarrow> n \<le> m \<Longrightarrow> room n s"
  unfolding room_def by fastforce

text \<open>Nothing but the parts named in \<open>iostep\<close> changes, in particular nothing of the components above.\<close>

lemma iostep_more: "iostep s t \<Longrightarrow> vdisk.more t = vdisk.more s"
  by (induction rule: iostep.induct) simp_all

section \<open>The contract of the cache\<close>

text \<open>
  C22. The buffer cache is coherent: as long as some buffer is free, \<^verbatim>\<open>bread\<close> of a block nobody
  holds returns a buffer of that block, locked by the caller, whose data is the current content of
  the block: what the cache holds of it, else what is on the disk. The content of every block, the
  disk and all other buffers are unchanged, and the invariant of the cache holds again.
\<close>

theorem bread_returns_content:
  assumes "disk_ready p s" "bcache_ok s" "room 2 s" "unat bno < 2 ^ 31" "unheld bno s"
    and "i < NBUF" "b_refcnt (bufs s i) = 0"
  shows "\<exists>b t. bread 1 bno s = Ret b t \<and> disk_ready p t \<and> bcache_ok t \<and> iostep s t
    \<and> caches bno (bufs t b) \<and> blk (b_data (bufs t b)) = content s bno
    \<and> held_by (p_pid (PCBs t p)) (sleeplocks t (SBuf b)) \<and> content t = content s \<and> disk_image t = disk_image s
    \<and> (\<forall>i. i \<noteq> b \<longrightarrow> core (bufs t i) = core (bufs s i))"
proof -
  have "wp (bread 1 bno) (\<lambda>b t. bgot p bno s b t \<and> b_valid (bufs t b) \<noteq> 0 \<and> blk (b_data (bufs t b)) = content s bno) never s"
    by (rule wp_mono [OF bread_spec [OF assms(1-5)]]) (use assms(6,7) in \<open>auto simp: bexhausted_def\<close>)
  then obtain b t where t: "bread 1 bno s = Ret b t" "bgot p bno s b t" "blk (b_data (bufs t b)) = content s bno"
    unfolding wp_returns by blast
  then show ?thesis
    using bgotD [OF t(2)] disk_ready_step [OF assms(1)] by blast
qed

text \<open>
  C23. A block written through the cache stays written: after \<^verbatim>\<open>bread\<close>, a change of the data,
  \<^verbatim>\<open>bwrite\<close> and \<^verbatim>\<open>brelse\<close> the disk holds the new data, no other block of the disk or of the cache
  has changed, and a later \<^verbatim>\<open>bread\<close> returns the data, unless \<^verbatim>\<open>bget\<close> panics because every buffer
  is referred to and none has the block.
\<close>

theorem bwrite_then_bread:
  fixes s :: "'z vdisk_scheme"
  assumes "bidle p s" "room 2 s" "unat bno < 2 ^ 31"
  shows "wp (bind (bread 1 bno) (\<lambda>b. andthen (modify (set_buf b (\<lambda>c. c\<lparr>b_data := d\<rparr>))) (andthen (bwrite b) (brelse b))))
    (\<lambda>_ t. bidle p t \<and> iostep s t \<and> content t = (content s)(bno := blk d)
      \<and> (\<forall>k. diskblk (disk_image t) k = (if k = bno then blk d else diskblk (disk_image s) k))
      \<and> (room 2 t \<longrightarrow> wp (bread 1 bno) (\<lambda>b u. blk (b_data (bufs u b)) = blk d) (bexhausted bno t) t))
    (bexhausted bno s) s"
proof -
  have "wp (block_put bno d) (\<lambda>_ t. bidle p t \<and> iostep s t \<and> content t = (content s)(bno := blk d)
      \<and> (\<forall>k. diskblk (disk_image t) k = (if k = bno then blk d else diskblk (disk_image s) k))
      \<and> (room 2 t \<longrightarrow> wp (bread 1 bno) (\<lambda>b u. blk (b_data (bufs u b)) = blk d) (bexhausted bno t) t)) (bexhausted bno s) s"
  proof (rule wp_mono [OF block_put_spec [OF assms, of d]])
    fix u and t :: "'z vdisk_scheme"
    assume t: "iostep s t \<and> bidle p t \<and> content t = (content s)(bno := blk d)
      \<and> (\<forall>k. diskblk (disk_image t) k = (if k = bno then blk d else diskblk (disk_image s) k))"
    then have "wp (bread 1 bno) (\<lambda>b u. blk (b_data (bufs u b)) = blk d) (bexhausted bno t) t" if "room 2 t"
      by (intro wp_mono [OF bread_idle [OF _ that assms(3)]]) auto
    with t show "bidle p t \<and> iostep s t \<and> content t = (content s)(bno := blk d)
      \<and> (\<forall>k. diskblk (disk_image t) k = (if k = bno then blk d else diskblk (disk_image s) k))
      \<and> (room 2 t \<longrightarrow> wp (bread 1 bno) (\<lambda>b u. blk (b_data (bufs u b)) = blk d) (bexhausted bno t) t)"
      by blast
  qed
  then show ?thesis
    by (simp only: block_put_def)
qed

lemma hit_counts:
  assumes "bidle p s" "room 2 s" "b < NBUF" "caches bno (bufs s b)"
  shows "wp (bind (bread 1 bno) brelse) (\<lambda>_ t. bidle p t \<and> content t = content s \<and> disk_image t = disk_image s
      \<and> (\<forall>i. b_refcnt (bufs t i) = (if i = b then b_refcnt (bufs s b) + 1 else b_refcnt (bufs s i))
           \<and> b_dev (bufs t i) = b_dev (bufs s i) \<and> b_blockno (bufs t i) = b_blockno (bufs s i))) never s"
proof -
  have ok: "bufs_ok (bufs s) (disk_image s) (sleeplocks s)"
    using assms(1) by (simp add: bidle_def bcache_ok_def)
  show ?thesis
  proof (rule wp_mono [OF bread_brelse [OF assms(1,2) bufs_okD(1) [OF ok assms(3,4)]]])
    fix t assume "iostep s t \<and> bidle p t \<and> content t = content s \<and> disk_image t = disk_image s
      \<and> (\<exists>b u. bgot p bno s b u \<and> (\<forall>i. core (bufs t i) = core (bufs (bunref b u) i)))"
    then obtain c u where t: "bidle p t" "content t = content s" "disk_image t = disk_image s"
      and c: "bgot p bno s c u" and core: "\<And>i. core (bufs t i) = core (bufs (bunref c u) i)"
      by blast
    have "caches bno (bufs s c)" "c < NBUF"
      using c assms(3,4) unfolding bgot_def by (auto split: if_splits)
    then have cb: "c = b"
      using bufs_okD(2) [OF ok assms(3,4)] by blast
    then have u: "b_refcnt (bufs u b) = b_refcnt (bufs s b) + 2" "caches bno (bufs u b)"
      and o: "i \<noteq> b \<Longrightarrow> core (bufs u i) = core (bufs s i)" for i
      using c assms(4) unfolding bgot_def by auto
    have "b_refcnt (bufs t i) = (if i = b then b_refcnt (bufs s b) + 1 else b_refcnt (bufs s i))
           \<and> b_dev (bufs t i) = b_dev (bufs s i) \<and> b_blockno (bufs t i) = b_blockno (bufs s i)" for i
      using core_eq(2,3,5) [OF core [of i]] core_eq(2,3,5) [OF o [of i]] u assms(4) cb by (auto simp: caches_def)
    with t show "bidle p t \<and> content t = content s \<and> disk_image t = disk_image s
      \<and> (\<forall>i. b_refcnt (bufs t i) = (if i = b then b_refcnt (bufs s b) + 1 else b_refcnt (bufs s i))
           \<and> b_dev (bufs t i) = b_dev (bufs s i) \<and> b_blockno (bufs t i) = b_blockno (bufs s i))"
      by blast
  qed (use assms(3,4) in \<open>auto simp: bexhausted_def\<close>)
qed

lemma reread_all:
  fixes s :: "'z vdisk_scheme"
  assumes s: "bidle p s" "room 3 s" "\<And>i. i < NBUF \<Longrightarrow> b_dev (bufs s i) = 1"
  shows "wp (forM (map (\<lambda>i. b_blockno (bufs s i)) [0..<NBUF]) (\<lambda>k. bind (bread 1 k) brelse))
    (\<lambda>_ t. bidle p t \<and> content t = content s \<and> disk_image t = disk_image s
      \<and> (\<forall>i < NBUF. b_refcnt (bufs t i) = b_refcnt (bufs s i) + 1 \<and> b_dev (bufs t i) = b_dev (bufs s i) \<and> b_blockno (bufs t i) = b_blockno (bufs s i))) never s"
proof -
  let ?I = "\<lambda>ys t. bidle p t \<and> content t = content s \<and> disk_image t = disk_image s
    \<and> (\<forall>i. b_refcnt (bufs t i) = (if i < length ys then b_refcnt (bufs s i) + 1 else b_refcnt (bufs s i))
         \<and> b_dev (bufs t i) = b_dev (bufs s i) \<and> b_blockno (bufs t i) = b_blockno (bufs s i))"
  let ?ks = "map (\<lambda>i. b_blockno (bufs s i)) [0..<NBUF]"
  have "wp (forM ?ks (\<lambda>k. bind (bread 1 k) brelse)) (\<lambda>_. ?I ?ks) never s"
  proof (rule wp_forM)
    show "?I [] s"
      using s(1) by simp
    fix ys y zs and t :: "'z vdisk_scheme" assume x: "?ks = ys @ y # zs" and I: "?I ys t"
    define b where "b = length ys"
    have b: "b < NBUF"
      using arg_cong [OF x, of length] by (simp add: b_def)
    have "y = ?ks ! b"
      unfolding x b_def by simp
    with b have y: "y = b_blockno (bufs s b)"
      by simp
    have "caches y (bufs t b)"
      using I s(3) [OF b] y by (simp add: caches_def)
    moreover have "unat (b_refcnt (bufs s i) + 1) = unat (b_refcnt (bufs s i)) + 1" if "i < NBUF" for i
      using s(2) that unfolding room_def by (auto simp: unat_word_ariths)
    then have "room 2 t"
      using I s(2) unfolding room_def by auto
    ultimately show "wp (bind (bread 1 y) brelse) (\<lambda>_. ?I (ys @ [y])) never t"
      using I b by (intro wp_mono [OF hit_counts [of p t b y]]) (auto simp: b_def less_Suc_eq)
  qed
  then show ?thesis
    by (rule wp_mono) auto
qed

text \<open>
  C24. The cache runs full for good. \<^verbatim>\<open>bget\<close> counts a hit twice and \<^verbatim>\<open>brelse\<close> takes back one, so
  that a buffer found in the cache keeps a reference after its release. Once every buffer has been
  found once more, with nobody holding any of them, reading a block that is not cached panics.
\<close>

theorem cache_hits_exhaust_buffers:
  fixes s :: "'z vdisk_scheme"
  assumes "bidle p s" "room 3 s" "\<forall>i < NBUF. b_dev (bufs s i) = 1"
  shows "\<exists>t. forM (map (\<lambda>i. b_blockno (bufs s i)) [0..<NBUF]) (\<lambda>k. bind (bread 1 k) brelse) s = Ret () t
    \<and> bidle p t \<and> content t = content s \<and> disk_image t = disk_image s
    \<and> (\<forall>k. (\<forall>i < NBUF. b_blockno (bufs s i) \<noteq> k) \<longrightarrow> (\<exists>u. bread 1 k t = Fault (Panic ''bget'') u))"
proof -
  obtain t where t: "forM (map (\<lambda>i. b_blockno (bufs s i)) [0..<NBUF]) (\<lambda>k. bind (bread 1 k) brelse) s = Ret () t"
    "bidle p t" "content t = content s" "disk_image t = disk_image s"
    and same: "\<And>i. i < NBUF \<Longrightarrow> b_refcnt (bufs t i) = b_refcnt (bufs s i) + 1"
      "\<And>i. i < NBUF \<Longrightarrow> b_blockno (bufs t i) = b_blockno (bufs s i)"
    using reread_all [of p s] assms unfolding wp_returns by auto
  have "\<exists>u. bread 1 k t = Fault (Panic ''bget'') u" if k: "\<forall>i < NBUF. b_blockno (bufs s i) \<noteq> k" for k
  proof -
    obtain xs where xs: "bring (bufs t) xs" "set xs = {..<NBUF}" and d: "disk_ready p t"
      using t(2) unfolding bidle_def bcache_ok_def by blast
    have "find (\<lambda>b. b_dev (bufs t b) = 1 \<and> b_blockno (bufs t b) = k) xs = None"
      using k same(2) xs(2) by (auto simp: find_None_iff)
    moreover have "b_refcnt (bufs t i) \<noteq> 0" if "i < NBUF" for i
      using same(1) [OF that] assms(2) that unfolding room_def
      by (auto dest!: arg_cong [where f = unat] spec [of _ i] simp: unat_word_ariths)
    then have "find (\<lambda>b. b_refcnt (bufs t b) = 0) xs = None"
      using xs(2) by (auto simp: find_None_iff)
    ultimately show ?thesis
      using bget_run [OF d xs, of 1 k] by (simp add: bread_def)
  qed
  with t show ?thesis by blast
qed

text \<open>Buffers on the list that \<^verbatim>\<open>binit\<close> builds, for the examples.\<close>

definition some_bufs :: "(nat \<Rightarrow> buf) \<Rightarrow> nat \<Rightarrow> buf" where
  "some_bufs bs i = (bs i)\<lparr>b_next := (if i = 0 then bhead else i - 1), b_prev := (if i = bhead then 0 else i + 1)\<rparr>"

lemma some_bufs_ring: "bring (some_bufs bs) (rev [0..<NBUF])"
proof -
  have "links (\<lambda>b. b_next (some_bufs bs b)) (\<lambda>b. b_prev (some_bufs bs b)) n (rev [0..<n]) bhead" if "n \<le> bhead" for n
    using that by (induction n) (auto simp: some_bufs_def)
  then show ?thesis
    by (simp add: bring_def ring_def bhead_def)
qed

lemma some_disk_idle:
  assumes "bufs_ok bs img (\<lambda>_. \<lparr>sl_locked = 0, sl_name = [], sl_pid = 0\<rparr>)"
  shows "bidle 1 (some_disk (some_bufs bs) img)"
proof -
  have "sleeplocks (some_disk (some_bufs bs) img) = (\<lambda>_. \<lparr>sl_locked = 0, sl_name = [], sl_pid = 0\<rparr>)"
    by (simp add: some_disk_def some_slk_def slk.extend_def procs.extend_def onproc_def machine_defs)
  moreover have "bufs_ok (some_bufs bs) img (\<lambda>_. \<lparr>sl_locked = 0, sl_name = [], sl_pid = 0\<rparr>)"
    using assms by (subst bufs_ok_cong [of _ bs]) (simp_all add: some_bufs_def)
  moreover have "set (rev [0..<NBUF]) = {..<NBUF}"
    by auto
  ultimately show ?thesis
    using some_bufs_ring [of bs] unfolding bidle_def bcache_ok_def disk_ready_def by (auto simp: NPROC_def)
qed

theorem bread_returns_content_witness:
  "\<exists>b t. bread 1 3 (some_disk (some_bufs (\<lambda>_. zero_buf)) (\<lambda>k _. of_nat k)) = Ret b t
    \<and> bcache_ok t \<and> b_data (bufs t b) 700 = 7"
proof -
  let ?s = "some_disk (some_bufs (\<lambda>_. zero_buf)) (\<lambda>k _. of_nat k)"
  have "bufs_ok (\<lambda>_. zero_buf) (\<lambda>k _. of_nat k) (\<lambda>_. \<lparr>sl_locked = 0, sl_name = [], sl_pid = 0\<rparr>)"
    by (simp add: bufs_ok_def zero_buf_def)
  then have i: "bidle 1 ?s"
    by (rule some_disk_idle)
  have b: "bufs ?s i = some_bufs (\<lambda>_. zero_buf) i" for i
    by simp
  obtain b t where t: "bread 1 3 ?s = Ret b t" "bcache_ok t" "blk (b_data (bufs t b)) = content ?s 3"
    using bread_returns_content [of 1 ?s 3 0] i bidle_unheld [OF i]
    unfolding bidle_def by (auto simp: room_def some_bufs_def zero_buf_def NBUF_def)
  have "content ?s 3 = diskblk (\<lambda>k _. of_nat k) 3"
    by (subst content_absent) (simp_all add: some_bufs_def zero_buf_def)
  then have "blk (b_data (bufs t b)) 700 = 7"
    using t(3) by (simp add: diskblk_def blk_def BSIZE_def)
  then have "b_data (bufs t b) 700 = 7"
    by (simp add: BSIZE_def)
  with t show ?thesis by blast
qed

theorem bwrite_then_bread_witness:
  "wp (bind (bread 1 3) (\<lambda>b. andthen (modify (set_buf b (\<lambda>c. c\<lparr>b_data := \<lambda>_. 9\<rparr>))) (andthen (bwrite b) (brelse b))))
    (\<lambda>_ t. diskblk (disk_image t) 3 5 = 9) never (some_disk (some_bufs (\<lambda>_. zero_buf)) (\<lambda>k _. of_nat k))"
proof -
  let ?s = "some_disk (some_bufs (\<lambda>_. zero_buf)) (\<lambda>k _. of_nat k)"
  have "bufs_ok (\<lambda>_. zero_buf) (\<lambda>k _. of_nat k) (\<lambda>_. \<lparr>sl_locked = 0, sl_name = [], sl_pid = 0\<rparr>)"
    by (simp add: bufs_ok_def zero_buf_def)
  then have i: "bidle 1 ?s"
    by (rule some_disk_idle)
  have r: "room 2 ?s" "\<not> bexhausted 3 ?s e t" for e t
    by (auto simp: room_def bexhausted_def some_bufs_def zero_buf_def NBUF_def intro: exI [of _ 0])
  have "unat (3 :: uint) < 2 ^ 31"
    by simp
  then show ?thesis
    by (rule wp_mono [OF bwrite_then_bread [OF i r(1), of 3 "\<lambda>_. 9"]]) (use r(2) in \<open>auto simp: blk_def BSIZE_def\<close>)
qed

theorem cache_hits_exhaust_buffers_witness:
  "\<exists>t u. forM (map of_nat [0..<NBUF]) (\<lambda>k. bind (bread 1 k) brelse)
      (some_disk (some_bufs (\<lambda>i. zero_buf\<lparr>b_dev := 1, b_blockno := of_nat i\<rparr>)) (\<lambda>_ _. 0)) = Ret () t
    \<and> bidle 1 t \<and> bread 1 100 t = Fault (Panic ''bget'') u"
proof -
  let ?bs = "\<lambda>i. zero_buf\<lparr>b_dev := 1, b_blockno := of_nat i\<rparr>"
  let ?s = "some_disk (some_bufs ?bs) (\<lambda>_ _. 0)"
  have small: "unat (of_nat i :: uint) = i" if "i < NBUF" for i
    using that by (simp add: unat_of_nat NBUF_def)
  have inj: "of_nat i = (of_nat j :: uint) \<Longrightarrow> i < NBUF \<Longrightarrow> j < NBUF \<Longrightarrow> i = j" for i j
    using small by metis
  have "bufs_ok ?bs (\<lambda>_ _. 0) (\<lambda>_. \<lparr>sl_locked = 0, sl_name = [], sl_pid = 0\<rparr>)"
    unfolding bufs_ok_def using small inj by (auto simp: zero_buf_def NBUF_def)
  then have i: "bidle 1 ?s"
    by (rule some_disk_idle)
  have b: "map (\<lambda>i. b_blockno (bufs ?s i)) [0..<NBUF] = map of_nat [0..<NBUF]"
    by (simp add: some_bufs_def)
  have "of_nat i \<noteq> (100 :: uint)" if "i < NBUF" for i
    using small [OF that] that by (auto simp: NBUF_def)
  then have "\<forall>i < NBUF. b_blockno (bufs ?s i) \<noteq> 100"
    by (simp add: some_bufs_def)
  moreover have "room 3 ?s" "\<forall>i < NBUF. b_dev (bufs ?s i) = 1"
    by (auto simp: room_def some_bufs_def zero_buf_def)
  ultimately show ?thesis
    using cache_hits_exhaust_buffers [OF i] unfolding b by blast
qed



end
