(* ===== verification/Log.thy ===== *)
theory Log
  imports Bio
begin

text \<open>
  The redo log (\<^verbatim>\<open>kernel/disk/log.c\<close>): file-system operations are bracketed by \<^verbatim>\<open>begin_op\<close> and
  \<^verbatim>\<open>end_op\<close>, changed blocks are registered with \<^verbatim>\<open>log_write\<close>, and the last operation to end
  writes them to the log area, then the log header, then to their places.
\<close>

section \<open>State and operations\<close>

definition MAXOPBLOCKS :: int where "MAXOPBLOCKS = 30"
definition LOGBLOCKS :: int where "LOGBLOCKS = 90"

record klog = vdisk +
  log_start :: int
  log_outstanding :: int
  log_committing :: int
  log_dev :: int
  lh_n :: int
  lh_block :: "nat \<Rightarrow> uint"

text \<open>
  Both operands of the comparison are converted to \<^verbatim>\<open>uint\<close>. The first index of the block in the
  header, or \<^verbatim>\<open>n\<close> when there is none.
\<close>

primrec log_absorb :: "nat \<Rightarrow> nat \<Rightarrow> (nat \<Rightarrow> uint) \<Rightarrow> uint \<Rightarrow> nat" where
  "log_absorb 0 i blocks bno = i"
| "log_absorb (Suc k) i blocks bno = (if blocks i = bno then i else log_absorb k (i + 1) blocks bno)"

definition log_write :: "nat \<Rightarrow> ('z klog_scheme, unit) oper" where
  "log_write b =
     andthen (acquire LLog)
     (bind (gets lh_n) (\<lambda>n.
      if LOGBLOCKS \<le> n then panic ''too big a transaction''
      else bind (gets log_outstanding) (\<lambda>o'.
      if o' < 1 then panic ''log_write outside of trans''
      else bind (gets (\<lambda>s. b_blockno (bufs s b))) (\<lambda>bno.
      bind (gets (\<lambda>s. log_absorb (nat n) 0 (lh_block s) bno)) (\<lambda>i.
      andthen (modify (\<lambda>s. s\<lparr>lh_block := (lh_block s)(i := bno)\<rparr>))
      (andthen (whenM (int i = n)
        (andthen (bpin b) (modify (\<lambda>s. s\<lparr>lh_n := lh_n s + 1\<rparr>))))
      (release LLog)))))))"

text \<open>
  \<^verbatim>\<open>struct logheader\<close> on disk: \<^verbatim>\<open>n\<close> at offset 0, \<^verbatim>\<open>block[i]\<close> at offset \<open>4 + 4 i\<close>. A header that counts
  more than \<open>LOGBLOCKS\<close> blocks makes \<^verbatim>\<open>read_head\<close> write past the array.
\<close>

definition read_head :: "('z klog_scheme, unit) oper" where
  "read_head =
     bind (gets (\<lambda>s. (of_int (log_dev s), of_int (log_start s)))) (\<lambda>(dev, start).
     bind (bread dev start) (\<lambda>b.
     bind (gets (\<lambda>s. b_data (bufs s b))) (\<lambda>d.
     andthen (modify (\<lambda>s. s\<lparr>lh_n := sint (get32 d 0)\<rparr>))
     (bind (gets lh_n) (\<lambda>n.
      andthen (forM [0..<nat n] (\<lambda>i.
         if int i < LOGBLOCKS then modify (\<lambda>s. s\<lparr>lh_block := (lh_block s)(i := get32 d (4 + 4 * i))\<rparr>)
         else Fault Wild))
      (brelse b))))))"

definition write_head :: "('z klog_scheme, unit) oper" where
  "write_head =
     bind (gets (\<lambda>s. (of_int (log_dev s), of_int (log_start s)))) (\<lambda>(dev, start).
     bind (bread dev start) (\<lambda>b.
     bind (gets lh_n) (\<lambda>n.
     andthen (forM [0..<nat n] (\<lambda>i.
        modify (\<lambda>s. set_buf b (\<lambda>c. c\<lparr>b_data := put32 (b_data c) (4 + 4 * i) (lh_block s i)\<rparr>) s)))
     (andthen (bwrite b)
     (brelse b)))))"

text \<open>\<^verbatim>\<open>memmove(to->data, from->data, BSIZE)\<close> between two buffers.\<close>

definition buf_copy :: "nat \<Rightarrow> nat \<Rightarrow> 'z vdisk_scheme \<Rightarrow> 'z vdisk_scheme" where
  "buf_copy to from s =
     set_buf to (\<lambda>c. c\<lparr>b_data := (\<lambda>i. if i < BSIZE then b_data (bufs s from) i else b_data c i)\<rparr>) s"

definition install_one :: "bool \<Rightarrow> nat \<Rightarrow> ('z klog_scheme, unit) oper" where
  "install_one recovering tail =
     bind (gets (\<lambda>s. (of_int (log_dev s), of_int (log_start s + int tail + 1)))) (\<lambda>(dev, lbno).
     bind (bread dev lbno) (\<lambda>lbuf.
     bind (gets (\<lambda>s. lh_block s tail)) (\<lambda>dbno.
     bind (bread dev dbno) (\<lambda>dbuf.
     andthen (modify (buf_copy dbuf lbuf))
     (andthen (bwrite dbuf)
     (andthen (whenM (\<not> recovering) (bunpin dbuf))
     (andthen (brelse lbuf)
     (brelse dbuf))))))))"

definition install_trans :: "bool \<Rightarrow> ('z klog_scheme, unit) oper" where
  "install_trans recovering =
     bind (gets lh_n) (\<lambda>n. forM [0..<nat n] (install_one recovering))"

definition recover_from_log :: "('z klog_scheme, unit) oper" where
  "recover_from_log =
     andthen read_head
     (andthen (install_trans True)
     (andthen (modify (\<lambda>s. s\<lparr>lh_n := 0\<rparr>))
     write_head))"

definition write_log_one :: "nat \<Rightarrow> ('z klog_scheme, unit) oper" where
  "write_log_one tail =
     bind (gets (\<lambda>s. (of_int (log_dev s), of_int (log_start s + int tail + 1)))) (\<lambda>(dev, lbno).
     bind (bread dev lbno) (\<lambda>to.
     bind (gets (\<lambda>s. lh_block s tail)) (\<lambda>dbno.
     bind (bread dev dbno) (\<lambda>from.
     andthen (modify (buf_copy to from))
     (andthen (bwrite to)
     (andthen (brelse from)
     (brelse to)))))))"

definition write_log :: "('z klog_scheme, unit) oper" where
  "write_log = bind (gets lh_n) (\<lambda>n. forM [0..<nat n] write_log_one)"

definition commit :: "('z klog_scheme, unit) oper" where
  "commit =
     bind (gets lh_n) (\<lambda>n.
     whenM (0 < n)
       (andthen write_log
       (andthen write_head
       (andthen (install_trans False)
       (andthen (modify (\<lambda>s. s\<lparr>lh_n := 0\<rparr>))
       write_head)))))"

text \<open>\<^verbatim>\<open>sizeof(struct logheader)\<close> is \<open>4 + 4 \<cdot> LOGBLOCKS\<close>. \<open>logstart\<close> is the field of the superblock.\<close>

definition initlog :: "int \<Rightarrow> uint \<Rightarrow> ('z klog_scheme, unit) oper" where
  "initlog dev logstart =
     (if int BSIZE \<le> 4 + 4 * LOGBLOCKS then panic ''initlog''
      else
        andthen (modify (initlock LLog ''log''))
        (andthen (modify (\<lambda>s. s\<lparr>log_start := sint logstart\<rparr>))
        (andthen (modify (\<lambda>s. s\<lparr>log_dev := dev\<rparr>))
        recover_from_log)))"

text \<open>The loop of \<^verbatim>\<open>begin_op\<close>, entered with \<^verbatim>\<open>log.lock\<close> held, at the start and after each wake-up.\<close>

definition begin_op_loop :: "('z klog_scheme, unit) oper" where
  "begin_op_loop =
     bind (gets log_committing) (\<lambda>c.
     if c \<noteq> 0 then sleep ChLog LLog
     else bind (gets (\<lambda>s. lh_n s + (log_outstanding s + 1) * MAXOPBLOCKS)) (\<lambda>need.
     if LOGBLOCKS < need then sleep ChLog LLog
     else andthen (modify (\<lambda>s. s\<lparr>log_outstanding := log_outstanding s + 1\<rparr>))
       (release LLog)))"

definition begin_op :: "('z klog_scheme, unit) oper" where
  "begin_op = andthen (acquire LLog) begin_op_loop"

definition end_op :: "('z klog_scheme, unit) oper" where
  "end_op =
     andthen (acquire LLog)
     (andthen (modify (\<lambda>s. s\<lparr>log_outstanding := log_outstanding s - 1\<rparr>))
     (bind (gets log_committing) (\<lambda>c.
      if c \<noteq> 0 then panic ''log.committing''
      else bind (gets log_outstanding) (\<lambda>o'.
      if o' = 0
      then
        andthen (modify (\<lambda>s. s\<lparr>log_committing := 1\<rparr>))
        (andthen (release LLog)
        (andthen commit
        (andthen (acquire LLog)
        (andthen (modify (\<lambda>s. s\<lparr>log_committing := 0\<rparr>))
        (andthen (wakeup (Some ChLog))
        (release LLog))))))
      else
        andthen (wakeup (Some ChLog))
        (release LLog)))))"

section \<open>The log and the state below it\<close>

lemma klog_after_lock [simp]:
  "log_start (acquired L s) = log_start s" "log_start (released L s) = log_start s" "log_start (settle s) = log_start s"
  "log_outstanding (acquired L s) = log_outstanding s" "log_outstanding (released L s) = log_outstanding s" "log_outstanding (settle s) = log_outstanding s"
  "log_committing (acquired L s) = log_committing s" "log_committing (released L s) = log_committing s" "log_committing (settle s) = log_committing s"
  "log_dev (acquired L s) = log_dev s" "log_dev (released L s) = log_dev s" "log_dev (settle s) = log_dev s"
  "lh_n (acquired L s) = lh_n s" "lh_n (released L s) = lh_n s" "lh_n (settle s) = lh_n s"
  "lh_block (acquired L s) = lh_block s" "lh_block (released L s) = lh_block s" "lh_block (settle s) = lh_block s"
  by (simp_all add: acquired_def released_def settle_def)

lemma klog_update_lock [simp]:
  "log_start_update g0 (acquired L s) = acquired L (log_start_update g0 s)"
  "log_start_update g0 (settle s) = settle (log_start_update g0 s)"
  "log_outstanding_update g1 (acquired L s) = acquired L (log_outstanding_update g1 s)"
  "log_outstanding_update g1 (settle s) = settle (log_outstanding_update g1 s)"
  "log_committing_update g2 (acquired L s) = acquired L (log_committing_update g2 s)"
  "log_committing_update g2 (settle s) = settle (log_committing_update g2 s)"
  "log_dev_update g3 (acquired L s) = acquired L (log_dev_update g3 s)"
  "log_dev_update g3 (settle s) = settle (log_dev_update g3 s)"
  "lh_n_update g4 (acquired L s) = acquired L (lh_n_update g4 s)"
  "lh_n_update g4 (settle s) = settle (lh_n_update g4 s)"
  "lh_block_update g5 (acquired L s) = acquired L (lh_block_update g5 s)"
  "lh_block_update g5 (settle s) = settle (lh_block_update g5 s)"
  by (simp_all add: acquired_def settle_def intr_get_def r_sstatus_def)

lemma klog_update_ok [simp]:
  "hart_ok (log_start_update g0 s) = hart_ok s" "idle L (log_start_update g0 s) = idle L s"
  "hart_ok (log_outstanding_update g1 s) = hart_ok s" "idle L (log_outstanding_update g1 s) = idle L s"
  "hart_ok (log_committing_update g2 s) = hart_ok s" "idle L (log_committing_update g2 s) = idle L s"
  "hart_ok (log_dev_update g3 s) = hart_ok s" "idle L (log_dev_update g3 s) = idle L s"
  "hart_ok (lh_n_update g4 s) = hart_ok s" "idle L (lh_n_update g4 s) = idle L s"
  "hart_ok (lh_block_update g5 s) = hart_ok s" "idle L (lh_block_update g5 s) = idle L s"
  by (simp_all add: hart_ok_def idle_def intr_get_def machine_defs)

lemma klog_update_calm [simp]:
  "calm (log_start_update g0 s) = calm s" "mycpu (log_start_update g0 s) = mycpu s"
  "calm (log_outstanding_update g1 s) = calm s" "mycpu (log_outstanding_update g1 s) = mycpu s"
  "calm (log_committing_update g2 s) = calm s" "mycpu (log_committing_update g2 s) = mycpu s"
  "calm (log_dev_update g3 s) = calm s" "mycpu (log_dev_update g3 s) = mycpu s"
  "calm (lh_n_update g4 s) = calm s" "mycpu (lh_n_update g4 s) = mycpu s"
  "calm (lh_block_update g5 s) = calm s" "mycpu (lh_block_update g5 s) = mycpu s"
  unfolding calm_def by (simp_all add: settle_def intr_get_def machine_defs idle_def hart_ok_def)

lemma klog_onproc [simp]:
  "log_start (onproc p s) = log_start s" "onproc p (log_start_update g0 s) = log_start_update g0 (onproc p s)"
  "log_outstanding (onproc p s) = log_outstanding s" "onproc p (log_outstanding_update g1 s) = log_outstanding_update g1 (onproc p s)"
  "log_committing (onproc p s) = log_committing s" "onproc p (log_committing_update g2 s) = log_committing_update g2 (onproc p s)"
  "log_dev (onproc p s) = log_dev s" "onproc p (log_dev_update g3 s) = log_dev_update g3 (onproc p s)"
  "lh_n (onproc p s) = lh_n s" "onproc p (lh_n_update g4 s) = lh_n_update g4 (onproc p s)"
  "lh_block (onproc p s) = lh_block s" "onproc p (lh_block_update g5 s) = lh_block_update g5 (onproc p s)"
  by (simp_all add: onproc_def)

lemma klog_frame:
  assumes "iostep s t"
  shows "log_start t = log_start s" "log_outstanding t = log_outstanding s" "log_committing t = log_committing s"
    "log_dev t = log_dev s" "lh_n t = lh_n s" "lh_block t = lh_block s"
  using iostep_more [OF assms] by (cases s, cases t, simp)+

lemma klog_bio [simp]:
  "lh_n (set_buf b f s) = lh_n s" "lh_block (set_buf b f s) = lh_block s" "log_dev (set_buf b f s) = log_dev s"
  "log_start (set_buf b f s) = log_start s"
  by (simp_all add: set_buf_def)

text \<open>The blocks of the log area: the header and the slots behind it.\<close>

definition lhead :: "'z klog_scheme \<Rightarrow> uint" where
  "lhead s = of_int (log_start s)"

definition lslot :: "'z klog_scheme \<Rightarrow> nat \<Rightarrow> uint" where
  "lslot s i = of_int (log_start s + int i + 1)"

definition log_placed :: "'z klog_scheme \<Rightarrow> bool" where
  "log_placed s \<longleftrightarrow> log_dev s = 1 \<and> 0 \<le> log_start s \<and> log_start s + LOGBLOCKS < 2 ^ 31"

definition in_log_area :: "'z klog_scheme \<Rightarrow> uint \<Rightarrow> bool" where
  "in_log_area s k \<longleftrightarrow> log_start s \<le> int (unat k) \<and> int (unat k) \<le> log_start s + LOGBLOCKS"

lemma lslot_unat:
  assumes "log_placed s" "int i < LOGBLOCKS"
  shows "unat (lslot s i) = nat (log_start s) + i + 1" "unat (lhead s) = nat (log_start s)"
proof -
  obtain m where m: "log_start s = int m"
    using assms(1) nonneg_int_cases unfolding log_placed_def by blast
  have "log_start s + int i + 1 = int (m + i + 1)"
    using m by simp
  then have "lslot s i = of_nat (m + i + 1)" "lhead s = of_nat m"
    unfolding lslot_def lhead_def m by (simp_all only: of_int_of_nat_eq)
  then show "unat (lslot s i) = nat (log_start s) + i + 1" "unat (lhead s) = nat (log_start s)"
    using assms m unfolding log_placed_def LOGBLOCKS_def by (simp_all only: unat_of_nat) simp_all
qed

lemma log_area:
  assumes "log_placed s" "int i < LOGBLOCKS"
  shows "unat (lslot s i) < 2 ^ 31" "unat (lhead s) < 2 ^ 31" "in_log_area s (lslot s i)" "in_log_area s (lhead s)"
    "lslot s i \<noteq> lhead s" "int j < LOGBLOCKS \<Longrightarrow> lslot s i = lslot s j \<longleftrightarrow> i = j"
proof -
  note u = lslot_unat [OF assms]
  show "unat (lslot s i) < 2 ^ 31" "unat (lhead s) < 2 ^ 31" "in_log_area s (lslot s i)" "in_log_area s (lhead s)"
    using assms u unfolding log_placed_def LOGBLOCKS_def by (auto simp: in_log_area_def LOGBLOCKS_def)
  show "lslot s i \<noteq> lhead s"
    using u by auto
  show "lslot s i = lslot s j \<longleftrightarrow> i = j" if "int j < LOGBLOCKS"
  proof
    assume "lslot s i = lslot s j"
    then have "unat (lslot s i) = unat (lslot s j)"
      by simp
    with u(1) lslot_unat(1) [OF assms(1) that] show "i = j"
      by linarith
  qed simp
qed

section \<open>Copying blocks between the log and their places\<close>

text \<open>Two different blocks read one after the other, and what the code then finds.\<close>

definition both_read :: "nat \<Rightarrow> uint \<Rightarrow> uint \<Rightarrow> 'z klog_scheme \<Rightarrow> nat \<Rightarrow> nat \<Rightarrow> 'z klog_scheme \<Rightarrow> bool" where
  "both_read p x y s a b t \<longleftrightarrow> iostep s t \<and> csafe p {a, b} t \<and> a \<noteq> b \<and> caches x (bufs t a) \<and> caches y (bufs t b)
     \<and> content t = content s \<and> disk_image t = disk_image s \<and> (\<forall>k. pinned {} k s \<longrightarrow> pinned {a, b} k t)
     \<and> (\<forall>n. room (n + 4) s \<longrightarrow> room n t)"

lemma read_both:
  fixes s :: "'z klog_scheme"
  assumes s: "csafe p {} s" "room 4 s" "unat x < 2 ^ 31" "unat (y s) < 2 ^ 31" "x \<noteq> y s"
    and y: "\<And>t. iostep s t \<Longrightarrow> y t = y s"
    and k: "\<And>a b t. both_read p x (y s) s a b t \<Longrightarrow> wp (k a b) Q out_of_bufs t"
  shows "wp (bind (bread 1 x) (\<lambda>a. bind (gets y) (\<lambda>yb. bind (bread 1 yb) (k a)))) Q out_of_bufs s"
proof (rule wp_bindI [OF cread [OF s(1) room_mono [OF s(2)] s(3)]])
  fix a and t :: "'z klog_scheme"
  assume "iostep s t \<and> csafe p (insert a {}) t \<and> a \<notin> {} \<and> caches x (bufs t a)
      \<and> blk (b_data (bufs t a)) = content s x \<and> content t = content s \<and> disk_image t = disk_image s
      \<and> (\<forall>k. pinned {} k s \<longrightarrow> pinned (insert a {}) k t) \<and> (\<forall>i \<in> {}. core (bufs t i) = core (bufs s i))
      \<and> (\<forall>n. room (n + 2) s \<longrightarrow> room n t)"
  then have t: "iostep s t" "csafe p {a} t" "caches x (bufs t a)" "content t = content s" "disk_image t = disk_image s"
    "\<And>k. pinned {} k s \<Longrightarrow> pinned {a} k t" "\<And>n. room (n + 2) s \<Longrightarrow> room n t"
    by blast+
  have "room 2 t"
    using t(7) [of 2] s(2) by simp
  moreover have "\<forall>i \<in> {a}. b_blockno (bufs t i) \<noteq> y s"
    using t(3) s(5) by (simp add: caches_def)
  ultimately have "wp (bind (bread 1 (y s)) (k a)) Q out_of_bufs t"
  proof (rule wp_bindI [OF cread [OF t(2) _ s(4)]])
    fix b and u :: "'z klog_scheme"
    assume u: "iostep t u \<and> csafe p (insert b {a}) u \<and> b \<notin> {a} \<and> caches (y s) (bufs u b)
      \<and> blk (b_data (bufs u b)) = content t (y s) \<and> content u = content t \<and> disk_image u = disk_image t
      \<and> (\<forall>k. pinned {a} k t \<longrightarrow> pinned (insert b {a}) k u) \<and> (\<forall>i \<in> {a}. core (bufs u i) = core (bufs t i))
      \<and> (\<forall>n. room (n + 2) t \<longrightarrow> room n u)"
    have "caches x (bufs u a)"
      using u t(3) core_eq(7) by blast
    moreover have "room n u" if "room (n + 4) s" for n
    proof -
      have "room (n + 2) t"
        by (rule t(7)) (use that in \<open>simp add: numeral_eq_Suc\<close>)
      with u show ?thesis by blast
    qed
    ultimately have "both_read p x (y s) s a b u"
      unfolding both_read_def using u t iostep_trans by (simp add: insert_commute) blast
    then show "wp (k a b) Q out_of_bufs u"
      by (rule k)
  qed (rule bexhausted_out)
  then show "wp (bind (gets y) (\<lambda>yb. bind (bread 1 yb) (k a))) Q out_of_bufs t"
    by (simp add: wp_bind_gets y [OF t(1)])
qed (simp_all add: bexhausted_out)

lemma both_read_sym: "both_read p x y s a b t \<Longrightarrow> both_read p y x s b a t"
  unfolding both_read_def by (simp add: insert_commute)

lemma blk_copy: "blk (\<lambda>i. if i < BSIZE then d i else e i) = blk d"
  by (auto simp: blk_def)

lemma copy_write:
  assumes "both_read p x y s a b t"
  shows "\<exists>u. bwrite a (buf_copy a b t) = Ret () u \<and> iostep s u \<and> csafe p {a, b} u \<and> caches x (bufs u a) \<and> caches y (bufs u b)
    \<and> content u = (content s)(x := content s y)
    \<and> (\<forall>k. diskblk (disk_image u) k = (if k = x then content s y else diskblk (disk_image s) k))
    \<and> (\<forall>k. pinned {} k s \<longrightarrow> pinned {a, b} k u) \<and> (\<forall>n. room (n + 4) s \<longrightarrow> room n u)"
proof -
  have t: "csafe p {a, b} t" "iostep s t" "a \<noteq> b" "caches x (bufs t a)" "caches y (bufs t b)" "content t = content s"
    "disk_image t = disk_image s" "\<And>k. pinned {} k s \<Longrightarrow> pinned {a, b} k t" "\<And>n. room (n + 4) s \<Longrightarrow> room n t"
    using assms unfolding both_read_def by blast+
  let ?f = "\<lambda>d i. if i < BSIZE then b_data (bufs t b) i else d i"
  have x: "x = b_blockno (bufs t a)" and y: "y = b_blockno (bufs t b)"
    using t(4,5) by (simp_all add: caches_def)
  have copy: "buf_copy a b t = set_buf a (\<lambda>c. c\<lparr>b_data := ?f (b_data c)\<rparr>) t"
    by (simp add: buf_copy_def)
  have data: "blk (?f (b_data (bufs t a))) = content s y"
    using csafe_held(7) [OF t(1), of b] t(6) y by (simp add: blk_copy)
  obtain u where u: "bwrite a (buf_copy a b t) = Ret () u" "iostep t u" "csafe p {a, b} u" "content u = (content t)(x := content s y)"
    "\<forall>k. diskblk (disk_image u) k = (if k = x then content s y else diskblk (disk_image t) k)"
    "\<forall>k. pinned {a, b} k t \<longrightarrow> pinned {a, b} k u" "\<forall>n. room n t \<longrightarrow> room n u"
    "bufs u = (bufs t)(a := (bufs t a)\<lparr>b_data := ?f (b_data (bufs t a)), b_disk := 0\<rparr>)"
    using cput [OF t(1) _ x, of ?f] unfolding copy [symmetric] data by blast
  have "caches x (bufs u a)" "caches y (bufs u b)"
    using u(8) t(3-5) by (simp_all add: caches_def)
  moreover have "\<forall>k. diskblk (disk_image u) k = (if k = x then content s y else diskblk (disk_image s) k)"
    using u(5) t(7) by simp
  ultimately show ?thesis
    using u t(6,8,9) iostep_trans [OF u(2) t(2)] by (intro exI [of _ u]) simp
qed

lemma release_both:
  assumes u: "csafe p {a, b} u" "a \<noteq> b"
    and post: "\<And>w. iostep u w \<Longrightarrow> csafe p {} w \<Longrightarrow> content w = content u \<Longrightarrow> disk_image w = disk_image u
      \<Longrightarrow> (\<And>k. pinned {a, b} k u \<Longrightarrow> pinned {} k w) \<Longrightarrow> (\<And>n. room n u \<Longrightarrow> room n w) \<Longrightarrow> Q () w"
  shows "wp (andthen (brelse b) (brelse a)) Q F u"
proof -
  obtain v where v: "brelse b u = Ret () v" "iostep u v" "csafe p ({a, b} - {b}) v" "content v = content u" "disk_image v = disk_image u"
    "\<forall>k. pinned {a, b} k u \<longrightarrow> pinned ({a, b} - {b}) k v" "\<forall>n. room n u \<longrightarrow> room n v"
    using crelse [OF u(1), of b] by blast
  have a: "{a, b} - {b} = {a}"
    using u(2) by auto
  obtain w where w: "brelse a v = Ret () w" "iostep v w" "csafe p ({a} - {a}) w" "content w = content v" "disk_image w = disk_image v"
    "\<forall>k. pinned {a} k v \<longrightarrow> pinned ({a} - {a}) k w" "\<forall>n. room n v \<longrightarrow> room n w"
    using crelse [OF v(3) [unfolded a], of a] by blast
  have "Q () w"
    by (rule post) (use v w iostep_trans a in auto)
  then show ?thesis
    by (simp add: wp_bind_run [where m = "brelse b", OF v(1)] wp_run [where m = "brelse a", OF w(1)])
qed

section \<open>Committing a transaction\<close>

text \<open>
  The log is in its place and the blocks of the transaction are different blocks outside it.
\<close>

definition log_ok :: "'z klog_scheme \<Rightarrow> bool" where
  "log_ok s \<longleftrightarrow> log_placed s \<and> 0 \<le> lh_n s \<and> lh_n s \<le> LOGBLOCKS \<and> distinct (map (lh_block s) [0..<nat (lh_n s)])
     \<and> (\<forall>i < nat (lh_n s). unat (lh_block s i) < 2 ^ 31 \<and> \<not> in_log_area s (lh_block s i))"

lemma log_okD:
  assumes "log_ok s" "i < nat (lh_n s)"
  shows "log_placed s" "int i < LOGBLOCKS" "unat (lh_block s i) < 2 ^ 31" "\<not> in_log_area s (lh_block s i)"
  using assms unfolding log_ok_def by auto

lemma log_ok_frame: "iostep s t \<Longrightarrow> log_ok t = log_ok s" "iostep s t \<Longrightarrow> lslot t i = lslot s i" "iostep s t \<Longrightarrow> lhead t = lhead s"
  "iostep s t \<Longrightarrow> log_placed t = log_placed s" "iostep s t \<Longrightarrow> in_log_area t k = in_log_area s k"
  by (simp_all add: log_ok_def log_placed_def in_log_area_def lslot_def lhead_def klog_frame)

text \<open>The blocks whose content is not on the disk.\<close>

definition dirty :: "'z vdisk_scheme \<Rightarrow> uint set" where
  "dirty s = {k. content s k \<noteq> diskblk (disk_image s) k}"

text \<open>A complete access that makes \<open>d\<close> the content of block \<open>x\<close>, in the cache and on the disk.\<close>

definition cwrote :: "nat \<Rightarrow> nat \<Rightarrow> uint set \<Rightarrow> uint \<Rightarrow> block \<Rightarrow> 'z vdisk_scheme \<Rightarrow> 'z vdisk_scheme \<Rightarrow> bool" where
  "cwrote p n U x d s t \<longleftrightarrow> cdone p n U s t \<and> content t = (content s)(x := d)
     \<and> (\<forall>k. diskblk (disk_image t) k = (if k = x then d else diskblk (disk_image s) k))"

lemma cwrote_dirty: "cwrote p n U x d s t \<Longrightarrow> dirty t \<subseteq> dirty s"
  by (auto simp: cwrote_def dirty_def)

lemma cwroteI:
  assumes "iostep s u" "iostep u w" "csafe p {} w" "\<And>k. k \<notin> U \<Longrightarrow> pinned {} k s \<Longrightarrow> pinned {} k w"
    "\<And>m. room (m + n) s \<Longrightarrow> room m w"
    "content w = (content s)(x := d)" "\<And>k. diskblk (disk_image w) k = (if k = x then d else diskblk (disk_image s) k)"
  shows "cwrote p n U x d s w"
  using assms iostep_trans [OF assms(2,1)] unfolding cwrote_def cdone_def by simp

lemma write_log_one_spec:
  fixes s :: "'z klog_scheme"
  assumes s: "csafe p {} s" "room 4 s" "log_ok s" "i < nat (lh_n s)"
  shows "wp (write_log_one i) (\<lambda>_. cwrote p 4 {} (lslot s i) (content s (lh_block s i)) s) out_of_bufs s"
proof -
  note l = log_okD [OF s(3,4)]
  note area = log_area [OF l(1,2)]
  have ne: "lslot s i \<noteq> lh_block s i"
    using area(3) l(4) by metis
  have dev: "log_dev s = 1"
    using l(1) by (simp add: log_placed_def)
  have "wp (bind (bread 1 (lslot s i)) (\<lambda>to. bind (gets (\<lambda>s. lh_block s i)) (\<lambda>dbno. bind (bread 1 dbno) (\<lambda>from.
      andthen (modify (buf_copy to from)) (andthen (bwrite to) (andthen (brelse from) (brelse to)))))))
    (\<lambda>_. cwrote p 4 {} (lslot s i) (content s (lh_block s i)) s) out_of_bufs s"
  proof (rule read_both [where y = "\<lambda>s. lh_block s i", OF s(1,2) area(1) l(3) ne])
    fix a b and t :: "'z klog_scheme" assume r: "both_read p (lslot s i) (lh_block s i) s a b t"
    then have ab: "a \<noteq> b"
      unfolding both_read_def by blast
    obtain u where u: "bwrite a (buf_copy a b t) = Ret () u" "iostep s u" "csafe p {a, b} u"
      "content u = (content s)(lslot s i := content s (lh_block s i))"
      "\<forall>k. diskblk (disk_image u) k = (if k = lslot s i then content s (lh_block s i) else diskblk (disk_image s) k)"
      "\<forall>k. pinned {} k s \<longrightarrow> pinned {a, b} k u" "\<forall>n. room (n + 4) s \<longrightarrow> room n u"
      using copy_write [OF r] by blast
    show "wp (andthen (modify (buf_copy a b)) (andthen (bwrite a) (andthen (brelse b) (brelse a))))
      (\<lambda>_. cwrote p 4 {} (lslot s i) (content s (lh_block s i)) s) out_of_bufs t"
      unfolding wp_bind_modify wp_bind_run [where m = "bwrite a", OF u(1)]
      by (rule release_both [OF u(3) ab], rule cwroteI [OF u(2)]) (use u(4-7) in auto)
  qed (simp add: klog_frame)
  then show ?thesis
    by (simp add: write_log_one_def wp_bind_gets dev lslot_def)
qed

lemma cunpin:
  assumes s: "csafe p H s" "b \<in> H" "y = b_blockno (bufs s b)" "pinned H y s" "content s y = diskblk (disk_image s) y"
  shows "\<exists>t. bunpin b s = Ret () t \<and> iostep s t \<and> csafe p H t \<and> content t = content s \<and> disk_image t = disk_image s
    \<and> (\<forall>k. k \<noteq> y \<longrightarrow> pinned H k s \<longrightarrow> pinned H k t) \<and> (\<forall>n. room n s \<longrightarrow> room n t)"
proof -
  note h = csafe_held [OF s(1,2)]
  have c: "calm s" "vd_quiet s"
    using csafeD(1) [OF s(1)] disk_readyD by blast+
  have "1 < unat (b_refcnt (bufs s b))"
  proof -
    obtain i where "i < NBUF" "caches y (bufs s i)" "(if i \<in> H then 1 else 0) < unat (b_refcnt (bufs s i))"
      using s(4) unfolding pinned_def by blast
    moreover have "i = b"
      using bufs_okD(2) [OF csafeD(5) [OF s(1)] h(1,6)] s(3) calculation by blast
    ultimately show ?thesis
      using s(2) by simp
  qed
  then have dec: "unat (b_refcnt (bufs s b) - 1) = unat (b_refcnt (bufs s b)) - 1" "b_refcnt (bufs s b) \<noteq> 1"
    using h(4) by (auto simp: unat_minus_one)
  let ?t = "bunref b s"
  have bt: "bufs ?t = (bufs s)(b := (bufs s b)\<lparr>b_refcnt := b_refcnt (bufs s b) - 1\<rparr>)" "disk_image ?t = disk_image s"
    "sleeplocks ?t = sleeplocks s" "iostep s ?t" "vd_quiet ?t"
    using c by (auto intro: io_refl)
  have data: "blk (b_data (bufs s b)) = content s y"
    using h(7) s(3) by simp
  note ch = csafe_change [OF s(1-3) bt]
  have "csafe p H ?t"
    by (rule ch(1)) (use h(6) s(3,5) dec data in \<open>auto simp: caches_def\<close>)
  moreover have "content ?t = (content s)(y := content s y)"
    by (rule content_same [THEN trans]) auto
  moreover have "pinned H k ?t" if "k \<noteq> y" "pinned H k s" for k
    by (rule ch(3) [OF _ _ _ _ _ _ that]) (use h(6) s(3,5) dec data in \<open>auto simp: caches_def\<close>)
  moreover have "room n ?t" if "room n s" for n
    using that dec(1) unfolding room_def by auto
  ultimately show ?thesis
    using bunpin_run [OF c(1)] bt(4) by simp
qed

lemma install_one_spec:
  fixes s :: "'z klog_scheme"
  assumes s: "csafe p {} s" "room 4 s" "log_ok s" "i < nat (lh_n s)" "\<not> rec \<Longrightarrow> pinned {} (lh_block s i) s"
  shows "wp (install_one rec i) (\<lambda>_. cwrote p 4 (if rec then {} else {lh_block s i}) (lh_block s i) (content s (lslot s i)) s) out_of_bufs s"
proof -
  note l = log_okD [OF s(3,4)]
  note area = log_area [OF l(1,2)]
  let ?d = "lh_block s i" and ?x = "lslot s i"
  have ne: "?x \<noteq> ?d"
    using area(3) l(4) by metis
  have dev: "log_dev s = 1"
    using l(1) by (simp add: log_placed_def)
  have "wp (bind (bread 1 ?x) (\<lambda>lbuf. bind (gets (\<lambda>s. lh_block s i)) (\<lambda>dbno. bind (bread 1 dbno) (\<lambda>dbuf.
      andthen (modify (buf_copy dbuf lbuf)) (andthen (bwrite dbuf) (andthen (whenM (\<not> rec) (bunpin dbuf))
        (andthen (brelse lbuf) (brelse dbuf))))))))
    (\<lambda>_. cwrote p 4 (if rec then {} else {?d}) ?d (content s ?x) s) out_of_bufs s"
  proof (rule read_both [where y = "\<lambda>s. lh_block s i", OF s(1,2) area(1) l(3) ne])
    fix a b and t :: "'z klog_scheme" assume r: "both_read p ?x ?d s a b t"
    then have ab: "b \<noteq> a"
      unfolding both_read_def by blast
    obtain u where u: "bwrite b (buf_copy b a t) = Ret () u" "iostep s u" "csafe p {b, a} u" "caches ?d (bufs u b)"
      "content u = (content s)(?d := content s ?x)"
      "\<forall>k. diskblk (disk_image u) k = (if k = ?d then content s ?x else diskblk (disk_image s) k)"
      "\<forall>k. pinned {} k s \<longrightarrow> pinned {b, a} k u" "\<forall>n. room (n + 4) s \<longrightarrow> room n u"
      using copy_write [OF both_read_sym [OF r]] by blast
    obtain v where v: "whenM (\<not> rec) (bunpin b) u = Ret () v" "iostep u v" "csafe p {b, a} v" "content v = content u"
      "disk_image v = disk_image u" "\<And>n. room n u \<Longrightarrow> room n v"
      "\<And>k. k \<notin> (if rec then {} else {?d}) \<Longrightarrow> pinned {b, a} k u \<Longrightarrow> pinned {b, a} k v"
    proof (cases rec)
      case True
      with u(3) show thesis
        by (intro that [of u]) (auto simp: whenM_def io_refl)
    next
      case False
      have "?d = b_blockno (bufs u b)" "pinned {b, a} ?d u" "content u ?d = diskblk (disk_image u) ?d"
        using u(4-7) s(5) [OF False] by (auto simp: caches_def)
      then obtain v where "bunpin b u = Ret () v" "iostep u v" "csafe p {b, a} v" "content v = content u"
        "disk_image v = disk_image u" "\<forall>k. k \<noteq> ?d \<longrightarrow> pinned {b, a} k u \<longrightarrow> pinned {b, a} k v" "\<forall>n. room n u \<longrightarrow> room n v"
        using cunpin [OF u(3), of b ?d] by blast
      with False show thesis
        by (intro that [of v]) (auto simp: whenM_def)
    qed
    have io: "iostep s v"
      using iostep_trans [OF v(2) u(2)] .
    show "wp (andthen (modify (buf_copy b a)) (andthen (bwrite b) (andthen (whenM (\<not> rec) (bunpin b))
        (andthen (brelse a) (brelse b)))))
      (\<lambda>_. cwrote p 4 (if rec then {} else {?d}) ?d (content s ?x) s) out_of_bufs t"
      unfolding wp_bind_modify wp_bind_run [where m = "bwrite b", OF u(1)] wp_bind_run [where m = "whenM (\<not> rec) (bunpin b)", OF v(1)]
      by (rule release_both [OF v(3) ab], rule cwroteI [OF io]) (use u(5-8) v(4-7) in auto)
  qed (simp add: klog_frame)
  then show ?thesis
    by (simp add: install_one_def wp_bind_gets dev lslot_def)
qed

text \<open>
  \<^verbatim>\<open>write_head\<close> copies the block numbers into the header block and leaves its first word, the count,
  as it is.
\<close>

definition head_with :: "nat \<Rightarrow> (nat \<Rightarrow> uint) \<Rightarrow> block \<Rightarrow> block" where
  "head_with n bs d = fold (\<lambda>i d. put32 d (4 + 4 * i) (bs i)) [0..<n] d"

lemma put32_count: "4 \<le> k \<Longrightarrow> get32 (put32 d k v) 0 = get32 d 0"
  by (simp add: get32_def put32_def get16_def put16_def)

lemma head_with_count: "get32 (head_with n bs d) 0 = get32 d 0"
proof -
  have "get32 (fold (\<lambda>i d. put32 d (4 + 4 * i) (bs i)) xs d) 0 = get32 d 0" for xs d
    by (induction xs arbitrary: d) (simp_all add: put32_count)
  then show ?thesis
    by (simp add: head_with_def)
qed

lemma blk_put32: "k + 3 < BSIZE \<Longrightarrow> blk (put32 d k v) = put32 (blk d) k v"
  by (auto simp: blk_def put32_def)

lemma blk_head_with: "4 + 4 * n \<le> BSIZE \<Longrightarrow> blk (head_with n bs d) = head_with n bs (blk d)"
  by (induction n) (simp_all add: head_with_def blk_put32)

lemma set_buf_id: "set_buf b (\<lambda>c. c) s = s"
  by (simp add: set_buf_def)

lemma forM_modify: "forM xs (\<lambda>i. modify (g i)) s = Ret () (fold g xs s)"
  by (induction xs arbitrary: s) simp_all

lemma head_copied:
  "fold (\<lambda>i s. set_buf b (\<lambda>c. c\<lparr>b_data := put32 (b_data c) (4 + 4 * i) (lh_block s i)\<rparr>) s) [0..<n] s
     = set_buf b (\<lambda>c. c\<lparr>b_data := head_with n (lh_block s) (b_data c)\<rparr>) s"
proof (induction n)
  case 0
  then show ?case by (simp add: head_with_def set_buf_id)
next
  case (Suc n)
  then show ?case by (simp add: head_with_def) (simp add: set_buf_def comp_def)
qed

lemma write_head_spec:
  fixes s :: "'z klog_scheme"
  assumes s: "csafe p {} s" "room 2 s" "log_placed s" "lh_n s \<le> LOGBLOCKS"
  shows "wp write_head (\<lambda>_. cwrote p 2 {} (lhead s) (head_with (nat (lh_n s)) (lh_block s) (content s (lhead s))) s) out_of_bufs s"
proof -
  have small: "unat (lhead s) < 2 ^ 31" and dev: "log_dev s = 1"
    using log_area(2) [OF s(3), of 0] s(3) by (simp_all add: LOGBLOCKS_def log_placed_def)
  let ?h = "head_with (nat (lh_n s)) (lh_block s)"
  have "wp (bind (bread 1 (lhead s)) (\<lambda>b. bind (gets lh_n) (\<lambda>n. andthen (forM [0..<nat n] (\<lambda>i.
        modify (\<lambda>s. set_buf b (\<lambda>c. c\<lparr>b_data := put32 (b_data c) (4 + 4 * i) (lh_block s i)\<rparr>) s)))
     (andthen (bwrite b) (brelse b))))) (\<lambda>_. cwrote p 2 {} (lhead s) (?h (content s (lhead s))) s) out_of_bufs s"
  proof (rule wp_bindI [OF cread [OF s(1,2) small]])
    fix b and t :: "'z klog_scheme"
    assume "iostep s t \<and> csafe p (insert b {}) t \<and> b \<notin> {} \<and> caches (lhead s) (bufs t b)
      \<and> blk (b_data (bufs t b)) = content s (lhead s) \<and> content t = content s \<and> disk_image t = disk_image s
      \<and> (\<forall>k. pinned {} k s \<longrightarrow> pinned (insert b {}) k t) \<and> (\<forall>i \<in> {}. core (bufs t i) = core (bufs s i))
      \<and> (\<forall>n. room (n + 2) s \<longrightarrow> room n t)"
    then have t: "iostep s t" "csafe p {b} t" "lhead s = b_blockno (bufs t b)" "content t = content s" "disk_image t = disk_image s"
      "\<And>k. pinned {} k s \<Longrightarrow> pinned {b} k t" "\<And>n. room (n + 2) s \<Longrightarrow> room n t" "blk (b_data (bufs t b)) = content s (lhead s)"
      by (simp_all add: caches_def)
    have lh: "lh_n t = lh_n s" "lh_block t = lh_block s"
      using klog_frame [OF t(1)] by simp_all
    have h: "blk (?h (b_data (bufs t b))) = ?h (content s (lhead s))"
      using s(4) t(8) by (simp add: blk_head_with BSIZE_def LOGBLOCKS_def)
    obtain u where u: "bwrite b (set_buf b (\<lambda>c. c\<lparr>b_data := ?h (b_data c)\<rparr>) t) = Ret () u" "iostep t u" "csafe p {b} u"
      "content u = (content t)(lhead s := ?h (content s (lhead s)))"
      "\<forall>k. diskblk (disk_image u) k = (if k = lhead s then ?h (content s (lhead s)) else diskblk (disk_image t) k)"
      "\<forall>k. pinned {b} k t \<longrightarrow> pinned {b} k u" "\<forall>n. room n t \<longrightarrow> room n u"
      using cput [OF t(2) _ t(3), of ?h] unfolding h by blast
    obtain w where w: "brelse b u = Ret () w" "iostep u w" "csafe p ({b} - {b}) w" "content w = content u" "disk_image w = disk_image u"
      "\<forall>k. pinned {b} k u \<longrightarrow> pinned ({b} - {b}) k w" "\<forall>n. room n u \<longrightarrow> room n w"
      using crelse [OF u(3), of b] by blast
    have "cwrote p 2 {} (lhead s) (?h (content s (lhead s))) s w"
      by (rule cwroteI [OF t(1) iostep_trans [OF w(2) u(2)]]) (use w u t(4-7) in auto)
    then show "wp (bind (gets lh_n) (\<lambda>n. andthen (forM [0..<nat n] (\<lambda>i.
        modify (\<lambda>s. set_buf b (\<lambda>c. c\<lparr>b_data := put32 (b_data c) (4 + 4 * i) (lh_block s i)\<rparr>) s)))
     (andthen (bwrite b) (brelse b)))) (\<lambda>_. cwrote p 2 {} (lhead s) (?h (content s (lhead s))) s) out_of_bufs t"
      by (simp add: wp_bind_gets wp_def forM_modify head_copied lh u(1) w(1))
  qed (simp_all add: bexhausted_out)
  then show ?thesis
    by (simp add: write_head_def wp_bind_gets dev lhead_def)
qed

text \<open>The two loops of \<^verbatim>\<open>commit\<close>: into the slots of the log, and from there to the places.\<close>

lemma cdone_weaken: "cdone p n U s t \<Longrightarrow> n \<le> m \<Longrightarrow> U \<subseteq> V \<Longrightarrow> cdone p m V s t"
proof -
  assume c: "cdone p n U s t" and le: "n \<le> m" "U \<subseteq> V"
  have "room r t" if "room (r + m) s" for r
    using c room_mono [OF that, of "r + n"] le(1) unfolding cdone_def by auto
  with c le(2) show ?thesis
    unfolding cdone_def by blast
qed

lemma cdoneD:
  assumes "cdone p n U s t"
  shows "iostep s t" "csafe p {} t" "k \<notin> U \<Longrightarrow> pinned {} k s \<Longrightarrow> pinned {} k t" "room (m + n) s \<Longrightarrow> room m t"
  using assms unfolding cdone_def by blast+

lemma write_log_spec:
  fixes s :: "'z klog_scheme"
  assumes s: "csafe p {} s" "room (4 * nat (lh_n s)) s" "log_ok s"
  shows "wp write_log (\<lambda>_ t. cdone p (4 * nat (lh_n s)) {} s t \<and> dirty t \<subseteq> dirty s
    \<and> (\<forall>i < nat (lh_n s). content t (lslot s i) = content s (lh_block s i))
    \<and> (\<forall>k. (\<forall>i < nat (lh_n s). k \<noteq> lslot s i) \<longrightarrow> content t k = content s k \<and> diskblk (disk_image t) k = diskblk (disk_image s) k))
    out_of_bufs s"
proof -
  let ?n = "nat (lh_n s)"
  let ?I = "\<lambda>m t. cdone p (4 * m) {} s t \<and> dirty t \<subseteq> dirty s \<and> (\<forall>i < m. content t (lslot s i) = content s (lh_block s i))
    \<and> (\<forall>k. (\<forall>i < m. k \<noteq> lslot s i) \<longrightarrow> content t k = content s k \<and> diskblk (disk_image t) k = diskblk (disk_image s) k)"
  have "wp (forM [0..<?n] write_log_one) (\<lambda>_. ?I ?n) out_of_bufs s"
  proof (rule wp_for)
    show "?I 0 s"
      using cdone_refl [OF s(1)] by simp
    fix i and t :: "'z klog_scheme" assume i: "i < ?n" and I: "?I i t"
    note d = cdoneD [OF conjunct1 [OF I]]
    have r: "room 4 t"
      by (rule d(4), rule room_mono [OF s(2)]) (use i in simp)
    have ok: "log_ok t" "i < nat (lh_n t)"
      using s(3) i log_ok_frame(1) [OF d(1)] klog_frame(5) [OF d(1)] by simp_all
    have eq: "lslot t i = lslot s i" "lh_block t = lh_block s"
      using log_ok_frame(2) [OF d(1)] klog_frame [OF d(1)] by simp_all
    have notslot: "\<forall>j < i. lh_block s i \<noteq> lslot s j" and new: "\<forall>j < i. lslot s i \<noteq> lslot s j"
    proof -
      note l = log_okD [OF s(3)]
      have "lh_block s i \<noteq> lslot s j \<and> lslot s i \<noteq> lslot s j" if "j < i" for j
        using l(4) [OF i] log_area(3) [OF l(1,2), of j j] log_area(6) [OF l(1,2) [OF i], of j] l(2) [of j] that i by auto
      then show "\<forall>j < i. lh_block s i \<noteq> lslot s j" "\<forall>j < i. lslot s i \<noteq> lslot s j"
        by blast+
    qed
    show "wp (write_log_one i) (\<lambda>_. ?I (Suc i)) out_of_bufs t"
    proof (rule wp_mono [OF write_log_one_spec [OF d(2) r ok]])
      fix u and w :: "'z klog_scheme" assume cw: "cwrote p 4 {} (lslot t i) (content t (lh_block t i)) t w"
      have "dirty w \<subseteq> dirty s"
        using cwrote_dirty [OF cw] I by blast
      moreover have w: "cdone p 4 {} t w" "content w = (content t)(lslot s i := content s (lh_block s i))"
        "\<forall>k. diskblk (disk_image w) k = (if k = lslot s i then content s (lh_block s i) else diskblk (disk_image t) k)"
        using cw I notslot unfolding cwrote_def eq by auto
      moreover have "cdone p (4 * Suc i) {} s w"
        using cdone_trans [OF conjunct1 [OF I] w(1)] by (simp add: add.commute)
      moreover have "\<forall>j < Suc i. content w (lslot s j) = content s (lh_block s j)"
        using w(2) I new by (auto simp: less_Suc_eq)
      moreover have "\<forall>k. (\<forall>j < Suc i. k \<noteq> lslot s j) \<longrightarrow> content w k = content s k \<and> diskblk (disk_image w) k = diskblk (disk_image s) k"
        using w(2,3) I by (auto simp: less_Suc_eq)
      ultimately show "?I (Suc i) w"
        by blast
    qed simp
  qed
  then show ?thesis
    by (simp add: write_log_def wp_bind_gets)
qed

lemma install_trans_spec:
  fixes s :: "'z klog_scheme"
  assumes s: "csafe p {} s" "room (4 * nat (lh_n s)) s" "log_ok s"
    and pins: "\<And>i. i < nat (lh_n s) \<Longrightarrow> pinned {} (lh_block s i) s"
    and logged: "\<And>i. i < nat (lh_n s) \<Longrightarrow> content s (lslot s i) = content s (lh_block s i)"
  shows "wp (install_trans False) (\<lambda>_ t. cdone p (4 * nat (lh_n s)) (lh_block s ` {..<nat (lh_n s)}) s t \<and> content t = content s
    \<and> (\<forall>k. diskblk (disk_image t) k = (if k \<in> lh_block s ` {..<nat (lh_n s)} then content s k else diskblk (disk_image s) k)))
    out_of_bufs s"
proof -
  let ?n = "nat (lh_n s)"
  let ?I = "\<lambda>m t. cdone p (4 * m) (lh_block s ` {..<m}) s t \<and> content t = content s
    \<and> (\<forall>k. diskblk (disk_image t) k = (if k \<in> lh_block s ` {..<m} then content s k else diskblk (disk_image s) k))"
  have "wp (forM [0..<?n] (install_one False)) (\<lambda>_. ?I ?n) out_of_bufs s"
  proof (rule wp_for)
    show "?I 0 s"
      using cdone_refl [OF s(1)] by simp
    fix i and t :: "'z klog_scheme" assume i: "i < ?n" and I: "?I i t"
    note d = cdoneD [OF conjunct1 [OF I]]
    have r: "room 4 t"
      by (rule d(4), rule room_mono [OF s(2)]) (use i in simp)
    have ok: "log_ok t" "i < nat (lh_n t)"
      using s(3) i log_ok_frame(1) [OF d(1)] klog_frame(5) [OF d(1)] by simp_all
    have eq: "lslot t i = lslot s i" "lh_block t = lh_block s"
      using log_ok_frame(2) [OF d(1)] klog_frame [OF d(1)] by simp_all
    have "lh_block s i \<notin> lh_block s ` {..<i}"
      using s(3) i unfolding log_ok_def by (auto simp: distinct_conv_nth)
    then have pin: "pinned {} (lh_block t i) t"
      using d(3) pins [OF i] eq(2) by simp
    show "wp (install_one False i) (\<lambda>_. ?I (Suc i)) out_of_bufs t"
    proof (rule wp_mono [OF install_one_spec [OF d(2) r ok pin]])
      fix u and w :: "'z klog_scheme"
      assume "cwrote p 4 (if False then {} else {lh_block t i}) (lh_block t i) (content t (lslot t i)) t w"
      then have w: "cdone p 4 {lh_block s i} t w" "content w = (content t)(lh_block s i := content s (lh_block s i))"
        "\<forall>k. diskblk (disk_image w) k = (if k = lh_block s i then content s (lh_block s i) else diskblk (disk_image t) k)"
        using I logged [OF i] unfolding cwrote_def eq by auto
      have "cdone p (4 * Suc i) (lh_block s ` {..<Suc i}) s w"
        by (rule cdone_weaken [OF cdone_trans [OF conjunct1 [OF I] w(1)]]) (auto simp: less_Suc_eq)
      then show "?I (Suc i) w"
        using w(2,3) I by (auto simp: lessThan_Suc)
    qed simp
  qed
  then show ?thesis
    by (simp add: install_trans_def wp_bind_gets)
qed

lemma lh_n_frame [simp]:
  "content (lh_n_update f s) = content s" "room n (lh_n_update f s) = room n s" "csafe p H (lh_n_update f s) = csafe p H s"
  "log_placed (lh_n_update f s) = log_placed s" "lhead (lh_n_update f s) = lhead s" "pinned H k (lh_n_update f s) = pinned H k s"
proof -
  show c: "content (lh_n_update f s) = content s"
    by (rule content_same) simp_all
  show "room n (lh_n_update f s) = room n s" "log_placed (lh_n_update f s) = log_placed s" "lhead (lh_n_update f s) = lhead s"
    and p: "\<And>k. pinned H k (lh_n_update f s) = pinned H k s"
    by (simp_all add: room_def log_placed_def lhead_def pinned_def)
  show "csafe p H (lh_n_update f s) = csafe p H s"
    by (simp add: csafe_def c p disk_ready_def bcache_ok_def vd_quiet_def)
qed

lemma head_with_0 [simp]: "head_with 0 bs d = d"
  by (simp add: head_with_def)

text \<open>What \<^verbatim>\<open>write_log\<close> and the first \<^verbatim>\<open>write_head\<close> leave: the transaction is in the log area, nothing else has changed.\<close>

definition log_written :: "nat \<Rightarrow> 'z klog_scheme \<Rightarrow> 'z klog_scheme \<Rightarrow> bool" where
  "log_written p s t \<longleftrightarrow> cdone p (4 * nat (lh_n s) + 2) {} s t \<and> dirty t \<subseteq> dirty s
     \<and> (\<forall>i < nat (lh_n s). content t (lslot s i) = content s (lh_block s i))
     \<and> (\<forall>k. \<not> in_log_area s k \<longrightarrow> content t k = content s k \<and> diskblk (disk_image t) k = diskblk (disk_image s) k)
     \<and> get32 (content t (lhead s)) 0 = get32 (content s (lhead s)) 0
     \<and> diskblk (disk_image t) (lhead s) = content t (lhead s)"

lemma log_written_spec:
  fixes s :: "'z klog_scheme"
  assumes s: "csafe p {} s" "room (4 * nat (lh_n s) + 2) s" "log_ok s" "0 < lh_n s"
  shows "wp (andthen write_log write_head) (\<lambda>_. log_written p s) out_of_bufs s"
proof (rule wp_bindI [OF write_log_spec [OF s(1) room_mono [OF s(2)] s(3)]])
  fix a and t :: "'z klog_scheme"
  let ?n = "nat (lh_n s)"
  have l: "log_placed s" "\<And>i. i < ?n \<Longrightarrow> int i < LOGBLOCKS"
    using s(3,4) log_okD(2) [OF s(3)] unfolding log_ok_def by auto
  note area = log_area [OF l(1) l(2)]
  have head: "in_log_area s (lhead s)" "\<And>i. i < ?n \<Longrightarrow> lhead s \<noteq> lslot s i"
    using area(4) [of 0] area(5) s(4) by (auto dest: not_sym)
  assume t: "cdone p (4 * ?n) {} s t \<and> dirty t \<subseteq> dirty s \<and> (\<forall>i < ?n. content t (lslot s i) = content s (lh_block s i))
    \<and> (\<forall>k. (\<forall>i < ?n. k \<noteq> lslot s i) \<longrightarrow> content t k = content s k \<and> diskblk (disk_image t) k = diskblk (disk_image s) k)"
  note d = cdoneD [OF conjunct1 [OF t]]
  have eq: "lhead t = lhead s" "log_placed t" "lh_n t \<le> LOGBLOCKS"
    using log_ok_frame [OF d(1)] klog_frame [OF d(1)] l(1) s(3) by (simp_all add: log_ok_def)
  have "room 2 t"
    by (rule d(4)) (use s(2) in \<open>simp add: add.commute\<close>)
  then show "wp write_head (\<lambda>_. log_written p s) out_of_bufs t"
  proof (rule wp_mono [OF write_head_spec [OF d(2) _ eq(2,3)]])
    fix b and u :: "'z klog_scheme"
    let ?h = "head_with (nat (lh_n t)) (lh_block t) (content t (lhead t))"
    assume cw: "cwrote p 2 {} (lhead t) ?h t u"
    then have u: "cdone p 2 {} t u" "content u = (content t)(lhead s := ?h)"
      "\<forall>k. diskblk (disk_image u) k = (if k = lhead s then ?h else diskblk (disk_image t) k)"
      unfolding cwrote_def eq by auto
    have "dirty u \<subseteq> dirty s"
      using cwrote_dirty [OF cw] t by blast
    moreover have "cdone p (4 * ?n + 2) {} s u"
      using cdone_trans [OF conjunct1 [OF t] u(1)] by simp
    moreover have "get32 ?h 0 = get32 (content s (lhead s)) 0"
      using t head(2) eq(1) by (simp add: head_with_count)
    moreover have "content u k = content s k \<and> diskblk (disk_image u) k = diskblk (disk_image s) k" if "\<not> in_log_area s k" for k
    proof -
      have "k \<noteq> lhead s" "\<forall>i < ?n. k \<noteq> lslot s i"
        using that head(1) area(3) by auto
      then show ?thesis
        using t u(2,3) by simp
    qed
    moreover have "content u (lslot s i) = content s (lh_block s i)" if "i < ?n" for i
      using t u(2) head(2) [OF that] that by simp
    ultimately show "log_written p s u"
      unfolding log_written_def using u(2,3) by simp
  qed simp_all
qed simp_all

text \<open>\<^verbatim>\<open>commit\<close> leaves the other fields of the log alone.\<close>

definition same_log :: "'z klog_scheme \<Rightarrow> 'z klog_scheme \<Rightarrow> bool" where
  "same_log s t \<longleftrightarrow> log_start t = log_start s \<and> log_outstanding t = log_outstanding s \<and> log_committing t = log_committing s
     \<and> log_dev t = log_dev s"

text \<open>The transaction: its blocks are pinned, and they are all that is not on the disk.\<close>

definition txn_ok :: "nat \<Rightarrow> 'z klog_scheme \<Rightarrow> bool" where
  "txn_ok p s \<longleftrightarrow> csafe p {} s \<and> log_ok s \<and> (\<forall>i < nat (lh_n s). pinned {} (lh_block s i) s)
     \<and> (\<forall>k. content s k \<noteq> diskblk (disk_image s) k \<longrightarrow> k \<in> lh_block s ` {..<nat (lh_n s)})"

lemma finish_commit:
  fixes s t :: "'z klog_scheme"
  assumes s: "txn_ok p s" "room (8 * nat (lh_n s) + 4) s" "0 < lh_n s" and w: "log_written p s t"
  shows "wp (andthen (install_trans False) (andthen (modify (\<lambda>s. s\<lparr>lh_n := 0\<rparr>)) write_head))
    (\<lambda>_ u. csafe p {} u \<and> lh_n u = 0 \<and> same_log s u \<and> dirty u = {} \<and> (\<forall>k. \<not> in_log_area s k \<longrightarrow> content u k = content s k \<and> diskblk (disk_image u) k = content s k)
      \<and> get32 (diskblk (disk_image u) (lhead s)) 0 = get32 (content s (lhead s)) 0) out_of_bufs t"
proof -
  let ?n = "nat (lh_n s)" and ?L = "lh_block s ` {..<nat (lh_n s)}"
  have tx: "log_ok s" "\<And>i. i < ?n \<Longrightarrow> pinned {} (lh_block s i) s" "\<And>k. k \<notin> ?L \<Longrightarrow> content s k = diskblk (disk_image s) k"
    using s(1) unfolding txn_ok_def by blast+
  have t: "\<And>i. i < ?n \<Longrightarrow> content t (lslot s i) = content s (lh_block s i)"
    "\<And>k. \<not> in_log_area s k \<Longrightarrow> content t k = content s k \<and> diskblk (disk_image t) k = diskblk (disk_image s) k"
    "get32 (content t (lhead s)) 0 = get32 (content s (lhead s)) 0" and cd: "cdone p (4 * ?n + 2) {} s t" and dt: "dirty t \<subseteq> dirty s"
    using w unfolding log_written_def by blast+
  note d = cdoneD [OF cd]
  have eq: "log_ok t" "lh_n t = lh_n s" "lh_block t = lh_block s" "\<And>i. lslot t i = lslot s i" "lhead t = lhead s" "log_placed t"
    using tx(1) log_ok_frame [OF d(1)] klog_frame [OF d(1)] by (simp_all add: log_ok_def)
  have out: "\<not> in_log_area s (lh_block s i)" if "i < ?n" for i
    using log_okD(4) [OF tx(1) that] .
  have head: "in_log_area s (lhead s)"
    using log_area(4) [of s 0] tx(1) by (simp add: log_ok_def LOGBLOCKS_def)
  have r: "room (4 * nat (lh_n t)) t" "room (4 * ?n + 2) t"
  proof -
    show *: "room (4 * ?n + 2) t"
      by (rule d(4), rule room_mono [OF s(2)]) simp
    show "room (4 * nat (lh_n t)) t"
      using room_mono [OF *] eq(2) by simp
  qed
  have inst: "wp (install_trans False) (\<lambda>_ u. cdone p (4 * nat (lh_n t)) (lh_block t ` {..<nat (lh_n t)}) t u \<and> content u = content t
    \<and> (\<forall>k. diskblk (disk_image u) k = (if k \<in> lh_block t ` {..<nat (lh_n t)} then content t k else diskblk (disk_image t) k)))
    out_of_bufs t"
    by (rule install_trans_spec [OF d(2) r(1) eq(1)]) (use d(3) tx(2) t out in \<open>auto simp: eq\<close>)
  show ?thesis
  proof (rule wp_bindI [OF inst], unfold wp_bind_modify)
    fix a and u :: "'z klog_scheme"
    assume u: "cdone p (4 * nat (lh_n t)) (lh_block t ` {..<nat (lh_n t)}) t u \<and> content u = content t
      \<and> (\<forall>k. diskblk (disk_image u) k = (if k \<in> lh_block t ` {..<nat (lh_n t)} then content t k else diskblk (disk_image t) k))"
    note e = cdoneD [OF conjunct1 [OF u]]
    have hu: "lhead u = lhead s" "log_placed u"
      using log_ok_frame(3,4) [OF e(1)] eq by simp_all
    have r2: "room 2 u"
      by (rule e(4)) (use r(2) eq(2) in \<open>simp add: ac_simps\<close>)
    show "wp write_head (\<lambda>_ u. csafe p {} u \<and> lh_n u = 0 \<and> same_log s u \<and> dirty u = {}
        \<and> (\<forall>k. \<not> in_log_area s k \<longrightarrow> content u k = content s k \<and> diskblk (disk_image u) k = content s k)
        \<and> get32 (diskblk (disk_image u) (lhead s)) 0 = get32 (content s (lhead s)) 0) out_of_bufs (u\<lparr>lh_n := 0\<rparr>)"
    proof (rule wp_mono [OF write_head_spec [of p "u\<lparr>lh_n := 0\<rparr>"]])
      fix b and v :: "'z klog_scheme"
      assume "cwrote p 2 {} (lhead (u\<lparr>lh_n := 0\<rparr>)) (head_with (nat (lh_n (u\<lparr>lh_n := 0\<rparr>))) (lh_block (u\<lparr>lh_n := 0\<rparr>))
        (content (u\<lparr>lh_n := 0\<rparr>) (lhead (u\<lparr>lh_n := 0\<rparr>)))) (u\<lparr>lh_n := 0\<rparr>) v"
      then have v: "iostep (u\<lparr>lh_n := 0\<rparr>) v" "csafe p {} v" "content v = content u"
        "\<forall>k. diskblk (disk_image v) k = (if k = lhead s then content u (lhead s) else diskblk (disk_image u) k)"
        by (simp_all add: cwrote_def cdone_def hu)
      have "dirty t \<subseteq> ?L"
        using dt tx(3) unfolding dirty_def by blast
      then have "dirty u = {}"
        using u unfolding dirty_def eq by auto
      then have "dirty v = {}"
        using v(3,4) by (auto simp: dirty_def)
      moreover have "lh_n v = 0" "same_log s v"
        using klog_frame [OF v(1)] klog_frame [OF e(1)] klog_frame [OF d(1)] by (simp_all add: same_log_def)
      moreover have "content v k = content s k \<and> diskblk (disk_image v) k = content s k" if k: "\<not> in_log_area s k" for k
      proof -
        have "k \<noteq> lhead s" "content u k = content s k"
          using k head u t(2) by auto
        then show ?thesis
          using v(3,4) u t(2) [OF k] tx(3) [of k] by (cases "k \<in> ?L") (simp_all add: eq)
      qed
      ultimately show "csafe p {} v \<and> lh_n v = 0 \<and> same_log s v \<and> dirty v = {}
        \<and> (\<forall>k. \<not> in_log_area s k \<longrightarrow> content v k = content s k \<and> diskblk (disk_image v) k = content s k)
        \<and> get32 (diskblk (disk_image v) (lhead s)) 0 = get32 (content s (lhead s)) 0"
        using v u t(3) by simp
    qed (use e(2) hu r2 in \<open>simp_all add: LOGBLOCKS_def\<close>)
  qed simp
qed

lemma commit_spec:
  fixes s :: "'z klog_scheme"
  assumes "txn_ok p s" "room (8 * nat (lh_n s) + 4) s"
  shows "wp commit (\<lambda>_ t. csafe p {} t \<and> lh_n t = 0 \<and> same_log s t \<and> dirty t = {}
      \<and> (\<forall>k. \<not> in_log_area s k \<longrightarrow> content t k = content s k \<and> diskblk (disk_image t) k = content s k)
      \<and> get32 (diskblk (disk_image t) (lhead s)) 0 = get32 (content s (lhead s)) 0) out_of_bufs s"
proof (cases "0 < lh_n s")
  case True
  have tx: "csafe p {} s" "log_ok s"
    using assms(1) by (simp_all add: txn_ok_def)
  have "wp (bind (andthen write_log write_head) (\<lambda>_. andthen (install_trans False) (andthen (modify (\<lambda>s. s\<lparr>lh_n := 0\<rparr>)) write_head)))
    (\<lambda>_ t. csafe p {} t \<and> lh_n t = 0 \<and> same_log s t \<and> dirty t = {} \<and> (\<forall>k. \<not> in_log_area s k \<longrightarrow> content t k = content s k \<and> diskblk (disk_image t) k = content s k)
      \<and> get32 (diskblk (disk_image t) (lhead s)) 0 = get32 (content s (lhead s)) 0) out_of_bufs s"
    by (rule wp_bindI [OF log_written_spec [OF tx(1) room_mono [OF assms(2)] tx(2) True] finish_commit [OF assms True]]) simp_all
  with True show ?thesis
    by (simp add: commit_def wp_bind_gets whenM_def bind_assoc)
next
  case False
  then have "lh_n s = 0"
    using assms(1) by (simp add: txn_ok_def log_ok_def)
  then show ?thesis
    using assms(1) by (simp add: commit_def wp_simps txn_ok_def dirty_def same_log_def)
qed

section \<open>Properties of the log\<close>

text \<open>
  C26. \<^verbatim>\<open>commit\<close> makes a transaction durable: when it returns, every block outside the log area is on
  the disk as the file system last saw it, the transaction is empty, and no block has changed as
  seen through the cache. It returns unless \<^verbatim>\<open>bget\<close> runs out of buffers.
\<close>

theorem commit_makes_durable:
  fixes s :: "'z klog_scheme"
  assumes "txn_ok p s" "room (8 * nat (lh_n s) + 4) s"
  shows "wp commit (\<lambda>_ t. csafe p {} t \<and> lh_n t = 0 \<and> same_log s t \<and> dirty t = {}
      \<and> (\<forall>k. \<not> in_log_area s k \<longrightarrow> content t k = content s k \<and> diskblk (disk_image t) k = content s k)
      \<and> get32 (diskblk (disk_image t) (lhead s)) 0 = get32 (content s (lhead s)) 0) out_of_bufs s"
  by (rule commit_spec [OF assms])

lemma get32_blk: "k + 3 < BSIZE \<Longrightarrow> get32 (blk d) k = get32 d k"
  by (simp add: get32_def)

lemma recover_nothing:
  fixes s :: "'z klog_scheme"
  assumes s: "csafe p {} s" "room 4 s" "log_placed s" "get32 (content s (lhead s)) 0 = 0"
  shows "wp recover_from_log (\<lambda>_ t. csafe p {} t \<and> lh_n t = 0 \<and> content t = content s
    \<and> (\<forall>k. diskblk (disk_image t) k = (if k = lhead s then content s k else diskblk (disk_image s) k))) out_of_bufs s"
proof -
  have small: "unat (lhead s) < 2 ^ 31" and dev: "log_dev s = 1"
    using log_area(2) [OF s(3), of 0] s(3) by (simp_all add: LOGBLOCKS_def log_placed_def)
  let ?rest = "\<lambda>b d. andthen (modify (\<lambda>s. s\<lparr>lh_n := sint (get32 d 0)\<rparr>))
     (bind (gets lh_n) (\<lambda>n. andthen (forM [0..<nat n] (\<lambda>i.
         if int i < LOGBLOCKS then modify (\<lambda>s. s\<lparr>lh_block := (lh_block s)(i := get32 d (4 + 4 * i))\<rparr>) else Fault Wild))
      (brelse b)))"
  have "wp (bind (bread 1 (lhead s)) (\<lambda>b. bind (gets (\<lambda>s. b_data (bufs s b))) (?rest b)))
    (\<lambda>_ u. csafe p {} u \<and> room 2 u \<and> lh_n u = 0 \<and> log_placed u \<and> lhead u = lhead s \<and> content u = content s \<and> disk_image u = disk_image s)
    out_of_bufs s"
  proof (rule wp_bindI [OF cread [OF s(1) room_mono [OF s(2)] small]])
    fix b and t :: "'z klog_scheme"
    assume "iostep s t \<and> csafe p (insert b {}) t \<and> b \<notin> {} \<and> caches (lhead s) (bufs t b)
      \<and> blk (b_data (bufs t b)) = content s (lhead s) \<and> content t = content s \<and> disk_image t = disk_image s
      \<and> (\<forall>k. pinned {} k s \<longrightarrow> pinned (insert b {}) k t) \<and> (\<forall>i \<in> {}. core (bufs t i) = core (bufs s i))
      \<and> (\<forall>n. room (n + 2) s \<longrightarrow> room n t)"
    then have t: "iostep s t" "csafe p {b} t" "content t = content s" "disk_image t = disk_image s"
      "room 2 t" "blk (b_data (bufs t b)) = content s (lhead s)"
      using s(2) by simp_all
    have z: "sint (get32 (b_data (bufs t b)) 0) = 0"
      using get32_blk [of 0 "b_data (bufs t b)"] t(6) s(4) by (simp add: BSIZE_def)
    have "csafe p {b} (t\<lparr>lh_n := 0\<rparr>)"
      using t(2) by simp
    then obtain w where w: "brelse b (t\<lparr>lh_n := 0\<rparr>) = Ret () w" "iostep (t\<lparr>lh_n := 0\<rparr>) w" "csafe p ({b} - {b}) w"
      "content w = content t" "disk_image w = disk_image t" "\<forall>n. room n t \<longrightarrow> room n w"
      using crelse [of p "{b}" "t\<lparr>lh_n := 0\<rparr>" b] by auto
    show "wp (bind (gets (\<lambda>s. b_data (bufs s b))) (?rest b)) (\<lambda>_ u. csafe p {} u \<and> room 2 u \<and> lh_n u = 0
      \<and> log_placed u \<and> lhead u = lhead s \<and> content u = content s \<and> disk_image u = disk_image s) out_of_bufs t"
      unfolding wp_bind_gets wp_bind_modify z
      using w t s(3) klog_frame(5) [OF w(2)] log_ok_frame(3,4) [OF w(2)] log_ok_frame(3,4) [OF t(1)] by (simp add: wp_run)
  qed (simp_all add: bexhausted_out)
  then have "wp read_head (\<lambda>_ u. csafe p {} u \<and> room 2 u \<and> lh_n u = 0 \<and> log_placed u \<and> lhead u = lhead s
      \<and> content u = content s \<and> disk_image u = disk_image s) out_of_bufs s"
    by (simp add: read_head_def wp_bind_gets dev lhead_def)
  then show ?thesis
    unfolding recover_from_log_def
  proof (rule wp_bindI)
    fix a and u :: "'z klog_scheme"
    assume u: "csafe p {} u \<and> room 2 u \<and> lh_n u = 0 \<and> log_placed u \<and> lhead u = lhead s \<and> content u = content s \<and> disk_image u = disk_image s"
    then have z: "u\<lparr>lh_n := 0\<rparr> = u"
      by simp
    have "wp write_head (\<lambda>_. cwrote p 2 {} (lhead s) (content s (lhead s)) u) out_of_bufs (u\<lparr>lh_n := 0\<rparr>)"
      unfolding z using write_head_spec [of p u] u by (simp add: LOGBLOCKS_def)
    then have "wp write_head (\<lambda>_ t. csafe p {} t \<and> lh_n t = 0 \<and> content t = content s
      \<and> (\<forall>k. diskblk (disk_image t) k = (if k = lhead s then content s k else diskblk (disk_image s) k))) out_of_bufs (u\<lparr>lh_n := 0\<rparr>)"
      by (rule wp_mono) (use u in \<open>auto simp: cwrote_def cdone_def dest: klog_frame(5)\<close>)
    moreover have i: "install_trans True u = Ret () u"
      using u by (simp add: install_trans_def)
    ultimately show "wp (andthen (install_trans True) (andthen (modify (\<lambda>s. s\<lparr>lh_n := 0\<rparr>)) write_head)) (\<lambda>_ t. csafe p {} t
      \<and> lh_n t = 0 \<and> content t = content s
      \<and> (\<forall>k. diskblk (disk_image t) k = (if k = lhead s then content s k else diskblk (disk_image s) k))) out_of_bufs u"
      unfolding wp_bind_run [where m = "install_trans True", OF i] wp_bind_modify by blast
  qed simp
qed

text \<open>
  C27. A committed transaction does not survive a crash. \<^verbatim>\<open>write_head\<close> never stores the number of
  blocks in the header on the disk. So if the machine stops when \<^verbatim>\<open>write_log\<close> and \<^verbatim>\<open>write_head\<close> have
  finished, the point from which the transaction must be redone, and starts again with an empty
  cache over the same disk, \<^verbatim>\<open>recover_from_log\<close> finds the count 0 that was there before: every
  block outside the log area stays as it was before the transaction.
\<close>

theorem crash_loses_committed_transaction:
  fixes s :: "'z klog_scheme"
  assumes "txn_ok p s" "room (4 * nat (lh_n s) + 2) s" "0 < lh_n s" "get32 (content s (lhead s)) 0 = 0"
  shows "wp (andthen write_log write_head) (\<lambda>_ t. \<forall>r :: 'z klog_scheme.
      csafe q {} r \<and> room 4 r \<and> disk_image r = disk_image t \<and> content r = diskblk (disk_image t)
        \<and> log_placed r \<and> log_start r = log_start s
      \<longrightarrow> wp recover_from_log (\<lambda>_ u. \<forall>k. \<not> in_log_area s k \<longrightarrow> diskblk (disk_image u) k = diskblk (disk_image s) k) out_of_bufs r)
    out_of_bufs s"
proof -
  have tx: "csafe p {} s" "log_ok s"
    using assms(1) by (simp_all add: txn_ok_def)
  have head: "in_log_area s (lhead s)"
    using log_area(4) [of s 0] tx(2) by (simp add: log_ok_def LOGBLOCKS_def)
  show ?thesis
  proof (rule wp_mono [OF log_written_spec [OF tx(1) assms(2) tx(2) assms(3)]], intro allI impI)
    fix a and t r :: "'z klog_scheme"
    assume t: "log_written p s t" and r: "csafe q {} r \<and> room 4 r \<and> disk_image r = disk_image t
      \<and> content r = diskblk (disk_image t) \<and> log_placed r \<and> log_start r = log_start s"
    have l: "lhead r = lhead s"
      using r by (simp add: lhead_def)
    have "get32 (content r (lhead r)) 0 = 0"
      using t r l assms(4) unfolding log_written_def by simp
    then show "wp recover_from_log (\<lambda>_ u. \<forall>k. \<not> in_log_area s k \<longrightarrow> diskblk (disk_image u) k = diskblk (disk_image s) k) out_of_bufs r"
      using r by (intro wp_mono [OF recover_nothing [of q r]]) (use t head l in \<open>auto simp: log_written_def\<close>)
  qed
qed

section \<open>Transactions of several processes\<close>

lemma begin_op_run:
  assumes "calm s" "running p s" "noff (mycpu s) = 0" "log_committing s = 0"
  shows "begin_op s = (if lh_n s + (log_outstanding s + 1) * MAXOPBLOCKS \<le> LOGBLOCKS
    then Ret () (s\<lparr>log_outstanding := log_outstanding s + 1\<rparr>)
    else Fault (Sleep ChLog) (acquired (LProc p)
      (s\<lparr>PCBs := (PCBs s)(p := (PCBs s p)\<lparr>p_chan := Some ChLog, p_state := SLEEPING\<rparr>)\<rparr>)))"
  using assms by (simp add: begin_op_def begin_op_loop_def sleep_run)

lemma bpin_locked: "calm s \<Longrightarrow> bpin b (acquired LLog s) = Ret () (acquired LLog (bref b s))"
  unfolding bpin_def by (subst critical_ret [where t = "acquired LLog (bref b s)"]) simp_all

lemma log_write_run:
  fixes s :: "'z klog_scheme" and b :: nat
  assumes "calm s" "lh_n s < LOGBLOCKS" "1 \<le> log_outstanding s"
  defines "i \<equiv> log_absorb (nat (lh_n s)) 0 (lh_block s) (b_blockno (bufs s b))"
  shows "log_write b s = Ret () (if int i = lh_n s
    then (bref b (s\<lparr>lh_block := (lh_block s)(i := b_blockno (bufs s b))\<rparr>))\<lparr>lh_n := lh_n s + 1\<rparr>
    else s\<lparr>lh_block := (lh_block s)(i := b_blockno (bufs s b))\<rparr>)"
  using assms(1-3) by (simp add: log_write_def whenM_def bpin_locked flip: i_def)

lemma log_absorb_spec:
  "i \<le> log_absorb k i bs x" "log_absorb k i bs x \<le> i + k" "log_absorb k i bs x < i + k \<Longrightarrow> bs (log_absorb k i bs x) = x"
  "i \<le> m \<Longrightarrow> m < log_absorb k i bs x \<Longrightarrow> bs m \<noteq> x"
proof -
  show "i \<le> log_absorb k i bs x"
    by (induction k arbitrary: i) (auto dest: Suc_leD)
  show "log_absorb k i bs x \<le> i + k"
  proof (induction k arbitrary: i)
    case (Suc k)
    show ?case
      using Suc.IH [of "i + 1"] by simp
  qed simp
  show "bs (log_absorb k i bs x) = x" if "log_absorb k i bs x < i + k"
    using that by (induction k arbitrary: i) auto
  show "bs m \<noteq> x" if "i \<le> m" "m < log_absorb k i bs x"
    using that
  proof (induction k arbitrary: i)
    case (Suc k)
    then show ?case
      using Suc.IH [of "i + 1"] by (cases "m = i") (auto split: if_splits)
  qed simp
qed

text \<open>
  A process of the file system changes a block inside a transaction: it reads it, changes the data,
  registers the buffer with \<^verbatim>\<open>log_write\<close> and releases it.
\<close>

definition log_block :: "uint \<Rightarrow> (block \<Rightarrow> block) \<Rightarrow> ('z klog_scheme, unit) oper" where
  "log_block bno f = bind (bread 1 bno) (\<lambda>b.
     andthen (modify (set_buf b (\<lambda>c. c\<lparr>b_data := f (b_data c)\<rparr>))) (andthen (log_write b) (brelse b)))"

lemma txn_okD:
  assumes "txn_ok p s"
  shows "csafe p {} s" "log_ok s" "i < nat (lh_n s) \<Longrightarrow> pinned {} (lh_block s i) s"
    "content s k \<noteq> diskblk (disk_image s) k \<Longrightarrow> k \<in> lh_block s ` {..<nat (lh_n s)}"
  using assms unfolding txn_ok_def by blast+

lemma klog_state_frame [simp]:
  "content (lh_block_update f s) = content s" "room n (lh_block_update f s) = room n s"
  "csafe p H (lh_block_update f s) = csafe p H s" "pinned H k (lh_block_update f s) = pinned H k s"
  "content (log_outstanding_update g s) = content s" "room n (log_outstanding_update g s) = room n s"
  "csafe p H (log_outstanding_update g s) = csafe p H s" "pinned H k (log_outstanding_update g s) = pinned H k s"
  "content (log_committing_update g s) = content s" "room n (log_committing_update g s) = room n s"
  "csafe p H (log_committing_update g s) = csafe p H s" "pinned H k (log_committing_update g s) = pinned H k s"
proof -
  show c: "content (lh_block_update f s) = content s" "content (log_outstanding_update g s) = content s"
    "content (log_committing_update g s) = content s"
    by (rule content_same; simp)+
  show "room n (lh_block_update f s) = room n s" "room n (log_outstanding_update g s) = room n s" "room n (log_committing_update g s) = room n s"
    by (simp_all add: room_def)
  show p: "pinned H k (lh_block_update f s) = pinned H k s" "pinned H k (log_outstanding_update g s) = pinned H k s"
    "pinned H k (log_committing_update g s) = pinned H k s" for k
    by (simp_all add: pinned_def)
  show "csafe p H (lh_block_update f s) = csafe p H s" "csafe p H (log_outstanding_update g s) = csafe p H s"
    "csafe p H (log_committing_update g s) = csafe p H s"
    by (simp_all add: csafe_def c p disk_ready_def bcache_ok_def vd_quiet_def)
qed

lemma set_buf_klog [simp]:
  "set_buf b f (lh_block_update g s) = lh_block_update g (set_buf b f s)"
  by (simp add: set_buf_def)

lemma pinned_count:
  assumes "csafe p H s" "b \<in> H" "caches k (bufs s b)" "pinned H k s"
  shows "1 < unat (b_refcnt (bufs s b))"
proof -
  obtain i where i: "i < NBUF" "caches k (bufs s i)" "(if i \<in> H then 1 else 0) < unat (b_refcnt (bufs s i))"
    using assms(4) unfolding pinned_def by blast
  have "i = b"
    using bufs_okD(2) [OF csafeD(5) [OF assms(1)] csafe_held(1) [OF assms(1,2)] assms(3)] i by blast
  with i(3) assms(2) show ?thesis by simp
qed

text \<open>
  The outcome of \<^verbatim>\<open>log_write\<close> on a held buffer whose data has just been changed. A block of the
  transaction is pinned already; another one is pinned and appended.
\<close>

definition log_list :: "'z klog_scheme \<Rightarrow> uint list" where
  "log_list s = map (lh_block s) [0..<nat (lh_n s)]"

text \<open>What an access to blocks and the log leaves alone, in particular everything of the components above.\<close>

definition keeps :: "'z klog_scheme \<Rightarrow> 'z klog_scheme \<Rightarrow> bool" where
  "keeps s t \<longleftrightarrow> klog.more t = klog.more s \<and> cpus t = cpus s \<and> tp t = tp s \<and> mem t = mem s \<and> freelist t = freelist s
     \<and> kbitmap t = kbitmap s \<and> addr_base t = addr_base s \<and> kend t = kend s \<and> nextpid t = nextpid s \<and> initproc t = initproc s
     \<and> trampoline t = trampoline s \<and> forkret_addr t = forkret_addr s \<and> device t = device s
     \<and> (\<forall>p. same_pcb (PCBs s p) (PCBs t p)) \<and> (\<forall>i. sleeplocks t (SInode i) = sleeplocks s (SInode i))"

lemma keeps_refl: "keeps s s"
  by (simp add: keeps_def)

lemma keeps_trans: "keeps s t \<Longrightarrow> keeps t u \<Longrightarrow> keeps s u"
  unfolding keeps_def by (auto intro: same_pcb_trans)

lemma keeps_iostep: "iostep s t \<Longrightarrow> keeps s t"
  unfolding keeps_def using iostep_keeps [of s t] iostep_more [of s t] by (cases s, cases t) auto

lemma keeps_lh [simp]: "keeps s (lh_n_update f t) = keeps s t" "keeps s (lh_block_update g t) = keeps s t"
  by (simp_all add: keeps_def)

definition log_marked :: "nat \<Rightarrow> nat \<Rightarrow> uint \<Rightarrow> block \<Rightarrow> 'z klog_scheme \<Rightarrow> 'z klog_scheme \<Rightarrow> bool" where
  "log_marked p b y d t v \<longleftrightarrow> csafe p {b} v \<and> content v = (content t)(y := d) \<and> disk_image v = disk_image t
     \<and> (\<forall>n. room (n + 1) t \<longrightarrow> room n v) \<and> lh_n t \<le> lh_n v \<and> lh_n v \<le> lh_n t + 1
     \<and> log_outstanding v = log_outstanding t \<and> log_committing v = log_committing t
     \<and> log_start v = log_start t \<and> log_dev v = log_dev t \<and> keeps t v
     \<and> (\<forall>k \<in> set (log_list v). pinned {b} k v)
     \<and> log_list v = (if y \<in> set (log_list t) then log_list t else log_list t @ [y])"

lemma log_absorb_found: "(log_absorb k 0 bs x < k) = (x \<in> set (map bs [0..<k]))"
proof
  assume "log_absorb k 0 bs x < k"
  then show "x \<in> set (map bs [0..<k])"
    using log_absorb_spec(3) [where k = k and i = 0 and bs = bs and x = x] by force
next
  assume "x \<in> set (map bs [0..<k])"
  then obtain m where "m < k" "bs m = x"
    by auto
  then show "log_absorb k 0 bs x < k"
    using log_absorb_spec(4) [where k = k and i = 0 and bs = bs and x = x and m = m] by force
qed

lemma log_write_absorbed:
  fixes t :: "'z klog_scheme" and f :: "block \<Rightarrow> block"
  assumes t: "csafe p {b} t" "caches y (bufs t b)" "lh_n t < LOGBLOCKS" "0 \<le> lh_n t" "1 \<le> log_outstanding t"
    and pin: "\<And>k. k \<in> set (log_list t) \<Longrightarrow> pinned {b} k t" and y: "y \<in> set (log_list t)"
  defines "u \<equiv> set_buf b (\<lambda>c. c\<lparr>b_data := f (b_data c)\<rparr>) t"
  shows "log_write b u = Ret () u \<and> log_marked p b y (blk (f (b_data (bufs t b)))) t u"
proof -
  have yb: "y = b_blockno (bufs t b)"
    using t(2) by (simp add: caches_def)
  have c: "calm u" "vd_quiet u"
    using csafeD(1) [OF t(1)] disk_readyD by (auto simp: u_def)
  let ?i = "log_absorb (nat (lh_n t)) 0 (lh_block t) y"
  have lt: "?i < nat (lh_n t)"
    using y by (simp only: log_absorb_found log_list_def)
  then have "lh_block t ?i = y"
    using log_absorb_spec(3) [where k = "nat (lh_n t)" and i = 0 and bs = "lh_block t" and x = y] by simp
  then have same: "(lh_block t)(?i := y) = lh_block t"
    by auto
  have uu: "u\<lparr>lh_block := lh_block t\<rparr> = u" "lh_n u = lh_n t" "log_outstanding u = log_outstanding t" "lh_block u = lh_block t"
    "b_blockno (bufs u b) = y" "log_committing u = log_committing t"
    by (simp_all add: u_def set_buf_def yb)
  have "log_write b u = Ret () u"
    using log_write_run [OF c(1), of b] t(3,5) lt by (simp add: uu same)
  moreover have cnt: "1 < unat (b_refcnt (bufs t b))"
    using pinned_count [OF t(1) _ t(2) pin [OF y]] by simp
  moreover have bu: "bufs u = (bufs t)(b := (bufs t b)\<lparr>b_data := f (b_data (bufs t b))\<rparr>)" "disk_image u = disk_image t"
    "sleeplocks u = sleeplocks t" "iostep t u" "vd_quiet u"
    using c(2) by (auto simp: u_def intro: io_refl)
  moreover have nz: "b_refcnt (bufs t b) \<noteq> 0"
    using csafe_held(4) [OF t(1)] by simp
  note ch = csafe_change [OF t(1) insertI1 yb bu]
  have "csafe p {b} u" "content u = (content t)(y := blk (f (b_data (bufs t b))))"
    using ch(1,2) t(2) nz cnt by (simp_all add: caches_def)
  moreover have "pinned {b} k u" if "pinned {b} k t" for k
    using ch(3) [of k] ch(4) that t(2) nz cnt by (cases "k = y") (simp_all add: caches_def)
  moreover have "room n u = room n t" for n
    unfolding room_def by (rule all_cong) (simp add: bu(1))
  ultimately show ?thesis
    using pin y room_mono [of _ t] keeps_iostep [of t u] by (auto simp: log_marked_def log_list_def uu klog_frame)
qed

lemma log_write_new:
  fixes t :: "'z klog_scheme" and f :: "block \<Rightarrow> block"
  assumes t: "csafe p {b} t" "caches y (bufs t b)" "lh_n t < LOGBLOCKS" "0 \<le> lh_n t" "1 \<le> log_outstanding t"
    and pin: "\<And>k. k \<in> set (log_list t) \<Longrightarrow> pinned {b} k t" and y: "y \<notin> set (log_list t)" "room 1 t"
  defines "u \<equiv> set_buf b (\<lambda>c. c\<lparr>b_data := f (b_data c)\<rparr>) t"
  shows "\<exists>v. log_write b u = Ret () v \<and> log_marked p b y (blk (f (b_data (bufs t b)))) t v"
proof -
  have yb: "y = b_blockno (bufs t b)"
    using t(2) by (simp add: caches_def)
  have c: "calm u" "vd_quiet u"
    using csafeD(1) [OF t(1)] disk_readyD by (auto simp: u_def)
  let ?i = "log_absorb (nat (lh_n t)) 0 (lh_block t) y"
  have "\<not> ?i < nat (lh_n t)"
    using y(1) unfolding log_absorb_found log_list_def .
  then have i: "?i = nat (lh_n t)"
    using log_absorb_spec(2) [where k = "nat (lh_n t)" and i = 0 and bs = "lh_block t" and x = y] by simp
  define w where "w = bref b u"
  define v where "v = w\<lparr>lh_block := (lh_block t)(nat (lh_n t) := y), lh_n := lh_n t + 1\<rparr>"
  have uu: "lh_n u = lh_n t" "log_outstanding u = log_outstanding t" "lh_block u = lh_block t" "b_blockno (bufs u b) = y"
    by (simp_all add: u_def set_buf_def yb)
  have run: "log_write b u = Ret () v"
    using log_write_run [OF c(1), of b] t(3-5) i by (simp add: uu v_def w_def)
  have inc: "unat (b_refcnt (bufs t b) + 1) = unat (b_refcnt (bufs t b)) + 1"
    using y(2) csafe_held(1) [OF t(1)] unfolding room_def by (auto simp: unat_word_ariths)
  have nz: "b_refcnt (bufs t b) + 1 \<noteq> 0" "1 < unat (b_refcnt (bufs t b) + 1)"
    using inc csafe_held(4) [OF t(1), of b] by (auto simp: unat_gt_0 dest: arg_cong [where f = unat])
  have bw: "bufs w = (bufs t)(b := (bufs t b)\<lparr>b_data := f (b_data (bufs t b)), b_refcnt := b_refcnt (bufs t b) + 1\<rparr>)"
    "disk_image w = disk_image t" "sleeplocks w = sleeplocks t" "iostep t w" "vd_quiet w"
    using c(2) by (auto simp: w_def u_def intro: io_refl)
  note ch = csafe_change [OF t(1) insertI1 yb bw]
  have w: "csafe p {b} w" "content w = (content t)(y := blk (f (b_data (bufs t b))))"
    using ch(1,2) t(2) nz by (simp_all add: caches_def)
  have pins: "pinned {b} k w" if "pinned {b} k t \<or> k = y" for k
    using ch(3) [of k] ch(4) that t(2) nz by (cases "k = y") (simp_all add: caches_def)
  have "room n w" if "room (n + 1) t" for n
    unfolding room_def
  proof (intro allI impI)
    fix j assume "j < NBUF"
    then have "unat (b_refcnt (bufs t j)) + (n + 1) < 2 ^ 32"
      using that unfolding room_def by blast
    then show "unat (b_refcnt (bufs w j)) + n < 2 ^ 32"
      using inc bw(1) by (cases "j = b") simp_all
  qed
  moreover have "log_list v = log_list t @ [y]"
    using t(4) by (simp add: log_list_def v_def nat_add_distrib)
  moreover have "log_outstanding v = log_outstanding t" "log_committing v = log_committing t" "log_start v = log_start t"
    "log_dev v = log_dev t"
    using klog_frame [OF bw(4)] by (simp_all add: v_def)
  moreover have "keeps t v"
    using keeps_iostep [OF bw(4)] by (simp add: v_def)
  ultimately show ?thesis
    using run w pins pin y(1) bw(2) by (auto simp: log_marked_def v_def)
qed

lemma log_write_held:
  fixes t :: "'z klog_scheme" and f :: "block \<Rightarrow> block"
  assumes "csafe p {b} t" "caches y (bufs t b)" "lh_n t < LOGBLOCKS" "0 \<le> lh_n t" "1 \<le> log_outstanding t"
    and "\<And>k. k \<in> set (log_list t) \<Longrightarrow> pinned {b} k t" "room 1 t"
  shows "\<exists>v. log_write b (set_buf b (\<lambda>c. c\<lparr>b_data := f (b_data c)\<rparr>) t) = Ret () v
    \<and> log_marked p b y (blk (f (b_data (bufs t b)))) t v"
  using log_write_absorbed [OF assms(1-6), of f] log_write_new [OF assms(1-6) _ assms(7), of f] by blast

lemma txn_ok_list:
  "txn_ok p s \<longleftrightarrow> csafe p {} s \<and> log_placed s \<and> 0 \<le> lh_n s \<and> lh_n s \<le> LOGBLOCKS \<and> distinct (log_list s)
     \<and> (\<forall>k \<in> set (log_list s). unat k < 2 ^ 31 \<and> \<not> in_log_area s k \<and> pinned {} k s)
     \<and> (\<forall>k. content s k \<noteq> diskblk (disk_image s) k \<longrightarrow> k \<in> set (log_list s))"
proof -
  have "set (log_list s) = lh_block s ` {..<nat (lh_n s)}"
    by (auto simp: log_list_def)
  then show ?thesis
    unfolding txn_ok_def log_ok_def by (auto simp: log_list_def)
qed

lemma in_log_area_cong: "log_start t = log_start s \<Longrightarrow> in_log_area t k = in_log_area s k"
  by (simp add: in_log_area_def)

definition local_change :: "(block \<Rightarrow> block) \<Rightarrow> bool" where
  "local_change f \<longleftrightarrow> (\<forall>d. blk (f d) = blk (f (blk d)))"

text \<open>
  Part of an operation between accesses: the transaction is in order, at most \<open>c\<close> blocks have joined it,
  at most \<open>m\<close> references have been added to a buffer.
\<close>

definition tstep :: "nat \<Rightarrow> nat \<Rightarrow> nat \<Rightarrow> 'z klog_scheme \<Rightarrow> 'z klog_scheme \<Rightarrow> bool" where
  "tstep p m c s t \<longleftrightarrow> txn_ok p t \<and> disk_image t = disk_image s \<and> (\<forall>n. room (n + m) s \<longrightarrow> room n t)
     \<and> lh_n s \<le> lh_n t \<and> lh_n t \<le> lh_n s + int c
     \<and> log_outstanding t = log_outstanding s \<and> log_committing t = log_committing s \<and> log_start t = log_start s
     \<and> keeps s t"

lemma tstepD:
  assumes "tstep p m c s t"
  shows "txn_ok p t" "disk_image t = disk_image s" "room (n + m) s \<Longrightarrow> room n t" "lh_n s \<le> lh_n t" "lh_n t \<le> lh_n s + int c"
    "log_outstanding t = log_outstanding s" "log_committing t = log_committing s" "log_start t = log_start s" "keeps s t"
    "klog.more t = klog.more s" "in_log_area t k = in_log_area s k"
  using assms unfolding tstep_def keeps_def by (auto simp: in_log_area_def)

lemma tstep_refl: "txn_ok p s \<Longrightarrow> tstep p m c s s"
  unfolding tstep_def using keeps_refl by (auto elim: room_mono)

lemma tstep_trans:
  assumes "tstep p m c s t" "tstep p n d t u"
  shows "tstep p (m + n) (c + d) s u"
proof -
  have "room k u" if "room (k + (m + n)) s" for k
    using tstepD(3) [OF assms(2), of k] tstepD(3) [OF assms(1), of "k + n"] that by (simp add: ac_simps)
  then show ?thesis
    using assms keeps_trans unfolding tstep_def by auto
qed

lemma tstep_mono: "tstep p m c s t \<Longrightarrow> m \<le> n \<Longrightarrow> c \<le> d \<Longrightarrow> tstep p n d s t"
  unfolding tstep_def using room_mono [of _ s] by (auto intro: room_mono)

definition logged :: "nat \<Rightarrow> nat \<Rightarrow> uint \<Rightarrow> block \<Rightarrow> 'z klog_scheme \<Rightarrow> 'z klog_scheme \<Rightarrow> bool" where
  "logged p m y d s t \<longleftrightarrow> tstep p m 1 s t \<and> content t = (content s)(y := d)"

text \<open>A block has been read within an operation; then it is changed and logged, or only released.\<close>

definition txn_read :: "nat \<Rightarrow> uint \<Rightarrow> 'z klog_scheme \<Rightarrow> nat \<Rightarrow> 'z klog_scheme \<Rightarrow> bool" where
  "txn_read p y s b t \<longleftrightarrow> iostep s t \<and> csafe p {b} t \<and> caches y (bufs t b) \<and> content t = content s \<and> disk_image t = disk_image s
     \<and> blk (b_data (bufs t b)) = content s y \<and> (\<forall>k. pinned {} k s \<longrightarrow> pinned {b} k t) \<and> (\<forall>n. room (n + 2) s \<longrightarrow> room n t)"

lemma txn_read_spec:
  assumes "txn_ok p s" "room 2 s" "unat y < 2 ^ 31"
  shows "wp (bread 1 y) (txn_read p y s) out_of_bufs s"
  by (rule wp_mono [OF cread [OF txn_okD(1) [OF assms(1)] assms(2,3)]]) (auto simp: txn_read_def bexhausted_out)

lemma txn_read_log:
  fixes s :: "'z klog_scheme"
  assumes s: "txn_ok p s" "room 3 s" "unat y < 2 ^ 31" "\<not> in_log_area s y" "local_change f"
    and n: "lh_n s < LOGBLOCKS" "1 \<le> log_outstanding s" and t: "txn_read p y s b t"
  shows "wp (andthen (modify (set_buf b (\<lambda>c. c\<lparr>b_data := f (b_data c)\<rparr>))) (andthen (log_write b) (brelse b)))
      (\<lambda>_. logged p 3 y (blk (f (content s y))) s) never t"
proof -
  note tx = s(1) [unfolded txn_ok_list]
  have t: "iostep s t" "csafe p {b} t" "caches y (bufs t b)" "content t = content s" "disk_image t = disk_image s"
    "blk (b_data (bufs t b)) = content s y" "\<And>k. pinned {} k s \<Longrightarrow> pinned {b} k t" "\<And>n. room (n + 2) s \<Longrightarrow> room n t"
    using t unfolding txn_read_def by blast+
  note fr = klog_frame [OF t(1)]
  have ll: "log_list t = log_list s"
    by (simp add: log_list_def fr)
  have "room 1 t"
    by (rule t(8)) (use s(2) in \<open>simp add: numeral_eq_Suc\<close>)
  moreover have "\<And>k. k \<in> set (log_list t) \<Longrightarrow> pinned {b} k t"
    using tx t(7) ll by simp
  ultimately obtain v where v: "log_write b (set_buf b (\<lambda>c. c\<lparr>b_data := f (b_data c)\<rparr>) t) = Ret () v"
    "log_marked p b y (blk (f (b_data (bufs t b)))) t v"
    using log_write_held [OF t(2,3), of f] n tx fr by auto
  have data: "blk (f (b_data (bufs t b))) = blk (f (content s y))"
    using s(5) t(6) unfolding local_change_def by metis
  note m = v(2) [unfolded log_marked_def data ll t(4,5) fr]
  obtain w where w: "brelse b v = Ret () w" "iostep v w" "csafe p ({b} - {b}) w" "content w = content v" "disk_image w = disk_image v"
    "\<forall>k. pinned {b} k v \<longrightarrow> pinned ({b} - {b}) k w" "\<forall>n. room n v \<longrightarrow> room n w"
    using crelse [of p "{b}" v b] m by blast
  note fw = klog_frame [OF w(2)]
  have lv: "log_list w = log_list v"
    by (simp add: log_list_def fw)
  have lw: "log_list w = (if y \<in> set (log_list s) then log_list s else log_list s @ [y])"
    using m lv by simp
  have pins: "pinned {} k w" if "k \<in> set (log_list w)" for k
    using that lv m w(6) by simp
  have "txn_ok p w"
    unfolding txn_ok_list
  proof (intro conjI ballI allI impI)
    show "csafe p {} w" "log_placed w" "0 \<le> lh_n w" "lh_n w \<le> LOGBLOCKS" "distinct (log_list w)"
      using w(3) m tx fw n(1) lw by (auto simp: log_placed_def)
    fix k
    show "unat k < 2 ^ 31" "\<not> in_log_area w k" "pinned {} k w" if k: "k \<in> set (log_list w)"
    proof -
      have "k \<in> set (log_list s) \<or> k = y"
        using k lw by (auto split: if_splits)
      moreover have "in_log_area w k = in_log_area s k"
        using m fw by (intro in_log_area_cong) simp
      ultimately show "unat k < 2 ^ 31" "\<not> in_log_area w k" "pinned {} k w"
        using tx s(3,4) pins [OF k] by auto
    qed
    show "k \<in> set (log_list w)" if "content w k \<noteq> diskblk (disk_image w) k"
      using that lw tx w(4,5) m by (auto split: if_splits)
  qed
  moreover have "room n w" if "room (n + 3) s" for n
    using t(8) [of "n + 1"] that m w(7) by (simp add: numeral_eq_Suc)
  ultimately have "logged p 3 y (blk (f (content s y))) s w"
    unfolding logged_def tstep_def using m w(4,5) fw keeps_trans [OF keeps_iostep [OF t(1)] keeps_trans [OF _ keeps_iostep [OF w(2)]]] by simp
  then show ?thesis
    unfolding wp_bind_modify wp_bind_run [where m = "log_write b", OF v(1)] wp_run [where m = "brelse b", OF w(1)] .
qed

lemma txn_read_release:
  assumes s: "txn_ok p s" and t: "txn_read p y s b t"
  shows "\<exists>u. brelse b t = Ret () u \<and> tstep p 2 0 s u \<and> content u = content s"
proof -
  note tx = s [unfolded txn_ok_list] and r = t [unfolded txn_read_def]
  obtain w where w: "brelse b t = Ret () w" "iostep t w" "csafe p ({b} - {b}) w" "content w = content t" "disk_image w = disk_image t"
    "\<forall>k. pinned {b} k t \<longrightarrow> pinned ({b} - {b}) k w" "\<forall>n. room n t \<longrightarrow> room n w"
    using crelse [of p "{b}" t b] r by blast
  have io: "iostep s w"
    using iostep_trans [OF w(2)] r by blast
  note fr = klog_frame [OF io]
  have "txn_ok p w"
    using tx w r fr by (auto simp: txn_ok_list log_list_def log_placed_def in_log_area_def)
  then have "tstep p 2 0 s w"
    unfolding tstep_def using w r fr keeps_iostep [OF io] by simp
  then show ?thesis
    using w r by auto
qed

lemma txn_local:
  assumes "txn_read p y s b t" "\<And>d. g (blk d) = g d"
  shows "g (b_data (bufs t b)) = g (content s y)"
  using assms unfolding txn_read_def by metis

lemma log_block_spec:
  fixes s :: "'z klog_scheme"
  assumes s: "txn_ok p s" "room 3 s" "unat y < 2 ^ 31" "\<not> in_log_area s y" "local_change f"
    and n: "lh_n s < LOGBLOCKS" "1 \<le> log_outstanding s"
  shows "wp (log_block y f) (\<lambda>_. logged p 3 y (blk (f (content s y))) s) out_of_bufs s"
  unfolding log_block_def
proof (rule wp_bindI [OF txn_read_spec [OF s(1) room_mono [OF s(2)] s(3)]])
  fix b and t :: "'z klog_scheme" assume "txn_read p y s b t"
  then show "wp (andthen (modify (set_buf b (\<lambda>c. c\<lparr>b_data := f (b_data c)\<rparr>))) (andthen (log_write b) (brelse b)))
      (\<lambda>_. logged p 3 y (blk (f (content s y))) s) out_of_bufs t"
    by (rule wp_mono [OF txn_read_log [OF s n]]) simp_all
qed simp_all

lemma klog_log_frame [simp]:
  "log_list (log_outstanding_update g s) = log_list s" "log_list (log_committing_update g s) = log_list s"
  "log_placed (log_outstanding_update g s) = log_placed s" "log_placed (log_committing_update g s) = log_placed s"
  "in_log_area (log_outstanding_update g s) k = in_log_area s k" "in_log_area (log_committing_update g s) k = in_log_area s k"
  "log_list (PCBs_update h s) = log_list s" "log_placed (PCBs_update h s) = log_placed s"
  "in_log_area (PCBs_update h s) k = in_log_area s k" "log_list (onproc q s) = log_list s"
  "log_placed (onproc q s) = log_placed s" "in_log_area (onproc q s) k = in_log_area s k"
  by (simp_all add: log_list_def log_placed_def in_log_area_def)

lemma cache_proc_frame:
  shows "content (PCBs_update h s) = content s" "content (onproc q s) = content s"
    "room n (PCBs_update h s) = room n s" "room n (onproc q s) = room n s"
    "pinned H k (PCBs_update h s) = pinned H k s" "pinned H k (onproc q s) = pinned H k s"
    "csafe p {} (PCBs_update h s) = csafe p {} s"
proof -
  show c: "content (PCBs_update h s) = content s" "content (onproc q s) = content s"
    by (rule content_same; simp)+
  show "room n (PCBs_update h s) = room n s" "room n (onproc q s) = room n s"
    and p: "\<And>H k. pinned H k (PCBs_update h s) = pinned H k s" "pinned H k (onproc q s) = pinned H k s"
    by (simp_all add: room_def pinned_def)
  show "csafe p {} (PCBs_update h s) = csafe p {} s"
    by (simp add: csafe_def c p disk_ready_def bcache_ok_def)
qed

lemma csafe_onproc: "csafe p {} s \<Longrightarrow> q < NPROC \<Longrightarrow> csafe q {} (onproc (Some q) s)"
  by (simp add: csafe_def cache_proc_frame disk_ready_def bcache_ok_def vd_quiet_def)

lemma txn_ok_frame [simp]:
  "txn_ok p (log_outstanding_update g s) = txn_ok p s" "txn_ok p (log_committing_update g s) = txn_ok p s"
  "txn_ok p (PCBs_update h s) = txn_ok p s"
  by (simp_all add: txn_ok_list cache_proc_frame)

lemma txn_ok_onproc: "txn_ok p s \<Longrightarrow> q < NPROC \<Longrightarrow> txn_ok q (onproc (Some q) s)"
  using csafe_onproc [of p s q] by (simp add: txn_ok_list cache_proc_frame)

lemma end_op_spec:
  fixes s :: "'z klog_scheme"
  assumes s: "txn_ok p s" "log_committing s = 0" "room (8 * nat (lh_n s) + 4) s"
  shows "wp end_op (\<lambda>_ t. txn_ok p t \<and> log_committing t = 0 \<and> log_outstanding t = log_outstanding s - 1 \<and> log_start t = log_start s
      \<and> lh_n t = (if log_outstanding s = 1 then 0 else lh_n s) \<and> (\<forall>k. \<not> in_log_area s k \<longrightarrow> content t k = content s k)
      \<and> (log_outstanding s = 1 \<longrightarrow> dirty t = {})) out_of_bufs s"
proof -
  have c: "calm s"
    using txn_okD(1) [OF s(1)] csafeD(1) disk_readyD(1) by blast
  show ?thesis
  proof (cases "log_outstanding s = 1")
    case True
    let ?s = "s\<lparr>log_outstanding := 0, log_committing := 1\<rparr>"
    have e: "end_op s = andthen commit (andthen (acquire LLog) (andthen (modify (\<lambda>s. s\<lparr>log_committing := 0\<rparr>))
        (andthen (wakeup (Some ChLog)) (release LLog)))) ?s"
      using c True s(2) by (simp add: end_op_def)
    have "wp (andthen commit (andthen (acquire LLog) (andthen (modify (\<lambda>s. s\<lparr>log_committing := 0\<rparr>))
        (andthen (wakeup (Some ChLog)) (release LLog))))) (\<lambda>_ t. txn_ok p t \<and> log_committing t = 0
      \<and> log_outstanding t = log_outstanding s - 1 \<and> log_start t = log_start s
      \<and> lh_n t = (if log_outstanding s = 1 then 0 else lh_n s) \<and> (\<forall>k. \<not> in_log_area s k \<longrightarrow> content t k = content s k)
      \<and> (log_outstanding s = 1 \<longrightarrow> dirty t = {})) out_of_bufs ?s"
    proof (rule wp_bindI [OF commit_spec [of p ?s]])
      fix a and t :: "'z klog_scheme"
      assume t: "csafe p {} t \<and> lh_n t = 0 \<and> same_log ?s t \<and> dirty t = {}
        \<and> (\<forall>k. \<not> in_log_area ?s k \<longrightarrow> content t k = content ?s k \<and> diskblk (disk_image t) k = content ?s k)
        \<and> get32 (diskblk (disk_image t) (lhead ?s)) 0 = get32 (content ?s (lhead ?s)) 0"
      let ?u = "t\<lparr>log_committing := 0, PCBs := woken ChLog t\<rparr>"
      have ct: "calm t"
        using t csafeD(1) disk_readyD(1) by blast
      have "txn_ok p t"
        using t s(1) unfolding txn_ok_list by (auto simp: same_log_def log_placed_def log_list_def dirty_def LOGBLOCKS_def)
      then have "txn_ok p ?u" "dirty ?u = {}"
        using t by (simp_all add: dirty_def cache_proc_frame)
      then have "txn_ok p ?u \<and> log_committing ?u = 0 \<and> log_outstanding ?u = log_outstanding s - 1 \<and> log_start ?u = log_start s
        \<and> lh_n ?u = (if log_outstanding s = 1 then 0 else lh_n s) \<and> (\<forall>k. \<not> in_log_area s k \<longrightarrow> content ?u k = content s k)
        \<and> (log_outstanding s = 1 \<longrightarrow> dirty ?u = {})"
        using t True by (simp add: same_log_def cache_proc_frame)
      moreover have "andthen (acquire LLog) (andthen (modify (\<lambda>s. s\<lparr>log_committing := 0\<rparr>))
          (andthen (wakeup (Some ChLog)) (release LLog))) t = Ret () ?u"
        using ct by (simp add: wakeup_run woken_def)
      ultimately show "wp (andthen (acquire LLog) (andthen (modify (\<lambda>s. s\<lparr>log_committing := 0\<rparr>))
          (andthen (wakeup (Some ChLog)) (release LLog)))) (\<lambda>_ t. txn_ok p t \<and> log_committing t = 0
        \<and> log_outstanding t = log_outstanding s - 1 \<and> log_start t = log_start s
        \<and> lh_n t = (if log_outstanding s = 1 then 0 else lh_n s) \<and> (\<forall>k. \<not> in_log_area s k \<longrightarrow> content t k = content s k)
        \<and> (log_outstanding s = 1 \<longrightarrow> dirty t = {})) out_of_bufs t"
        by (simp add: wp_def)
    qed (use s in simp_all)
    then show ?thesis
      unfolding wp_def e .
  next
    case False
    then show ?thesis
      using c s(1,2) by (simp add: end_op_def wp_def wakeup_run cache_proc_frame)
  qed
qed

text \<open>
  Processes take turns between their calls of the log: \<open>u q\<close> is the number of blocks process \<open>q\<close> has
  logged in its open operation. A process that finds no space in the log sleeps in \<^verbatim>\<open>begin_op\<close> and
  does not get further. The counts of references must have room, as they only ever grow.
\<close>

inductive log_sys :: "'z klog_scheme \<Rightarrow> 'z klog_scheme \<Rightarrow> (nat \<Rightarrow> nat option) \<Rightarrow> bool" for s0 where
  log_start: "log_sys s0 s0 (\<lambda>_. None)"
| log_begin: "log_sys s0 s u \<Longrightarrow> q < NPROC \<Longrightarrow> u q = None \<Longrightarrow> begin_op (onproc (Some q) s) = Ret () t
    \<Longrightarrow> log_sys s0 t (u(q := Some 0))"
| log_change: "log_sys s0 s u \<Longrightarrow> u q = Some c \<Longrightarrow> c < nat MAXOPBLOCKS \<Longrightarrow> room 3 s
    \<Longrightarrow> unat y < 2 ^ 31 \<Longrightarrow> \<not> in_log_area s y \<Longrightarrow> local_change f
    \<Longrightarrow> log_block y f (onproc (Some q) s) = Ret () t \<Longrightarrow> log_sys s0 t (u(q := Some (c + 1)))"
| log_end: "log_sys s0 s u \<Longrightarrow> u q = Some c \<Longrightarrow> room 724 s \<Longrightarrow> end_op (onproc (Some q) s) = Ret () t
    \<Longrightarrow> log_sys s0 t (u(q := None))"

definition op_count :: "nat option \<Rightarrow> int" where
  "op_count c = (if c = None then 0 else 1)"

definition op_budget :: "nat option \<Rightarrow> int" where
  "op_budget c = (case c of None \<Rightarrow> 0 | Some c \<Rightarrow> MAXOPBLOCKS - int c)"

lemma op_simps [simp]: "op_count None = 0" "op_count (Some c) = 1" "op_budget None = 0" "op_budget (Some c) = MAXOPBLOCKS - int c"
  by (simp_all add: op_count_def op_budget_def)

definition log_inv :: "'z klog_scheme \<Rightarrow> (nat \<Rightarrow> nat option) \<Rightarrow> bool" where
  "log_inv s u \<longleftrightarrow> (\<exists>p. txn_ok p s) \<and> log_committing s = 0
     \<and> (\<forall>q c. u q = Some c \<longrightarrow> q < NPROC \<and> int c \<le> MAXOPBLOCKS)
     \<and> log_outstanding s = (\<Sum>q < NPROC. op_count (u q))
     \<and> lh_n s + (\<Sum>q < NPROC. op_budget (u q)) \<le> LOGBLOCKS
     \<and> (log_outstanding s = 0 \<longrightarrow> lh_n s = 0)"

lemma sum_slot:
  fixes f :: "'b \<Rightarrow> int" and q n :: nat
  assumes "q < n"
  shows "(\<Sum>i < n. f ((u(q := v)) i)) = (\<Sum>i < n. f (u i)) - f (u q) + f v"
proof -
  have "(\<Sum>i < n. f ((u(q := v)) i)) = f v + (\<Sum>i \<in> {..<n} - {q}. f ((u(q := v)) i))"
    using assms by (subst sum.remove [of _ q]) simp_all
  moreover have "(\<Sum>i \<in> {..<n} - {q}. f ((u(q := v)) i)) = (\<Sum>i \<in> {..<n} - {q}. f (u i))"
    by (rule sum.cong) auto
  moreover have "(\<Sum>i < n. f (u i)) = f (u q) + (\<Sum>i \<in> {..<n} - {q}. f (u i))"
    using assms by (subst sum.remove [of _ q]) simp_all
  ultimately show ?thesis by simp
qed

lemma log_inv_sums:
  assumes "log_inv s u" "u q = Some c"
  shows "1 \<le> log_outstanding s" "lh_n s + (MAXOPBLOCKS - int c) \<le> LOGBLOCKS"
    "log_outstanding s = 1 \<Longrightarrow> (\<Sum>i < NPROC. op_count ((u(q := None)) i)) = 0"
proof -
  have q: "q < NPROC"
    using assms unfolding log_inv_def by blast
  have nn: "0 \<le> op_count (u i)" "0 \<le> op_budget (u i)" for i
    using assms(1) unfolding log_inv_def op_count_def op_budget_def by (auto split: option.split)
  have "op_count (u q) \<le> (\<Sum>i < NPROC. op_count (u i))" "op_budget (u q) \<le> (\<Sum>i < NPROC. op_budget (u i))"
    using q nn by (auto intro!: member_le_sum)
  then show "1 \<le> log_outstanding s" "lh_n s + (MAXOPBLOCKS - int c) \<le> LOGBLOCKS"
    using assms unfolding log_inv_def op_count_def op_budget_def by auto
  show "(\<Sum>i < NPROC. op_count ((u(q := None)) i)) = 0" if "log_outstanding s = 1"
    using assms that sum_slot [OF q, of op_count u None] unfolding log_inv_def by (simp add: op_count_def)
qed

lemma log_inv_begin:
  assumes "log_inv s u" "q < NPROC" "u q = None" "begin_op (onproc (Some q) s) = Ret () t"
  shows "log_inv t (u(q := Some 0))"
proof -
  obtain p where "txn_ok p s"
    using assms(1) unfolding log_inv_def by blast
  then have tx: "txn_ok q (onproc (Some q) s)"
    using txn_ok_onproc assms(2) by blast
  then have r: "calm (onproc (Some q) s)" "noff (mycpu (onproc (Some q) s)) = 0"
    using txn_okD(1) csafeD(1) disk_readyD by blast+
  have t: "t = (onproc (Some q) s)\<lparr>log_outstanding := log_outstanding s + 1\<rparr>"
    and room: "lh_n s + (log_outstanding s + 1) * MAXOPBLOCKS \<le> LOGBLOCKS"
    using assms(1,4) begin_op_run [OF r(1) _ r(2), of q] unfolding log_inv_def by (auto split: if_splits)
  have "op_budget (u i) \<le> MAXOPBLOCKS * op_count (u i)" for i
    by (simp add: op_budget_def op_count_def split: option.split)
  then have "(\<Sum>i < NPROC. op_budget (u i)) \<le> MAXOPBLOCKS * (\<Sum>i < NPROC. op_count (u i))"
    unfolding sum_distrib_left by (intro sum_mono)
  moreover have "log_outstanding s \<ge> 0"
    using assms(1) unfolding log_inv_def op_count_def by (auto intro: sum_nonneg)
  ultimately show ?thesis
    using assms(1-3) tx room sum_slot [OF assms(2), of op_count u "Some 0"] sum_slot [OF assms(2), of op_budget u "Some 0"]
    unfolding log_inv_def t by (auto simp: op_count_def op_budget_def MAXOPBLOCKS_def algebra_simps)
qed

lemma log_inv_change:
  assumes "log_inv s u" "u q = Some c" "c < nat MAXOPBLOCKS" "room 3 s" "unat y < 2 ^ 31" "\<not> in_log_area s y" "local_change f"
  shows "wp (log_block y f) (\<lambda>_ t. log_inv t (u(q := Some (c + 1))) \<and> content t = (content s)(y := blk (f (content s y)))
    \<and> disk_image t = disk_image s) out_of_bufs (onproc (Some q) s)"
proof -
  have q: "q < NPROC"
    using assms(1,2) unfolding log_inv_def by blast
  then have tx: "txn_ok q (onproc (Some q) s)"
    using assms(1) txn_ok_onproc unfolding log_inv_def by blast
  note sums = log_inv_sums [OF assms(1,2)]
  have "lh_n (onproc (Some q) s) < LOGBLOCKS" "1 \<le> log_outstanding (onproc (Some q) s)"
    using sums assms(3) by (simp_all add: MAXOPBLOCKS_def)
  moreover have "room 3 (onproc (Some q) s)" "\<not> in_log_area (onproc (Some q) s) y"
    using assms(4,6) by (simp_all add: cache_proc_frame)
  ultimately show ?thesis
  proof (intro wp_mono [OF log_block_spec [OF tx _ assms(5) _ assms(7)]])
    fix a t assume t: "logged q 3 y (blk (f (content (onproc (Some q) s) y))) (onproc (Some q) s) t"
    have "log_inv t (u(q := Some (c + 1)))"
      using t assms(1-3) q sum_slot [OF q, of op_count u "Some (c + 1)"] sum_slot [OF q, of op_budget u "Some (c + 1)"] sums(1)
      unfolding log_inv_def logged_def tstep_def by (auto simp: op_count_def op_budget_def MAXOPBLOCKS_def)
    with t show "log_inv t (u(q := Some (c + 1))) \<and> content t = (content s)(y := blk (f (content s y))) \<and> disk_image t = disk_image s"
      by (simp add: logged_def tstep_def cache_proc_frame)
  qed simp_all
qed

lemma log_inv_end:
  assumes "log_inv s u" "u q = Some c" "room 724 s"
  shows "wp end_op (\<lambda>_ t. log_inv t (u(q := None)) \<and> (\<forall>k. \<not> in_log_area s k \<longrightarrow> content t k = content s k)) out_of_bufs (onproc (Some q) s)"
proof -
  have q: "q < NPROC"
    using assms(1,2) unfolding log_inv_def by blast
  then have tx: "txn_ok q (onproc (Some q) s)"
    using assms(1) txn_ok_onproc unfolding log_inv_def by blast
  note sums = log_inv_sums [OF assms(1,2)]
  have "lh_n s \<le> LOGBLOCKS"
    using tx by (simp add: txn_ok_list)
  then have "room (8 * nat (lh_n (onproc (Some q) s)) + 4) (onproc (Some q) s)" "log_committing (onproc (Some q) s) = 0"
    using assms(1,3) room_mono [of 724 s] unfolding log_inv_def by (simp_all add: cache_proc_frame LOGBLOCKS_def)
  then show ?thesis
  proof (intro wp_mono [OF end_op_spec [OF tx]])
    fix a t
    assume t: "txn_ok q t \<and> log_committing t = 0 \<and> log_outstanding t = log_outstanding (onproc (Some q) s) - 1
      \<and> log_start t = log_start (onproc (Some q) s)
      \<and> lh_n t = (if log_outstanding (onproc (Some q) s) = 1 then 0 else lh_n (onproc (Some q) s))
      \<and> (\<forall>k. \<not> in_log_area (onproc (Some q) s) k \<longrightarrow> content t k = content (onproc (Some q) s) k)
      \<and> (log_outstanding (onproc (Some q) s) = 1 \<longrightarrow> dirty t = {})"
    have c: "int c \<le> MAXOPBLOCKS" and old: "log_outstanding s = (\<Sum>i < NPROC. op_count (u i))"
      "lh_n s + (\<Sum>i < NPROC. op_budget (u i)) \<le> LOGBLOCKS"
      using assms(1,2) unfolding log_inv_def by blast+
    have count: "(\<Sum>i < NPROC. op_count ((u(q := None)) i)) = log_outstanding s - 1"
      using sum_slot [OF q, of op_count u None] assms(2) old(1) by simp
    have "(\<Sum>i < NPROC. op_budget ((u(q := None)) i)) = (\<Sum>i < NPROC. op_budget (u i)) - (MAXOPBLOCKS - int c)"
      using sum_slot [OF q, of op_budget u None] assms(2) by simp
    moreover have "lh_n t \<le> lh_n s"
      using t tx by (simp add: txn_ok_list)
    ultimately have "lh_n t + (\<Sum>i < NPROC. op_budget ((u(q := None)) i)) \<le> LOGBLOCKS"
      using old(2) c by linarith
    moreover have "\<forall>i c. (u(q := None)) i = Some c \<longrightarrow> i < NPROC \<and> int c \<le> MAXOPBLOCKS"
      using assms(1) unfolding log_inv_def by auto
    ultimately have "log_inv t (u(q := None))"
      using t count unfolding log_inv_def by auto
    with t show "log_inv t (u(q := None)) \<and> (\<forall>k. \<not> in_log_area s k \<longrightarrow> content t k = content s k)"
      by (simp add: cache_proc_frame)
  qed simp_all
qed

lemma log_sys_inv:
  assumes "log_sys s0 s u" "log_inv s0 (\<lambda>_. None)"
  shows "log_inv s u"
  using assms
proof (induction rule: log_sys.induct)
  case (log_begin s u q t)
  then show ?case by (blast intro: log_inv_begin)
next
  case (log_change s u q c y f t)
  then show ?case
    using log_inv_change [of s u q c y f] by (simp add: wp_def fun_upd_def)
next
  case (log_end s u q c t)
  then show ?case
    using log_inv_end [of s u q c] by (simp add: wp_def fun_upd_def)
qed


text \<open>States to try the log on: the log area is blocks 2 to 92.\<close>

definition some_log :: "(nat \<Rightarrow> buf) \<Rightarrow> image \<Rightarrow> int \<Rightarrow> (nat \<Rightarrow> uint) \<Rightarrow> klog" where
  "some_log bs img n blocks = vdisk.extend (some_disk (some_bufs bs) img)
     \<lparr>log_start = 2, log_outstanding = 0, log_committing = 0, log_dev = 1, lh_n = n, lh_block = blocks\<rparr>"

lemma some_log_simps [simp]:
  "log_start (some_log bs img n blocks) = 2" "log_outstanding (some_log bs img n blocks) = 0"
  "log_committing (some_log bs img n blocks) = 0" "log_dev (some_log bs img n blocks) = 1"
  "lh_n (some_log bs img n blocks) = n" "lh_block (some_log bs img n blocks) = blocks"
  "bufs (some_log bs img n blocks) = some_bufs bs" "disk_image (some_log bs img n blocks) = img"
  "sleeplocks (some_log bs img n blocks) = (\<lambda>_. \<lparr>sl_locked = 0, sl_name = [], sl_pid = 0\<rparr>)"
  "calm (some_log bs img n blocks)" "c_proc (mycpu (some_log bs img n blocks)) = Some 1"
  "noff (mycpu (some_log bs img n blocks)) = 0" "device (some_log bs img n blocks) = ideal_device"
  "vd_quiet (some_log bs img n blocks)"
  by (simp_all add: some_log_def some_disk_def some_slk_def some_procs_def procs.extend_def slk.extend_def vdisk.extend_def
    onproc_def calm_def hart_ok_def idle_def machine_defs intr_get_def SSTATUS_SIE_def vd_quiet_def zero_vring_def)

lemma some_log_csafe:
  assumes "bufs_ok bs img (\<lambda>_. \<lparr>sl_locked = 0, sl_name = [], sl_pid = 0\<rparr>)"
    and "\<And>k. content (some_log bs img n blocks) k \<noteq> diskblk img k \<Longrightarrow> pinned {} k (some_log bs img n blocks)"
  shows "csafe 1 {} (some_log bs img n blocks)"
proof -
  have "bidle 1 (some_disk (some_bufs bs) img)"
    by (rule some_disk_idle [OF assms(1)])
  then have "\<exists>xs. bring (some_bufs bs) xs \<and> set xs = {..<NBUF}"
    by (simp add: bidle_def bcache_ok_def)
  moreover have "bufs_ok (some_bufs bs) img (\<lambda>_. \<lparr>sl_locked = 0, sl_name = [], sl_pid = 0\<rparr>)"
    using assms(1) by (subst bufs_ok_cong [of _ bs]) (simp_all add: some_bufs_def)
  ultimately show ?thesis
    using assms(2) by (simp add: csafe_def disk_ready_def bcache_ok_def NPROC_def)
qed

text \<open>An empty log, and one with a single changed block, number 100, in buffer 0.\<close>

definition empty_log :: klog where
  "empty_log = some_log (\<lambda>_. zero_buf) (\<lambda>_ _. 0) 0 (\<lambda>_. 0)"

definition one_block :: "nat \<Rightarrow> buf" where
  "one_block i = (if i = 0 then zero_buf\<lparr>b_dev := 1, b_blockno := 100, b_valid := 1, b_refcnt := 1, b_data := (\<lambda>_. 7)\<rparr> else zero_buf)"

definition one_log :: klog where
  "one_log = some_log one_block (\<lambda>_ _. 0) 1 (\<lambda>_. 100)"

lemma empty_log_ok: "txn_ok 1 empty_log"
proof -
  have c: "content empty_log k = diskblk (\<lambda>_ _. 0) k" for k
    by (subst content_absent) (simp_all add: empty_log_def some_bufs_def zero_buf_def)
  have "csafe 1 {} empty_log"
    unfolding empty_log_def
    by (rule some_log_csafe) (use c in \<open>simp_all add: empty_log_def bufs_ok_def zero_buf_def\<close>)
  then show ?thesis
    using c by (auto simp: txn_ok_list log_list_def log_placed_def LOGBLOCKS_def empty_log_def)
qed

lemma one_block_ok: "bufs_ok one_block (\<lambda>_ _. 0) (\<lambda>_. \<lparr>sl_locked = 0, sl_name = [], sl_pid = 0\<rparr>)"
  unfolding bufs_ok_def by (auto simp: one_block_def zero_buf_def split: if_splits)

lemma one_log_content: "content one_log k = (if k = 100 then blk (\<lambda>_. 7) else diskblk (\<lambda>_ _. 0) k)"
proof (cases "k = 100")
  case True
  have ok: "bufs_ok (bufs one_log) (\<lambda>_ _. 0) (\<lambda>_. \<lparr>sl_locked = 0, sl_name = [], sl_pid = 0\<rparr>)"
    using one_block_ok by (subst bufs_ok_cong [of _ one_block]) (simp_all add: one_log_def some_bufs_def)
  have "content one_log 100 = blk (b_data (bufs one_log 0))"
    by (rule content_cached [OF ok]) (simp_all add: one_log_def some_bufs_def one_block_def caches_def NBUF_def)
  then show ?thesis
    using True by (simp add: one_log_def some_bufs_def one_block_def)
next
  case False
  then show ?thesis
    by (subst content_absent) (auto simp: one_log_def some_bufs_def one_block_def caches_def zero_buf_def split: if_splits)
qed

lemma one_log_ok: "txn_ok 1 one_log"
proof -
  have p: "pinned {} 100 one_log"
    unfolding pinned_def by (rule exI [of _ 0]) (simp add: one_log_def some_bufs_def one_block_def caches_def NBUF_def)
  have "csafe 1 {} one_log"
    unfolding one_log_def
    by (rule some_log_csafe [OF one_block_ok]) (use p one_log_content in \<open>auto simp: one_log_def split: if_splits\<close>)
  moreover have "in_log_area one_log 100 = False"
    by (simp add: in_log_area_def one_log_def LOGBLOCKS_def)
  ultimately show ?thesis
    using p one_log_content by (auto simp: txn_ok_list log_list_def log_placed_def LOGBLOCKS_def one_log_def split: if_splits)
qed

theorem commit_makes_durable_witness:
  "wp commit (\<lambda>_ t. diskblk (disk_image t) 100 5 = 7 \<and> lh_n t = 0 \<and> dirty t = {}) out_of_bufs one_log"
proof -
  have "room (8 * nat (lh_n one_log) + 4) one_log"
    by (simp add: room_def one_log_def some_bufs_def one_block_def zero_buf_def)
  moreover have "\<not> in_log_area one_log 100"
    by (simp add: in_log_area_def one_log_def LOGBLOCKS_def)
  ultimately show ?thesis
    by (intro wp_mono [OF commit_makes_durable [OF one_log_ok]]) (auto simp: one_log_content blk_def BSIZE_def)
qed

theorem crash_loses_committed_transaction_witness:
  "wp (andthen write_log write_head) (\<lambda>_ t.
      wp recover_from_log (\<lambda>_ u. diskblk (disk_image u) 100 5 = 0) out_of_bufs (some_log (\<lambda>_. zero_buf) (disk_image t) 0 (\<lambda>_. 0)))
    out_of_bufs one_log"
proof -
  have r: "room (4 * nat (lh_n one_log) + 2) one_log"
    by (simp add: room_def one_log_def some_bufs_def one_block_def zero_buf_def)
  have n: "0 < lh_n one_log"
    by (simp add: one_log_def)
  have "lhead one_log \<noteq> 100"
    by (simp add: lhead_def one_log_def)
  then have h: "get32 (content one_log (lhead one_log)) 0 = 0"
    by (simp add: one_log_content get32_def diskblk_def blk_def BSIZE_def)
  have out: "\<not> in_log_area one_log 100"
    by (simp add: in_log_area_def one_log_def LOGBLOCKS_def)
  show ?thesis
  proof (rule wp_mono [OF crash_loses_committed_transaction [OF one_log_ok r n h, of 1]])
    fix t :: klog
    let ?r = "some_log (\<lambda>_. zero_buf) (disk_image t) 0 (\<lambda>_. 0)"
    assume *: "\<forall>r :: klog. csafe 1 {} r \<and> room 4 r \<and> disk_image r = disk_image t \<and> content r = diskblk (disk_image t)
        \<and> log_placed r \<and> log_start r = log_start one_log
      \<longrightarrow> wp recover_from_log (\<lambda>_ u. \<forall>k. \<not> in_log_area one_log k \<longrightarrow> diskblk (disk_image u) k = diskblk (disk_image one_log) k) out_of_bufs r"
    have c: "content ?r = diskblk (disk_image t)"
      by (rule ext, subst content_absent) (simp_all add: some_bufs_def zero_buf_def)
    then have "csafe 1 {} ?r"
      by (intro some_log_csafe) (simp_all add: bufs_ok_def zero_buf_def)
    then have "wp recover_from_log (\<lambda>_ u. \<forall>k. \<not> in_log_area one_log k \<longrightarrow> diskblk (disk_image u) k = diskblk (disk_image one_log) k) out_of_bufs ?r"
      using * c by (auto simp: room_def some_bufs_def zero_buf_def log_placed_def LOGBLOCKS_def one_log_def)
    then show "wp recover_from_log (\<lambda>_ u. diskblk (disk_image u) 100 5 = 0) out_of_bufs ?r"
    proof (rule wp_mono)
      fix u :: klog
      assume "\<forall>k. \<not> in_log_area one_log k \<longrightarrow> diskblk (disk_image u) k = diskblk (disk_image one_log) k"
      then have "diskblk (disk_image u) 100 = diskblk (disk_image one_log) 100"
        using out by blast
      then show "diskblk (disk_image u) 100 5 = 0"
        by (simp add: one_log_def) (simp add: diskblk_def blk_def)
    qed
  qed simp
qed


end
