(* ===== verification/Fs.thy ===== *)
theory Fs
  imports Log
begin

text \<open>
  The file system (\<^verbatim>\<open>kernel/disk/fs.c\<close>): block allocation, inodes, file contents, directories and
  path names. A \<^verbatim>\<open>struct inode*\<close> is an index into \<^verbatim>\<open>itable.inode\<close>, whose sleeplock is
  \<open>SInode\<close> of that index. Messages printed on the console are left out.
\<close>

section \<open>Layout (fs.h, stat.h, file.h)\<close>

definition ROOTINO :: uint where "ROOTINO = 1"
definition ROOTDEV :: uint where "ROOTDEV = 1"
definition FSMAGIC :: uint where "FSMAGIC = 0x10203040"
definition NDIRECT :: nat where "NDIRECT = 12"
definition NINDIRECT :: nat where "NINDIRECT = BSIZE div 4"
definition MAXFILE :: nat where "MAXFILE = NDIRECT + NINDIRECT"
definition IPB :: nat where "IPB = BSIZE div 64"
definition BPB :: nat where "BPB = BSIZE * 8"
definition DIRSIZ :: nat where "DIRSIZ = 14"
definition NINODE :: nat where "NINODE = 50"

definition T_DIR :: ushort where "T_DIR = 1"
definition T_FILE :: ushort where "T_FILE = 2"
definition T_DEVICE :: ushort where "T_DEVICE = 3"

record superblock =
  sb_magic :: uint
  sb_size :: uint
  sb_nblocks :: uint
  sb_ninodes :: uint
  sb_nlog :: uint
  sb_logstart :: uint
  sb_inodestart :: uint
  sb_bmapstart :: uint

text \<open>The part of an inode that is also on disk (\<^verbatim>\<open>struct dinode\<close>), and the inode in memory.\<close>

record dinode =
  di_type :: ushort
  di_major :: ushort
  di_minor :: ushort
  di_nlink :: ushort
  di_size :: uint
  di_addrs :: "nat \<Rightarrow> uint"

record inode =
  i_dev :: uint
  i_inum :: uint
  i_ref :: int
  i_valid :: int
  i_d :: dinode

text \<open>
  \<open>bcache_addr\<close>, \<open>str_addr\<close> and \<open>cpu_addr\<close> are addresses the linker chooses: of \<^verbatim>\<open>bcache.buf\<close>, of
  string literals and of the elements of \<^verbatim>\<open>cpus\<close>. \<open>stack_junk\<close> is what an uninitialised local
  variable holds.
\<close>

record fs = klog +
  sb :: superblock
  inodes :: "nat \<Rightarrow> inode"
  bcache_addr :: uint64
  str_addr :: "string \<Rightarrow> uint64"
  cpu_addr :: "nat \<Rightarrow> uint64"
  stack_junk :: "nat \<Rightarrow> byte"

definition set_inode :: "nat \<Rightarrow> (inode \<Rightarrow> inode) \<Rightarrow> 'z fs_scheme \<Rightarrow> 'z fs_scheme" where
  "set_inode ip f s = s\<lparr>inodes := (inodes s)(ip := f (inodes s ip))\<rparr>"

definition set_d :: "nat \<Rightarrow> (dinode \<Rightarrow> dinode) \<Rightarrow> 'z fs_scheme \<Rightarrow> 'z fs_scheme" where
  "set_d ip f = set_inode ip (\<lambda>i. i\<lparr>i_d := f (i_d i)\<rparr>)"

definition set_data :: "nat \<Rightarrow> (block \<Rightarrow> block) \<Rightarrow> 'z vdisk_scheme \<Rightarrow> 'z vdisk_scheme" where
  "set_data b f = set_buf b (\<lambda>c. c\<lparr>b_data := f (b_data c)\<rparr>)"

text \<open>Block that holds inode \<open>i\<close>, and bitmap block for block \<open>b\<close>; the arithmetic is on \<^verbatim>\<open>uint\<close>.\<close>

definition IBLOCK :: "nat \<Rightarrow> superblock \<Rightarrow> uint" where
  "IBLOCK i w = of_nat (i div IPB) + sb_inodestart w"

definition BBLOCK :: "nat \<Rightarrow> superblock \<Rightarrow> uint" where
  "BBLOCK b w = of_nat (b div BPB) + sb_bmapstart w"

text \<open>\<^verbatim>\<open>(struct dinode*)bp->data + inum % IPB\<close>: the byte offset of an inode in its block.\<close>

definition dinode_off :: "nat \<Rightarrow> nat" where
  "dinode_off inum = 64 * (inum mod IPB)"

definition get_dinode :: "block \<Rightarrow> nat \<Rightarrow> dinode" where
  "get_dinode d k = \<lparr>di_type = get16 d k, di_major = get16 d (k + 2), di_minor = get16 d (k + 4),
     di_nlink = get16 d (k + 6), di_size = get32 d (k + 8),
     di_addrs = (\<lambda>i. if i \<le> NDIRECT then get32 d (k + 12 + 4 * i) else 0)\<rparr>"

definition put_dinode :: "block \<Rightarrow> nat \<Rightarrow> dinode \<Rightarrow> block" where
  "put_dinode d k di =
     fold (\<lambda>i d. put32 d (k + 12 + 4 * i) (di_addrs di i)) [0..<NDIRECT + 1]
       (put32 (put16 (put16 (put16 (put16 d k (di_type di)) (k + 2) (di_major di)) (k + 4) (di_minor di))
         (k + 6) (di_nlink di)) (k + 8) (di_size di))"

section \<open>Blocks\<close>

text \<open>\<^verbatim>\<open>bp->data[bi/8] & (1 << (bi % 8))\<close>.\<close>

definition bmap_bit :: "block \<Rightarrow> nat \<Rightarrow> bool" where
  "bmap_bit d bi \<longleftrightarrow> d (bi div 8) AND push_bit (bi mod 8) 1 \<noteq> 0"

definition bmap_set :: "nat \<Rightarrow> block \<Rightarrow> block" where
  "bmap_set bi d = d(bi div 8 := d (bi div 8) OR push_bit (bi mod 8) 1)"

definition bmap_clear :: "nat \<Rightarrow> block \<Rightarrow> block" where
  "bmap_clear bi d = d(bi div 8 := d (bi div 8) AND NOT (push_bit (bi mod 8) 1))"

text \<open>For a block number that is negative as an \<^verbatim>\<open>int\<close> the shift and the index of \<^verbatim>\<open>bfree\<close> are undefined.\<close>

definition bfree :: "uint \<Rightarrow> uint \<Rightarrow> ('z fs_scheme, unit) oper" where
  "bfree dev bbnum =
     (if sint bbnum < 0 then Fault Wild else
     bind (gets (\<lambda>s. BBLOCK (unat bbnum) (sb s))) (\<lambda>bb.
     bind (bread dev bb) (\<lambda>bp.
     let bi = unat bbnum mod BPB in
     bind (gets (\<lambda>s. bmap_bit (b_data (bufs s bp)) bi)) (\<lambda>used.
     if \<not> used then panic ''bfree: freeing free block''
     else andthen (modify (set_data bp (bmap_clear bi)))
       (andthen (log_write bp)
       (brelse bp))))))"

definition bzero :: "uint \<Rightarrow> uint \<Rightarrow> ('z fs_scheme, unit) oper" where
  "bzero dev bno =
     bind (bread dev bno) (\<lambda>bp.
     andthen (modify (set_data bp (\<lambda>d i. if i < BSIZE then 0 else d i)))
     (andthen (log_write bp)
     (brelse bp)))"

text \<open>The outer loop of \<^verbatim>\<open>balloc\<close>, over the first block of each bitmap block; the inner loop is the search.\<close>

primrec balloc_loop :: "nat list \<Rightarrow> uint \<Rightarrow> ('z fs_scheme, uint) oper" where
  "balloc_loop [] dev = ret 0"
| "balloc_loop (b # bs) dev =
     bind (gets (\<lambda>s. BBLOCK b (sb s))) (\<lambda>bb.
     bind (bread dev bb) (\<lambda>bp.
     bind (gets (\<lambda>s. find (\<lambda>bi. \<not> bmap_bit (b_data (bufs s bp)) bi)
         [0..<min BPB (unat (sb_size (sb s)) - b)])) (\<lambda>r.
     case r of
       Some bi \<Rightarrow>
         andthen (modify (set_data bp (bmap_set bi)))
         (andthen (log_write bp)
         (andthen (brelse bp)
         (andthen (bzero dev (of_nat (b + bi)))
         (ret (of_nat (b + bi))))))
     | None \<Rightarrow> andthen (brelse bp) (balloc_loop bs dev))))"

definition balloc :: "uint \<Rightarrow> ('z fs_scheme, uint) oper" where
  "balloc dev =
     bind (gets (\<lambda>s. unat (sb_size (sb s)))) (\<lambda>sz.
     balloc_loop (map (\<lambda>k. k * BPB) [0..<(sz + BPB - 1) div BPB]) dev)"

text \<open>
  The words of a buffer seen as \<^verbatim>\<open>uint*\<close>, as \<^verbatim>\<open>bmap\<close> does: its assignment is \<^verbatim>\<open>a = (uint*)bp\<close>, the
  \<^verbatim>\<open>->data\<close> being part of a comment, so the indirect block is looked for in the structure itself.
  Words 0 to 21 are the fields before \<^verbatim>\<open>data\<close>, with the sleeplock in words 4 to 15.
\<close>

definition half :: "nat \<Rightarrow> uint64 \<Rightarrow> uint" where
  "half k a = ucast (drop_bit (32 * k) a)"

definition buf_addr :: "'z fs_scheme \<Rightarrow> nat \<Rightarrow> uint64" where
  "buf_addr s b = bcache_addr s + of_nat (1112 * b)"

definition buf_word :: "'z fs_scheme \<Rightarrow> nat \<Rightarrow> nat \<Rightarrow> uint" where
  "buf_word s b k =
     (let c = bufs s b; l = sleeplocks s (SBuf b); L = locks s (LSleep (SBuf b)) in
      if k = 0 then b_valid c
      else if k = 1 then b_disk c
      else if k = 2 then b_dev c
      else if k = 3 then b_blockno c
      else if k = 4 then sl_locked l
      else if k = 5 then b_pad c 0
      else if k = 6 then (if locked L then 1 else 0)
      else if k = 7 then b_pad c 1
      else if k < 10 then half (k - 8) (str_addr s (lk_name L))
      else if k < 12 then (case lk_cpu L of None \<Rightarrow> 0 | Some h \<Rightarrow> half (k - 10) (cpu_addr s h))
      else if k < 14 then half (k - 12) (str_addr s (sl_name l))
      else if k = 14 then word_of_int (sl_pid l)
      else if k = 15 then b_pad c 2
      else if k = 16 then b_refcnt c
      else if k = 17 then b_pad c 3
      else if k < 20 then half (k - 18) (buf_addr s (b_prev c))
      else if k < 22 then half (k - 20) (buf_addr s (b_next c))
      else get32 (b_data c) (4 * (k - 22)))"

text \<open>A store into the spinlock or a pointer of the structure is where the model stops.\<close>

definition set_buf_word :: "nat \<Rightarrow> nat \<Rightarrow> uint \<Rightarrow> ('z fs_scheme, unit) oper" where
  "set_buf_word b k v =
     (if k = 0 then modify (set_buf b (\<lambda>c. c\<lparr>b_valid := v\<rparr>))
      else if k = 1 then modify (set_buf b (\<lambda>c. c\<lparr>b_disk := v\<rparr>))
      else if k = 2 then modify (set_buf b (\<lambda>c. c\<lparr>b_dev := v\<rparr>))
      else if k = 3 then modify (set_buf b (\<lambda>c. c\<lparr>b_blockno := v\<rparr>))
      else if k = 4 then modify (set_slk (SBuf b) (\<lambda>l. l\<lparr>sl_locked := v\<rparr>))
      else if k = 5 then modify (set_buf b (\<lambda>c. c\<lparr>b_pad := (b_pad c)(0 := v)\<rparr>))
      else if k = 7 then modify (set_buf b (\<lambda>c. c\<lparr>b_pad := (b_pad c)(1 := v)\<rparr>))
      else if k = 14 then modify (set_slk (SBuf b) (\<lambda>l. l\<lparr>sl_pid := sint v\<rparr>))
      else if k = 15 then modify (set_buf b (\<lambda>c. c\<lparr>b_pad := (b_pad c)(2 := v)\<rparr>))
      else if k = 16 then modify (set_buf b (\<lambda>c. c\<lparr>b_refcnt := v\<rparr>))
      else if k = 17 then modify (set_buf b (\<lambda>c. c\<lparr>b_pad := (b_pad c)(3 := v)\<rparr>))
      else if k < 22 then Fault Wild
      else modify (set_data b (\<lambda>d. put32 d (4 * (k - 22)) v)))"

text \<open>\<^verbatim>\<open>if((addr = ip->addrs[i]) == 0) { addr = balloc(dev); if(addr) ip->addrs[i] = addr; }\<close>.\<close>

definition bmap_entry :: "nat \<Rightarrow> nat \<Rightarrow> ('z fs_scheme, uint) oper" where
  "bmap_entry ip i =
     bind (gets (\<lambda>s. di_addrs (i_d (inodes s ip)) i)) (\<lambda>addr.
     if addr \<noteq> 0 then ret addr
     else bind (gets (\<lambda>s. i_dev (inodes s ip))) (\<lambda>dev.
     bind (balloc dev) (\<lambda>addr.
     if addr = 0 then ret 0
     else andthen (modify (set_d ip (\<lambda>d. d\<lparr>di_addrs := (di_addrs d)(i := addr)\<rparr>)))
       (ret addr))))"

definition bmap :: "nat \<Rightarrow> nat \<Rightarrow> ('z fs_scheme, uint) oper" where
  "bmap ip bn =
     (if bn < NDIRECT then bmap_entry ip bn
      else let bn = bn - NDIRECT in
      if bn < NINDIRECT
      then bind (bmap_entry ip NDIRECT) (\<lambda>addr.
        if addr = 0 then ret 0
        else bind (gets (\<lambda>s. i_dev (inodes s ip))) (\<lambda>dev.
        bind (bread dev addr) (\<lambda>bp.
        bind (gets (\<lambda>s. buf_word s bp bn)) (\<lambda>w.
        bind (if w \<noteq> 0 then ret w
              else bind (balloc dev) (\<lambda>addr.
                andthen (whenM (addr \<noteq> 0) (andthen (set_buf_word bp bn addr) (log_write bp)))
                (ret addr))) (\<lambda>addr.
        andthen (brelse bp) (ret addr))))))
      else panic ''bmap: out of range'')"

definition readsb :: "uint \<Rightarrow> ('z fs_scheme, unit) oper" where
  "readsb dev =
     bind (bread dev 1) (\<lambda>bp.
     bind (gets (\<lambda>s. b_data (bufs s bp))) (\<lambda>d.
     andthen (modify (\<lambda>s. s\<lparr>sb := \<lparr>sb_magic = get32 d 0, sb_size = get32 d 4, sb_nblocks = get32 d 8,
       sb_ninodes = get32 d 12, sb_nlog = get32 d 16, sb_logstart = get32 d 20, sb_inodestart = get32 d 24,
       sb_bmapstart = get32 d 28\<rparr>\<rparr>))
     (brelse bp)))"

section \<open>Inodes\<close>

definition iinit :: "('z fs_scheme, unit) oper" where
  "iinit = andthen (modify (initlock LItable ''itable''))
     (forM [0..<NBUF] (\<lambda>i. modify (initsleeplock (SInode i) ''inode'')))"

text \<open>One pass over the table: the first entry in use for the inode, else the first empty one.\<close>

definition iget :: "uint \<Rightarrow> uint \<Rightarrow> ('z fs_scheme, nat) oper" where
  "iget dev inum =
     andthen (acquire LItable)
     (bind (gets inodes) (\<lambda>t.
      case find (\<lambda>ip. 0 < i_ref (t ip) \<and> i_dev (t ip) = dev \<and> i_inum (t ip) = inum) [0..<NINODE] of
        Some ip \<Rightarrow>
          andthen (modify (set_inode ip (\<lambda>i. i\<lparr>i_ref := i_ref i + 1\<rparr>)))
          (andthen (release LItable) (ret ip))
      | None \<Rightarrow>
          (case find (\<lambda>ip. i_ref (t ip) = 0) [0..<NINODE] of
             None \<Rightarrow> panic ''iget: no inodes''
           | Some ip \<Rightarrow>
               andthen (modify (set_inode ip (\<lambda>i. i\<lparr>i_dev := dev, i_inum := inum, i_ref := 1, i_valid := 0\<rparr>)))
               (andthen (release LItable) (ret ip)))))"

definition ilock :: "nat \<Rightarrow> ('z fs_scheme, unit) oper" where
  "ilock ip =
     bind (gets (\<lambda>s. i_ref (inodes s ip))) (\<lambda>r.
     if r < 1 then panic ''ilock''
     else
       andthen (acquiresleep (SInode ip))
       (bind (gets (\<lambda>s. i_valid (inodes s ip))) (\<lambda>v.
        if v \<noteq> 0 then ret ()
        else
          bind (gets (\<lambda>s. i_dev (inodes s ip))) (\<lambda>dev.
          bind (gets (\<lambda>s. unat (i_inum (inodes s ip)))) (\<lambda>inum.
          bind (gets (\<lambda>s. IBLOCK inum (sb s))) (\<lambda>ib.
          bind (bread dev ib) (\<lambda>bp.
          andthen (modify (\<lambda>s. set_d ip (\<lambda>_. get_dinode (b_data (bufs s bp)) (dinode_off inum)) s))
          (andthen (brelse bp)
          (andthen (modify (set_inode ip (\<lambda>i. i\<lparr>i_valid := 1\<rparr>)))
          (bind (gets (\<lambda>s. di_type (i_d (inodes s ip)))) (\<lambda>t.
           if t = 0 then panic ''ilock: no type'' else ret ())))))))))))"

definition iunlock :: "nat \<Rightarrow> ('z fs_scheme, unit) oper" where
  "iunlock ip =
     bind (gets (\<lambda>s. i_ref (inodes s ip))) (\<lambda>r.
     if r < 1 then panic ''iunlock''
     else bind (holdingsleep (SInode ip)) (\<lambda>h.
     if \<not> h then panic ''iunlock'' else releasesleep (SInode ip)))"

definition iupdate :: "nat \<Rightarrow> ('z fs_scheme, unit) oper" where
  "iupdate ip =
     bind (holdingsleep (SInode ip)) (\<lambda>h.
     if \<not> h then panic ''iupdate''
     else
       bind (gets (\<lambda>s. inodes s ip)) (\<lambda>i.
       bind (gets (\<lambda>s. IBLOCK (unat (i_inum i)) (sb s))) (\<lambda>ib.
       bind (bread (i_dev i) ib) (\<lambda>bp.
       andthen (modify (set_data bp (\<lambda>d. put_dinode d (dinode_off (unat (i_inum i))) (i_d i))))
       (andthen (log_write bp)
       (brelse bp))))))"

definition itrunc :: "nat \<Rightarrow> ('z fs_scheme, unit) oper" where
  "itrunc ip =
     andthen (forM [0..<NDIRECT] (\<lambda>i.
       bind (gets (\<lambda>s. inodes s ip)) (\<lambda>c.
       whenM (di_addrs (i_d c) i \<noteq> 0)
         (andthen (bfree (i_dev c) (di_addrs (i_d c) i))
         (modify (set_d ip (\<lambda>d. d\<lparr>di_addrs := (di_addrs d)(i := 0)\<rparr>)))))))
     (andthen
       (bind (gets (\<lambda>s. inodes s ip)) (\<lambda>c.
        whenM (di_addrs (i_d c) NDIRECT \<noteq> 0)
          (bind (bread (i_dev c) (di_addrs (i_d c) NDIRECT)) (\<lambda>bp.
           andthen (forM [0..<NINDIRECT] (\<lambda>j.
             bind (gets (\<lambda>s. get32 (b_data (bufs s bp)) (4 * j))) (\<lambda>a.
             whenM (a \<noteq> 0) (bfree (i_dev c) a))))
           (andthen (brelse bp)
           (andthen (bfree (i_dev c) (di_addrs (i_d c) NDIRECT))
           (modify (set_d ip (\<lambda>d. d\<lparr>di_addrs := (di_addrs d)(NDIRECT := 0)\<rparr>)))))))))
     (andthen (modify (set_d ip (\<lambda>d. d\<lparr>di_size := 0\<rparr>)))
     (iupdate ip)))"

definition iput :: "nat \<Rightarrow> ('z fs_scheme, unit) oper" where
  "iput ip =
     andthen (acquire LItable)
     (bind (gets (\<lambda>s. inodes s ip)) (\<lambda>c.
      andthen (whenM (i_ref c = 1 \<and> di_nlink (i_d c) = 0)
        (andthen (acquiresleep (SInode ip))
        (andthen (release LItable)
        (andthen (itrunc ip)
        (andthen (modify (set_d ip (\<lambda>d. d\<lparr>di_type := 0\<rparr>)))
        (andthen (iupdate ip)
        (andthen (modify (set_inode ip (\<lambda>i. i\<lparr>i_valid := 0\<rparr>)))
        (andthen (releasesleep (SInode ip))
        (acquire LItable)))))))))
      (andthen (modify (set_inode ip (\<lambda>i. i\<lparr>i_ref := i_ref i - 1\<rparr>)))
      (release LItable))))"

definition idup :: "nat \<Rightarrow> ('z fs_scheme, nat) oper" where
  "idup ip = critical LItable
     (andthen (modify (set_inode ip (\<lambda>i. i\<lparr>i_ref := i_ref i + 1\<rparr>))) (ret ip))"

primrec ialloc_loop :: "nat list \<Rightarrow> uint \<Rightarrow> ushort \<Rightarrow> ('z fs_scheme, nat option) oper" where
  "ialloc_loop [] dev type = ret None"
| "ialloc_loop (inum # inums) dev type =
     bind (gets (\<lambda>s. IBLOCK inum (sb s))) (\<lambda>ib.
     bind (bread dev ib) (\<lambda>bp.
     bind (gets (\<lambda>s. di_type (get_dinode (b_data (bufs s bp)) (dinode_off inum)))) (\<lambda>t.
     if t = 0
     then
       andthen (modify (set_data bp (\<lambda>d. put16 (\<lambda>k. if dinode_off inum \<le> k \<and> k < dinode_off inum + 64 then 0 else d k)
         (dinode_off inum) type)))
       (andthen (log_write bp)
       (andthen (brelse bp)
       (bind (iget dev (of_nat inum)) (\<lambda>ip. ret (Some ip)))))
     else andthen (brelse bp) (ialloc_loop inums dev type))))"

definition ialloc :: "uint \<Rightarrow> ushort \<Rightarrow> ('z fs_scheme, nat option) oper" where
  "ialloc dev type =
     bind (gets (\<lambda>s. unat (sb_ninodes (sb s)))) (\<lambda>n. ialloc_loop [1..<n] dev type)"

section \<open>File contents\<close>

text \<open>A \<^verbatim>\<open>uint\<close> count returned as \<^verbatim>\<open>int\<close>.\<close>

definition as_int :: "nat \<Rightarrow> int" where
  "as_int n = sint (of_nat n :: uint)"

text \<open>
  \<^verbatim>\<open>readi\<close> hands each piece of data to \<^verbatim>\<open>either_copyout\<close>. The destination is user or kernel memory,
  or a local variable of the caller. The loop is the same for both: \<open>sink a bs\<close> stores the bytes
  \<open>bs\<close> at \<open>a\<close> and returns the next position, or nothing when the copy fails.
\<close>

function readi_loop :: "('a \<Rightarrow> byte list \<Rightarrow> ('z fs_scheme, 'a option) oper) \<Rightarrow> nat \<Rightarrow> nat \<Rightarrow> nat \<Rightarrow> nat \<Rightarrow> 'a
    \<Rightarrow> ('z fs_scheme, int \<times> 'a) oper" where
  "readi_loop sink ip n tot off a =
     (if \<not> tot < n then ret (as_int tot, a)
      else bind (bmap ip (off div BSIZE)) (\<lambda>addr.
      if addr = 0 then ret (as_int tot, a)
      else bind (gets (\<lambda>s. i_dev (inodes s ip))) (\<lambda>dev.
      bind (bread dev addr) (\<lambda>bp.
      let m = min (n - tot) (BSIZE - off mod BSIZE) in
      bind (gets (\<lambda>s. map (b_data (bufs s bp)) [off mod BSIZE..<off mod BSIZE + m])) (\<lambda>bs.
      bind (sink a bs) (\<lambda>r.
      case r of
        None \<Rightarrow> andthen (brelse bp) (ret (- 1, a))
      | Some a' \<Rightarrow> andthen (brelse bp) (readi_loop sink ip n (tot + m) (off + m) a')))))))"
  by pat_completeness auto
termination
  by (relation "measure (\<lambda>(sink, ip, n, tot, off, a). n - tot)") (auto simp: BSIZE_def)

declare readi_loop.simps [simp del]

definition readi_gen :: "('a \<Rightarrow> byte list \<Rightarrow> ('z fs_scheme, 'a option) oper) \<Rightarrow> nat \<Rightarrow> 'a \<Rightarrow> uint \<Rightarrow> uint
    \<Rightarrow> ('z fs_scheme, int \<times> 'a) oper" where
  "readi_gen sink ip a off n =
     bind (gets (\<lambda>s. di_size (i_d (inodes s ip)))) (\<lambda>sz.
     if off > sz \<or> off + n < off then ret (0, a)
     else let n = (if off + n > sz then sz - off else n)
       in readi_loop sink ip (unat n) 0 (unat off) a)"

definition mem_sink :: "bool \<Rightarrow> uint64 \<Rightarrow> byte list \<Rightarrow> ('z fs_scheme, uint64 option) oper" where
  "mem_sink user_dst dst bs =
     bind (either_copyout user_dst dst bs) (\<lambda>r.
     ret (if r = - 1 then None else Some (dst + of_nat (length bs))))"

definition readi :: "nat \<Rightarrow> bool \<Rightarrow> uint64 \<Rightarrow> uint \<Rightarrow> uint \<Rightarrow> ('z fs_scheme, int) oper" where
  "readi ip user_dst dst off n =
     bind (readi_gen (mem_sink user_dst) ip dst off n) (\<lambda>(r, _). ret r)"

text \<open>Reading into a local variable: \<^verbatim>\<open>readi(ip, 0, (uint64)&x, off, sizeof(x))\<close>.\<close>

definition readi_local :: "nat \<Rightarrow> uint \<Rightarrow> uint \<Rightarrow> ('z fs_scheme, int \<times> byte list) oper" where
  "readi_local ip off n = readi_gen (\<lambda>acc bs. ret (Some (acc @ bs))) ip [] off n"

text \<open>
  The same for \<^verbatim>\<open>writei\<close>: \<open>src a m\<close> fetches \<open>m\<close> bytes from \<open>a\<close>. When \<^verbatim>\<open>either_copyin\<close> fails, the
  bytes it has copied so far are in the buffer.
\<close>

definition put_bytes :: "nat \<Rightarrow> byte list \<Rightarrow> block \<Rightarrow> block" where
  "put_bytes k bs d = (\<lambda>i. if k \<le> i \<and> i < k + length bs then bs ! (i - k) else d i)"

function writei_loop :: "('a \<Rightarrow> nat \<Rightarrow> ('z fs_scheme, int \<times> byte list \<times> 'a) oper) \<Rightarrow> nat \<Rightarrow> nat \<Rightarrow> nat \<Rightarrow> nat \<Rightarrow> 'a
    \<Rightarrow> ('z fs_scheme, nat \<times> nat) oper" where
  "writei_loop src ip n tot off a =
     (if \<not> tot < n then ret (tot, off)
      else bind (bmap ip (off div BSIZE)) (\<lambda>addr.
      if addr = 0 then ret (tot, off)
      else bind (gets (\<lambda>s. i_dev (inodes s ip))) (\<lambda>dev.
      bind (bread dev addr) (\<lambda>bp.
      let m = min (n - tot) (BSIZE - off mod BSIZE) in
      bind (src a m) (\<lambda>(r, bs, a').
      andthen (modify (set_data bp (put_bytes (off mod BSIZE) bs)))
      (if r = - 1 then andthen (brelse bp) (ret (tot, off))
       else andthen (log_write bp)
         (andthen (brelse bp)
         (writei_loop src ip n (tot + m) (off + m) a'))))))))"
  by pat_completeness auto
termination
  by (relation "measure (\<lambda>(src, ip, n, tot, off, a). n - tot)") (auto simp: BSIZE_def)

declare writei_loop.simps [simp del]

definition writei_gen :: "('a \<Rightarrow> nat \<Rightarrow> ('z fs_scheme, int \<times> byte list \<times> 'a) oper) \<Rightarrow> nat \<Rightarrow> 'a \<Rightarrow> uint \<Rightarrow> uint
    \<Rightarrow> ('z fs_scheme, int) oper" where
  "writei_gen src ip a off n =
     bind (gets (\<lambda>s. di_size (i_d (inodes s ip)))) (\<lambda>sz.
     if off > sz \<or> off + n < off then ret (- 1)
     else if MAXFILE * BSIZE < unat (off + n) then ret (- 1)
     else bind (writei_loop src ip (unat n) 0 (unat off) a) (\<lambda>(tot, off').
       bind (gets (\<lambda>s. unat (di_size (i_d (inodes s ip))))) (\<lambda>sz.
       andthen (whenM (sz < off') (modify (set_d ip (\<lambda>d. d\<lparr>di_size := of_nat off'\<rparr>))))
       (andthen (iupdate ip)
       (ret (as_int tot))))))"

definition writei :: "nat \<Rightarrow> bool \<Rightarrow> uint64 \<Rightarrow> uint \<Rightarrow> uint \<Rightarrow> ('z fs_scheme, int) oper" where
  "writei ip user_src src off n =
     writei_gen (\<lambda>a m. bind (either_copyin user_src a m) (\<lambda>(r, bs). ret (r, bs, a + of_nat m))) ip src off n"

definition writei_local :: "nat \<Rightarrow> byte list \<Rightarrow> uint \<Rightarrow> ('z fs_scheme, int) oper" where
  "writei_local ip bs off =
     writei_gen (\<lambda>a m. ret (0, take m a, drop m a)) ip bs off (of_nat (length bs))"

section \<open>Directories\<close>

text \<open>\<^verbatim>\<open>struct dirent\<close>, 16 bytes: the inode number and the name.\<close>

definition de_inum :: "byte list \<Rightarrow> ushort" where
  "de_inum de = get16 ((!) de) 0"

definition de_name :: "byte list \<Rightarrow> cptr" where
  "de_name de = (\<lambda>i. de ! (2 + i))"

definition dir_offsets :: "nat \<Rightarrow> nat list" where
  "dir_offsets sz = map (\<lambda>k. 16 * k) [0..<(sz + 15) div 16]"

primrec dirlookup_loop :: "nat list \<Rightarrow> nat \<Rightarrow> cptr \<Rightarrow> ('z fs_scheme, (nat \<times> nat) option) oper" where
  "dirlookup_loop [] dp name = ret None"
| "dirlookup_loop (off # offs) dp name =
     bind (readi_local dp (of_nat off) 16) (\<lambda>(r, de).
     if r \<noteq> 16 then panic ''dirlookup read''
     else if de_inum de = 0 then dirlookup_loop offs dp name
     else if strncmp name (de_name de) (of_nat DIRSIZ) = 0
     then bind (gets (\<lambda>s. i_dev (inodes s dp))) (\<lambda>dev.
       bind (iget dev (ucast (de_inum de))) (\<lambda>ip. ret (Some (ip, off))))
     else dirlookup_loop offs dp name)"

text \<open>The result is the inode and the offset of its entry (\<^verbatim>\<open>*poff\<close>).\<close>

definition dirlookup :: "nat \<Rightarrow> cptr \<Rightarrow> ('z fs_scheme, (nat \<times> nat) option) oper" where
  "dirlookup dp name =
     bind (gets (\<lambda>s. i_d (inodes s dp))) (\<lambda>d.
     if di_type d \<noteq> T_DIR then panic ''dirlookup not DIR''
     else dirlookup_loop (dir_offsets (unat (di_size d))) dp name)"

text \<open>The search for an empty entry in \<^verbatim>\<open>dirlink\<close>: its offset and what \<^verbatim>\<open>de\<close> holds.\<close>

primrec dirlink_loop :: "nat list \<Rightarrow> nat \<Rightarrow> nat \<Rightarrow> byte list \<Rightarrow> ('z fs_scheme, nat \<times> byte list) oper" where
  "dirlink_loop [] dp end_off de = ret (end_off, de)"
| "dirlink_loop (off # offs) dp end_off de0 =
     bind (readi_local dp (of_nat off) 16) (\<lambda>(r, de).
     if r \<noteq> 16 then panic ''dirlink read''
     else if de_inum de = 0 then ret (off, de)
     else dirlink_loop offs dp end_off de)"

definition dirlink :: "nat \<Rightarrow> cptr \<Rightarrow> uint \<Rightarrow> ('z fs_scheme, int) oper" where
  "dirlink dp name inum =
     bind (dirlookup dp name) (\<lambda>r.
     case r of
       Some (ip, _) \<Rightarrow> andthen (iput ip) (ret (- 1))
     | None \<Rightarrow>
       bind (gets (\<lambda>s. (unat (di_size (i_d (inodes s dp))), map (stack_junk s) [0..<16]))) (\<lambda>(sz, junk).
       bind (dirlink_loop (dir_offsets sz) dp (16 * ((sz + 15) div 16)) junk) (\<lambda>(off, de).
       let nm = safestrcpy (de_name de) name (int DIRSIZ);
           inum16 = ucast inum :: ushort;
           de' = [ucast inum16, ucast (drop_bit 8 inum16)] @ map nm [0..<DIRSIZ]
       in bind (writei_local dp de' (of_nat off)) (\<lambda>r.
          ret (if r \<noteq> 16 then - 1 else 0)))))"

section \<open>Path names\<close>

text \<open>
  A path is the list of its characters without the final zero. \<^verbatim>\<open>skipelem\<close> copies the first element
  into the array \<^verbatim>\<open>name\<close>, with a zero only if it is shorter than the array, and returns the rest.
\<close>

definition slash :: byte where "slash = 0x2f"

definition skipelem :: "byte list \<Rightarrow> cptr \<Rightarrow> (byte list \<times> cptr) option" where
  "skipelem path name =
     (let p = dropWhile (\<lambda>c. c = slash) path in
      if p = [] then None
      else
        let e = takeWhile (\<lambda>c. c \<noteq> slash) p;
            rest = dropWhile (\<lambda>c. c = slash) (dropWhile (\<lambda>c. c \<noteq> slash) p);
            name' = (if DIRSIZ \<le> length e then put_bytes 0 (take DIRSIZ e) name
                     else (put_bytes 0 e name)(length e := 0))
        in Some (rest, name'))"

lemma skipelem_shorter:
  assumes "skipelem path name = Some (rest, name')"
  shows "length rest < length path"
proof -
  let ?p = "dropWhile (\<lambda>c. c = slash) path"
  let ?q = "dropWhile (\<lambda>c. c \<noteq> slash) ?p"
  have "?p \<noteq> []"
    using assms by (auto simp: skipelem_def Let_def split: if_splits)
  then have "hd ?p \<noteq> slash"
    using hd_dropWhile by blast
  then have "length ?q < length ?p"
    using \<open>?p \<noteq> []\<close> by (cases ?p) (auto simp: le_imp_less_Suc length_dropWhile_le)
  moreover have "length rest \<le> length ?q"
    using assms \<open>?p \<noteq> []\<close> unfolding skipelem_def Let_def
    by (auto simp only: if_False option.inject prod.inject length_dropWhile_le)
  moreover have "length ?p \<le> length path"
    by (rule length_dropWhile_le)
  ultimately show ?thesis by linarith
qed

function namex_loop :: "byte list \<Rightarrow> bool \<Rightarrow> cptr \<Rightarrow> nat \<Rightarrow> ('z fs_scheme, nat option \<times> cptr) oper" where
  "namex_loop path parent name ip =
     (case skipelem path name of
        None \<Rightarrow>
          if parent then andthen (iput ip) (ret (None, name)) else ret (Some ip, name)
      | Some (path', name') \<Rightarrow>
          andthen (ilock ip)
          (bind (gets (\<lambda>s. di_type (i_d (inodes s ip)))) (\<lambda>t.
           if t \<noteq> T_DIR then andthen (iunlock ip) (andthen (iput ip) (ret (None, name')))
           else if parent \<and> path' = [] then andthen (iunlock ip) (ret (Some ip, name'))
           else bind (dirlookup ip name') (\<lambda>r.
             case r of
               None \<Rightarrow> andthen (iunlock ip) (andthen (iput ip) (ret (None, name')))
             | Some (nxt, _) \<Rightarrow>
                 andthen (iunlock ip)
                 (andthen (iput ip)
                 (namex_loop path' parent name' nxt))))))"
  by pat_completeness auto
termination
  by (relation "measure (\<lambda>(path, parent, name, ip). length path)") (auto dest: skipelem_shorter)

declare namex_loop.simps [simp del]

definition namex :: "byte list \<Rightarrow> bool \<Rightarrow> cptr \<Rightarrow> ('z fs_scheme, nat option \<times> cptr) oper" where
  "namex path parent name =
     bind (if path \<noteq> [] \<and> hd path = slash then iget ROOTDEV ROOTINO
           else bind thisproc (\<lambda>p. bind (gets (\<lambda>s. p_cwd (PCBs s p))) (\<lambda>cwd.
             case cwd of None \<Rightarrow> Fault Wild | Some ip \<Rightarrow> idup ip)))
     (namex_loop path parent name)"

definition namei :: "byte list \<Rightarrow> ('z fs_scheme, nat option) oper" where
  "namei path = bind (gets stack_junk) (\<lambda>name. bind (namex path False name) (\<lambda>(r, _). ret r))"

definition nameiparent :: "byte list \<Rightarrow> cptr \<Rightarrow> ('z fs_scheme, nat option \<times> cptr) oper" where
  "nameiparent path name = namex path True name"

section \<open>Mounting\<close>

definition ireclaim_one :: "uint \<Rightarrow> nat \<Rightarrow> ('z fs_scheme, unit) oper" where
  "ireclaim_one dev inum =
     bind (gets (\<lambda>s. IBLOCK inum (sb s))) (\<lambda>ib.
     bind (bread dev ib) (\<lambda>bp.
     bind (gets (\<lambda>s. get_dinode (b_data (bufs s bp)) (dinode_off inum))) (\<lambda>dip.
     bind (if di_type dip \<noteq> 0 \<and> di_nlink dip = 0
           then bind (iget dev (of_nat inum)) (\<lambda>ip. ret (Some ip)) else ret None) (\<lambda>r.
     andthen (brelse bp)
     (case r of
        None \<Rightarrow> ret ()
      | Some ip \<Rightarrow>
          andthen begin_op
          (andthen (ilock ip)
          (andthen (iunlock ip)
          (andthen (iput ip)
          end_op))))))))"

definition ireclaim :: "uint \<Rightarrow> ('z fs_scheme, unit) oper" where
  "ireclaim dev =
     bind (gets (\<lambda>s. unat (sb_ninodes (sb s)))) (\<lambda>n. forM [1..<n] (ireclaim_one dev))"

definition fsinit :: "uint \<Rightarrow> ('z fs_scheme, unit) oper" where
  "fsinit dev =
     andthen (readsb dev)
     (bind (gets sb) (\<lambda>w.
      if sb_magic w \<noteq> FSMAGIC then panic ''invalid file system''
      else andthen (initlog (sint dev) (sb_logstart w))
        (ireclaim dev)))"

section \<open>Frames\<close>

lemma fs_after_lock [simp]:
  "inodes (acquired L s) = inodes s" "inodes (released L s) = inodes s" "inodes (settle s) = inodes s"
  "sb (acquired L s) = sb s" "sb (released L s) = sb s" "sb (settle s) = sb s"
  by (simp_all add: acquired_def released_def settle_def)

lemma fs_update_lock [simp]:
  "inodes_update g0 (acquired L s) = acquired L (inodes_update g0 s)"
  "inodes_update g0 (settle s) = settle (inodes_update g0 s)"
  "sb_update g1 (acquired L s) = acquired L (sb_update g1 s)"
  "sb_update g1 (settle s) = settle (sb_update g1 s)"
  by (simp_all add: acquired_def settle_def intr_get_def r_sstatus_def)

lemma fs_update_ok [simp]:
  "hart_ok (inodes_update g0 s) = hart_ok s" "idle L (inodes_update g0 s) = idle L s"
  "hart_ok (sb_update g1 s) = hart_ok s" "idle L (sb_update g1 s) = idle L s"
  by (simp_all add: hart_ok_def idle_def intr_get_def machine_defs)

lemma fs_update_calm [simp]:
  "calm (inodes_update g0 s) = calm s" "mycpu (inodes_update g0 s) = mycpu s"
  "calm (sb_update g1 s) = calm s" "mycpu (sb_update g1 s) = mycpu s"
  unfolding calm_def by (simp_all add: settle_def intr_get_def machine_defs idle_def hart_ok_def)

lemma fs_onproc [simp]:
  "inodes (onproc p s) = inodes s" "onproc p (inodes_update g0 s) = inodes_update g0 (onproc p s)"
  "sb (onproc p s) = sb s" "onproc p (sb_update g1 s) = sb_update g1 (onproc p s)"
  by (simp_all add: onproc_def)

lemma fs_keeps:
  assumes "keeps s t"
  shows "sb t = sb s" "inodes t = inodes s" "stack_junk t = stack_junk s" "sleeplocks t (SInode i) = sleeplocks s (SInode i)"
    "mem t = mem s" "p_pid (PCBs t q) = p_pid (PCBs s q)" "mycpu t = mycpu s"
proof -
  have k: "klog.more t = klog.more s" "cpus t = cpus s" "tp t = tp s" "same_pcb (PCBs s q) (PCBs t q)"
    using assms unfolding keeps_def by blast+
  show "sb t = sb s" "inodes t = inodes s" "stack_junk t = stack_junk s"
    using k(1) by (cases s, cases t, simp)+
  show "p_pid (PCBs t q) = p_pid (PCBs s q)" "mycpu t = mycpu s"
    using k by (simp_all add: same_pcb_pid machine_defs)
qed (use assms in \<open>simp_all add: keeps_def\<close>)

lemma fs_state_frame [simp]:
  "content (inodes_update f s) = content s" "room n (inodes_update f s) = room n s" "csafe p H (inodes_update f s) = csafe p H s"
  "pinned H k (inodes_update f s) = pinned H k s" "txn_ok p (inodes_update f s) = txn_ok p s"
  "in_log_area (inodes_update f s) k = in_log_area s k"
proof -
  show c: "content (inodes_update f s) = content s"
    by (rule content_same) simp_all
  show p: "pinned H k (inodes_update f s) = pinned H k s" for H k
    by (simp add: pinned_def)
  show "room n (inodes_update f s) = room n s" and l: "in_log_area (inodes_update f s) k = in_log_area s k" for k
    by (simp_all add: room_def in_log_area_def)
  show cs: "csafe p H (inodes_update f s) = csafe p H s" for H
    by (simp add: csafe_def c p disk_ready_def bcache_ok_def vd_quiet_def)
  show "txn_ok p (inodes_update f s) = txn_ok p s"
    by (simp add: txn_ok_list log_list_def log_placed_def l c p cs)
qed

section \<open>The free blocks\<close>

lemma bmap_bits:
  "bmap_bit d i \<longleftrightarrow> bit (d (i div 8)) (i mod 8)"
  "bmap_bit (bmap_set i d) j \<longleftrightarrow> j = i \<or> bmap_bit d j"
  "bmap_bit (bmap_clear i d) j \<longleftrightarrow> j \<noteq> i \<and> bmap_bit d j"
proof -
  show b: "bmap_bit d i \<longleftrightarrow> bit (d (i div 8)) (i mod 8)" for d i
    by (simp add: bmap_bit_def bit_iff_and_push_bit_not_eq_0)
  have eq: "j = i \<longleftrightarrow> j div 8 = i div 8 \<and> j mod 8 = i mod 8"
    by (metis mod_div_decomp)
  show "bmap_bit (bmap_set i d) j \<longleftrightarrow> j = i \<or> bmap_bit d j" "bmap_bit (bmap_clear i d) j \<longleftrightarrow> j \<noteq> i \<and> bmap_bit d j"
    by (cases "j div 8 = i div 8"; auto simp: b eq bmap_set_def bmap_clear_def bit_simps)+
qed

lemma bmap_blk: "i < BPB \<Longrightarrow> bmap_bit (blk d) i = bmap_bit d i"
  by (simp add: bmap_bits(1) BPB_def BSIZE_def)

lemma local_bmap [simp]: "i < BPB \<Longrightarrow> local_change (bmap_set i)" "i < BPB \<Longrightarrow> local_change (bmap_clear i)"
  by (auto simp: local_change_def bmap_set_def bmap_clear_def blk_def BPB_def BSIZE_def fun_eq_iff)

text \<open>
  The blocks that hold the log, the bitmap and the inodes are in place and marked as used. Block 0,
  the boot block, is used as well.
\<close>

definition fsize :: "'z fs_scheme \<Rightarrow> nat" where
  "fsize s = unat (sb_size (sb s))"

definition used :: "'z fs_scheme \<Rightarrow> nat \<Rightarrow> bool" where
  "used s b \<longleftrightarrow> bmap_bit (content s (BBLOCK b (sb s))) (b mod BPB)"

definition bitmap_block :: "'z fs_scheme \<Rightarrow> uint \<Rightarrow> bool" where
  "bitmap_block s k \<longleftrightarrow> (\<exists>b < fsize s. k = BBLOCK b (sb s))"

definition inode_block :: "'z fs_scheme \<Rightarrow> uint \<Rightarrow> bool" where
  "inode_block s k \<longleftrightarrow> (\<exists>i < unat (sb_ninodes (sb s)). k = IBLOCK i (sb s))"

definition data_block :: "'z fs_scheme \<Rightarrow> uint \<Rightarrow> bool" where
  "data_block s k \<longleftrightarrow> 0 < unat k \<and> unat k < fsize s \<and> \<not> in_log_area s k \<and> \<not> bitmap_block s k \<and> \<not> inode_block s k"

definition fs_ok :: "'z fs_scheme \<Rightarrow> bool" where
  "fs_ok s \<longleftrightarrow> fsize s < 2 ^ 31
     \<and> (\<forall>k. bitmap_block s k \<longrightarrow> unat k < 2 ^ 31 \<and> \<not> in_log_area s k)
     \<and> (\<forall>k. inode_block s k \<longrightarrow> unat k < 2 ^ 31 \<and> \<not> in_log_area s k \<and> \<not> bitmap_block s k)
     \<and> (\<forall>b < fsize s. \<not> used s b \<longrightarrow> data_block s (of_nat b))"

lemma fs_okD:
  assumes "fs_ok s"
  shows "fsize s < 2 ^ 31" "bitmap_block s k \<Longrightarrow> unat k < 2 ^ 31 \<and> \<not> in_log_area s k"
    "inode_block s k \<Longrightarrow> unat k < 2 ^ 31 \<and> \<not> in_log_area s k \<and> \<not> bitmap_block s k"
    "b < fsize s \<Longrightarrow> \<not> used s b \<Longrightarrow> data_block s (of_nat b)"
  using assms unfolding fs_ok_def by blast+

lemma fs_cong:
  assumes "sb t = sb s" "log_start t = log_start s"
  shows "fsize t = fsize s" "bitmap_block t k = bitmap_block s k" "inode_block t k = inode_block s k" "data_block t k = data_block s k"
  using assms by (simp_all add: fsize_def bitmap_block_def inode_block_def data_block_def in_log_area_def)

lemma fs_ok_cong:
  assumes "sb t = sb s" "log_start t = log_start s" "\<And>b. b < fsize s \<Longrightarrow> used s b \<Longrightarrow> used t b \<or> data_block s (of_nat b)"
  shows "fs_ok s \<Longrightarrow> fs_ok t"
  using assms(3) unfolding fs_ok_def fs_cong [OF assms(1,2)] in_log_area_cong [OF assms(2)] by metis

lemma BBLOCK_same: "b div BPB = c div BPB \<Longrightarrow> BBLOCK b w = BBLOCK c w"
  by (simp add: BBLOCK_def)

lemma BBLOCK_inj:
  assumes "b < 2 ^ 31" "c < 2 ^ 31"
  shows "BBLOCK b w = BBLOCK c w \<longleftrightarrow> b div BPB = c div BPB"
proof -
  have "b div BPB < 2 ^ 32" "c div BPB < 2 ^ 32"
    using assms by (auto intro: le_less_trans [OF div_le_dividend])
  then show ?thesis
    by (simp add: BBLOCK_def word_of_nat_eq_iff take_bit_nat_eq_self)
qed

text \<open>Blocks \<open>X\<close> outside the bitmap and one bit of the bitmap have changed.\<close>

lemma used_change:
  assumes "content t = (content s)(BBLOCK n (sb s) := blk (f (content s (BBLOCK n (sb s)))), x := d)" "sb t = sb s" "log_start t = log_start s"
    "fs_ok s" "n < fsize s" "x = BBLOCK n (sb s) \<Longrightarrow> d = blk (f (content s (BBLOCK n (sb s))))"
    "x = BBLOCK n (sb s) \<or> \<not> bitmap_block s x"
    "\<And>j d. j < BPB \<Longrightarrow> bmap_bit (f d) j = (if j = n mod BPB then v else bmap_bit d j)"
    and b: "b < fsize s"
  shows "used t b = (if b = n then v else used s b)"
proof -
  have bb: "bitmap_block s (BBLOCK b (sb s))"
    using b unfolding bitmap_block_def by blast
  have m: "b mod BPB < BPB" "n mod BPB < BPB"
    by (simp_all add: BPB_def BSIZE_def)
  have eq: "BBLOCK b (sb s) = BBLOCK n (sb s) \<longleftrightarrow> b div BPB = n div BPB"
    using BBLOCK_inj fs_okD(1) [OF assms(4)] assms(5) b by simp
  show ?thesis
  proof (cases "BBLOCK b (sb s) = BBLOCK n (sb s)")
    case True
    then have "b = n \<longleftrightarrow> b mod BPB = n mod BPB"
      using eq by (metis mod_div_decomp)
    with True show ?thesis
      using assms m by (auto simp: used_def bmap_blk)
  next
    case False
    then have "b \<noteq> n" "x \<noteq> BBLOCK b (sb s)"
      using assms(7) bb by auto
    with False show ?thesis
      using assms(1,2) by (auto simp: used_def)
  qed
qed

text \<open>What an operation needs to log \<open>c\<close> blocks with \<open>m\<close> more references to a buffer.\<close>

definition may_log :: "nat \<Rightarrow> nat \<Rightarrow> nat \<Rightarrow> 'z fs_scheme \<Rightarrow> bool" where
  "may_log p m c s \<longleftrightarrow> txn_ok p s \<and> fs_ok s \<and> room m s \<and> lh_n s + int c \<le> LOGBLOCKS \<and> 1 \<le> log_outstanding s"

lemma may_log_step:
  assumes "may_log p (m + m') (c + c') s" "tstep p m c s t" "fs_ok t"
  shows "may_log p m' c' t"
  using assms tstepD [OF assms(2)] unfolding may_log_def by (auto simp: add.commute)

lemma tstep_keep: "tstep p m 0 s t \<Longrightarrow> tstep p n c t u \<Longrightarrow> tstep p (m + n) c s u"
  using tstep_trans [of p m 0 s t n c u] by simp

lemma may_log_keep: "may_log p (m + m') c s \<Longrightarrow> tstep p m 0 s t \<Longrightarrow> fs_ok t \<Longrightarrow> may_log p m' c t"
  using may_log_step [of p m m' 0 c s t] by simp

lemma may_logD:
  assumes "may_log p m c s"
  shows "txn_ok p s" "fs_ok s" "k \<le> m \<Longrightarrow> room k s" "0 < c \<Longrightarrow> lh_n s < LOGBLOCKS" "1 \<le> log_outstanding s"
  using assms unfolding may_log_def by (auto intro: room_mono)

lemma bzero_block: "bzero 1 bno = log_block bno (\<lambda>d i. if i < BSIZE then 0 else d i)"
  by (simp add: bzero_def log_block_def set_data_def)

lemma bzero_spec:
  assumes s: "may_log p m c s" "3 \<le> m" "0 < c" and k: "data_block s k"
  shows "wp (bzero 1 k) (\<lambda>_. logged p 3 k (\<lambda>_. 0) s) out_of_bufs s"
proof -
  have "blk (\<lambda>i. if i < BSIZE then 0 else d i) = (\<lambda>_. 0)" for d :: block
    by (auto simp: blk_def)
  moreover have "local_change (\<lambda>d i. if i < BSIZE then 0 else d i)"
    by (auto simp: local_change_def blk_def)
  moreover have "unat k < 2 ^ 31" "\<not> in_log_area s k"
    using k fs_okD(1) [OF may_logD(2) [OF s(1)]] unfolding data_block_def by auto
  ultimately show ?thesis
    using log_block_spec [OF may_logD(1) [OF s(1)] may_logD(3) [OF s(1,2)], of k "\<lambda>d i. if i < BSIZE then 0 else d i"]
      may_logD(4,5) [OF s(1)] s(3) by (simp add: bzero_block)
qed

text \<open>Block \<open>n\<close> was free; now it is used and zero, nothing else has changed.\<close>

definition allocated :: "nat \<Rightarrow> 'z fs_scheme \<Rightarrow> 'z fs_scheme \<Rightarrow> bool" where
  "allocated n s t \<longleftrightarrow> n < fsize s \<and> \<not> used s n \<and> content t = (content s)
     (BBLOCK n (sb s) := blk (bmap_set (n mod BPB) (content s (BBLOCK n (sb s)))), of_nat n := \<lambda>_. 0)"

lemma allocated_used:
  assumes "allocated n s t" "sb t = sb s" "log_start t = log_start s" "fs_ok s"
  shows "b < fsize s \<Longrightarrow> used t b = (b = n \<or> used s b)" "fs_ok t" "data_block s (of_nat n)"
proof -
  note a = assms(1) [unfolded allocated_def]
  show d: "data_block s (of_nat n)"
    using fs_okD(4) [OF assms(4)] a by blast
  have "\<not> bitmap_block s (of_nat n)" "bitmap_block s (BBLOCK n (sb s))"
    using d a unfolding data_block_def bitmap_block_def by blast+
  then show u: "used t b = (b = n \<or> used s b)" if "b < fsize s" for b
  proof -
    have "used t b = (if b = n then True else used s b)"
      by (rule used_change [where f = "bmap_set (n mod BPB)", OF conjunct2 [OF conjunct2 [OF a]] assms(2-4) _ _ _ _ that])
        (use a \<open>\<not> bitmap_block s (of_nat n)\<close> \<open>bitmap_block s (BBLOCK n (sb s))\<close> in \<open>auto simp: bmap_bits(2)\<close>)
    then show ?thesis by simp
  qed
  show "fs_ok t"
    by (rule fs_ok_cong [OF assms(2,3) _ assms(4)]) (simp add: u)
qed

text \<open>The part of \<^verbatim>\<open>balloc\<close> after the search.\<close>

lemma balloc_take:
  fixes s :: "'z fs_scheme"
  assumes s: "may_log p m 2 s" "6 \<le> m" and n: "n < fsize s" "\<not> used s n"
    and r: "txn_read p (BBLOCK n (sb s)) s bp t"
  shows "wp (andthen (modify (set_data bp (bmap_set (n mod BPB)))) (andthen (log_write bp) (andthen (brelse bp)
      (andthen (bzero 1 (of_nat n)) (ret (of_nat n))))))
    (\<lambda>r u. r = of_nat n \<and> tstep p 6 2 s u \<and> allocated n s u) out_of_bufs t"
proof -
  have bb: "bitmap_block s (BBLOCK n (sb s))"
    using n(1) unfolding bitmap_block_def by blast
  have d: "data_block s (of_nat n)"
    using fs_okD(4) [OF may_logD(2) [OF s(1)]] n by blast
  have loc: "local_change (bmap_set (n mod BPB))"
    by (rule local_bmap) (simp add: BPB_def BSIZE_def)
  let ?c = "blk (bmap_set (n mod BPB) (content s (BBLOCK n (sb s))))"
  have "wp (bind (andthen (modify (set_data bp (bmap_set (n mod BPB)))) (andthen (log_write bp) (brelse bp)))
      (\<lambda>_. andthen (bzero 1 (of_nat n)) (ret (of_nat n))))
    (\<lambda>r u. r = of_nat n \<and> tstep p 6 2 s u \<and> allocated n s u) out_of_bufs t"
  proof (rule wp_bindI [OF txn_read_log [OF may_logD(1) [OF s(1)] may_logD(3) [OF s(1)], of "BBLOCK n (sb s)", folded set_data_def]])
    fix a and u :: "'z fs_scheme" assume "logged p 3 (BBLOCK n (sb s)) ?c s u"
    then have u: "tstep p 3 1 s u" "content u = (content s)(BBLOCK n (sb s) := ?c)"
      by (simp_all add: logged_def)
    have k: "sb u = sb s" "log_start u = log_start s"
      using fs_keeps(1) tstepD(8,9) [OF u(1)] by blast+
    have "fs_ok u"
    proof (rule fs_ok_cong [OF k _ may_logD(2) [OF s(1)]])
      fix b assume b: "b < fsize s" "used s b"
      have "used u b = (if b = n then True else used s b)"
        by (rule used_change [OF _ k may_logD(2) [OF s(1)] n(1) _ _ _ b(1), of "bmap_set (n mod BPB)" "BBLOCK n (sb s)" ?c])
          (simp_all add: u(2) bmap_bits(2))
      with b show "used u b \<or> data_block s (of_nat b)" by simp
    qed
    then have mu: "may_log p 3 1 u"
      using may_log_step [of p 3 3 1 1 s u] s u(1) unfolding may_log_def by (auto intro: room_mono)
    have "data_block u (of_nat n)"
      using d fs_cong(4) [OF k] by simp
    then show "wp (andthen (bzero 1 (of_nat n)) (ret (of_nat n))) (\<lambda>r u. r = of_nat n \<and> tstep p 6 2 s u \<and> allocated n s u) out_of_bufs u"
    proof (intro wp_bindI [OF bzero_spec [OF mu]])
      fix a and v :: "'z fs_scheme" assume "logged p 3 (of_nat n) (\<lambda>_. 0) u v"
      then have v: "tstep p 3 1 u v" "content v = (content u)(of_nat n := (\<lambda>_. 0))"
        by (simp_all add: logged_def)
      then show "wp (ret (of_nat n)) (\<lambda>r u. r = of_nat n \<and> tstep p 6 2 s u \<and> allocated n s u) out_of_bufs v"
        using tstep_trans [OF u(1) v(1)] n by (simp add: wp_simps allocated_def u(2) numeral_2_eq_2)
    qed simp_all
  qed (use s fs_okD(2) [OF may_logD(2) [OF s(1)] bb] may_logD(4,5) [OF s(1)] r loc in simp_all)
  then show ?thesis
    by (simp add: bind_assoc)
qed

text \<open>The search through one block of the bitmap.\<close>

lemma find_free:
  assumes b: "b mod BPB = 0" "b < fsize s" and r: "txn_read p (BBLOCK b (sb s)) s bp t"
  shows "case find (\<lambda>bi. \<not> bmap_bit (b_data (bufs t bp)) bi) [0..<min BPB (fsize s - b)] of
      None \<Rightarrow> \<forall>n < fsize s. n div BPB = b div BPB \<longrightarrow> used s n
    | Some bi \<Rightarrow> bi < BPB \<and> b + bi < fsize s \<and> \<not> used s (b + bi) \<and> (\<forall>n < b + bi. n div BPB = b div BPB \<longrightarrow> used s n)"
proof -
  have bit: "bmap_bit (b_data (bufs t bp)) i = used s (b + i)" if "i < BPB" for i
  proof -
    have "(b + i) mod BPB = i" "(b + i) div BPB = b div BPB"
      using b(1) that by (simp_all add: mod_add_eq mod_add_left_eq [symmetric] div_add1_eq)
    then show ?thesis
      using txn_local [OF r, of "\<lambda>d. bmap_bit d i"] BBLOCK_same [of "b + i" b "sb s"] that by (simp add: used_def bmap_blk)
  qed
  have at: "n = b + n mod BPB" "n mod BPB < BPB" if "n div BPB = b div BPB" for n
    using that b(1) by (metis add.commute add_0 mod_div_decomp mult.commute) (simp add: BPB_def BSIZE_def)
  show ?thesis
  proof (cases "find (\<lambda>bi. \<not> bmap_bit (b_data (bufs t bp)) bi) [0..<min BPB (fsize s - b)]")
    case None
    then have "\<forall>bi < min BPB (fsize s - b). used s (b + bi)"
      using bit by (auto simp: find_None_iff)
    then have "used s n" if "n < fsize s" "n div BPB = b div BPB" for n
      using at [OF that(2)] that(1) by (metis add_less_cancel_left b(2) le_add_diff_inverse less_imp_le min_less_iff_conj)
    with None show ?thesis by simp
  next
    case (Some bi)
    then obtain i where i: "i < length [0..<min BPB (fsize s - b)]" "bi = [0..<min BPB (fsize s - b)] ! i"
        "\<not> bmap_bit (b_data (bufs t bp)) bi" "\<forall>j < i. bmap_bit (b_data (bufs t bp)) ([0..<min BPB (fsize s - b)] ! j)"
      by (auto simp: find_Some_iff)
    then have bi: "bi = i" "bi < BPB" "b + bi < fsize s" "\<not> used s (b + bi)" "\<forall>j < bi. used s (b + j)"
      using bit by auto
    have "used s n" if "n < b + bi" "n div BPB = b div BPB" for n
      using at [OF that(2)] that(1) bi(5) by (metis add_less_cancel_left)
    with Some bi show ?thesis by simp
  qed
qed

lemma balloc_loop_spec:
  fixes s :: "'z fs_scheme"
  assumes "may_log p (2 * length bs + 6) 2 s" "\<forall>b \<in> set bs. b mod BPB = 0 \<and> b < fsize s" "sorted bs"
  shows "wp (balloc_loop bs 1) (\<lambda>r t. tstep p (2 * length bs + 6) 2 s t \<and>
    (r = 0 \<and> content t = content s \<and> (\<forall>n < fsize s. n div BPB * BPB \<in> set bs \<longrightarrow> used s n)
     \<or> (\<exists>n. r = of_nat n \<and> allocated n s t \<and> (\<forall>k < n. k div BPB * BPB \<in> set bs \<longrightarrow> used s k)))) out_of_bufs s"
  using assms
proof (induction bs arbitrary: s)
  case Nil
  then show ?case
    using tstep_refl [OF may_logD(1)] by (auto simp: wp_simps)
next
  case (Cons b bs)
  note s = Cons.prems(1)
  have b: "b mod BPB = 0" "b < fsize s" "bitmap_block s (BBLOCK b (sb s))"
    using Cons.prems(2) unfolding bitmap_block_def by auto
  have small: "unat (BBLOCK b (sb s)) < 2 ^ 31"
    using fs_okD(2) [OF may_logD(2) [OF s] b(3)] by blast
  have bb: "n div BPB * BPB = b \<longleftrightarrow> n div BPB = b div BPB" for n
    using b(1) by (metis div_mult_self_is_m mod_0_imp_dvd dvd_div_mult_self BPB_def BSIZE_def zero_less_numeral mult_pos_pos)
  let ?P = "\<lambda>r t. tstep p (2 * length (b # bs) + 6) 2 s t \<and>
    (r = 0 \<and> content t = content s \<and> (\<forall>n < fsize s. n div BPB * BPB \<in> set (b # bs) \<longrightarrow> used s n)
     \<or> (\<exists>n. r = of_nat n \<and> allocated n s t \<and> (\<forall>k < n. k div BPB * BPB \<in> set (b # bs) \<longrightarrow> used s k)))"
  show ?case
    unfolding balloc_loop.simps wp_bind_gets
  proof (rule wp_bindI [OF txn_read_spec [OF may_logD(1,3) [OF s] small]])
    fix bp and t :: "'z fs_scheme" assume r: "txn_read p (BBLOCK b (sb s)) s bp t"
    then have k: "sb t = sb s"
      using keeps_iostep fs_keeps(1) unfolding txn_read_def by blast
    show "wp (bind (gets (\<lambda>s. find (\<lambda>bi. \<not> bmap_bit (b_data (bufs s bp)) bi) [0..<min BPB (unat (sb_size (sb s)) - b)])) (\<lambda>r.
       case r of Some bi \<Rightarrow> andthen (modify (set_data bp (bmap_set bi))) (andthen (log_write bp) (andthen (brelse bp)
         (andthen (bzero 1 (of_nat (b + bi))) (ret (of_nat (b + bi))))))
       | None \<Rightarrow> andthen (brelse bp) (balloc_loop bs 1))) ?P out_of_bufs t"
    proof (cases "find (\<lambda>bi. \<not> bmap_bit (b_data (bufs t bp)) bi) [0..<min BPB (fsize s - b)]")
      case None
      then have all: "\<forall>n < fsize s. n div BPB = b div BPB \<longrightarrow> used s n"
        using find_free [OF b(1,2) r] by simp
      obtain u where u: "brelse bp t = Ret () u" "tstep p 2 0 s u" "content u = content s"
        using txn_read_release [OF may_logD(1) [OF s] r] by blast
      have ku: "sb u = sb s" "log_start u = log_start s"
        using fs_keeps(1) tstepD(8,9) [OF u(2)] by blast+
      have us: "used u n = used s n" for n
        by (simp add: used_def ku u(3))
      have ok: "fs_ok u"
        by (rule fs_ok_cong [OF ku _ may_logD(2) [OF s]]) (simp add: us)
      have mu: "may_log p (2 * length bs + 6) 2 u"
        by (rule may_log_keep [OF _ u(2) ok]) (use s in simp)
      have "wp (balloc_loop bs 1) ?P out_of_bufs u"
      proof (rule wp_mono [OF Cons.IH [OF mu]])
        fix r and v :: "'z fs_scheme"
        assume v: "tstep p (2 * length bs + 6) 2 u v \<and>
          (r = 0 \<and> content v = content u \<and> (\<forall>n < fsize u. n div BPB * BPB \<in> set bs \<longrightarrow> used u n)
           \<or> (\<exists>n. r = of_nat n \<and> allocated n u v \<and> (\<forall>k < n. k div BPB * BPB \<in> set bs \<longrightarrow> used u k)))"
        have "tstep p (2 * length (b # bs) + 6) 2 s v"
          using tstep_keep [OF u(2) conjunct1 [OF v]] by simp
        moreover have "allocated n s v" if "allocated n u v" for n
          using that by (simp add: allocated_def us ku u(3) fs_cong [OF ku])
        moreover have "used s k" if "k < n" "allocated n s v" "k div BPB * BPB = b" for k n
          using all that bb unfolding allocated_def by auto
        ultimately show "?P r v"
          using v all bb u(3) unfolding us fs_cong [OF ku] by auto
      qed (use Cons.prems in \<open>auto simp: fs_cong [OF ku]\<close>)
      then show ?thesis
        using None k by (simp add: wp_bind_gets fsize_def wp_bind_run [where m = "brelse bp", OF u(1)])
    next
      case (Some bi)
      then have bi: "bi < BPB" "b + bi < fsize s" "\<not> used s (b + bi)" "\<forall>n < b + bi. n div BPB = b div BPB \<longrightarrow> used s n"
        using find_free [OF b(1,2) r] by simp_all
      have m: "(b + bi) mod BPB = bi" "(b + bi) div BPB = b div BPB"
        using b(1) bi(1) by (simp_all add: mod_add_eq mod_add_left_eq [symmetric] div_add1_eq)
      have "used s k" if k: "k < b + bi" "k div BPB * BPB \<in> set (b # bs)" for k
      proof -
        have "b \<le> k div BPB * BPB"
          using k(2) Cons.prems(3) by auto
        moreover have "k div BPB \<le> b div BPB"
          using k(1) m(2) by (metis div_le_mono less_imp_le)
        moreover have "b div BPB * BPB = b"
          using b(1) by auto
        ultimately have "k div BPB * BPB = b"
          by (metis mult_le_mono1 le_antisym)
        then show ?thesis
          using bi(4) k(1) bb by blast
      qed
      then have post: "?P r u" if "r = of_nat (b + bi) \<and> tstep p 6 2 s u \<and> allocated (b + bi) s u" for r u
        using that tstep_mono [of p 6 2 s u] by (intro conjI disjI2 exI [of _ "b + bi"]) auto
      have r': "txn_read p (BBLOCK (b + bi) (sb s)) s bp t"
        using r BBLOCK_same [OF m(2), of "sb s"] by simp
      have "wp (andthen (modify (set_data bp (bmap_set bi))) (andthen (log_write bp) (andthen (brelse bp)
         (andthen (bzero 1 (of_nat (b + bi))) (ret (of_nat (b + bi))))))) ?P out_of_bufs t"
        by (rule wp_mono [OF balloc_take [OF s _ bi(2,3) r', unfolded m(1)] post]) simp_all
      then show ?thesis
        using Some k by (simp only: wp_bind_gets fsize_def option.case)
    qed
  qed (use Cons.prems in simp_all)
qed

lemma sint_small:
  assumes "unat w < 2 ^ 31"
  shows "sint (w :: uint) = int (unat w)"
proof -
  have "int (unat w) < int (2 ^ 31)"
    using assms by (simp only: of_nat_less_iff)
  moreover have "- (2 ^ 31) \<le> uint w"
    by (rule order_trans [of _ 0]) simp_all
  ultimately show ?thesis
    by (simp add: sint_uint signed_take_bit_int_eq_self)
qed

definition nbitmap :: "'z fs_scheme \<Rightarrow> nat" where
  "nbitmap s = (fsize s + BPB - 1) div BPB"

lemma BPB_pos [simp]: "0 < BPB"
  by (simp add: BPB_def BSIZE_def)

lemma less_ceil: "0 < B \<Longrightarrow> k < (n + B - 1) div B \<longleftrightarrow> k * B < (n :: nat)"
  using less_eq_div_iff_mult_less_eq [of B "Suc k" "n + B - 1"] by (auto simp: Suc_le_eq)

lemma bitmap_starts:
  "b \<in> set (map (\<lambda>k. k * BPB) [0..<nbitmap s]) \<Longrightarrow> b mod BPB = 0 \<and> b < fsize s"
  "n < fsize s \<Longrightarrow> n div BPB * BPB \<in> set (map (\<lambda>k. k * BPB) [0..<nbitmap s])"
  "sorted (map (\<lambda>k. k * BPB) [0..<nbitmap s])"
proof -
  show "b mod BPB = 0 \<and> b < fsize s" if b: "b \<in> set (map (\<lambda>k. k * BPB) [0..<nbitmap s])"
  proof -
    obtain k where "k < nbitmap s" "b = k * BPB"
      using b by auto
    then show ?thesis
      using less_ceil [of BPB k "fsize s"] by (simp add: nbitmap_def)
  qed
  show "n div BPB * BPB \<in> set (map (\<lambda>k. k * BPB) [0..<nbitmap s])" if "n < fsize s"
  proof -
    have "n div BPB < nbitmap s"
      using that less_ceil [of BPB "n div BPB" "fsize s"] div_times_less_eq_dividend [of n BPB] by (simp add: nbitmap_def)
    then show ?thesis by (simp add: rev_image_eqI)
  qed
  show "sorted (map (\<lambda>k. k * BPB) [0..<nbitmap s])"
    unfolding sorted_map by (rule sorted_wrt_mono_rel [OF _ sorted_upt]) simp
qed

lemma balloc_spec:
  fixes s :: "'z fs_scheme"
  assumes "may_log p (2 * nbitmap s + 6) 2 s"
  shows "wp (balloc 1) (\<lambda>r t. tstep p (2 * nbitmap s + 6) 2 s t \<and>
    (if \<forall>n < fsize s. used s n then r = 0 \<and> content t = content s
     else \<exists>n. r = of_nat n \<and> allocated n s t \<and> (\<forall>k < n. used s k))) out_of_bufs s"
proof -
  let ?bs = "map (\<lambda>k. k * BPB) [0..<nbitmap s]"
  note st = bitmap_starts [where s = s]
  have "wp (balloc_loop ?bs 1) (\<lambda>r t. tstep p (2 * nbitmap s + 6) 2 s t \<and>
    (if \<forall>n < fsize s. used s n then r = 0 \<and> content t = content s
     else \<exists>n. r = of_nat n \<and> allocated n s t \<and> (\<forall>k < n. used s k))) out_of_bufs s"
  proof (rule wp_mono [OF balloc_loop_spec [of p ?bs s]])
    fix r and t :: "'z fs_scheme"
    assume t: "tstep p (2 * length ?bs + 6) 2 s t \<and>
      (r = 0 \<and> content t = content s \<and> (\<forall>n < fsize s. n div BPB * BPB \<in> set ?bs \<longrightarrow> used s n)
       \<or> (\<exists>n. r = of_nat n \<and> allocated n s t \<and> (\<forall>k < n. k div BPB * BPB \<in> set ?bs \<longrightarrow> used s k)))"
    have "\<forall>k < n. used s k" if "allocated n s t" "\<forall>k < n. k div BPB * BPB \<in> set ?bs \<longrightarrow> used s k" for n
      using that st(2) unfolding allocated_def by (meson less_trans)
    moreover have "\<not> (\<forall>n < fsize s. used s n)" if "allocated n s t" for n
      using that unfolding allocated_def by blast
    moreover have "\<forall>n < fsize s. used s n" if "\<forall>n < fsize s. n div BPB * BPB \<in> set ?bs \<longrightarrow> used s n"
      using that st(2) by blast
    moreover have "length ?bs = nbitmap s"
      by simp
    ultimately show "tstep p (2 * nbitmap s + 6) 2 s t \<and>
      (if \<forall>n < fsize s. used s n then r = 0 \<and> content t = content s
       else \<exists>n. r = of_nat n \<and> allocated n s t \<and> (\<forall>k < n. used s k))"
      using t by metis
  next
    show "\<forall>b \<in> set ?bs. b mod BPB = 0 \<and> b < fsize s" "sorted ?bs"
      using st(1,3) by blast+
    show "may_log p (2 * length ?bs + 6) 2 s"
      using assms by simp
  qed
  then show ?thesis
    by (simp only: balloc_def wp_bind_gets nbitmap_def fsize_def)
qed

lemma bfree_spec:
  fixes s :: "'z fs_scheme"
  assumes s: "may_log p m c s" "3 \<le> m" "0 < c" and b: "unat b < fsize s"
  shows "used s (unat b) \<Longrightarrow> data_block s b \<Longrightarrow> wp (bfree 1 b) (\<lambda>_ t. tstep p 3 1 s t \<and> fs_ok t
      \<and> content t = (content s)(BBLOCK (unat b) (sb s) := blk (bmap_clear (unat b mod BPB) (content s (BBLOCK (unat b) (sb s)))))
      \<and> (\<forall>n < fsize s. used t n = (n \<noteq> unat b \<and> used s n))) out_of_bufs s"
    "\<not> used s (unat b) \<Longrightarrow> wp (bfree 1 b) (\<lambda>_ _. False) (\<lambda>e _. e = Panic ''bfree: freeing free block'' \<or> e = Panic ''bget'') s"
proof -
  let ?y = "BBLOCK (unat b) (sb s)"
  have bb: "bitmap_block s ?y"
    using b unfolding bitmap_block_def by blast
  have y: "unat ?y < 2 ^ 31" "\<not> in_log_area s ?y" and small: "unat b < 2 ^ 31"
    using fs_okD(1,2) [OF may_logD(2) [OF s(1)]] bb b by auto
  have pos: "\<not> sint b < 0"
    using small by (simp add: sint_small)
  have bit: "bmap_bit (b_data (bufs t bp)) (unat b mod BPB) = used s (unat b)" if "txn_read p ?y s bp t" for bp t
    using txn_local [OF that, of "\<lambda>d. bmap_bit d (unat b mod BPB)"] by (simp add: used_def bmap_blk)
  let ?rest = "\<lambda>bp. bind (gets (\<lambda>s. bmap_bit (b_data (bufs s bp)) (unat b mod BPB))) (\<lambda>used.
     if \<not> used then panic ''bfree: freeing free block''
     else andthen (modify (set_data bp (bmap_clear (unat b mod BPB)))) (andthen (log_write bp) (brelse bp)))"
  have run: "bfree 1 b = bind (gets (\<lambda>s. BBLOCK (unat b) (sb s))) (\<lambda>bb. bind (bread 1 bb) ?rest)"
    using pos by (simp add: bfree_def Let_def)
  note rd = txn_read_spec [OF may_logD(1,3) [OF s(1)] y(1)]
  show "wp (bfree 1 b) (\<lambda>_ _. False) (\<lambda>e _. e = Panic ''bfree: freeing free block'' \<or> e = Panic ''bget'') s" if "\<not> used s (unat b)"
    unfolding run wp_bind_gets
    by (rule wp_bindI [OF rd]) (use that bit s(2) in \<open>auto simp: wp_bind_gets wp_simps out_of_bufs_def\<close>)
  assume u: "used s (unat b)" and d: "data_block s b"
  show "wp (bfree 1 b) (\<lambda>_ t. tstep p 3 1 s t \<and> fs_ok t
      \<and> content t = (content s)(?y := blk (bmap_clear (unat b mod BPB) (content s ?y)))
      \<and> (\<forall>n < fsize s. used t n = (n \<noteq> unat b \<and> used s n))) out_of_bufs s"
    unfolding run wp_bind_gets
  proof (rule wp_bindI [OF rd])
    fix bp and t :: "'z fs_scheme" assume t: "txn_read p ?y s bp t"
    have "wp (andthen (modify (set_data bp (bmap_clear (unat b mod BPB)))) (andthen (log_write bp) (brelse bp)))
      (\<lambda>_ t. tstep p 3 1 s t \<and> fs_ok t \<and> content t = (content s)(?y := blk (bmap_clear (unat b mod BPB) (content s ?y)))
        \<and> (\<forall>n < fsize s. used t n = (n \<noteq> unat b \<and> used s n))) out_of_bufs t"
    proof (rule wp_mono [OF txn_read_log [OF may_logD(1) [OF s(1)] may_logD(3) [OF s(1)] y, folded set_data_def]])
      fix a and v :: "'z fs_scheme" assume "logged p 3 ?y (blk (bmap_clear (unat b mod BPB) (content s ?y))) s v"
      then have v: "tstep p 3 1 s v" "content v = (content s)(?y := blk (bmap_clear (unat b mod BPB) (content s ?y)))"
        by (simp_all add: logged_def)
      have k: "sb v = sb s" "log_start v = log_start s"
        using fs_keeps(1) tstepD(8,9) [OF v(1)] by blast+
      have us: "used v n = (n \<noteq> unat b \<and> used s n)" if "n < fsize s" for n
      proof -
        have "used v n = (if n = unat b then False else used s n)"
          by (rule used_change [OF _ k may_logD(2) [OF s(1)] b _ _ _ that, of "bmap_clear (unat b mod BPB)" ?y])
            (simp_all add: v(2) bmap_bits(3))
        then show ?thesis by auto
      qed
      have "fs_ok v"
        by (rule fs_ok_cong [OF k _ may_logD(2) [OF s(1)]]) (use us d in auto)
      then show "tstep p 3 1 s v \<and> fs_ok v \<and> content v = (content s)(?y := blk (bmap_clear (unat b mod BPB) (content s ?y)))
        \<and> (\<forall>n < fsize s. used v n = (n \<noteq> unat b \<and> used s n))"
        using v us by blast
    qed (use s may_logD(4,5) [OF s(1)] t in simp_all)
    then show "wp (?rest bp) (\<lambda>_ t. tstep p 3 1 s t \<and> fs_ok t
        \<and> content t = (content s)(?y := blk (bmap_clear (unat b mod BPB) (content s ?y)))
        \<and> (\<forall>n < fsize s. used t n = (n \<noteq> unat b \<and> used s n))) out_of_bufs t"
      using bit [OF t] u by (simp add: wp_bind_gets)
  qed (use s in simp_all)
qed

definition free_blocks :: "'z fs_scheme \<Rightarrow> nat set" where
  "free_blocks s = {b. b < fsize s \<and> \<not> used s b}"

lemma balloc_set:
  fixes s :: "'z fs_scheme"
  assumes "may_log p (2 * nbitmap s + 6) 2 s"
  shows "wp (balloc 1) (\<lambda>r t. txn_ok p t \<and> fs_ok t \<and>
      (if free_blocks s = {} then r = 0 \<and> content t = content s
       else r \<noteq> 0 \<and> unat r = Min (free_blocks s) \<and> data_block s r \<and> free_blocks t = free_blocks s - {unat r}
         \<and> content t r = (\<lambda>_. 0) \<and> (\<forall>k. k \<noteq> r \<and> \<not> bitmap_block s k \<longrightarrow> content t k = content s k))) out_of_bufs s"
proof (rule wp_mono [OF balloc_spec [OF assms]])
  fix r :: uint and t :: "'z fs_scheme"
  assume t: "tstep p (2 * nbitmap s + 6) 2 s t \<and> (if \<forall>n < fsize s. used s n then r = 0 \<and> content t = content s
    else \<exists>n. r = of_nat n \<and> allocated n s t \<and> (\<forall>k < n. used s k))"
  have k: "sb t = sb s" "log_start t = log_start s"
    using fs_keeps(1) tstepD(8,9) [OF conjunct1 [OF t]] by blast+
  have tx: "txn_ok p t"
    by (rule tstepD(1) [OF conjunct1 [OF t]])
  show "txn_ok p t \<and> fs_ok t \<and> (if free_blocks s = {} then r = 0 \<and> content t = content s
     else r \<noteq> 0 \<and> unat r = Min (free_blocks s) \<and> data_block s r \<and> free_blocks t = free_blocks s - {unat r}
       \<and> content t r = (\<lambda>_. 0) \<and> (\<forall>k. k \<noteq> r \<and> \<not> bitmap_block s k \<longrightarrow> content t k = content s k))"
  proof (cases "\<forall>n < fsize s. used s n")
    case True
    then have "r = 0" "content t = content s" "free_blocks s = {}"
      using t by (auto simp: free_blocks_def)
    moreover have "used t b = used s b" for b
      by (simp add: used_def k calculation)
    then have "fs_ok t"
      by (intro fs_ok_cong [OF k _ may_logD(2) [OF assms]]) simp
    ultimately show ?thesis
      using tx by simp
  next
    case False
    then obtain n where n: "r = of_nat n" "allocated n s t" "\<forall>k < n. used s k"
      using t by (simp only: if_False) blast
    note a = allocated_used [OF n(2) k may_logD(2) [OF assms]]
    have nf: "n < fsize s" "\<not> used s n"
      using n(2) by (simp_all add: allocated_def)
    then have un: "unat r = n"
      using fs_okD(1) [OF may_logD(2) [OF assms]] by (simp add: n(1) unat_of_nat)
    have "finite (free_blocks s)"
      by (rule finite_subset [of _ "{..<fsize s}"]) (auto simp: free_blocks_def)
    then have "Min (free_blocks s) = n"
      using nf n(3) by (intro Min_eqI) (auto simp: free_blocks_def not_less [symmetric])
    moreover have "free_blocks t = free_blocks s - {n}"
      using a(1) by (auto simp: free_blocks_def fs_cong [OF k])
    moreover have "content t k = content s k" if "k \<noteq> r" "\<not> bitmap_block s k" for k
      using n(1,2) that nf unfolding allocated_def bitmap_block_def by auto
    moreover have "content t r = (\<lambda>_. 0)" "free_blocks s \<noteq> {}" "r \<noteq> 0"
      using n(1,2) nf a(3) unfolding allocated_def free_blocks_def data_block_def by auto
    ultimately show ?thesis
      using tx a(2,3) n(1) un by simp
  qed
qed simp

lemma bfree_set:
  fixes s :: "'z fs_scheme"
  assumes s: "may_log p m c s" "3 \<le> m" "0 < c" and b: "data_block s b"
  shows "if unat b \<in> free_blocks s
        then wp (bfree 1 b) (\<lambda>_ _. False) (\<lambda>e _. e = Panic ''bfree: freeing free block'' \<or> e = Panic ''bget'') s
        else wp (bfree 1 b) (\<lambda>_ t. txn_ok p t \<and> fs_ok t \<and> free_blocks t = insert (unat b) (free_blocks s)
          \<and> (\<forall>k. \<not> bitmap_block s k \<longrightarrow> content t k = content s k)) out_of_bufs s"
proof -
  have bs: "unat b < fsize s"
    using b by (simp add: data_block_def)
  note f = bfree_spec [OF s bs]
  show ?thesis
  proof (cases "used s (unat b)")
    case True
    have "wp (bfree 1 b) (\<lambda>_ t. txn_ok p t \<and> fs_ok t \<and> free_blocks t = insert (unat b) (free_blocks s)
          \<and> (\<forall>k. \<not> bitmap_block s k \<longrightarrow> content t k = content s k)) out_of_bufs s"
    proof (rule wp_mono [OF f(1) [OF True b]])
      fix a and t :: "'z fs_scheme"
      assume t: "tstep p 3 1 s t \<and> fs_ok t
        \<and> content t = (content s)(BBLOCK (unat b) (sb s) := blk (bmap_clear (unat b mod BPB) (content s (BBLOCK (unat b) (sb s)))))
        \<and> (\<forall>n < fsize s. used t n = (n \<noteq> unat b \<and> used s n))"
      have k: "sb t = sb s" "log_start t = log_start s"
        using fs_keeps(1) tstepD(8,9) [OF conjunct1 [OF t]] by blast+
      have "free_blocks t = insert (unat b) (free_blocks s)"
        using t bs by (auto simp: free_blocks_def fs_cong [OF k])
      then show "txn_ok p t \<and> fs_ok t \<and> free_blocks t = insert (unat b) (free_blocks s)
          \<and> (\<forall>k. \<not> bitmap_block s k \<longrightarrow> content t k = content s k)"
        using t tstepD(1) [OF conjunct1 [OF t]] bs unfolding bitmap_block_def by auto
    qed simp_all
    with True show ?thesis
      by (simp add: free_blocks_def)
  next
    case False
    with f(2) bs show ?thesis
      by (simp add: free_blocks_def)
  qed
qed

text \<open>
  C31. The bitmap implements a set of free blocks. \<^verbatim>\<open>balloc\<close> takes the least free block out of the
  set and returns it filled with zeros; it returns 0 and changes nothing exactly when the set is
  empty. \<^verbatim>\<open>bfree\<close> puts a used data block back, and panics on a free one. No other block changes
  its content but those of the bitmap, and no block of the log, the bitmap or the inodes is ever
  free. Within an operation that has room for two blocks in the log, the only failure is that no
  buffer is left.
\<close>

theorem block_allocator_refines_set:
  fixes s :: "'z fs_scheme"
  assumes "may_log p (2 * nbitmap s + 6) 2 s"
  shows "wp (balloc 1) (\<lambda>r t. txn_ok p t \<and> fs_ok t \<and>
      (if free_blocks s = {} then r = 0 \<and> content t = content s
       else r \<noteq> 0 \<and> unat r = Min (free_blocks s) \<and> data_block s r \<and> free_blocks t = free_blocks s - {unat r}
         \<and> content t r = (\<lambda>_. 0) \<and> (\<forall>k. k \<noteq> r \<and> \<not> bitmap_block s k \<longrightarrow> content t k = content s k))) out_of_bufs s
    \<and> (data_block s b \<longrightarrow> (if unat b \<in> free_blocks s
        then wp (bfree 1 b) (\<lambda>_ _. False) (\<lambda>e _. e = Panic ''bfree: freeing free block'' \<or> e = Panic ''bget'') s
        else wp (bfree 1 b) (\<lambda>_ t. txn_ok p t \<and> fs_ok t \<and> free_blocks t = insert (unat b) (free_blocks s)
          \<and> (\<forall>k. \<not> bitmap_block s k \<longrightarrow> content t k = content s k)) out_of_bufs s))"
  by (intro conjI impI balloc_set [OF assms] bfree_set [OF assms]) simp_all

section \<open>Inodes on disk\<close>

lemma get16_put16 [simp]: "get16 (put16 d k v) k = v"
  by (rule bit_word_eqI) (auto simp: get16_def put16_def bit_simps)

lemma get32_put32 [simp]: "get32 (put32 d k v) k = v"
proof (rule bit_word_eqI)
  fix n assume "n < LENGTH(32)"
  then consider "n < 8" | "8 \<le> n" "n < 16" | "16 \<le> n" "n < 24" | "24 \<le> n" "n < 32"
    by fastforce
  then show "bit (get32 (put32 d k v) k) n = bit v n"
    by cases (auto simp: get32_def put32_def bit_simps)
qed

lemma get_put_other:
  "k + 2 \<le> j \<or> j + 2 \<le> k \<Longrightarrow> get16 (put16 d k v) j = get16 d j"
  "k + 4 \<le> j \<or> j + 2 \<le> k \<Longrightarrow> get16 (put32 d k w) j = get16 d j"
  "k + 2 \<le> j \<or> j + 4 \<le> k \<Longrightarrow> get32 (put16 d k v) j = get32 d j"
  "k + 4 \<le> j \<or> j + 4 \<le> k \<Longrightarrow> get32 (put32 d k w) j = get32 d j"
  by (auto simp: get16_def put16_def get32_def put32_def)

definition put_words :: "nat \<Rightarrow> nat \<Rightarrow> (nat \<Rightarrow> uint) \<Rightarrow> block \<Rightarrow> block" where
  "put_words b n f = fold (\<lambda>i d. put32 d (b + 4 * i) (f i)) [0..<n]"

lemma get_put_words:
  "j < n \<Longrightarrow> get32 (put_words b n f d) (b + 4 * j) = f j"
  "j + 2 \<le> b \<or> b + 4 * n \<le> j \<Longrightarrow> get16 (put_words b n f d) j = get16 d j"
  "j + 4 \<le> b \<or> b + 4 * n \<le> j \<Longrightarrow> get32 (put_words b n f d) j = get32 d j"
  "b + 4 * n \<le> BSIZE \<Longrightarrow> blk (put_words b n f d) = put_words b n f (blk d)"
  by (induction n) (auto simp: put_words_def get_put_other less_Suc_eq blk_put32)

lemma blk_put16: "k + 1 < BSIZE \<Longrightarrow> blk (put16 d k v) = put16 (blk d) k v"
  by (auto simp: blk_def put16_def)

lemma get_blk: "k + 1 < BSIZE \<Longrightarrow> get16 (blk d) k = get16 d k" "k + 3 < BSIZE \<Longrightarrow> get32 (blk d) k = get32 d k"
  by (simp_all add: get16_def get32_def)

lemma put_dinode_words: "put_dinode d k di = put_words (k + 12) 13 (di_addrs di)
    (put32 (put16 (put16 (put16 (put16 d k (di_type di)) (k + 2) (di_major di)) (k + 4) (di_minor di))
      (k + 6) (di_nlink di)) (k + 8) (di_size di))"
  by (simp add: put_dinode_def put_words_def NDIRECT_def)

text \<open>An inode as \<^verbatim>\<open>iupdate\<close> writes it and \<^verbatim>\<open>ilock\<close> reads it has \<open>NDIRECT + 1\<close> addresses.\<close>

definition dinode_ok :: "dinode \<Rightarrow> bool" where
  "dinode_ok di \<longleftrightarrow> (\<forall>i > NDIRECT. di_addrs di i = 0)"

lemma get_put_dinode:
  "dinode_ok di \<Longrightarrow> get_dinode (put_dinode d k di) k = di"
  "j + 64 \<le> k \<or> k + 64 \<le> j \<Longrightarrow> get_dinode (put_dinode d k di) j = get_dinode d j"
  "k + 64 \<le> BSIZE \<Longrightarrow> get_dinode (blk d) k = get_dinode d k"
  "k + 64 \<le> BSIZE \<Longrightarrow> blk (put_dinode d k di) = put_dinode (blk d) k di"
proof -
  have w: "get32 (put_words (k + 12) 13 f d) (k + 12 + 4 * i) = f i" if "i \<le> 12" for f d i
    using that by (simp add: get_put_words(1))
  show "get_dinode (put_dinode d k di) k = di" if "dinode_ok di"
    using that w by (cases di) (auto simp: get_dinode_def put_dinode_words get_put_words get_put_other NDIRECT_def dinode_ok_def fun_eq_iff)
  show "get_dinode (put_dinode d k di) j = get_dinode d j" if "j + 64 \<le> k \<or> k + 64 \<le> j"
    using that by (auto simp: get_dinode_def put_dinode_words get_put_words get_put_other NDIRECT_def fun_eq_iff)
  show "get_dinode (blk d) k = get_dinode d k" if "k + 64 \<le> BSIZE"
    using that by (auto simp: get_dinode_def get_blk NDIRECT_def fun_eq_iff)
  show "blk (put_dinode d k di) = put_dinode (blk d) k di" if "k + 64 \<le> BSIZE"
    using that by (simp add: put_dinode_words get_put_words blk_put16 blk_put32)
qed

lemma dinode_off_bound: "dinode_off i + 64 \<le> BSIZE"
  using mod_less_divisor [of 16 i] by (simp add: dinode_off_def IPB_def BSIZE_def)

lemma dinode_off_apart: "i mod IPB \<noteq> j mod IPB \<Longrightarrow> dinode_off j + 64 \<le> dinode_off i \<or> dinode_off i + 64 \<le> dinode_off j"
  by (simp add: dinode_off_def) linarith

definition dinode_at :: "'z fs_scheme \<Rightarrow> nat \<Rightarrow> dinode" where
  "dinode_at s i = get_dinode (content s (IBLOCK i (sb s))) (dinode_off i)"

definition ihold :: "nat \<Rightarrow> nat \<Rightarrow> 'z fs_scheme \<Rightarrow> bool" where
  "ihold p ip s \<longleftrightarrow> sl_locked (sleeplocks s (SInode ip)) \<noteq> 0 \<and> sl_pid (sleeplocks s (SInode ip)) = p_pid (PCBs s p)
     \<and> i_dev (inodes s ip) = 1 \<and> unat (i_inum (inodes s ip)) < unat (sb_ninodes (sb s)) \<and> dinode_ok (i_d (inodes s ip))"

lemma iupdate_spec:
  fixes s :: "'z fs_scheme"
  assumes s: "may_log p m c s" "3 \<le> m" "0 < c" and ip: "ihold p ip s"
  defines "inum \<equiv> unat (i_inum (inodes s ip))"
  shows "wp (iupdate ip) (\<lambda>_. logged p 3 (IBLOCK inum (sb s))
    (put_dinode (content s (IBLOCK inum (sb s))) (dinode_off inum) (i_d (inodes s ip))) s) out_of_bufs s"
proof -
  have "disk_ready p s"
    using csafeD(1) [OF txn_okD(1) [OF may_logD(1) [OF s(1)]]] .
  then have c: "calm s" "running p s"
    by (simp_all add: disk_ready_def)
  let ?f = "\<lambda>d. put_dinode d (dinode_off inum) (i_d (inodes s ip))"
  have "inode_block s (IBLOCK inum (sb s))"
    using ip unfolding inode_block_def ihold_def inum_def by blast
  then have y: "unat (IBLOCK inum (sb s)) < 2 ^ 31" "\<not> in_log_area s (IBLOCK inum (sb s))"
    using fs_okD(3) [OF may_logD(2) [OF s(1)]] by blast+
  have f: "blk (?f d) = ?f (blk d)" for d
    by (rule get_put_dinode(4) [OF dinode_off_bound])
  have cb: "blk (content s k) = content s k" for k
    by (simp add: content_def split: option.split)
  have "wp (log_block (IBLOCK inum (sb s)) ?f) (\<lambda>_. logged p 3 (IBLOCK inum (sb s)) (?f (content s (IBLOCK inum (sb s)))) s) out_of_bufs s"
    using log_block_spec [OF may_logD(1) [OF s(1)] may_logD(3) [OF s(1,2)] y, of ?f] may_logD(4,5) [OF s(1)] s(3)
    by (simp add: local_change_def f cb)
  then show ?thesis
    using ip unfolding iupdate_def wp_bind_run [where m = "holdingsleep (SInode ip)", OF holdingsleep_run [OF c]]
    by (simp add: ihold_def wp_bind_gets log_block_def set_data_def inum_def)
qed

section \<open>Locking an inode\<close>

text \<open>Steps that change inode \<open>ip\<close>, blocks and the log.\<close>

definition fstep :: "nat \<Rightarrow> nat \<Rightarrow> nat \<Rightarrow> nat \<Rightarrow> 'z fs_scheme \<Rightarrow> 'z fs_scheme \<Rightarrow> bool" where
  "fstep p ip m c s t \<longleftrightarrow> txn_ok p t \<and> fs_ok t \<and> disk_image t = disk_image s \<and> (\<forall>n. room (n + m) s \<longrightarrow> room n t)
     \<and> lh_n s \<le> lh_n t \<and> lh_n t \<le> lh_n s + int c \<and> log_outstanding t = log_outstanding s
     \<and> log_committing t = log_committing s \<and> log_start t = log_start s \<and> sb t = sb s \<and> stack_junk t = stack_junk s \<and> mem t = mem s
     \<and> mycpu t = mycpu s \<and> (\<forall>q. p_pid (PCBs t q) = p_pid (PCBs s q)) \<and> (\<forall>i. sleeplocks t (SInode i) = sleeplocks s (SInode i))
     \<and> (\<forall>j. j \<noteq> ip \<longrightarrow> inodes t j = inodes s j)"

lemma fstepD:
  assumes "fstep p ip m c s t"
  shows "txn_ok p t" "fs_ok t" "disk_image t = disk_image s" "room (n + m) s \<Longrightarrow> room n t" "log_start t = log_start s" "sb t = sb s"
    "sleeplocks t (SInode i) = sleeplocks s (SInode i)" "j \<noteq> ip \<Longrightarrow> inodes t j = inodes s j" "p_pid (PCBs t q) = p_pid (PCBs s q)"
    "stack_junk t = stack_junk s"
  using assms unfolding fstep_def by blast+

lemma fstep_trans:
  assumes "fstep p ip m c s t" "fstep p ip n d t u"
  shows "fstep p ip (m + n) (c + d) s u"
proof -
  have "room k u" if "room (k + (m + n)) s" for k
    using fstepD(4) [OF assms(2), of k] fstepD(4) [OF assms(1), of "k + n"] that by (simp add: ac_simps)
  then show ?thesis
    using assms unfolding fstep_def by auto
qed

lemma fstep_mono: "fstep p ip m c s t \<Longrightarrow> m \<le> n \<Longrightarrow> c \<le> d \<Longrightarrow> fstep p ip n d s t"
  unfolding fstep_def using room_mono [of _ s] by auto

lemma fstep_tstep:
  assumes "tstep p m c s t" "fs_ok t"
  shows "fstep p ip m c s t" "inodes t = inodes s"
  using assms fs_keeps [OF tstepD(9) [OF assms(1)]] unfolding fstep_def tstep_def by auto

lemma fstep_refl: "txn_ok p s \<Longrightarrow> fs_ok s \<Longrightarrow> fstep p ip m c s s"
  by (rule fstep_tstep) (rule tstep_refl)

lemma fs_ok_inodes [simp]: "fs_ok (inodes_update f s) = fs_ok s" "used (inodes_update f s) b = used s b"
proof -
  show u: "used (inodes_update f s) b = used s b" for b
    by (simp add: used_def)
  show "fs_ok (inodes_update f s) = fs_ok s"
    by (simp add: fs_ok_def u fs_cong [of "inodes_update f s" s])
qed

lemma fstep_inode:
  assumes "fstep p ip m c s t"
  shows "fstep p ip m c s (set_inode ip f t)" "fstep p ip m c s (set_d ip g t)"
  using assms by (simp_all add: fstep_def set_inode_def set_d_def)

lemma may_log_fstep: "may_log p (m + m') (c + c') s \<Longrightarrow> fstep p ip m c s t \<Longrightarrow> may_log p m' c' t"
  unfolding may_log_def fstep_def by (auto simp: add.commute)

lemma slk_inode_frame [simp]:
  "content (set_slk l f s) = content s" "room n (set_slk l f s) = room n s" "pinned H k (set_slk l f s) = pinned H k s"
  "csafe p H (set_slk (SInode i) f s) = csafe p H s" "txn_ok p (set_slk (SInode i) f s) = txn_ok p s"
  "sb (set_slk l f s) = sb s" "inodes (set_slk l f s) = inodes s" "fs_ok (set_slk l f s) = fs_ok s"
proof -
  show c: "content (set_slk l f s) = content s" for l
    by (rule content_same) (simp_all add: set_slk_def)
  show p: "pinned H k (set_slk l f s) = pinned H k s" for H k l
    by (simp add: pinned_def set_slk_def)
  show "room n (set_slk l f s) = room n s" "sb (set_slk l f s) = sb s" "inodes (set_slk l f s) = inodes s"
    by (simp_all add: room_def set_slk_def)
  show cs: "csafe p H (set_slk (SInode i) f s) = csafe p H s" for H
    using c p by (simp add: csafe_def disk_ready_def bcache_ok_def vd_quiet_def bufs_ok_def set_slk_def)
  show "txn_ok p (set_slk (SInode i) f s) = txn_ok p s"
    by (simp add: txn_ok_list cs c p) (simp add: log_list_def log_placed_def in_log_area_def set_slk_def)
  have e: "sb (set_slk l f s) = sb s" "log_start (set_slk l f s) = log_start s"
    by (simp_all add: set_slk_def)
  show "fs_ok (set_slk l f s) = fs_ok s"
    by (simp add: fs_ok_def fs_cong [OF e] in_log_area_cong [OF e(2)] used_def c e)
qed

lemma inodes_commute:
  "inodes_update f (PCBs_update g t) = PCBs_update g (inodes_update f t)"
  "inodes_update f (sleeplocks_update g1 t) = sleeplocks_update g1 (inodes_update f t)"
  "inodes_update f (bufs_update g2 t) = bufs_update g2 (inodes_update f t)"
  "inodes_update f (vq_update g3 t) = vq_update g3 (inodes_update f t)"
  "inodes_update f (vfree_update g4 t) = vfree_update g4 (inodes_update f t)"
  "inodes_update f (used_idx_update g5 t) = used_idx_update g5 (inodes_update f t)"
  "inodes_update f (info_b_update g6 t) = info_b_update g6 (inodes_update f t)"
  "inodes_update f (mmio_log_update g7 t) = mmio_log_update g7 (inodes_update f t)"
  "inodes_update f (disk_image_update g8 t) = disk_image_update g8 (inodes_update f t)"
  by simp_all

lemma iostep_inodes: "iostep s t \<Longrightarrow> iostep (inodes_update f s) (inodes_update f t)"
  by (induction rule: iostep.induct) (auto simp: inodes_commute intro!: iostep.intros)

lemma txn_read_inodes: "txn_read p y s b t \<Longrightarrow> txn_read p y (inodes_update f s) b (inodes_update f t)"
  unfolding txn_read_def by (simp add: iostep_inodes)

lemma set_slk_commute: "set_slk l f (inodes_update g s) = inodes_update g (set_slk l f s)"
  by (simp add: set_slk_def)

text \<open>\<^verbatim>\<open>ilock\<close> of an inode that nobody has locked and that has not been read yet.\<close>

lemma ilock_spec:
  fixes s :: "'z fs_scheme"
  assumes s: "txn_ok p s" "fs_ok s" "room 2 s"
    and ip: "0 < i_ref (inodes s ip)" "i_valid (inodes s ip) = 0" "i_dev (inodes s ip) = 1"
      "unat (i_inum (inodes s ip)) < unat (sb_ninodes (sb s))" "sl_locked (sleeplocks s (SInode ip)) = 0"
  defines "di \<equiv> dinode_at s (unat (i_inum (inodes s ip)))"
    and "s1 \<equiv> set_slk (SInode ip) (\<lambda>k. k\<lparr>sl_locked := 1, sl_pid := p_pid (PCBs s p)\<rparr>) s"
  shows "wp (ilock ip) (\<lambda>_ t. di_type di \<noteq> 0 \<and> fstep p ip 2 0 s1 t \<and> content t = content s
      \<and> inodes t ip = (inodes s ip)\<lparr>i_valid := 1, i_d := di\<rparr>)
    (\<lambda>e t. out_of_bufs e t \<or> e = Panic ''ilock: no type'' \<and> di_type di = 0) s"
proof -
  let ?i = "unat (i_inum (inodes s ip))"
  have "disk_ready p s"
    using csafeD(1) [OF txn_okD(1) [OF s(1)]] .
  then have c: "calm s" "running p s"
    by (simp_all add: disk_ready_def)
  have s1: "txn_ok p s1" "room 2 s1" "content s1 = content s" "sb s1 = sb s" "inodes s1 = inodes s" "fs_ok s1"
    using s by (simp_all add: s1_def)
  have "inode_block s (IBLOCK ?i (sb s))"
    using ip(4) unfolding inode_block_def by blast
  then have y: "unat (IBLOCK ?i (sb s)) < 2 ^ 31"
    using fs_okD(3) [OF s(2)] by blast
  let ?post = "\<lambda>_ t. di_type di \<noteq> 0 \<and> fstep p ip 2 0 s1 t \<and> content t = content s \<and> inodes t ip = (inodes s ip)\<lparr>i_valid := 1, i_d := di\<rparr>"
  let ?fault = "\<lambda>e t. out_of_bufs e t \<or> e = Panic ''ilock: no type'' \<and> di_type di = 0"
  have "wp (bind (bread 1 (IBLOCK ?i (sb s))) (\<lambda>bp.
      andthen (modify (\<lambda>s. set_d ip (\<lambda>_. get_dinode (b_data (bufs s bp)) (dinode_off ?i)) s))
      (andthen (brelse bp) (andthen (modify (set_inode ip (\<lambda>i. i\<lparr>i_valid := 1\<rparr>)))
      (bind (gets (\<lambda>s. di_type (i_d (inodes s ip)))) (\<lambda>t. if t = 0 then panic ''ilock: no type'' else ret ()))))))
    ?post ?fault s1"
  proof (rule wp_bindI [OF txn_read_spec [OF s1(1,2) y]])
    fix b and t :: "'z fs_scheme" assume t: "txn_read p (IBLOCK ?i (sb s)) s1 b t"
    have d: "get_dinode (b_data (bufs t b)) (dinode_off ?i) = di"
      using txn_local [OF t, of "\<lambda>d. get_dinode d (dinode_off ?i)"] get_put_dinode(3) [OF dinode_off_bound]
      by (simp add: di_def dinode_at_def s1)
    have it: "inodes t = inodes s"
      using t keeps_iostep fs_keeps(2) s1(5) unfolding txn_read_def by metis
    let ?f = "\<lambda>t. t(ip := (t ip)\<lparr>i_d := di\<rparr>)"
    have "txn_ok p (inodes_update ?f s1)"
      using s1 by simp
    from txn_read_release [OF this txn_read_inodes [OF t]]
    obtain u where u: "brelse b (inodes_update ?f t) = Ret () u" "tstep p 2 0 (inodes_update ?f s1) u" "content u = content s"
      using s1(3) by auto
    have ku: "sb u = sb s1" "log_start u = log_start s1"
      using fs_keeps(1) [OF tstepD(9) [OF u(2)]] tstepD(8) [OF u(2)] by simp_all
    have "fs_ok u"
      by (rule fs_ok_cong [OF ku _ s1(6)]) (simp add: used_def ku u(3) s1)
    note st = fstep_tstep(1) [OF u(2) this, of ip] fstep_tstep(2) [OF u(2) this]
    have "fstep p ip 2 0 s1 (set_inode ip (\<lambda>i. i\<lparr>i_valid := 1\<rparr>) u)"
      using fstep_inode(1) [OF st(1)] by (simp add: fstep_def)
    moreover have "set_d ip (\<lambda>_. di) t = inodes_update ?f t"
      by (simp add: set_d_def set_inode_def)
    moreover have "content (set_inode ip (\<lambda>i. i\<lparr>i_valid := 1\<rparr>) u) = content s"
      "inodes (set_inode ip (\<lambda>i. i\<lparr>i_valid := 1\<rparr>) u) ip = (inodes s ip)\<lparr>i_valid := 1, i_d := di\<rparr>"
      using u(3) st(2) s1(5) by (simp_all add: set_inode_def)
    ultimately show "wp (andthen (modify (\<lambda>s. set_d ip (\<lambda>_. get_dinode (b_data (bufs s b)) (dinode_off ?i)) s))
      (andthen (brelse b) (andthen (modify (set_inode ip (\<lambda>i. i\<lparr>i_valid := 1\<rparr>)))
      (bind (gets (\<lambda>s. di_type (i_d (inodes s ip)))) (\<lambda>t. if t = 0 then panic ''ilock: no type'' else ret ()))))) ?post ?fault t"
      by (simp add: d wp_run [where m = "brelse b", OF u(1)] wp_simps)
  qed simp_all
  then show ?thesis
    using ip by (simp add: ilock_def wp_bind_gets wp_bind_run [where m = "acquiresleep (SInode ip)", OF acquiresleep_run [OF c ip(5)]]
      s1_def [symmetric] s1)
qed

lemma iupdate_effect:
  fixes s :: "'z fs_scheme"
  assumes s: "may_log p m c s" "3 \<le> m" "0 < c" and ip: "ihold p ip s"
  defines "inum \<equiv> unat (i_inum (inodes s ip))"
  shows "wp (iupdate ip) (\<lambda>_ t. fstep p ip 3 1 s t \<and> inodes t = inodes s \<and> dinode_at t inum = i_d (inodes s ip)
      \<and> (\<forall>j < unat (sb_ninodes (sb s)). j \<noteq> inum \<longrightarrow> dinode_at t j = dinode_at s j)
      \<and> (\<forall>b < fsize s. used t b = used s b) \<and> (\<forall>k. \<not> inode_block s k \<longrightarrow> content t k = content s k)) out_of_bufs s"
proof (rule wp_mono [OF iupdate_spec [OF s ip]])
  fix a and t :: "'z fs_scheme"
  let ?y = "IBLOCK inum (sb s)"
  assume "logged p 3 (IBLOCK (unat (i_inum (inodes s ip))) (sb s)) (put_dinode (content s (IBLOCK (unat (i_inum (inodes s ip))) (sb s)))
    (dinode_off (unat (i_inum (inodes s ip)))) (i_d (inodes s ip))) s t"
  then have t: "tstep p 3 1 s t" "content t = (content s)(?y := put_dinode (content s ?y) (dinode_off inum) (i_d (inodes s ip)))"
    by (simp_all add: logged_def inum_def)
  have k: "sb t = sb s" "log_start t = log_start s"
    using fs_keeps(1) tstepD(8,9) [OF t(1)] by blast+
  have in_range: "inum < unat (sb_ninodes (sb s))" and ok: "dinode_ok (i_d (inodes s ip))"
    using ip by (simp_all add: ihold_def inum_def)
  have ib: "inode_block s ?y"
    using in_range unfolding inode_block_def by blast
  have u: "used t b = used s b" if "b < fsize s" for b
  proof -
    have "bitmap_block s (BBLOCK b (sb s))"
      using that unfolding bitmap_block_def by blast
    then have "BBLOCK b (sb s) \<noteq> ?y"
      using fs_okD(3) [OF may_logD(2) [OF s(1)] ib] by auto
    then show ?thesis
      by (simp add: used_def t(2) k)
  qed
  have "fs_ok t"
    by (rule fs_ok_cong [OF k _ may_logD(2) [OF s(1)]]) (simp add: u)
  moreover have "dinode_at t j = dinode_at s j" if j: "j < unat (sb_ninodes (sb s))" "j \<noteq> inum" for j
  proof (cases "IBLOCK j (sb s) = ?y")
    case True
    have "j < 2 ^ 32" "inum < 2 ^ 32"
      using j(1) in_range unsigned_less [where ?'a = nat, of "sb_ninodes (sb s)"] by auto
    then have "j div IPB < 2 ^ 32" "inum div IPB < 2 ^ 32"
      by (auto intro: le_less_trans [OF div_le_dividend])
    with True have "j div IPB = inum div IPB"
      by (simp add: IBLOCK_def word_of_nat_eq_iff take_bit_nat_eq_self)
    then have "j mod IPB \<noteq> inum mod IPB"
      using j(2) by (metis mod_div_decomp)
    then show ?thesis
      using True dinode_off_apart [of inum j] get_put_dinode(2) by (simp add: dinode_at_def k t(2))
  qed (simp add: dinode_at_def k t(2))
  moreover have "dinode_at t inum = i_d (inodes s ip)"
    using get_put_dinode(1) [OF ok] by (simp add: dinode_at_def k t(2))
  moreover have "content t k = content s k" if "\<not> inode_block s k" for k
    using that ib t(2) by auto
  ultimately show "fstep p ip 3 1 s t \<and> inodes t = inodes s \<and> dinode_at t inum = i_d (inodes s ip)
      \<and> (\<forall>j < unat (sb_ninodes (sb s)). j \<noteq> inum \<longrightarrow> dinode_at t j = dinode_at s j)
      \<and> (\<forall>b < fsize s. used t b = used s b) \<and> (\<forall>k. \<not> inode_block s k \<longrightarrow> content t k = content s k)"
    using fstep_tstep [OF t(1)] u by blast
qed simp


section \<open>The bytes of a file\<close>

text \<open>
  A file within its direct blocks: the addresses are used data blocks, different from each other, and
  every block up to the size has one.
\<close>

definition iaddr :: "'z fs_scheme \<Rightarrow> nat \<Rightarrow> nat \<Rightarrow> uint" where
  "iaddr s ip i = di_addrs (i_d (inodes s ip)) i"

definition isize :: "'z fs_scheme \<Rightarrow> nat \<Rightarrow> nat" where
  "isize s ip = unat (di_size (i_d (inodes s ip)))"

definition blocks_ok :: "nat \<Rightarrow> 'z fs_scheme \<Rightarrow> bool" where
  "blocks_ok ip s \<longleftrightarrow> (\<forall>i < NDIRECT. iaddr s ip i \<noteq> 0 \<longrightarrow> data_block s (iaddr s ip i) \<and> used s (unat (iaddr s ip i)))
     \<and> (\<forall>i < NDIRECT. \<forall>j < NDIRECT. iaddr s ip i \<noteq> 0 \<and> iaddr s ip i = iaddr s ip j \<longrightarrow> i = j)"

definition covered :: "nat \<Rightarrow> nat \<Rightarrow> 'z fs_scheme \<Rightarrow> bool" where
  "covered ip n s \<longleftrightarrow> n \<le> NDIRECT * BSIZE \<and> (\<forall>i < NDIRECT. i * BSIZE < n \<longrightarrow> iaddr s ip i \<noteq> 0)"

definition fbyte :: "'z fs_scheme \<Rightarrow> nat \<Rightarrow> nat \<Rightarrow> byte" where
  "fbyte s ip i = content s (iaddr s ip (i div BSIZE)) (i mod BSIZE)"

definition file_ok :: "nat \<Rightarrow> nat \<Rightarrow> 'z fs_scheme \<Rightarrow> bool" where
  "file_ok p ip s \<longleftrightarrow> ihold p ip s \<and> blocks_ok ip s \<and> covered ip (isize s ip) s"

lemma covered_div:
  assumes "covered ip n s" "i < n"
  shows "i div BSIZE < NDIRECT" "iaddr s ip (i div BSIZE) \<noteq> 0"
proof -
  have "i < NDIRECT * BSIZE"
    using assms by (simp add: covered_def)
  then show d: "i div BSIZE < NDIRECT"
    by (simp add: less_mult_imp_div_less)
  have "i div BSIZE * BSIZE < n"
    using assms(2) div_times_less_eq_dividend le_less_trans by blast
  with d show "iaddr s ip (i div BSIZE) \<noteq> 0"
    using assms(1) by (simp add: covered_def)
qed

lemma blocks_okD:
  assumes "blocks_ok ip s"
  shows "i < NDIRECT \<Longrightarrow> iaddr s ip i \<noteq> 0 \<Longrightarrow> data_block s (iaddr s ip i)"
    "i < NDIRECT \<Longrightarrow> iaddr s ip i \<noteq> 0 \<Longrightarrow> used s (unat (iaddr s ip i))"
    "i < NDIRECT \<Longrightarrow> j < NDIRECT \<Longrightarrow> iaddr s ip i \<noteq> 0 \<Longrightarrow> iaddr s ip i = iaddr s ip j \<Longrightarrow> i = j"
  using assms unfolding blocks_ok_def by blast+

lemma blocks_ok_keep:
  assumes "blocks_ok ip s" "sb t = sb s" "log_start t = log_start s" "inodes t ip = inodes s ip"
    "\<And>b. b < fsize s \<Longrightarrow> used s b \<Longrightarrow> used t b"
  shows "blocks_ok ip t"
proof -
  have "iaddr t ip = iaddr s ip"
    by (simp add: iaddr_def assms(4) fun_eq_iff)
  moreover have "unat k < fsize s" if "data_block s k" for k
    using that by (simp add: data_block_def)
  ultimately show ?thesis
    using assms(1,5) unfolding blocks_ok_def fs_cong [OF assms(2,3)] by auto
qed

text \<open>What \<^verbatim>\<open>bmap\<close> of a direct block leaves: the block has an address, and the blocks in use keep their content.\<close>

definition mapped :: "nat \<Rightarrow> nat \<Rightarrow> nat \<Rightarrow> uint \<Rightarrow> 'z fs_scheme \<Rightarrow> 'z fs_scheme \<Rightarrow> bool" where
  "mapped p ip bn r s t \<longleftrightarrow> fstep p ip (2 * nbitmap s + 6) 2 s t \<and> ihold p ip t \<and> blocks_ok ip t
     \<and> (\<exists>f. inodes t ip = (inodes s ip)\<lparr>i_d := (i_d (inodes s ip))\<lparr>di_addrs := f\<rparr>\<rparr>)
     \<and> (\<forall>i. i \<noteq> bn \<or> iaddr s ip bn \<noteq> 0 \<longrightarrow> iaddr t ip i = iaddr s ip i)
     \<and> (\<forall>k. data_block s k \<and> used s (unat k) \<longrightarrow> content t k = content s k \<and> used t (unat k))
     \<and> (\<forall>b < fsize s. used s b \<longrightarrow> used t b) \<and> (iaddr s ip bn = 0 \<and> r \<noteq> 0 \<longrightarrow> \<not> used s (unat r))
     \<and> iaddr t ip bn = r \<and> (r = 0 \<longrightarrow> free_blocks s = {} \<and> content t = content s)"

lemma bmap_direct:
  fixes s :: "'z fs_scheme"
  assumes s: "may_log p (2 * nbitmap s + 6) 2 s" "ihold p ip s" "blocks_ok ip s" and bn: "bn < NDIRECT"
  shows "wp (bmap ip bn) (\<lambda>r. mapped p ip bn r s) out_of_bufs s"
proof (cases "iaddr s ip bn = 0")
  case False
  have "inodes s ip = (inodes s ip)\<lparr>i_d := (i_d (inodes s ip))\<lparr>di_addrs := di_addrs (i_d (inodes s ip))\<rparr>\<rparr>"
    by simp
  then have "mapped p ip bn (iaddr s ip bn) s s"
    using s False fstep_refl [OF may_logD(1,2) [OF s(1)]] unfolding mapped_def by blast
  with False bn show ?thesis
    by (simp add: bmap_def bmap_entry_def wp_bind_gets wp_simps iaddr_def)
next
  case True
  note ok = may_logD(2) [OF s(1)]
  have dev: "i_dev (inodes s ip) = 1"
    using s(2) by (simp add: ihold_def)
  have "wp (bind (balloc 1) (\<lambda>addr. if addr = 0 then ret 0
      else andthen (modify (set_d ip (\<lambda>d. d\<lparr>di_addrs := (di_addrs d)(bn := addr)\<rparr>))) (ret addr))) (\<lambda>r. mapped p ip bn r s) out_of_bufs s"
  proof (rule wp_bindI [OF balloc_spec [OF s(1)]])
    fix r :: uint and t :: "'z fs_scheme"
    assume t: "tstep p (2 * nbitmap s + 6) 2 s t \<and> (if \<forall>n < fsize s. used s n then r = 0 \<and> content t = content s
      else \<exists>n. r = of_nat n \<and> allocated n s t \<and> (\<forall>k < n. used s k))"
    have k: "sb t = sb s" "log_start t = log_start s"
      using fs_keeps(1) tstepD(8,9) [OF conjunct1 [OF t]] by blast+
    show "wp (if r = 0 then ret 0 else andthen (modify (set_d ip (\<lambda>d. d\<lparr>di_addrs := (di_addrs d)(bn := r)\<rparr>))) (ret r))
      (\<lambda>r. mapped p ip bn r s) out_of_bufs t"
    proof (cases "\<forall>n < fsize s. used s n")
      case all: True
      then have c: "r = 0" "content t = content s" and us: "\<And>b. used t b = used s b"
        using t by (simp_all add: used_def k)
      have "fs_ok t"
        by (rule fs_ok_cong [OF k _ ok]) (simp add: us)
      note st = fstep_tstep(1) [OF conjunct1 [OF t] this, of ip] fstep_tstep(2) [OF conjunct1 [OF t] this]
      have "\<exists>f. inodes t ip = (inodes s ip)\<lparr>i_d := (i_d (inodes s ip))\<lparr>di_addrs := f\<rparr>\<rparr>"
        by (rule exI [of _ "di_addrs (i_d (inodes s ip))"]) (simp add: st(2))
      moreover have "blocks_ok ip t"
        using s(3) unfolding blocks_ok_def iaddr_def st(2) us fs_cong [OF k] .
      moreover have "ihold p ip t"
        using s(2) st(2) fstepD(6,7,9) [OF st(1)] by (simp add: ihold_def)
      ultimately have "mapped p ip bn 0 s t"
        unfolding mapped_def free_blocks_def using all st True c us by (auto simp: iaddr_def)
      with c show ?thesis by (simp add: wp_simps)
    next
      case False
      then obtain n where n: "r = of_nat n" "allocated n s t"
        using t by (simp only: if_False) blast
      note a = allocated_used [OF n(2) k ok]
      have nf: "n < fsize s" "\<not> used s n"
        using n(2) by (simp_all add: allocated_def)
      then have un: "unat r = n" and db: "data_block s r"
        using fs_okD(1) [OF ok] a(3) by (simp_all add: n(1) unat_of_nat)
      then have r0: "r \<noteq> 0"
        by (auto simp: data_block_def)
      let ?t = "set_d ip (\<lambda>d. d\<lparr>di_addrs := (di_addrs d)(bn := r)\<rparr>) t"
      note st = fstep_tstep(1) [OF conjunct1 [OF t] a(2), of ip] fstep_tstep(2) [OF conjunct1 [OF t] a(2)]
      have addr: "iaddr ?t ip i = (if i = bn then r else iaddr s ip i)" for i
        by (simp add: iaddr_def set_d_def set_inode_def st(2))
      have c: "content ?t k = content s k \<and> used ?t (unat k)" if "data_block s k" "used s (unat k)" for k
      proof -
        have "k \<noteq> r" "\<not> bitmap_block s k" "unat k < fsize s"
          using that nf un by (auto simp: data_block_def)
        then show ?thesis
          using that n(2) nf n(1) a(1) unfolding allocated_def bitmap_block_def by (auto simp: set_d_def set_inode_def)
      qed
      have ur: "used ?t (unat r)"
        using a(1) nf un by (simp add: set_d_def set_inode_def)
      have "sb ?t = sb s" "log_start ?t = log_start s"
        using k by (simp_all add: set_d_def set_inode_def)
      note cg = fs_cong [OF this]
      have um: "used ?t b" if "b < fsize s" "used s b" for b
        using a(1) [OF that(1)] that(2) by (simp add: set_d_def set_inode_def)
      have "blocks_ok ip ?t"
        unfolding blocks_ok_def addr cg using blocks_okD [OF s(3)] c ur db nf un by auto
      moreover have "ihold p ip ?t"
        using s(2) bn st fstepD(6,7,9) [OF st(1)] by (simp add: ihold_def set_d_def set_inode_def dinode_ok_def)
      moreover have "inodes ?t ip = (inodes s ip)\<lparr>i_d := (i_d (inodes s ip))\<lparr>di_addrs := (di_addrs (i_d (inodes s ip)))(bn := r)\<rparr>\<rparr>"
        by (simp add: set_d_def set_inode_def st(2))
      ultimately have "mapped p ip bn r s ?t"
        unfolding mapped_def using fstep_inode(2) [OF st(1)] addr True c r0 um nf un by auto
      with r0 show ?thesis by (simp add: wp_simps)
    qed
  qed simp
  with True bn dev show ?thesis
    by (simp add: bmap_def bmap_entry_def wp_bind_gets iaddr_def)
qed

lemma bmap_mapped: "bn < NDIRECT \<Longrightarrow> iaddr s ip bn \<noteq> 0 \<Longrightarrow> bmap ip bn s = Ret (iaddr s ip bn) s"
  by (simp add: bmap_def bmap_entry_def iaddr_def)

text \<open>The pieces of the loops of \<^verbatim>\<open>readi\<close> and \<^verbatim>\<open>writei\<close>: what remains after the first of \<open>k\<close> blocks lies in \<open>k - 1\<close> blocks.\<close>

definition spans :: "nat \<Rightarrow> nat \<Rightarrow> nat \<Rightarrow> bool" where
  "spans off len k \<longleftrightarrow> 0 < len \<longrightarrow> off + len \<le> (off div BSIZE + k) * BSIZE"

lemma BSIZE_pos [simp]: "0 < BSIZE"
  by (simp add: BSIZE_def)

lemma spans_step:
  assumes "spans off len k" "0 < len"
  defines "m \<equiv> min len (BSIZE - off mod BSIZE)"
  obtains j where "k = Suc j" "spans (off + m) (len - m) j" "0 < m" "m \<le> len" "off mod BSIZE + m \<le> BSIZE"
proof -
  have le: "off + len \<le> (off div BSIZE + k) * BSIZE"
    using assms(1,2) by (simp add: spans_def)
  have lt: "off mod BSIZE < BSIZE"
    by simp
  have dec: "off = off div BSIZE * BSIZE + off mod BSIZE"
    by simp
  have "k \<noteq> 0"
  proof
    assume "k = 0"
    then have "off + len \<le> off div BSIZE * BSIZE"
      using le by simp
    with dec assms(2) show False by linarith
  qed
  then obtain j where j: "k = Suc j"
    by (cases k) auto
  moreover have "spans (off + m) (len - m) j"
    unfolding spans_def
  proof
    assume "0 < len - m"
    then have m: "m = BSIZE - off mod BSIZE"
      unfolding m_def by auto
    then have "off + m = (off div BSIZE + 1) * BSIZE"
      using dec lt by (simp only: add_mult_distrib mult_1)
    then have "(off + m) div BSIZE = off div BSIZE + 1"
      by simp
    with le j \<open>0 < len - m\<close> show "off + m + (len - m) \<le> ((off + m) div BSIZE + j) * BSIZE"
      by simp
  qed
  moreover have "0 < m" "m \<le> len" "off mod BSIZE + m \<le> BSIZE"
    using assms(2) lt unfolding m_def by (auto simp: min_def simp del: mod_less_divisor)
  ultimately show ?thesis
    by (rule that)
qed

lemma div_within: "off mod BSIZE + m \<le> BSIZE \<Longrightarrow> i < m \<Longrightarrow> (off + i) div BSIZE = off div BSIZE \<and> (off + i) mod BSIZE = off mod BSIZE + i"
proof -
  assume a: "off mod BSIZE + m \<le> BSIZE" "i < m"
  have "off + i = (off mod BSIZE + i) + off div BSIZE * BSIZE"
    by simp
  then have "(off + i) div BSIZE = off div BSIZE + (off mod BSIZE + i) div BSIZE" "(off + i) mod BSIZE = (off mod BSIZE + i) mod BSIZE"
    by (metis BSIZE_pos div_mult_self1 less_not_refl add.commute, metis mod_mult_self1)
  with a show ?thesis by simp
qed

lemma readi_loop_spec:
  fixes s :: "'z fs_scheme"
  assumes "txn_ok p s" "fs_ok s" "room (2 * k) s" "i_dev (inodes s ip) = 1" "blocks_ok ip s"
    "covered ip (off + (n - tot)) s" "spans off (n - tot) k" "tot \<le> n"
  shows "wp (readi_loop (\<lambda>acc bs. ret (Some (acc @ bs))) ip n tot off a) (\<lambda>(r, acc) t.
    r = as_int n \<and> acc = a @ map (fbyte s ip) [off..<off + (n - tot)] \<and> tstep p (2 * k) 0 s t \<and> content t = content s) out_of_bufs s"
  using assms
proof (induction k arbitrary: s tot off a)
  case 0
  then have "tot = n"
    using spans_step [of off "n - tot" 0] by (metis nat.distinct(1) le_antisym diff_is_0_eq not_gr_zero)
  then show ?case
    using tstep_refl [OF 0(1)] by (simp add: readi_loop.simps wp_simps)
next
  case (Suc k)
  show ?case
  proof (cases "tot < n")
    case False
    then show ?thesis
      using Suc.prems tstep_refl [OF Suc.prems(1)] by (simp add: readi_loop.simps wp_simps)
  next
    case True
    define m where "m = min (n - tot) (BSIZE - off mod BSIZE)"
    have m: "spans (off + m) (n - tot - m) k" "0 < m" "m \<le> n - tot" "off mod BSIZE + m \<le> BSIZE"
      using spans_step [OF Suc.prems(7)] True unfolding m_def by auto
    let ?y = "iaddr s ip (off div BSIZE)"
    have cov: "off div BSIZE < NDIRECT" "?y \<noteq> 0"
      using covered_div [OF Suc.prems(6), of off] True by auto
    have y: "unat ?y < 2 ^ 31"
      using blocks_okD(1) [OF Suc.prems(5) cov] fs_okD(1) [OF Suc.prems(2)] by (simp add: data_block_def)
    let ?post = "\<lambda>(r, acc) t. r = as_int n \<and> acc = a @ map (fbyte s ip) [off..<off + (n - tot)] \<and> tstep p (2 * Suc k) 0 s t \<and> content t = content s"
    let ?rest = "\<lambda>bp. bind (gets (\<lambda>s. map (b_data (bufs s bp)) [off mod BSIZE..<off mod BSIZE + m])) (\<lambda>bs.
      bind (ret (Some (a @ bs))) (\<lambda>r. case r of None \<Rightarrow> andthen (brelse bp) (ret (- 1, a))
      | Some a' \<Rightarrow> andthen (brelse bp) (readi_loop (\<lambda>acc bs. ret (Some (acc @ bs))) ip n (tot + m) (off + m) a')))"
    have "wp (bind (bread 1 ?y) ?rest) ?post out_of_bufs s"
    proof (rule wp_bindI [OF txn_read_spec [OF Suc.prems(1) room_mono [OF Suc.prems(3)] y]])
      fix b and t :: "'z fs_scheme" assume t: "txn_read p ?y s b t"
      have bytes: "map (b_data (bufs t b)) [off mod BSIZE..<off mod BSIZE + m] = map (fbyte s ip) [off..<off + m]"
      proof (rule nth_equalityI)
        fix i assume "i < length (map (b_data (bufs t b)) [off mod BSIZE..<off mod BSIZE + m])"
        then have i: "i < m" by simp
        have "b_data (bufs t b) (off mod BSIZE + i) = content s ?y (off mod BSIZE + i)"
          by (rule txn_local [OF t]) (use i m(4) in simp)
        then show "map (b_data (bufs t b)) [off mod BSIZE..<off mod BSIZE + m] ! i = map (fbyte s ip) [off..<off + m] ! i"
          using i div_within [OF m(4) i] by (simp add: fbyte_def)
      qed simp
      obtain u where u: "brelse b t = Ret () u" "tstep p 2 0 s u" "content u = content s"
        using txn_read_release [OF Suc.prems(1) t] by blast
      have ku: "sb u = sb s" "log_start u = log_start s" and iu: "inodes u = inodes s"
        using fs_keeps(1,2) tstepD(8,9) [OF u(2)] by blast+
      have us: "used u n = used s n" for n
        by (simp add: used_def ku u(3))
      have ok: "fs_ok u"
        by (rule fs_ok_cong [OF ku _ Suc.prems(2)]) (simp add: us)
      have r: "room (2 * k) u"
        using tstepD(3) [OF u(2), of "2 * k"] Suc.prems(3) by (simp add: add.commute)
      have fb: "fbyte u ip = fbyte s ip" and ia: "iaddr u = iaddr s"
        by (simp_all add: fbyte_def iaddr_def iu u(3) fun_eq_iff)
      have bo: "blocks_ok ip u" "covered ip (off + m + (n - (tot + m))) u"
        using Suc.prems(5,6) m(3) True unfolding blocks_ok_def covered_def ia us fs_cong [OF ku] by (blast, simp)
      have "wp (readi_loop (\<lambda>acc bs. ret (Some (acc @ bs))) ip n (tot + m) (off + m) (a @ map (fbyte s ip) [off..<off + m])) ?post out_of_bufs u"
      proof (rule wp_mono [OF Suc.IH [OF tstepD(1) [OF u(2)] ok r _ bo]])
        fix x and v :: "'z fs_scheme"
        assume v: "(case x of (r, acc) \<Rightarrow> \<lambda>t. r = as_int n \<and> acc = (a @ map (fbyte s ip) [off..<off + m]) @ map (fbyte u ip) [off + m..<off + m + (n - (tot + m))]
          \<and> tstep p (2 * k) 0 u t \<and> content t = content u) v"
        have e: "off + m + (n - (tot + m)) = off + (n - tot)"
          using m(3) by simp
        have "map (fbyte s ip) [off..<off + m] @ map (fbyte s ip) [off + m..<off + m + (n - (tot + m))] = map (fbyte s ip) [off..<off + (n - tot)]"
          using upt_add_eq_append [of off "off + m" "n - (tot + m)"] unfolding e by (metis le_add1 map_append)
        then show "?post x v"
          using v u(3) tstep_trans [OF u(2), of "2 * k" 0 v] by (auto simp: fb)
      qed (use Suc.prems m in \<open>auto simp: iu\<close>)
      then show "wp (?rest b) ?post out_of_bufs t"
        by (simp add: wp_bind_gets bytes wp_simps wp_run [where m = "brelse b", OF u(1)])
    qed (use Suc.prems in simp_all)
    then show ?thesis
      using True Suc.prems(4) cov by (subst readi_loop.simps) (simp add: wp_bind_run [OF bmap_mapped] m_def [symmetric] Let_def wp_bind_gets)
  qed
qed

section \<open>Writing to a file\<close>

text \<open>
  The first \<open>w\<close> bytes of \<open>bs\<close> have been written to file \<open>ip\<close> from offset \<open>off\<close> on, in at most \<open>k\<close> blocks. The
  other bytes of the file and the blocks that belong to other files are as before. Only when
  no block is free fewer bytes than given have been written.
\<close>

definition written :: "nat \<Rightarrow> nat \<Rightarrow> nat \<Rightarrow> byte list \<Rightarrow> nat \<Rightarrow> nat \<Rightarrow> 'z fs_scheme \<Rightarrow> 'z fs_scheme \<Rightarrow> bool" where
  "written p ip k bs off w s t \<longleftrightarrow> fstep p ip (k * (2 * nbitmap s + 9)) (3 * k) s t \<and> ihold p ip t \<and> blocks_ok ip t
     \<and> (\<exists>f. inodes t ip = (inodes s ip)\<lparr>i_d := (i_d (inodes s ip))\<lparr>di_addrs := f\<rparr>\<rparr>)
     \<and> (\<forall>i < NDIRECT. iaddr s ip i \<noteq> 0 \<longrightarrow> iaddr t ip i = iaddr s ip i)
     \<and> (\<forall>i < NDIRECT. iaddr t ip i \<noteq> iaddr s ip i \<longrightarrow> \<not> used s (unat (iaddr t ip i)))
     \<and> (\<forall>b < fsize s. used s b \<longrightarrow> used t b)
     \<and> covered ip (off + w) t \<and> w \<le> length bs \<and> (\<forall>j < w. fbyte t ip (off + j) = bs ! j)
     \<and> (\<forall>x. x div BSIZE < NDIRECT \<and> iaddr s ip (x div BSIZE) \<noteq> 0 \<and> \<not> (off \<le> x \<and> x < off + w) \<longrightarrow> fbyte t ip x = fbyte s ip x)
     \<and> (\<forall>k. data_block s k \<and> used s (unat k) \<and> (\<forall>i < NDIRECT. iaddr s ip i \<noteq> k) \<longrightarrow> content t k = content s k)
     \<and> (w < length bs \<longrightarrow> free_blocks t = {})"

lemma writtenD:
  assumes "written p ip k bs off w s t"
  shows "fstep p ip (k * (2 * nbitmap s + 9)) (3 * k) s t" "ihold p ip t" "blocks_ok ip t"
    "\<exists>f. inodes t ip = (inodes s ip)\<lparr>i_d := (i_d (inodes s ip))\<lparr>di_addrs := f\<rparr>\<rparr>"
    "i < NDIRECT \<Longrightarrow> iaddr s ip i \<noteq> 0 \<Longrightarrow> iaddr t ip i = iaddr s ip i"
    "i < NDIRECT \<Longrightarrow> iaddr t ip i \<noteq> iaddr s ip i \<Longrightarrow> \<not> used s (unat (iaddr t ip i))"
    "b < fsize s \<Longrightarrow> used s b \<Longrightarrow> used t b"
    "covered ip (off + w) t" "w \<le> length bs" "j < w \<Longrightarrow> fbyte t ip (off + j) = bs ! j"
    "x div BSIZE < NDIRECT \<Longrightarrow> iaddr s ip (x div BSIZE) \<noteq> 0 \<Longrightarrow> \<not> (off \<le> x \<and> x < off + w) \<Longrightarrow> fbyte t ip x = fbyte s ip x"
    "data_block s y \<Longrightarrow> used s (unat y) \<Longrightarrow> (\<And>i. i < NDIRECT \<Longrightarrow> iaddr s ip i \<noteq> y) \<Longrightarrow> content t y = content s y"
    "w < length bs \<Longrightarrow> free_blocks t = {}"
  using assms unfolding written_def by blast+

lemma written_trans:
  assumes a: "written p ip j xs off (length xs) s t" and b: "written p ip k ys (off + length xs) w t u"
  shows "written p ip (j + k) (xs @ ys) off (length xs + w) s u"
proof -
  note x = writtenD [OF a] and y = writtenD [OF b]
  note f = fstepD [OF x(1)]
  note cg = fs_cong [OF f(6,5)]
  have nb: "nbitmap t = nbitmap s"
    by (simp add: nbitmap_def cg)
  show ?thesis
    unfolding written_def
  proof (intro conjI allI impI)
    show "fstep p ip ((j + k) * (2 * nbitmap s + 9)) (3 * (j + k)) s u"
      using fstep_trans [OF x(1) y(1)] by (simp add: nb algebra_simps)
    show "\<exists>f. inodes u ip = (inodes s ip)\<lparr>i_d := (i_d (inodes s ip))\<lparr>di_addrs := f\<rparr>\<rparr>"
      using x(4) y(4) by auto
    fix i assume i: "i < NDIRECT"
    show "iaddr u ip i = iaddr s ip i" if "iaddr s ip i \<noteq> 0"
      using x(5) y(5) i that by simp
    show "\<not> used s (unat (iaddr u ip i))" if ne: "iaddr u ip i \<noteq> iaddr s ip i"
    proof (cases "iaddr t ip i = iaddr s ip i")
      case True
      then have "\<not> used t (unat (iaddr u ip i))" "iaddr u ip i \<noteq> 0"
        using y(5,6) i ne by auto
      moreover have "unat (iaddr u ip i) < fsize s"
        using blocks_okD(1) [OF y(3) i] calculation(2) fs_cong(1) [OF fstepD(6,5) [OF y(1)]] cg by (simp add: data_block_def)
      ultimately show ?thesis
        using x(7) by blast
    next
      case False
      then show ?thesis
        using x(5,6) y(5) i by metis
    qed
  next
    fix b assume "b < fsize s" "used s b"
    then show "used u b"
      using x(7) y(7) cg by simp
  next
    fix i assume i: "i < length xs + w"
    show "fbyte u ip (off + i) = (xs @ ys) ! i"
    proof (cases "i < length xs")
      case True
      have "off + i < off + length xs"
        using True by simp
      from covered_div [OF x(8) this] have "fbyte u ip (off + i) = fbyte t ip (off + i)"
        using True by (intro y(11)) simp_all
      with True x(10) show ?thesis by (simp add: nth_append)
    next
      case False
      with i y(10) [of "i - length xs"] show ?thesis by (simp add: nth_append)
    qed
  next
    fix v assume "v div BSIZE < NDIRECT \<and> iaddr s ip (v div BSIZE) \<noteq> 0 \<and> \<not> (off \<le> v \<and> v < off + (length xs + w))"
    then show "fbyte u ip v = fbyte s ip v"
      using x(5,11) [of "v div BSIZE"] x(11) [of v] y(11) [of v] by auto
  next
    fix q assume q: "data_block s q \<and> used s (unat q) \<and> (\<forall>i < NDIRECT. iaddr s ip i \<noteq> q)"
    then have "unat q < fsize s"
      by (simp add: data_block_def)
    with q have "used t (unat q)" "data_block t q"
      using x(7) cg(4) by simp_all
    moreover have "iaddr t ip i \<noteq> q" if "i < NDIRECT" for i
      using x(6) that q by metis
    ultimately show "content u q = content s q"
      using x(12) y(12) q by simp
  qed (use x y in \<open>auto simp: add.assoc\<close>)
qed

lemma blk_put_bytes: "k + length xs \<le> BSIZE \<Longrightarrow> blk (put_bytes k xs d) = put_bytes k xs (blk d)"
  by (auto simp: blk_def put_bytes_def)

lemma content_blk [simp]: "blk (content s k) = content s k"
  by (simp add: content_def split: option.split)

text \<open>One block has been mapped; the data goes into it.\<close>

lemma mappedD:
  assumes "mapped p ip bn r s t"
  shows "fstep p ip (2 * nbitmap s + 6) 2 s t" "ihold p ip t" "blocks_ok ip t"
    "\<exists>f. inodes t ip = (inodes s ip)\<lparr>i_d := (i_d (inodes s ip))\<lparr>di_addrs := f\<rparr>\<rparr>"
    "i \<noteq> bn \<or> iaddr s ip bn \<noteq> 0 \<Longrightarrow> iaddr t ip i = iaddr s ip i"
    "data_block s k \<Longrightarrow> used s (unat k) \<Longrightarrow> content t k = content s k"
    "b < fsize s \<Longrightarrow> used s b \<Longrightarrow> used t b" "iaddr s ip bn = 0 \<Longrightarrow> r \<noteq> 0 \<Longrightarrow> \<not> used s (unat r)" "iaddr t ip bn = r"
    "r = 0 \<Longrightarrow> free_blocks s = {} \<and> content t = content s"
  using assms unfolding mapped_def by blast+

lemma changed_bytes:
  assumes "blocks_ok ip t" "iaddr t ip bn = r" "r \<noteq> 0" "bn < NDIRECT" "inodes u = inodes t"
    "content u = (content t)(r := put_bytes k xs (content t r))" "x div BSIZE < NDIRECT"
  shows "fbyte u ip x = (if x div BSIZE = bn \<and> k \<le> x mod BSIZE \<and> x mod BSIZE < k + length xs
          then xs ! (x mod BSIZE - k) else fbyte t ip x)"
proof (cases "x div BSIZE = bn")
  case True
  then show ?thesis
    using assms by (simp add: fbyte_def iaddr_def put_bytes_def)
next
  case False
  then have "iaddr t ip (x div BSIZE) \<noteq> r"
    using blocks_okD(3) [OF assms(1,4,7)] assms(2,3) by auto
  with False show ?thesis
    using assms by (simp add: fbyte_def iaddr_def)
qed

lemma at_offset:
  assumes "off mod BSIZE + m \<le> BSIZE"
  shows "x div BSIZE = off div BSIZE \<and> off mod BSIZE \<le> x mod BSIZE \<and> x mod BSIZE < off mod BSIZE + m \<longleftrightarrow> off \<le> x \<and> x < off + m"
proof -
  have e: "x = x div BSIZE * BSIZE + x mod BSIZE" "off = off div BSIZE * BSIZE + off mod BSIZE"
    by simp_all
  show ?thesis
  proof
    assume "x div BSIZE = off div BSIZE \<and> off mod BSIZE \<le> x mod BSIZE \<and> x mod BSIZE < off mod BSIZE + m"
    then have "x div BSIZE * BSIZE = off div BSIZE * BSIZE" "off mod BSIZE \<le> x mod BSIZE" "x mod BSIZE < off mod BSIZE + m"
      by simp_all
    with e show "off \<le> x \<and> x < off + m"
      by linarith
  next
    assume x: "off \<le> x \<and> x < off + m"
    then have "x = off + (x - off)" "x - off < m"
      by auto
    then show "x div BSIZE = off div BSIZE \<and> off mod BSIZE \<le> x mod BSIZE \<and> x mod BSIZE < off mod BSIZE + m"
      using div_within [OF assms, of "x - off"] by (metis add_less_cancel_left le_add1)
  qed
qed

lemma covered_more:
  assumes "covered ip off s" "\<And>i. i < NDIRECT \<Longrightarrow> iaddr s ip i \<noteq> 0 \<Longrightarrow> iaddr t ip i \<noteq> 0" "iaddr t ip (off div BSIZE) \<noteq> 0"
    "off mod BSIZE + m \<le> BSIZE" "off + m \<le> NDIRECT * BSIZE"
  shows "covered ip (off + m) t"
  unfolding covered_def
proof (intro conjI allI impI)
  fix i assume i: "i < NDIRECT" "i * BSIZE < off + m"
  show "iaddr t ip i \<noteq> 0"
  proof (cases "i * BSIZE < off")
    case True
    with assms(1,2) i(1) show ?thesis
      by (simp add: covered_def)
  next
    case False
    then have "(i * BSIZE) div BSIZE = off div BSIZE"
      using at_offset [OF assms(4), of "i * BSIZE"] i(2) by simp
    with assms(3) show ?thesis by simp
  qed
qed (use assms(5) in simp)

lemma written_one:
  fixes s :: "'z fs_scheme"
  assumes ok: "fs_ok s" and r: "r \<noteq> 0" and t: "mapped p ip (off div BSIZE) r s t" "blocks_ok ip s"
    and xs: "off mod BSIZE + length xs \<le> BSIZE" and bn: "off div BSIZE < NDIRECT" and cov: "covered ip off s" "off + length xs \<le> NDIRECT * BSIZE"
    and u: "tstep p 3 1 t u" "content u = (content t)(r := put_bytes (off mod BSIZE) xs (content t r))"
  shows "written p ip 1 xs off (length xs) s u"
proof -
  note tm = mappedD [OF t(1)]
  note ft = fstepD [OF tm(1)]
  note cg = fs_cong [OF ft(6,5)]
  have db: "data_block t r"
    using blocks_okD(1) [OF tm(3) bn] tm(9) r by simp
  have ku: "sb u = sb t" "log_start u = log_start t" and iu: "inodes u = inodes t"
    using fs_keeps(1,2) tstepD(8,9) [OF u(1)] by blast+
  have us: "used u n = used t n" if "n < fsize t" for n
  proof -
    have "BBLOCK n (sb t) \<noteq> r"
      using db that unfolding data_block_def bitmap_block_def by blast
    then show ?thesis
      by (simp add: used_def ku u(2))
  qed
  have "fs_ok u"
    by (rule fs_ok_cong [OF ku _ ft(2)]) (simp add: us)
  note fu = fstep_tstep(1) [OF u(1) this, of ip]
  have ia: "iaddr u = iaddr t"
    by (simp add: iaddr_def iu fun_eq_iff)
  have bo: "blocks_ok ip u"
    by (rule blocks_ok_keep [OF tm(3) ku]) (simp_all add: iu us)
  note fb = changed_bytes [OF tm(3,9) r bn iu u(2)]
  have keep: "iaddr t ip i = iaddr s ip i" if "iaddr s ip i \<noteq> 0" for i
    using tm(5) [of i] that by metis
  show ?thesis
    unfolding written_def ia
  proof (intro conjI allI impI)
    show "fstep p ip (1 * (2 * nbitmap s + 9)) (3 * 1) s u"
      by (rule fstep_mono [OF fstep_trans [OF tm(1) fu]]) simp_all
    show "ihold p ip u"
      using tm(2) fstepD(6,7,9) [OF fu] by (simp add: ihold_def iu)
    show "\<exists>f. inodes u ip = (inodes s ip)\<lparr>i_d := (i_d (inodes s ip))\<lparr>di_addrs := f\<rparr>\<rparr>"
      using tm(4) by (simp add: iu)
    show "covered ip (off + length xs) u"
      by (rule covered_more [OF cov(1) _ _ xs cov(2)]) (use keep tm(9) r in \<open>auto simp: ia\<close>)
    fix i assume i: "i < NDIRECT"
    show "\<not> used s (unat (iaddr t ip i))" if "iaddr t ip i \<noteq> iaddr s ip i"
      using tm(5) [of i] tm(8,9) r that by metis
  next
    fix b assume "b < fsize s" "used s b"
    then show "used u b"
      using tm(7) us cg by simp
  next
    fix j assume j: "j < length xs"
    have "(off + j) div BSIZE = off div BSIZE" "(off + j) mod BSIZE = off mod BSIZE + j"
      using div_within [OF xs j] by simp_all
    then show "fbyte u ip (off + j) = xs ! j"
      using fb [of "off + j"] j bn by simp
  next
    fix x assume x: "x div BSIZE < NDIRECT \<and> iaddr s ip (x div BSIZE) \<noteq> 0 \<and> \<not> (off \<le> x \<and> x < off + length xs)"
    have "fbyte u ip x = fbyte t ip x"
      using fb [of x] at_offset [OF xs, of x] x by auto
    also have "\<dots> = fbyte s ip x"
      using blocks_okD(1,2) [OF t(2)] tm(6) keep x by (simp add: fbyte_def)
    finally show "fbyte u ip x = fbyte s ip x" .
  next
    fix q assume q: "data_block s q \<and> used s (unat q) \<and> (\<forall>i < NDIRECT. iaddr s ip i \<noteq> q)"
    then have "q \<noteq> r"
      using keep tm(5,8,9) r bn by metis
    then show "content u q = content s q"
      using q tm(6) u(2) by simp
  qed (use bo keep in auto)
qed

lemma write_block_spec:
  fixes s :: "'z fs_scheme"
  assumes s: "may_log p m c s" "2 * nbitmap s + 9 \<le> m" "3 \<le> c" and r: "r \<noteq> 0" and t: "mapped p ip (off div BSIZE) r s t" "blocks_ok ip s"
    and xs: "off mod BSIZE + length xs \<le> BSIZE" and bn: "off div BSIZE < NDIRECT" and cov: "covered ip off s" "off + length xs \<le> NDIRECT * BSIZE"
    and rd: "txn_read p r t b t'"
  shows "wp (andthen (modify (set_data b (put_bytes (off mod BSIZE) xs))) (andthen (log_write b) (brelse b)))
      (\<lambda>_. written p ip 1 xs off (length xs) s) never t'"
proof -
  note tm = mappedD [OF t(1)]
  have db: "data_block t r"
    using blocks_okD(1) [OF tm(3) bn] tm(9) r by simp
  have mt: "may_log p 3 1 t"
    by (rule may_log_fstep [OF _ tm(1)]) (use s in \<open>auto simp: may_log_def intro: room_mono\<close>)
  have y: "unat r < 2 ^ 31" "\<not> in_log_area t r"
    using db fs_okD(1) [OF fstepD(2) [OF tm(1)]] by (auto simp: data_block_def)
  have loc: "local_change (put_bytes (off mod BSIZE) xs)"
    using xs by (simp add: local_change_def blk_put_bytes)
  show ?thesis
  proof (rule wp_mono [OF txn_read_log [OF may_logD(1) [OF mt] may_logD(3) [OF mt] y(1,2) loc _ _ rd, folded set_data_def]])
    fix a and u :: "'z fs_scheme" assume "logged p 3 r (blk (put_bytes (off mod BSIZE) xs (content t r))) t u"
    then have "tstep p 3 1 t u" "content u = (content t)(r := put_bytes (off mod BSIZE) xs (content t r))"
      using xs by (simp_all add: logged_def blk_put_bytes)
    then show "written p ip 1 xs off (length xs) s u"
      by (rule written_one [OF may_logD(2) [OF s(1)] r t xs bn cov])
  qed (use mt may_logD(4,5) [OF mt] in simp_all)
qed

lemma ret_bind: "bind (ret a) f = f a"
  by (rule ext) (simp add: bind_def)

lemma written_none:
  assumes "mapped p ip bn 0 s t" "covered ip off s"
  shows "written p ip 1 bs off 0 s t"
proof -
  note m = mappedD [OF assms(1)]
  note f = fstepD [OF m(1)]
  have e: "iaddr s ip i = iaddr t ip i" for i
    using m(5,9) by (cases "i = bn \<and> iaddr s ip bn = 0") auto
  have c: "free_blocks s = {}" "content t = content s"
    using m(10) by auto
  have "fbyte t ip = fbyte s ip"
    by (simp add: fbyte_def e c fun_eq_iff)
  moreover have "free_blocks t = {}"
    using c m(7) by (auto simp: free_blocks_def fs_cong [OF f(6,5)])
  moreover have "fstep p ip (1 * (2 * nbitmap s + 9)) (3 * 1) s t"
    by (rule fstep_mono [OF m(1)]) simp_all
  ultimately show ?thesis
    using m(2-4,7) assms(2) unfolding written_def covered_def e c by simp
qed

lemma written_mono:
  assumes "written p ip j bs off w s t" "j \<le> k"
  shows "written p ip k bs off w s t"
proof -
  have "fstep p ip (k * (2 * nbitmap s + 9)) (3 * k) s t"
    by (rule fstep_mono [OF writtenD(1) [OF assms(1)]]) (use assms(2) in \<open>simp_all only: mult_le_mono1 mult_le_mono2\<close>)
  with assms(1) show ?thesis
    unfolding written_def by blast
qed

lemma written_refl:
  assumes "may_log p m c s" "ihold p ip s" "blocks_ok ip s" "covered ip off s"
  shows "written p ip k [] off 0 s s"
proof -
  have "\<exists>f. inodes s ip = (inodes s ip)\<lparr>i_d := (i_d (inodes s ip))\<lparr>di_addrs := f\<rparr>\<rparr>"
    by (rule exI [of _ "di_addrs (i_d (inodes s ip))"]) simp
  then show ?thesis
    using assms fstep_refl [OF may_logD(1,2) [OF assms(1)]] by (simp add: written_def)
qed

lemma writei_loop_spec:
  fixes s :: "'z fs_scheme"
  assumes "may_log p (k * (2 * nbitmap s + 9)) (3 * k) s" "ihold p ip s" "blocks_ok ip s" "covered ip off s"
    "spans off (length bs) k" "off + length bs \<le> NDIRECT * BSIZE" "tot + length bs = n"
  shows "wp (writei_loop (\<lambda>a m. ret (0, take m a, drop m a)) ip n tot off bs) (\<lambda>(tot', off') t.
    \<exists>w. tot' = tot + w \<and> off' = off + w \<and> written p ip k bs off w s t) out_of_bufs s"
  using assms
proof (induction k arbitrary: s tot off bs)
  case 0
  then have "bs = []"
    using spans_step [of off "length bs" 0] by (metis nat.distinct(1) length_greater_0_conv)
  then show ?case
    using 0 written_refl [OF 0(1-4), of 0] by (simp add: writei_loop.simps wp_simps)
next
  case (Suc k)
  show ?case
  proof (cases "bs = []")
    case True
    then show ?thesis
      using Suc.prems(7) written_refl [OF Suc.prems(1-4), of "Suc k"] by (simp add: writei_loop.simps wp_simps)
  next
    case False
    define m where "m = min (n - tot) (BSIZE - off mod BSIZE)"
    have len: "n - tot = length bs" "tot < n"
      using Suc.prems(7) False by auto
    have m: "spans (off + m) (length bs - m) k" "0 < m" "m \<le> length bs" "off mod BSIZE + m \<le> BSIZE"
      using spans_step [OF Suc.prems(5)] False unfolding m_def len by auto
    have bn: "off div BSIZE < NDIRECT"
      using Suc.prems(6) False by (intro less_mult_imp_div_less) (metis length_greater_0_conv less_add_same_cancel1 less_le_trans)
    have dev: "i_dev (inodes s ip) = 1"
      using Suc.prems(2) by (simp add: ihold_def)
    have lx: "length (take m bs) = m"
      using m(3) by simp
    have may: "may_log p (2 * nbitmap s + 6) 2 s"
      using Suc.prems(1) unfolding may_log_def by (auto intro: room_mono)
    let ?post = "\<lambda>(tot', off') t. \<exists>w. tot' = tot + w \<and> off' = off + w \<and> written p ip (Suc k) bs off w s t"
    let ?wr = "\<lambda>bp. andthen (modify (set_data bp (put_bytes (off mod BSIZE) (take m bs)))) (andthen (log_write bp) (brelse bp))"
    let ?loop = "writei_loop (\<lambda>a m. ret (0, take m a, drop m a)) ip n (tot + m) (off + m) (drop m bs)"
    have next_part: "wp ?loop ?post out_of_bufs u" if u: "written p ip 1 (take m bs) off m s u" for u
    proof -
      note uD = writtenD [OF u]
      have nb: "nbitmap u = nbitmap s"
        by (simp add: nbitmap_def fs_cong [OF fstepD(6,5) [OF uD(1)]])
      have mu: "may_log p (k * (2 * nbitmap u + 9)) (3 * k) u"
        by (rule may_log_fstep [OF _ uD(1)]) (use Suc.prems(1) in \<open>simp add: nb algebra_simps\<close>)
      show ?thesis
      proof (rule wp_mono [OF Suc.IH [OF mu uD(2,3,8)]])
        fix x and v :: "'z fs_scheme"
        assume "(case x of (tot', off') \<Rightarrow> \<lambda>t. \<exists>w. tot' = tot + m + w \<and> off' = off + m + w \<and> written p ip k (drop m bs) (off + m) w u t) v"
        then obtain w where w: "fst x = tot + (m + w)" "snd x = off + (m + w)" "written p ip k (drop m bs) (off + m) w u v"
          by (auto simp: case_prod_beta)
        have "written p ip (1 + k) (take m bs @ drop m bs) off (m + w) s v"
          using written_trans [of p ip 1 "take m bs" off s u k "drop m bs" w v, unfolded lx] u w(3) by blast
        then show "?post x v"
          using w by (auto simp: case_prod_beta)
      qed (use m Suc.prems(6,7) in auto)
    qed
    let ?cont = "\<lambda>addr. if addr = 0 then ret (tot, off) else bind (gets (\<lambda>s. i_dev (inodes s ip))) (\<lambda>dev. bind (bread dev addr) (\<lambda>bp.
       andthen (?wr bp) ?loop))"
    have "wp (bind (bmap ip (off div BSIZE)) ?cont) ?post out_of_bufs s"
    proof (rule wp_bindI [OF bmap_direct [OF may Suc.prems(2,3) bn]])
      fix r and t :: "'z fs_scheme" assume t: "mapped p ip (off div BSIZE) r s t"
      note tm = mappedD [OF t]
      show "wp (?cont r) ?post out_of_bufs t"
      proof (cases "r = 0")
        case True
        have "written p ip 1 bs off 0 s t"
          using written_none [OF _ Suc.prems(4)] t True by simp
        then have "written p ip (Suc k) bs off 0 s t"
          by (rule written_mono) simp
        with True show ?thesis by (auto simp: wp_simps)
      next
        case r: False
        have devt: "i_dev (inodes t ip) = 1"
          using tm(2) by (simp add: ihold_def)
        have db: "data_block t r"
          using blocks_okD(1) [OF tm(3) bn] tm(9) r by simp
        then have y: "unat r < 2 ^ 31"
          using fs_okD(1) [OF fstepD(2) [OF tm(1)]] by (auto simp: data_block_def)
        have r2: "room 2 t"
          by (rule fstepD(4) [OF tm(1)], rule may_logD(3) [OF Suc.prems(1)]) simp
        have "wp (bind (bread 1 r) (\<lambda>bp. andthen (?wr bp) ?loop)) ?post out_of_bufs t"
        proof (rule wp_bindI [OF txn_read_spec [OF fstepD(1) [OF tm(1)] r2 y]])
          fix b and t' :: "'z fs_scheme" assume rd: "txn_read p r t b t'"
          show "wp (andthen (?wr b) ?loop) ?post out_of_bufs t'"
            by (rule wp_bindI [OF write_block_spec [OF Suc.prems(1) _ _ r t Suc.prems(3), of "take m bs", unfolded lx, OF _ _ m(4) bn Suc.prems(4) _ rd]])
              (use next_part m(3) Suc.prems(6) in auto)
        qed simp
        with r devt show ?thesis
          by (simp add: wp_bind_gets)
      qed
    qed simp
    then show ?thesis
      by (subst writei_loop.simps)
        (simp only: len(2) not_True_eq_False if_False m_def [symmetric] Let_def bind_assoc ret_bind prod.case zero_neq_neg_one cong: if_cong)
  qed
qed

lemma as_int_small: "n < 2 ^ 31 \<Longrightarrow> as_int n = int n"
  using sint_small [of "of_nat n"] by (simp add: as_int_def unat_of_nat)

lemma file_limits: "NDIRECT * BSIZE = 12288" "MAXFILE * BSIZE = 274432"
  by (simp_all add: NDIRECT_def NINDIRECT_def BSIZE_def MAXFILE_def)

lemma spans_all: "off + len \<le> NDIRECT * BSIZE \<Longrightarrow> spans off len NDIRECT"
  unfolding spans_def add_mult_distrib by linarith

lemma off_plus:
  fixes off :: uint
  assumes "unat off + len \<le> NDIRECT * BSIZE"
  shows "unat (off + of_nat len) = unat off + len" "\<not> off + of_nat len < off" "\<not> MAXFILE * BSIZE < unat (off + of_nat len)"
proof -
  show e: "unat (off + of_nat len) = unat off + len"
    using assms by (simp add: file_limits unat_word_ariths unat_of_nat)
  then show "\<not> off + of_nat len < off"
    by (simp add: word_less_nat_alt)
  show "\<not> MAXFILE * BSIZE < unat (off + of_nat len)"
    using assms e by (simp add: file_limits)
qed

lemma readi_local_spec:
  fixes s :: "'z fs_scheme"
  assumes s: "txn_ok p s" "fs_ok s" "room (2 * NDIRECT) s" "file_ok p ip s" and off: "unat off \<le> isize s ip"
    and n: "unat off + len \<le> NDIRECT * BSIZE"
  defines "m \<equiv> min len (isize s ip - unat off)"
  shows "wp (readi_local ip off (of_nat len)) (\<lambda>(r, bs) t. r = int m \<and> bs = map (fbyte s ip) [unat off..<unat off + m]
    \<and> tstep p (2 * NDIRECT) 0 s t \<and> content t = content s) out_of_bufs s"
proof -
  let ?sz = "di_size (i_d (inodes s ip))"
  have f: "ihold p ip s" "blocks_ok ip s" "covered ip (isize s ip) s"
    using s(4) by (simp_all add: file_ok_def)
  have sz: "unat ?sz = isize s ip" "\<not> off > ?sz"
    using off by (simp_all add: isize_def word_less_nat_alt)
  have m: "unat (if off + of_nat len > ?sz then ?sz - off else of_nat len) = m"
  proof (cases "off + of_nat len > ?sz")
    case True
    then have "isize s ip < unat off + len"
      using off_plus(1) [OF n] sz(1) by (simp add: word_less_nat_alt)
    then have "m = isize s ip - unat off"
      by (simp add: m_def)
    moreover have "unat (?sz - off) = unat ?sz - unat off"
      using sz(2) by (intro unat_sub) simp
    ultimately show ?thesis
      using True sz(1) by simp
  next
    case False
    then have "unat off + len \<le> isize s ip"
      using off_plus(1) [OF n] sz(1) by (simp add: word_less_nat_alt)
    then have "m = len"
      by (simp add: m_def)
    moreover have "unat (of_nat len :: uint) = len"
      using n by (simp add: unat_of_nat file_limits)
    ultimately show ?thesis
      using False by simp
  qed
  have bound: "unat off + m \<le> isize s ip" "unat off + m \<le> NDIRECT * BSIZE"
    using off f(3) by (auto simp: m_def covered_def)
  have "covered ip (unat off + (m - 0)) s"
    using f(3) bound unfolding covered_def by auto
  from readi_loop_spec [OF s(1-3) _ f(2) this spans_all, of "[]"] bound
  have "wp (readi_loop (\<lambda>acc bs. ret (Some (acc @ bs))) ip m 0 (unat off) []) (\<lambda>(r, acc) t.
    r = as_int m \<and> acc = map (fbyte s ip) [unat off..<unat off + m] \<and> tstep p (2 * NDIRECT) 0 s t \<and> content t = content s) out_of_bufs s"
    using f(1) by (simp add: ihold_def)
  moreover have "as_int m = int m"
    using bound by (intro as_int_small) (simp add: file_limits)
  ultimately show ?thesis
    unfolding readi_local_def readi_gen_def wp_bind_gets Let_def m using sz off_plus(2) [OF n] by simp
qed

text \<open>What \<^verbatim>\<open>writei\<close> leaves after its loop, the update of the size and \<^verbatim>\<open>iupdate\<close>.\<close>

definition file_written :: "nat \<Rightarrow> nat \<Rightarrow> byte list \<Rightarrow> nat \<Rightarrow> nat \<Rightarrow> 'z fs_scheme \<Rightarrow> 'z fs_scheme \<Rightarrow> bool" where
  "file_written p ip bs off w s t \<longleftrightarrow> w \<le> length bs \<and> (w < length bs \<longrightarrow> free_blocks t = {}) \<and> file_ok p ip t
     \<and> isize t ip = max (isize s ip) (off + w) \<and> dinode_at t (unat (i_inum (inodes s ip))) = i_d (inodes t ip)
     \<and> (\<forall>j < w. fbyte t ip (off + j) = bs ! j)
     \<and> (\<forall>x < isize s ip. \<not> (off \<le> x \<and> x < off + w) \<longrightarrow> fbyte t ip x = fbyte s ip x)
     \<and> (\<forall>k. data_block s k \<and> used s (unat k) \<and> (\<forall>i < NDIRECT. iaddr s ip i \<noteq> k) \<longrightarrow> content t k = content s k)"

definition resize :: "nat \<Rightarrow> nat \<Rightarrow> 'z fs_scheme \<Rightarrow> 'z fs_scheme" where
  "resize ip n s = (if isize s ip < n then set_d ip (\<lambda>d. d\<lparr>di_size := of_nat n\<rparr>) s else s)"

lemma resize_simps [simp]:
  "iaddr (resize ip n s) = iaddr s" "content (resize ip n s) = content s" "used (resize ip n s) = used s" "sb (resize ip n s) = sb s"
  "log_start (resize ip n s) = log_start s" "i_inum (inodes (resize ip n s) jp) = i_inum (inodes s jp)"
  "ihold p ip (resize ip n s) = ihold p ip s" "blocks_ok ip (resize ip n s) = blocks_ok ip s" "covered ip k (resize ip n s) = covered ip k s"
  "data_block (resize ip n s) = data_block s" "fsize (resize ip n s) = fsize s" "inode_block (resize ip n s) = inode_block s"
proof -
  show a: "iaddr (resize ip n s) = iaddr s" and u: "used (resize ip n s) = used s" and "content (resize ip n s) = content s"
    and b: "sb (resize ip n s) = sb s" "log_start (resize ip n s) = log_start s"
    by (auto simp: resize_def iaddr_def set_d_def set_inode_def fun_eq_iff)
  show "i_inum (inodes (resize ip n s) jp) = i_inum (inodes s jp)" "ihold p ip (resize ip n s) = ihold p ip s"
    by (auto simp: resize_def ihold_def set_d_def set_inode_def dinode_ok_def)
  show "blocks_ok ip (resize ip n s) = blocks_ok ip s" "covered ip k (resize ip n s) = covered ip k s"
    "data_block (resize ip n s) = data_block s" "fsize (resize ip n s) = fsize s" "inode_block (resize ip n s) = inode_block s"
    by (simp_all add: blocks_ok_def covered_def a u fs_cong [OF b] fun_eq_iff)
qed

lemma isize_resize:
  assumes "n \<le> NDIRECT * BSIZE"
  shows "isize (resize ip n s) ip = max (isize s ip) n"
proof -
  have "unat (of_nat n :: uint) = n"
    using assms by (simp add: unat_of_nat file_limits)
  then show ?thesis
    by (auto simp: resize_def isize_def set_d_def set_inode_def)
qed

lemma fstep_resize: "fstep p ip m c s t \<Longrightarrow> fstep p ip m c s (resize ip n t)"
  by (simp add: resize_def fstep_inode)

lemma covered_resize:
  assumes "written p ip k bs off w s t" "file_ok p ip s"
  shows "isize (resize ip (off + w) t) ip = max (isize s ip) (off + w)" "covered ip (max (isize s ip) (off + w)) t"
proof -
  note tD = writtenD [OF assms(1)]
  have "isize t ip = isize s ip"
    using tD(4) by (auto simp: isize_def)
  moreover have le: "off + w \<le> NDIRECT * BSIZE"
    using tD(8) by (simp add: covered_def)
  ultimately show "isize (resize ip (off + w) t) ip = max (isize s ip) (off + w)"
    by (simp add: isize_resize)
  show "covered ip (max (isize s ip) (off + w)) t"
    unfolding covered_def
  proof (intro conjI allI impI)
    show "max (isize s ip) (off + w) \<le> NDIRECT * BSIZE"
      using le assms(2) by (simp add: file_ok_def covered_def)
    fix i assume i: "i < NDIRECT" "i * BSIZE < max (isize s ip) (off + w)"
    then consider "i * BSIZE < isize s ip" | "i * BSIZE < off + w"
      by linarith
    then show "iaddr t ip i \<noteq> 0"
      using i(1) assms(2) tD(5,8) by cases (simp_all add: file_ok_def covered_def)
  qed
qed

text \<open>The inode goes to the disk; the data blocks stay as they are.\<close>

lemma file_writtenI:
  fixes s :: "'z fs_scheme"
  assumes t: "written p ip k bs off w s t" and s: "file_ok p ip s"
    and u: "fstep p ip m c (resize ip (off + w) t) u" "inodes u = inodes (resize ip (off + w) t)"
      "dinode_at u (unat (i_inum (inodes s ip))) = i_d (inodes u ip)"
      "\<And>b. b < fsize t \<Longrightarrow> used u b = used t b" "\<And>k. data_block t k \<Longrightarrow> content u k = content t k"
  shows "file_written p ip bs off w s u"
proof -
  note tD = writtenD [OF t] and uD = fstepD [OF u(1), simplified]
  note cu = fs_cong [OF uD(6,5)] and ct = fs_cong [OF fstepD(6,5) [OF tD(1)]]
  have "iaddr u = iaddr (resize ip (off + w) t)"
    by (intro ext) (simp only: iaddr_def u(2))
  then have iu: "iaddr u = iaddr t" "isize u ip = max (isize s ip) (off + w)"
    using u(2) covered_resize(1) [OF t s] by (simp_all add: isize_def)
  have fb: "fbyte u ip x = fbyte t ip x" if "x div BSIZE < NDIRECT" "iaddr t ip (x div BSIZE) \<noteq> 0" for x
    using u(5) blocks_okD(1) [OF tD(3) that] by (simp add: fbyte_def iu)
  have "blocks_ok ip u"
    by (rule blocks_ok_keep [of ip "resize ip (off + w) t"]) (use tD(3) uD u in simp_all)
  moreover have "ihold p ip u"
    using tD(2) u(2) uD(6,7,9) resize_simps(7) [of p ip "off + w" t] fstepD(7,9) [OF u(1)] by (simp add: ihold_def)
  moreover have "covered ip (isize u ip) u"
    using covered_resize(2) [OF t s] unfolding covered_def iu .
  moreover have "free_blocks u = {}" if "w < length bs"
    using tD(13) [OF that] u(4) by (auto simp: free_blocks_def cu)
  moreover have "fbyte u ip (off + j) = bs ! j" if "j < w" for j
    using fb [of "off + j"] covered_div [OF tD(8), of "off + j"] tD(10) that by simp
  moreover have "fbyte u ip x = fbyte s ip x" if "x < isize s ip" "\<not> (off \<le> x \<and> x < off + w)" for x
  proof -
    have "x div BSIZE < NDIRECT" "iaddr s ip (x div BSIZE) \<noteq> 0"
      using covered_div [of ip "isize s ip" s x] s that(1) by (simp_all add: file_ok_def)
    then show ?thesis
      using fb [of x] tD(5,11) that(2) by simp
  qed
  moreover have "content u k = content s k" if "data_block s k" "used s (unat k)" "\<forall>i < NDIRECT. iaddr s ip i \<noteq> k" for k
    using u(5) tD(12) that ct(4) by simp
  ultimately show ?thesis
    using tD(9) u(3) iu unfolding file_written_def file_ok_def by simp
qed

lemma finish_write:
  fixes s :: "'z fs_scheme"
  assumes s: "may_log p (NDIRECT * (2 * nbitmap s + 9) + m) (3 * NDIRECT + 1) s" "3 \<le> m" "file_ok p ip s"
    and t: "written p ip NDIRECT bs off w s t"
  shows "wp (andthen (whenM (isize t ip < off + w) (modify (set_d ip (\<lambda>d. d\<lparr>di_size := of_nat (off + w)\<rparr>)))) (iupdate ip))
    (\<lambda>_ u. fstep p ip (NDIRECT * (2 * nbitmap s + 9) + 3) (3 * NDIRECT + 1) s u \<and> file_written p ip bs off w s u) out_of_bufs t"
proof -
  note tD = writtenD [OF t]
  let ?t = "resize ip (off + w) t"
  have ft: "fstep p ip (NDIRECT * (2 * nbitmap s + 9)) (3 * NDIRECT) s ?t"
    using fstep_resize [OF tD(1)] .
  have inum: "i_inum (inodes t ip) = i_inum (inodes s ip)"
    using tD(4) by auto
  have hold: "ihold p ip ?t"
    using tD(2) by simp
  have "wp (iupdate ip) (\<lambda>_ u. fstep p ip (NDIRECT * (2 * nbitmap s + 9) + 3) (3 * NDIRECT + 1) s u \<and> file_written p ip bs off w s u) out_of_bufs ?t"
  proof (rule wp_mono [OF iupdate_effect [OF may_log_fstep [OF s(1) ft] s(2) _ hold]])
    fix a and u :: "'z fs_scheme"
    assume u: "fstep p ip 3 1 ?t u \<and> inodes u = inodes ?t \<and> dinode_at u (unat (i_inum (inodes ?t ip))) = i_d (inodes ?t ip)
      \<and> (\<forall>j < unat (sb_ninodes (sb ?t)). j \<noteq> unat (i_inum (inodes ?t ip)) \<longrightarrow> dinode_at u j = dinode_at ?t j)
      \<and> (\<forall>b < fsize ?t. used u b = used ?t b) \<and> (\<forall>k. \<not> inode_block ?t k \<longrightarrow> content u k = content ?t k)"
    have "content u k = content t k" if "data_block t k" for k
      using u that by (simp add: data_block_def)
    then have "file_written p ip bs off w s u"
      using u inum by (intro file_writtenI [OF t s(3), of 3 1]) simp_all
    then show "fstep p ip (NDIRECT * (2 * nbitmap s + 9) + 3) (3 * NDIRECT + 1) s u \<and> file_written p ip bs off w s u"
      using fstep_trans [OF ft conjunct1 [OF u]] by blast
  qed simp_all
  then show ?thesis
    by (auto simp: wp_simps resize_def split: if_splits)
qed

lemma writei_local_spec:
  fixes s :: "'z fs_scheme"
  assumes s: "may_log p (NDIRECT * (2 * nbitmap s + 9) + m) (3 * NDIRECT + 1) s" "3 \<le> m" "file_ok p ip s"
    and off: "unat off \<le> isize s ip" and n: "unat off + length bs \<le> NDIRECT * BSIZE"
  shows "wp (writei_local ip bs off) (\<lambda>r t. \<exists>w. r = int w \<and> fstep p ip (NDIRECT * (2 * nbitmap s + 9) + 3) (3 * NDIRECT + 1) s t
    \<and> file_written p ip bs (unat off) w s t) out_of_bufs s"
proof -
  let ?sz = "di_size (i_d (inodes s ip))" and ?src = "\<lambda>a m. ret (0, take m a, drop m a)"
  have f: "ihold p ip s" "blocks_ok ip s" "covered ip (isize s ip) s"
    using s(3) by (simp_all add: file_ok_def)
  have cov: "covered ip (unat off) s"
    using f(3) off unfolding covered_def by auto
  have may: "may_log p (NDIRECT * (2 * nbitmap s + 9)) (3 * NDIRECT) s"
    using s(1) unfolding may_log_def by (auto intro: room_mono)
  have len: "unat (of_nat (length bs) :: uint) = length bs"
    using n by (simp add: unat_of_nat file_limits)
  let ?post = "\<lambda>r t. \<exists>w. r = int w \<and> fstep p ip (NDIRECT * (2 * nbitmap s + 9) + 3) (3 * NDIRECT + 1) s t \<and> file_written p ip bs (unat off) w s t"
  have "wp (bind (writei_loop ?src ip (length bs) 0 (unat off) bs) (\<lambda>(tot, off').
      bind (gets (\<lambda>s. unat (di_size (i_d (inodes s ip))))) (\<lambda>sz.
      andthen (whenM (sz < off') (modify (set_d ip (\<lambda>d. d\<lparr>di_size := of_nat off'\<rparr>)))) (andthen (iupdate ip) (ret (as_int tot))))))
    ?post out_of_bufs s"
  proof (rule wp_bindI [OF writei_loop_spec [OF may f(1,2) cov spans_all [OF n] n]])
    fix x and t :: "'z fs_scheme"
    assume "(case x of (tot', off') \<Rightarrow> \<lambda>t. \<exists>w. tot' = 0 + w \<and> off' = unat off + w \<and> written p ip NDIRECT bs (unat off) w s t) t"
    then obtain w where x: "x = (w, unat off + w)" and w: "written p ip NDIRECT bs (unat off) w s t"
      by (auto simp: case_prod_beta prod_eq_iff)
    have "w \<le> length bs"
      by (rule writtenD(9) [OF w])
    then have r: "as_int w = int w"
      using n by (intro as_int_small) (simp add: file_limits)
    have "wp (bind (andthen (whenM (isize t ip < unat off + w) (modify (set_d ip (\<lambda>d. d\<lparr>di_size := of_nat (unat off + w)\<rparr>)))) (iupdate ip))
      (\<lambda>_. ret (as_int w))) ?post out_of_bufs t"
      by (rule wp_bindI [OF finish_write [OF s w]]) (auto simp: wp_simps r)
    then show "wp (case x of (tot, off') \<Rightarrow> bind (gets (\<lambda>s. unat (di_size (i_d (inodes s ip))))) (\<lambda>sz.
      andthen (whenM (sz < off') (modify (set_d ip (\<lambda>d. d\<lparr>di_size := of_nat off'\<rparr>)))) (andthen (iupdate ip) (ret (as_int tot))))) ?post out_of_bufs t"
      by (simp add: x wp_bind_gets isize_def bind_assoc)
  qed simp_all
  then show ?thesis
    using off off_plus [OF n] by (simp add: writei_local_def writei_gen_def wp_bind_gets len isize_def word_less_nat_alt)
qed

lemma file_written_keep:
  assumes t: "file_written p ip bs off w s t" and u: "tstep p m c t u" "content u = content t"
  shows "file_written p ip bs off w s u"
proof -
  note k = fs_keeps [OF tstepD(9) [OF u(1)]]
  note cg = fs_cong [OF k(1) tstepD(8) [OF u(1)]]
  have e: "iaddr u = iaddr t" "isize u = isize t" "fbyte u = fbyte t" "used u = used t" "dinode_at u = dinode_at t"
    by (simp_all add: iaddr_def isize_def fbyte_def used_def dinode_at_def k u(2) fun_eq_iff)
  have "ihold p ip u = ihold p ip t" "blocks_ok ip u = blocks_ok ip t" "free_blocks u = free_blocks t"
    "\<And>n. covered ip n u = covered ip n t"
    by (simp_all add: ihold_def blocks_ok_def free_blocks_def covered_def k cg e)
  then show ?thesis
    using t unfolding file_written_def file_ok_def e u(2) k(2) by blast
qed

text \<open>
  C32. A file holds what was written to it. \<^verbatim>\<open>writei\<close> of bytes into a locked file, within its direct blocks,
  returns how many it wrote, all of them unless the disk is full, and extends the size if needed.
  \<^verbatim>\<open>readi\<close> from the same offset then returns these bytes. The other bytes of the file and every
  block of another file are unchanged, the inode on the disk is up to date, and the blocks of
  the file are different, used data blocks as before.
\<close>

theorem writei_then_readi:
  fixes s :: "'z fs_scheme"
  assumes s: "may_log p (NDIRECT * (2 * nbitmap s + 9) + 3 + 2 * NDIRECT) (3 * NDIRECT + 1) s" "file_ok p ip s"
    and off: "unat off \<le> isize s ip" "unat off + length bs \<le> NDIRECT * BSIZE"
  shows "wp (bind (writei_local ip bs off) (\<lambda>r. bind (readi_local ip off (of_nat (length bs))) (\<lambda>x. ret (r, x))))
    (\<lambda>(r, r', bs') t. \<exists>w. r = int w \<and> r' = int (length bs') \<and> w \<le> length bs' \<and> length bs' \<le> length bs
      \<and> take w bs' = take w bs \<and> file_written p ip bs (unat off) w s t) out_of_bufs s"
proof (rule wp_bindI [OF writei_local_spec [OF _ _ s(2) off]])
  show "may_log p (NDIRECT * (2 * nbitmap s + 9) + (3 + 2 * NDIRECT)) (3 * NDIRECT + 1) s"
    using s(1) by (simp add: add.assoc)
  fix r and t :: "'z fs_scheme"
  assume "\<exists>w. r = int w \<and> fstep p ip (NDIRECT * (2 * nbitmap s + 9) + 3) (3 * NDIRECT + 1) s t \<and> file_written p ip bs (unat off) w s t"
  then obtain w where w: "r = int w" "fstep p ip (NDIRECT * (2 * nbitmap s + 9) + 3) (3 * NDIRECT + 1) s t"
    "file_written p ip bs (unat off) w s t"
    by blast
  note ft = fstepD [OF w(2)] and wD = w(3) [unfolded file_written_def]
  have r: "room (2 * NDIRECT) t"
    by (rule ft(4), rule may_logD(3) [OF s(1)]) simp
  have f: "file_ok p ip t" and o': "unat off \<le> isize t ip"
    using wD off(1) by auto
  define m where "m = min (length bs) (isize t ip - unat off)"
  have m: "w \<le> m" "m \<le> length bs"
    using wD by (auto simp: m_def)
  have take: "take w (map (fbyte t ip) [unat off..<unat off + m]) = take w bs"
    using wD m by (intro nth_equalityI) auto
  show "wp (bind (readi_local ip off (of_nat (length bs))) (\<lambda>x. ret (r, x)))
    (\<lambda>(r, r', bs') t. \<exists>w. r = int w \<and> r' = int (length bs') \<and> w \<le> length bs' \<and> length bs' \<le> length bs
      \<and> take w bs' = take w bs \<and> file_written p ip bs (unat off) w s t) out_of_bufs t"
  proof (rule wp_bindI [OF readi_local_spec [OF ft(1,2) r f o' off(2), folded m_def]])
    fix x and u :: "'z fs_scheme"
    assume "(case x of (r, bs) \<Rightarrow> \<lambda>u. r = int m \<and> bs = map (fbyte t ip) [unat off..<unat off + m] \<and> tstep p (2 * NDIRECT) 0 t u \<and> content u = content t) u"
    then have x: "x = (int m, map (fbyte t ip) [unat off..<unat off + m])" and u: "tstep p (2 * NDIRECT) 0 t u" "content u = content t"
      by (auto simp: case_prod_beta prod_eq_iff)
    have "file_written p ip bs (unat off) w s u"
      by (rule file_written_keep [OF w(3) u])
    then show "wp (ret (r, x)) (\<lambda>(r, r', bs') t. \<exists>w. r = int w \<and> r' = int (length bs') \<and> w \<le> length bs' \<and> length bs' \<le> length bs
      \<and> take w bs' = take w bs \<and> file_written p ip bs (unat off) w s t) out_of_bufs u"
      using m take by (auto simp: wp_simps x w(1) intro!: exI [of _ w])
  qed simp
qed simp_all

section \<open>A file system to try the operations on\<close>

text \<open>
  A disk of 200 blocks: the log in blocks 2 to 92, one block of inodes, number 93, and the bitmap in
  block 94, in which the blocks up to 95 are marked. Process 1 holds the lock of entry 0 of the inode table,
  an empty file with inode number 1; entry 1 refers to the same inode and has not been read.
\<close>

definition some_image :: image where
  "some_image k i = (if k = 188 \<and> i < 12 then 255 else 0)"

definition some_inode :: "int \<Rightarrow> inode" where
  "some_inode v = \<lparr>i_dev = 1, i_inum = 1, i_ref = 1, i_valid = v,
     i_d = \<lparr>di_type = T_FILE, di_major = 0, di_minor = 0, di_nlink = 1, di_size = 0, di_addrs = (\<lambda>_. 0)\<rparr>\<rparr>"

definition some_sb :: superblock where
  "some_sb = \<lparr>sb_magic = FSMAGIC, sb_size = 200, sb_nblocks = 105, sb_ninodes = 16, sb_nlog = 91, sb_logstart = 2,
     sb_inodestart = 93, sb_bmapstart = 94\<rparr>"

definition some_fs :: fs where
  "some_fs = set_slk (SInode 0) (\<lambda>k. k\<lparr>sl_locked := 1\<rparr>)
     (klog.extend ((some_log (\<lambda>_. zero_buf) some_image 0 (\<lambda>_. 0))\<lparr>log_outstanding := 1\<rparr>)
       \<lparr>sb = some_sb, inodes = (\<lambda>i. some_inode (if i = 0 then 1 else 0)), bcache_addr = 0, str_addr = (\<lambda>_. 0),
         cpu_addr = (\<lambda>_. 0), stack_junk = (\<lambda>_. 0)\<rparr>)"

lemma some_fs_simps [simp]:
  "log_start some_fs = 2" "log_outstanding some_fs = 1" "log_dev some_fs = 1" "lh_n some_fs = 0" "sb some_fs = some_sb"
  "inodes some_fs = (\<lambda>i. some_inode (if i = 0 then 1 else 0))" "bufs some_fs = some_bufs (\<lambda>_. zero_buf)" "disk_image some_fs = some_image"
  "sleeplocks some_fs = (\<lambda>_. \<lparr>sl_locked = 0, sl_name = [], sl_pid = 0\<rparr>)(SInode 0 := \<lparr>sl_locked = 1, sl_name = [], sl_pid = 0\<rparr>)"
  "calm some_fs" "c_proc (mycpu some_fs) = Some 1" "noff (mycpu some_fs) = 0" "device some_fs = ideal_device" "vd_quiet some_fs"
  "p_pid (PCBs some_fs (Suc 0)) = 0"
  by (simp_all add: some_fs_def klog.extend_def some_log_def some_disk_def some_slk_def some_procs_def procs.extend_def slk.extend_def
    vdisk.extend_def onproc_def calm_def hart_ok_def idle_def machine_defs intr_get_def SSTATUS_SIE_def vd_quiet_def zero_vring_def set_slk_def
    zero_pcb_def)

lemma some_fs_content: "content some_fs k = diskblk some_image k"
  by (subst content_absent) (simp_all add: some_bufs_def zero_buf_def caches_def)

lemma some_fs_used:
  assumes "b < 200"
  shows "used some_fs b \<longleftrightarrow> b < 96"
proof -
  have "BBLOCK b some_sb = 94" "b mod BPB = b" "b div 8 < 512" "b div 8 < BSIZE" "b div 8 < 12 \<longleftrightarrow> b < 96"
    using assms by (auto simp: BBLOCK_def BPB_def BSIZE_def some_sb_def)
  moreover have "bit (255 :: byte) n" if "n < 8" for n
    using that by (simp add: bit_iff_odd less_Suc_eq numeral_eq_Suc) auto
  ultimately show ?thesis
    by (auto simp: used_def some_fs_content bmap_bits(1) diskblk_def some_image_def)
qed

lemma some_fs_blocks:
  "fsize some_fs = 200" "bitmap_block some_fs k \<longleftrightarrow> k = 94" "inode_block some_fs k \<longleftrightarrow> k = 93"
  "in_log_area some_fs k \<longleftrightarrow> 2 \<le> unat k \<and> unat k < 93" "nbitmap some_fs = 1"
proof -
  have b: "BBLOCK b some_sb = 94" if "b < 200" for b
    using that by (simp add: BBLOCK_def BPB_def BSIZE_def some_sb_def)
  have i: "IBLOCK i some_sb = 93" if "i < 16" for i
    using that by (simp add: IBLOCK_def IPB_def BSIZE_def some_sb_def)
  show sz: "fsize some_fs = 200"
    by (simp add: fsize_def some_sb_def)
  show "bitmap_block some_fs k \<longleftrightarrow> k = 94"
    unfolding bitmap_block_def sz using b by (auto intro: exI [of _ 0])
  have "unat (sb_ninodes some_sb) = 16"
    by (simp add: some_sb_def)
  then show "inode_block some_fs k \<longleftrightarrow> k = 93"
    unfolding inode_block_def using i by (auto intro: exI [of _ 0])
  show "in_log_area some_fs k \<longleftrightarrow> 2 \<le> unat k \<and> unat k < 93"
    unfolding in_log_area_def LOGBLOCKS_def some_fs_simps by linarith
  show "nbitmap some_fs = 1"
    by (simp add: nbitmap_def sz BPB_def BSIZE_def)
qed

lemma some_fs_ok: "txn_ok 1 some_fs" "fs_ok some_fs" "room 100000 some_fs" "file_ok 1 0 some_fs"
proof -
  have "bufs_ok (some_bufs (\<lambda>_. zero_buf)) some_image (sleeplocks some_fs)"
    by (simp add: bufs_ok_def some_bufs_def zero_buf_def)
  moreover have "\<exists>xs. bring (some_bufs (\<lambda>_. zero_buf)) xs \<and> set xs = {..<NBUF}"
    using some_bufs_ring [of "\<lambda>_. zero_buf"] by (intro exI [of _ "rev [0..<NBUF]"]) auto
  ultimately have "csafe 1 {} some_fs"
    using some_fs_content by (simp add: csafe_def disk_ready_def bcache_ok_def NPROC_def)
  then show "txn_ok 1 some_fs"
    using some_fs_content by (auto simp: txn_ok_list log_list_def log_placed_def LOGBLOCKS_def)
  show "fs_ok some_fs"
    unfolding fs_ok_def some_fs_blocks data_block_def
    by (auto simp: some_fs_used unat_of_nat dest: arg_cong [where f = unat])
  show "room 100000 some_fs"
    by (simp add: room_def some_bufs_def zero_buf_def)
  show "file_ok 1 0 some_fs"
    by (simp add: file_ok_def ihold_def blocks_ok_def covered_def isize_def iaddr_def some_inode_def dinode_ok_def some_sb_def)
qed

lemma some_fs_may: "m \<le> 100000 \<Longrightarrow> c \<le> 90 \<Longrightarrow> may_log 1 m c some_fs"
  using some_fs_ok room_mono [OF some_fs_ok(3), of m] by (simp add: may_log_def LOGBLOCKS_def)

theorem block_allocator_refines_set_witness:
  "wp (balloc 1) (\<lambda>r t. r = 96 \<and> 96 \<notin> free_blocks t \<and> 97 \<in> free_blocks t) out_of_bufs some_fs
   \<and> wp (bfree 1 95) (\<lambda>_ t. 95 \<in> free_blocks t) out_of_bufs some_fs"
proof -
  have may: "may_log 1 (2 * nbitmap some_fs + 6) 2 some_fs"
    by (rule some_fs_may) (simp_all add: some_fs_blocks)
  have fb: "free_blocks some_fs = {96..<200}"
    by (auto simp: free_blocks_def some_fs_blocks some_fs_used)
  have "Min {96..<200 :: nat} = 96"
    by (rule Min_eqI) simp_all
  with fb have "Min (free_blocks some_fs) = 96" "free_blocks some_fs \<noteq> {}"
    by simp_all
  note th = block_allocator_refines_set [OF may, of 95] and m = this
  have "wp (balloc 1) (\<lambda>r t. r = 96 \<and> 96 \<notin> free_blocks t \<and> 97 \<in> free_blocks t) out_of_bufs some_fs"
  proof (rule wp_mono [OF conjunct1 [OF th]])
    fix r and t :: fs
    assume "txn_ok 1 t \<and> fs_ok t \<and> (if free_blocks some_fs = {} then r = 0 \<and> content t = content some_fs
       else r \<noteq> 0 \<and> unat r = Min (free_blocks some_fs) \<and> data_block some_fs r \<and> free_blocks t = free_blocks some_fs - {unat r}
         \<and> content t r = (\<lambda>_. 0) \<and> (\<forall>k. k \<noteq> r \<and> \<not> bitmap_block some_fs k \<longrightarrow> content t k = content some_fs k))"
    then have "unat r = 96" "free_blocks t = {96..<200} - {96}"
      using m fb by simp_all
    then show "r = 96 \<and> 96 \<notin> free_blocks t \<and> 97 \<in> free_blocks t"
      by (simp add: word_unat_eq_iff)
  qed simp
  moreover have "wp (bfree 1 95) (\<lambda>_ t. 95 \<in> free_blocks t) out_of_bufs some_fs"
  proof -
    have "data_block some_fs 95" "unat (95 :: uint) \<notin> free_blocks some_fs"
      by (simp_all add: data_block_def some_fs_blocks fb)
    then have "wp (bfree 1 95) (\<lambda>_ t. txn_ok 1 t \<and> fs_ok t \<and> free_blocks t = insert (unat (95 :: uint)) (free_blocks some_fs)
        \<and> (\<forall>k. \<not> bitmap_block some_fs k \<longrightarrow> content t k = content some_fs k)) out_of_bufs some_fs"
      using conjunct2 [OF th] by (simp only: if_False simp_thms)
    then show ?thesis
      by (rule wp_mono) simp_all
  qed
  ultimately show ?thesis ..
qed


theorem writei_then_readi_witness:
  "wp (bind (writei_local 0 [1, 2, 3] 0) (\<lambda>r. bind (readi_local 0 0 3) (\<lambda>x. ret (r, x))))
    (\<lambda>(r, r', bs) t. \<exists>w. r = int w \<and> take w bs = take w [1, 2, 3]) out_of_bufs some_fs"
proof -
  have "may_log 1 (NDIRECT * (2 * nbitmap some_fs + 9) + 3 + 2 * NDIRECT) (3 * NDIRECT + 1) some_fs"
    by (rule some_fs_may) (simp_all add: some_fs_blocks NDIRECT_def)
  from writei_then_readi [OF this some_fs_ok(4), of 0 "[1, 2, 3]"]
  have "wp (bind (writei_local 0 [1, 2, 3] 0) (\<lambda>r. bind (readi_local 0 0 3) (\<lambda>x. ret (r, x))))
    (\<lambda>(r, r', bs') t. \<exists>w. r = int w \<and> r' = int (length bs') \<and> w \<le> length bs' \<and> length bs' \<le> length [1 :: byte, 2, 3]
      \<and> take w bs' = take w [1, 2, 3] \<and> file_written 1 0 [1, 2, 3] (unat (0 :: uint)) w some_fs t) out_of_bufs some_fs"
    by (simp add: file_limits)
  then show ?thesis
    by (rule wp_mono) auto
qed

section \<open>The elements of a path\<close>

text \<open>
  The reference: a path is split at every slash and the empty pieces are dropped. Of an element longer
  than \<open>DIRSIZ\<close> only the first \<open>DIRSIZ\<close> characters count. \<open>cname\<close> is the name an array of
  \<open>DIRSIZ\<close> bytes holds, the final zero being optional.
\<close>

fun split_path :: "byte list \<Rightarrow> byte list list" where
  "split_path [] = [[]]"
| "split_path (c # cs) = (if c = slash then [] # split_path cs else (c # hd (split_path cs)) # tl (split_path cs))"

definition path_elements :: "byte list \<Rightarrow> byte list list" where
  "path_elements path = filter (\<lambda>e. e \<noteq> []) (split_path path)"

definition cname :: "cptr \<Rightarrow> byte list" where
  "cname name = takeWhile (\<lambda>c. c \<noteq> 0) (map name [0..<DIRSIZ])"

text \<open>The names the loop of \<^verbatim>\<open>namex\<close> comes by.\<close>

function skipelems :: "byte list \<Rightarrow> cptr \<Rightarrow> byte list list" where
  "skipelems path name = (case skipelem path name of None \<Rightarrow> [] | Some (path', name') \<Rightarrow> cname name' # skipelems path' name')"
  by pat_completeness auto
termination
  by (relation "measure (\<lambda>(path, name). length path)") (auto dest: skipelem_shorter)

declare skipelems.simps [simp del]

lemma split_path_pieces: "\<exists>es. split_path cs = takeWhile (\<lambda>c. c \<noteq> slash) cs # es"
  by (induction cs) auto

lemma path_elements_slash: "path_elements (dropWhile (\<lambda>c. c = slash) path) = path_elements path"
  by (induction path) (simp_all add: path_elements_def)

lemma split_path_rest:
  "tl (split_path cs) = (case dropWhile (\<lambda>c. c \<noteq> slash) cs of [] \<Rightarrow> [] | _ # r \<Rightarrow> split_path r)"
  by (induction cs) auto

lemma path_elements_first:
  assumes "cs \<noteq> []" "hd cs \<noteq> slash"
  shows "path_elements cs = takeWhile (\<lambda>c. c \<noteq> slash) cs # path_elements (dropWhile (\<lambda>c. c = slash) (dropWhile (\<lambda>c. c \<noteq> slash) cs))"
proof -
  obtain es where es: "split_path cs = takeWhile (\<lambda>c. c \<noteq> slash) cs # es"
    using split_path_pieces by blast
  have "es = (case dropWhile (\<lambda>c. c \<noteq> slash) cs of [] \<Rightarrow> [] | _ # r \<Rightarrow> split_path r)"
    using split_path_rest [of cs] es by simp
  then have "filter (\<lambda>e. e \<noteq> []) es = path_elements (dropWhile (\<lambda>c. c \<noteq> slash) cs)"
    using hd_dropWhile [of "\<lambda>c. c \<noteq> slash" cs] by (cases "dropWhile (\<lambda>c. c \<noteq> slash) cs") (simp_all add: path_elements_def del: dropWhile_eq_Nil_conv)
  moreover have "takeWhile (\<lambda>c. c \<noteq> slash) cs \<noteq> []"
    using assms by (cases cs) auto
  ultimately show ?thesis
    unfolding path_elements_slash by (simp add: path_elements_def [of cs] es)
qed

lemma path_elements_none: "dropWhile (\<lambda>c. c = slash) path = [] \<longleftrightarrow> path_elements path = []"
proof (cases "dropWhile (\<lambda>c. c = slash) path = []")
  case True
  then show ?thesis
    using path_elements_slash [of path] unfolding True by (simp add: path_elements_def)
next
  case False
  then show ?thesis
    using path_elements_first [OF False hd_dropWhile [OF False]] path_elements_slash [of path] by simp
qed

lemma cname_put:
  assumes "0 \<notin> set e"
  shows "cname (if DIRSIZ \<le> length e then put_bytes 0 (take DIRSIZ e) name else (put_bytes 0 e name)(length e := 0)) = take DIRSIZ e"
proof (cases "DIRSIZ \<le> length e")
  case True
  then have "map (put_bytes 0 (take DIRSIZ e) name) [0..<DIRSIZ] = take DIRSIZ e"
    by (intro nth_equalityI) (simp_all add: put_bytes_def)
  moreover have "takeWhile (\<lambda>c. c \<noteq> 0) (take DIRSIZ e) = take DIRSIZ e"
    using assms by (intro takeWhile_eq_all_conv [THEN iffD2]) (auto dest: in_set_takeD)
  ultimately show ?thesis
    using True by (simp add: cname_def)
next
  case False
  let ?n = "(put_bytes 0 e name)(length e := 0)"
  have "[0..<DIRSIZ] = [0..<length e] @ length e # [Suc (length e)..<DIRSIZ]"
    using False upt_add_eq_append [of 0 "length e" "DIRSIZ - length e"] by (simp add: upt_conv_Cons)
  moreover have "map ?n [0..<length e] = e"
    by (intro nth_equalityI) (simp_all add: put_bytes_def)
  ultimately have "map ?n [0..<DIRSIZ] = e @ 0 # map ?n [Suc (length e)..<DIRSIZ]"
    by simp
  moreover have "takeWhile (\<lambda>c. c \<noteq> 0) (e @ 0 # x) = e" for x
    using assms by (simp add: takeWhile_append2 takeWhile_tail) (metis takeWhile_eq_all_conv)
  ultimately show ?thesis
    using False by (simp add: cname_def)
qed

lemma skipelem_split:
  assumes "0 \<notin> set path"
  shows "case path_elements path of [] \<Rightarrow> skipelem path name = None
    | e # es \<Rightarrow> (\<exists>rest name'. skipelem path name = Some (rest, name') \<and> cname name' = take DIRSIZ e \<and> path_elements rest = es
        \<and> (rest = [] \<longleftrightarrow> es = []) \<and> set rest \<subseteq> set path)"
proof (cases "dropWhile (\<lambda>c. c = slash) path = []")
  case True
  then show ?thesis
    using path_elements_none [of path] by (simp add: skipelem_def)
next
  case False
  let ?p = "dropWhile (\<lambda>c. c = slash) path"
  let ?e = "takeWhile (\<lambda>c. c \<noteq> slash) ?p" and ?r = "dropWhile (\<lambda>c. c = slash) (dropWhile (\<lambda>c. c \<noteq> slash) ?p)"
  have "path_elements path = ?e # path_elements ?r"
    using path_elements_first [OF False hd_dropWhile [OF False]] by (simp only: path_elements_slash)
  moreover have "?r = [] \<longleftrightarrow> path_elements ?r = []"
    using path_elements_none [of ?r] by simp
  moreover have "set ?r \<subseteq> set path" "0 \<notin> set ?e"
    using assms by (auto dest!: set_dropWhileD set_takeWhileD)
  ultimately show ?thesis
    using False cname_put [of ?e name] by (simp add: skipelem_def Let_def)
qed

text \<open>
  C34. Walking a path with \<^verbatim>\<open>skipelem\<close>, as \<^verbatim>\<open>namex\<close> does, is splitting it at the slashes: for every path,
  with repeated, leading and trailing slashes, the names found are the non-empty pieces in order,
  cut to \<open>DIRSIZ\<close> characters, whatever the array \<^verbatim>\<open>name\<close> held before. \<^verbatim>\<open>skipelem\<close> returns the empty path exactly
  when it has returned the last element, which is where \<^verbatim>\<open>nameiparent\<close> stops.
\<close>

theorem skipelem_splits_path:
  assumes "0 \<notin> set path"
  shows "skipelems path name = map (take DIRSIZ) (path_elements path)
    \<and> (skipelem path name = None \<longleftrightarrow> path_elements path = [])
    \<and> (\<forall>rest name'. skipelem path name = Some (rest, name') \<longrightarrow> (rest = [] \<longleftrightarrow> length (path_elements path) = 1))"
proof (intro conjI)
  show "skipelems path name = map (take DIRSIZ) (path_elements path)"
    using assms
  proof (induction path name rule: skipelems.induct)
    case (1 path name)
    show ?case
    proof (cases "path_elements path")
      case Nil
      then show ?thesis
        using skipelem_split [OF "1.prems", of name] by (simp add: skipelems.simps)
    next
      case (Cons e es)
      then obtain rest name' where r: "skipelem path name = Some (rest, name')" "cname name' = take DIRSIZ e" "path_elements rest = es"
        "set rest \<subseteq> set path"
        using skipelem_split [OF "1.prems", of name] by auto
      then have "skipelems rest name' = map (take DIRSIZ) es"
        using "1.IH" [OF r(1) refl] "1.prems" by auto
      then show ?thesis
        using Cons r by (simp add: skipelems.simps [of path])
    qed
  qed
  show "skipelem path name = None \<longleftrightarrow> path_elements path = []"
    "\<forall>rest name'. skipelem path name = Some (rest, name') \<longrightarrow> (rest = [] \<longleftrightarrow> length (path_elements path) = 1)"
    using skipelem_split [OF assms, of name] by (auto split: list.splits)
qed

theorem skipelem_splits_path_witness:
  "skipelems [0x2f, 0x61, 0x2f, 0x2f, 0x62, 0x63, 0x2f] (\<lambda>_. 0x7a) = [[0x61], [0x62, 0x63]]"
  using skipelem_splits_path [of "[0x2f, 0x61, 0x2f, 0x2f, 0x62, 0x63, 0x2f]" "\<lambda>_. 0x7a"]
  by (simp add: path_elements_def slash_def DIRSIZ_def)

end
