(* ===== verification/Console.thy ===== *)
theory Console
  imports Fs
begin

text \<open>
  Output: the serial port (\<^verbatim>\<open>kernel/driver/uart.c\<close>), the console on it (\<^verbatim>\<open>kernel/driver/console.c\<close>)
  and formatted printing (\<^verbatim>\<open>kernel/lib/printf.c\<close>). The state records every write to a register of
  the serial port; whether its transmitter becomes idle again is up to the device.
\<close>

section \<open>State\<close>

text \<open>A driver function in the table \<^verbatim>\<open>devsw\<close>.\<close>

datatype devfun = Consolewrite

record cons = fs +
  uart_log :: "(nat \<times> byte) list"
  uart_idle :: "(nat \<times> byte) list \<Rightarrow> bool"
  panicking :: bool
  panicked :: bool
  devsw_read :: "nat \<Rightarrow> devfun option"
  devsw_write :: "nat \<Rightarrow> devfun option"

section \<open>The serial port (uart.c)\<close>

definition THR :: nat where "THR = 0"
definition IER :: nat where "IER = 1"
definition FCR :: nat where "FCR = 2"
definition LCR :: nat where "LCR = 3"
definition FCR_FIFO_ENABLE :: byte where "FCR_FIFO_ENABLE = 1"
definition FCR_FIFO_CLEAR :: byte where "FCR_FIFO_CLEAR = push_bit 1 3"
definition LCR_EIGHT_BITS :: byte where "LCR_EIGHT_BITS = 3"
definition LCR_BAUD_LATCH :: byte where "LCR_BAUD_LATCH = push_bit 7 1"

definition WriteReg :: "nat \<Rightarrow> byte \<Rightarrow> ('z cons_scheme, unit) oper" where
  "WriteReg r v = modify (\<lambda>s. s\<lparr>uart_log := uart_log s @ [(r, v)]\<rparr>)"

text \<open>\<^verbatim>\<open>while((ReadReg(LSR) & LSR_TX_IDLE) == 0);\<close> ends if the transmitter becomes idle.\<close>

definition uart_wait :: "('z cons_scheme, unit) oper" where
  "uart_wait = bind (gets (\<lambda>s. uart_idle s (uart_log s))) (\<lambda>i. if i then ret () else Fault Diverge)"

definition uartinit :: "('z cons_scheme, unit) oper" where
  "uartinit =
     andthen (WriteReg IER 0)
     (andthen (WriteReg LCR LCR_BAUD_LATCH)
     (andthen (WriteReg 0 3)
     (andthen (WriteReg 1 0)
     (andthen (WriteReg LCR LCR_EIGHT_BITS)
     (WriteReg FCR (FCR_FIFO_ENABLE OR FCR_FIFO_CLEAR))))))"

definition uart_putc :: "byte \<Rightarrow> ('z cons_scheme, unit) oper" where
  "uart_putc c = andthen uart_wait (WriteReg THR c)"

text \<open>The argument is the string up to its zero.\<close>

definition uart_puts :: "byte list \<Rightarrow> ('z cons_scheme, unit) oper" where
  "uart_puts str = forM str (\<lambda>c. andthen (whenM (c = 10) (uart_putc 13)) (uart_putc c))"

definition uartputc_sync :: "int \<Rightarrow> ('z cons_scheme, unit) oper" where
  "uartputc_sync c =
     bind (gets panicking) (\<lambda>p.
     andthen (whenM (\<not> p) push_off)
     (bind (gets panicked) (\<lambda>stop.
      if stop then Fault Diverge
      else andthen uart_wait
        (andthen (WriteReg THR (word_of_int c))
        (bind (gets panicking) (\<lambda>p. whenM (\<not> p) pop_off))))))"

section \<open>The console (console.c)\<close>

definition BACKSPACE :: int where "BACKSPACE = 0x100"
definition CONSOLE :: nat where "CONSOLE = 1"

definition consputc :: "int \<Rightarrow> ('z cons_scheme, unit) oper" where
  "consputc c =
     (if c = BACKSPACE
      then andthen (uartputc_sync 8) (andthen (uartputc_sync 32) (uartputc_sync 8))
      else uartputc_sync c)"

text \<open>A \<^verbatim>\<open>char\<close> of the local buffer, unsigned on this machine, passed as \<^verbatim>\<open>int\<close>.\<close>

function consolewrite_loop :: "bool \<Rightarrow> uint64 \<Rightarrow> int \<Rightarrow> int \<Rightarrow> ('z cons_scheme, int) oper" where
  "consolewrite_loop user_src src n i =
     (if \<not> i < n then ret i
      else let nn = min 32 (n - i) in
        bind (either_copyin user_src (src + of_int i) (nat nn)) (\<lambda>(r, bs).
        if r = - 1 then ret i
        else andthen (forM bs (\<lambda>b. uartputc_sync (uint b)))
          (consolewrite_loop user_src src n (i + nn))))"
  by pat_completeness auto
termination
  by (relation "measure (\<lambda>(user_src, src, n, i). nat (n - i))") auto

declare consolewrite_loop.simps [simp del]

definition consolewrite :: "bool \<Rightarrow> uint64 \<Rightarrow> int \<Rightarrow> ('z cons_scheme, int) oper" where
  "consolewrite user_src src n = consolewrite_loop user_src src n 0"

definition consoleinit :: "('z cons_scheme, unit) oper" where
  "consoleinit =
     andthen (modify (initlock LCons ''cons''))
     (andthen uartinit
     (modify (\<lambda>s. s\<lparr>devsw_write := (devsw_write s)(CONSOLE := Some Consolewrite)\<rparr>)))"

section \<open>Formatted printing (printf.c)\<close>

definition ch :: "char \<Rightarrow> byte" where
  "ch c = of_char c"

definition digit :: "nat \<Rightarrow> byte" where
  "digit d = map of_char ''0123456789abcdef'' ! d"

text \<open>The loop that fills \<^verbatim>\<open>buf\<close>, least significant digit first.\<close>

function printint_buf :: "nat \<Rightarrow> nat \<Rightarrow> byte list" where
  "printint_buf base x =
     (if base < 2 then [] else
      digit (x mod base) # (if x div base = 0 then [] else printint_buf base (x div base)))"
  by pat_completeness auto
termination
  by (relation "measure snd") (auto simp: div_eq_0_iff)

declare printint_buf.simps [simp del]

definition printint :: "uint64 \<Rightarrow> nat \<Rightarrow> bool \<Rightarrow> ('z cons_scheme, unit) oper" where
  "printint xx base sign =
     (let neg = sign \<and> sint xx < 0;
          x = unat (if neg then - xx else xx)
      in andthen (whenM neg (consputc (uint (ch CHR ''-''))))
         (forM (rev (printint_buf base x)) (\<lambda>c. consputc (uint c))))"

text \<open>Sixteen rounds of \<^verbatim>\<open>consputc(digits[x >> 60])\<close> and \<^verbatim>\<open>x <<= 4\<close>.\<close>

primrec printptr_loop :: "nat \<Rightarrow> uint64 \<Rightarrow> ('z cons_scheme, unit) oper" where
  "printptr_loop 0 x = ret ()"
| "printptr_loop (Suc n) x =
     andthen (consputc (uint (digit (unat (drop_bit 60 x))))) (printptr_loop n (push_bit 4 x))"

definition printptr :: "uint64 \<Rightarrow> ('z cons_scheme, unit) oper" where
  "printptr x =
     andthen (consputc (uint (ch CHR ''0'')))
     (andthen (consputc (uint (ch CHR ''x'')))
     (printptr_loop 16 x))"

text \<open>
  An argument of \<^verbatim>\<open>printf\<close>: a register value or a string (\<open>None\<close> is the null pointer). Taking an
  argument that is not there, or of the other sort, is undefined.
\<close>

datatype parg = AInt uint64 | AStr "byte list option"

text \<open>The low 32 bits of an argument, sign-extended (\<^verbatim>\<open>int\<close>) or not (\<^verbatim>\<open>uint32\<close>).\<close>

definition arg_int :: "uint64 \<Rightarrow> uint64" where
  "arg_int x = word_of_int (sint (ucast x :: uint))"

definition arg_uint :: "uint64 \<Rightarrow> uint64" where
  "arg_uint x = ucast (ucast x :: uint)"

text \<open>\<^verbatim>\<open>c0\<close>, \<^verbatim>\<open>c1\<close>, \<^verbatim>\<open>c2\<close>: the next characters of the format, zero behind its end.\<close>

definition nth0 :: "byte list \<Rightarrow> nat \<Rightarrow> byte" where
  "nth0 xs i = (if i < length xs then xs ! i else 0)"

text \<open>
  What follows a \<^verbatim>\<open>%\<close>: an integer of 32 or 64 bits in a base and with or without sign, a pointer, a
  character, a string, a percent sign, the end of the format, or something unknown.
\<close>

datatype pdir = PInt bool nat bool | PPtr | PChr | PStr | PPercent | PEnd | PUnknown byte

text \<open>The directive and the number of characters it takes.\<close>

definition directive :: "byte list \<Rightarrow> pdir \<times> nat" where
  "directive fmt =
     (let c0 = nth0 fmt 0; c1 = nth0 fmt 1; c2 = nth0 fmt 2;
          d = ch CHR ''d''; l = ch CHR ''l''; u = ch CHR ''u''; x = ch CHR ''x'' in
      if c0 = d then (PInt False 10 True, 1)
      else if c0 = l \<and> c1 = d then (PInt True 10 True, 2)
      else if c0 = l \<and> c1 = l \<and> c2 = d then (PInt True 10 True, 3)
      else if c0 = u then (PInt False 10 False, 1)
      else if c0 = l \<and> c1 = u then (PInt True 10 False, 2)
      else if c0 = l \<and> c1 = l \<and> c2 = u then (PInt True 10 False, 3)
      else if c0 = x then (PInt False 16 False, 1)
      else if c0 = l \<and> c1 = x then (PInt True 16 False, 2)
      else if c0 = l \<and> c1 = l \<and> c2 = x then (PInt True 16 False, 3)
      else if c0 = ch CHR ''p'' then (PPtr, 1)
      else if c0 = ch CHR ''c'' then (PChr, 1)
      else if c0 = ch CHR ''s'' then (PStr, 1)
      else if c0 = ch CHR ''%'' then (PPercent, 1)
      else if c0 = 0 then (PEnd, 0)
      else (PUnknown c0, 1))"

text \<open>Printing by a directive; the result is the arguments left.\<close>

definition print_dir :: "pdir \<Rightarrow> parg list \<Rightarrow> ('z cons_scheme, parg list) oper" where
  "print_dir dir args =
     (case dir of
        PInt long base sign \<Rightarrow>
          (case args of
             AInt v # rest \<Rightarrow>
               andthen (printint (if long then v else if sign then arg_int v else arg_uint v) base sign) (ret rest)
           | _ \<Rightarrow> Fault Wild)
      | PPtr \<Rightarrow> (case args of AInt v # rest \<Rightarrow> andthen (printptr v) (ret rest) | _ \<Rightarrow> Fault Wild)
      | PChr \<Rightarrow>
          (case args of AInt v # rest \<Rightarrow> andthen (consputc (sint (ucast v :: uint))) (ret rest) | _ \<Rightarrow> Fault Wild)
      | PStr \<Rightarrow>
          (case args of
             AStr so # rest \<Rightarrow>
               andthen (forM (case so of None \<Rightarrow> map of_char ''(null)'' | Some bs \<Rightarrow> bs) (\<lambda>c. consputc (uint c)))
                 (ret rest)
           | _ \<Rightarrow> Fault Wild)
      | PPercent \<Rightarrow> andthen (consputc (uint (ch CHR ''%''))) (ret args)
      | PEnd \<Rightarrow> ret args
      | PUnknown c0 \<Rightarrow> andthen (consputc (uint (ch CHR ''%''))) (andthen (consputc (uint c0)) (ret args)))"

function printf_loop :: "byte list \<Rightarrow> parg list \<Rightarrow> ('z cons_scheme, unit) oper" where
  "printf_loop [] args = ret ()"
| "printf_loop (cx # fmt) args =
     (if cx \<noteq> ch CHR ''%'' then andthen (consputc (uint cx)) (printf_loop fmt args)
      else let (dir, k) = directive fmt in
        if dir = PEnd then ret ()
        else bind (print_dir dir args) (printf_loop (drop k fmt)))"
  by pat_completeness auto
termination
  by (relation "measure (\<lambda>(fmt, args). length fmt)") auto

declare printf_loop.simps [simp del]

definition printf :: "byte list \<Rightarrow> parg list \<Rightarrow> ('z cons_scheme, unit) oper" where
  "printf fmt args =
     bind (gets panicking) (\<lambda>p.
     andthen (whenM (\<not> p) (acquire LPr))
     (andthen (printf_loop fmt args)
     (bind (gets panicking) (\<lambda>p. whenM (\<not> p) (release LPr)))))"

definition bytes :: "string \<Rightarrow> byte list" where
  "bytes cs = map of_char cs"

text \<open>\<open>27\<close> is the escape character.\<close>

definition clear_screen :: "('z cons_scheme, unit) oper" where
  "clear_screen = andthen (printf (27 # bytes ''[2J'') []) (printf (27 # bytes ''[H'') [])"

definition goto_xy :: "int \<Rightarrow> int \<Rightarrow> ('z cons_scheme, unit) oper" where
  "goto_xy x y =
     (if x < 0 \<or> 79 < x \<or> y < 0 \<or> 24 < y then ret ()
      else printf (27 # bytes ''[%d;%dH'') [AInt (word_of_int (y + 1)), AInt (word_of_int (x + 1))])"

text \<open>The body of \<^verbatim>\<open>printf_color\<close> is a copy of \<^verbatim>\<open>printf\<close> between two escape sequences.\<close>

definition printf_color :: "int \<Rightarrow> byte list \<Rightarrow> parg list \<Rightarrow> ('z cons_scheme, unit) oper" where
  "printf_color color fmt args =
     andthen (printf (27 # bytes ''[%dm'') [AInt (word_of_int color)])
     (andthen
       (bind (gets panicking) (\<lambda>p.
        andthen (whenM (\<not> p) (acquire LPr))
        (andthen (printf_loop fmt args)
        (bind (gets panicking) (\<lambda>p. whenM (\<not> p) (release LPr))))))
     (printf (27 # bytes ''[%dm'') [AInt 0]))"

text \<open>
  What \<^verbatim>\<open>panic(c)\<close> does before it loops for ever. Everywhere else a call of \<^verbatim>\<open>panic\<close> is the fault
  \<open>Panic\<close>.
\<close>

definition panic_print :: "byte list \<Rightarrow> ('z cons_scheme, unit) oper" where
  "panic_print c =
     andthen (modify (\<lambda>s. s\<lparr>panicking := True\<rparr>))
     (andthen (printf (10 # bytes ''!!!'' @ 10 # bytes ''panic:'' @ [10]) [])
     (andthen (printf (bytes ''%s'' @ 10 # bytes ''!!!'' @ [10]) [AStr (Some c)])
     (andthen (modify (\<lambda>s. s\<lparr>panicked := True\<rparr>))
     (Fault Diverge))))"

definition printfinit :: "('z cons_scheme, unit) oper" where
  "printfinit = modify (initlock LPr ''pr'')"

end
