(* ===== verification/File.thy ===== *)
theory File
  imports Console
begin

text \<open>
  Open files (\<^verbatim>\<open>kernel/disk/file.c\<close>) and the operations on processes that need them: \<^verbatim>\<open>fork\<close>,
  \<^verbatim>\<open>exit\<close> and the first process (\<^verbatim>\<open>kernel/proc/proc.c\<close>). A \<^verbatim>\<open>struct file*\<close> is an index into
  \<^verbatim>\<open>ftable.file\<close>.
\<close>

section \<open>State (file.h)\<close>

definition NFILE :: nat where "NFILE = 100"
definition NDEV :: nat where "NDEV = 10"

datatype ftype = FD_NONE | FD_PIPE | FD_INODE | FD_DEVICE

record kfile =
  f_type :: ftype
  f_ref :: int
  f_readable :: bool
  f_writable :: bool
  f_ip :: "nat option"
  f_off :: uint
  f_major :: ushort

record filesys = cons +
  files :: "nat \<Rightarrow> kfile"

definition set_file :: "nat \<Rightarrow> (kfile \<Rightarrow> kfile) \<Rightarrow> 'z filesys_scheme \<Rightarrow> 'z filesys_scheme" where
  "set_file f g s = s\<lparr>files := (files s)(f := g (files s f))\<rparr>"

section \<open>Operations (file.c)\<close>

definition fileinit :: "('z filesys_scheme, unit) oper" where
  "fileinit = modify (initlock LFtable ''ftable'')"

definition filealloc :: "('z filesys_scheme, nat option) oper" where
  "filealloc =
     andthen (acquire LFtable)
     (bind (gets (\<lambda>s. find (\<lambda>f. f_ref (files s f) = 0) [0..<NFILE])) (\<lambda>r.
      case r of
        Some f \<Rightarrow>
          andthen (modify (set_file f (\<lambda>c. c\<lparr>f_ref := 1\<rparr>)))
          (andthen (release LFtable) (ret (Some f)))
      | None \<Rightarrow> andthen (release LFtable) (ret None)))"

definition filedup :: "nat \<Rightarrow> ('z filesys_scheme, nat) oper" where
  "filedup f =
     andthen (acquire LFtable)
     (bind (gets (\<lambda>s. f_ref (files s f))) (\<lambda>r.
      if r < 1 then panic ''filedup''
      else andthen (modify (set_file f (\<lambda>c. c\<lparr>f_ref := f_ref c + 1\<rparr>)))
        (andthen (release LFtable) (ret f))))"

definition fileclose :: "nat \<Rightarrow> ('z filesys_scheme, unit) oper" where
  "fileclose f =
     andthen (acquire LFtable)
     (bind (gets (\<lambda>s. f_ref (files s f))) (\<lambda>r.
      if r < 1 then panic ''fileclose''
      else
        andthen (modify (set_file f (\<lambda>c. c\<lparr>f_ref := f_ref c - 1\<rparr>)))
        (if 0 < r - 1 then release LFtable
         else
           bind (gets (\<lambda>s. files s f)) (\<lambda>ff.
           andthen (modify (set_file f (\<lambda>c. c\<lparr>f_ref := 0, f_type := FD_NONE\<rparr>)))
           (andthen (release LFtable)
           (if f_type ff = FD_INODE \<or> f_type ff = FD_DEVICE
            then andthen begin_op
              (andthen (case f_ip ff of None \<Rightarrow> Fault Wild | Some ip \<Rightarrow> iput ip)
              end_op)
            else ret ()))))))"

text \<open>
  \<^verbatim>\<open>f->major < 0 || f->major >= NDEV || !devsw[f->major].read\<close>: \<^verbatim>\<open>major\<close> is a signed \<^verbatim>\<open>short\<close>.
\<close>

definition dev_entry :: "(nat \<Rightarrow> devfun option) \<Rightarrow> ushort \<Rightarrow> devfun option" where
  "dev_entry t major =
     (if sint major < 0 \<or> int NDEV \<le> sint major then None else t (nat (sint major)))"

definition dev_call :: "devfun \<Rightarrow> bool \<Rightarrow> uint64 \<Rightarrow> int \<Rightarrow> ('z filesys_scheme, int) oper" where
  "dev_call d user addr n = (case d of Consolewrite \<Rightarrow> consolewrite user addr n)"

definition fileread :: "nat \<Rightarrow> uint64 \<Rightarrow> int \<Rightarrow> ('z filesys_scheme, int) oper" where
  "fileread f addr n =
     bind (gets (\<lambda>s. files s f)) (\<lambda>c.
     if \<not> f_readable c then ret (- 1)
     else case f_type c of
       FD_PIPE \<Rightarrow> ret 0
     | FD_DEVICE \<Rightarrow>
         bind (gets (\<lambda>s. dev_entry (devsw_read s) (f_major c))) (\<lambda>d.
         case d of None \<Rightarrow> ret (- 1) | Some d \<Rightarrow> dev_call d True addr n)
     | FD_INODE \<Rightarrow>
         (case f_ip c of None \<Rightarrow> panic ''ilock''
          | Some ip \<Rightarrow>
             andthen (ilock ip)
             (bind (gets (\<lambda>s. f_off (files s f))) (\<lambda>off.
              bind (readi ip True addr off (word_of_int n)) (\<lambda>r.
              andthen (whenM (0 < r) (modify (set_file f (\<lambda>c. c\<lparr>f_off := f_off c + word_of_int r\<rparr>))))
              (andthen (iunlock ip)
              (ret r))))))
     | FD_NONE \<Rightarrow> panic ''fileread'')"

text \<open>\<^verbatim>\<open>max = ((MAXOPBLOCKS-1-1-2) / 2) * BSIZE\<close>: what one transaction may write.\<close>

definition filewrite_max :: int where
  "filewrite_max = ((MAXOPBLOCKS - 1 - 1 - 2) div 2) * int BSIZE"

lemma filewrite_max: "filewrite_max = 13312"
  by (simp add: filewrite_max_def MAXOPBLOCKS_def BSIZE_def)

function filewrite_loop :: "nat \<Rightarrow> nat \<Rightarrow> uint64 \<Rightarrow> int \<Rightarrow> int \<Rightarrow> ('z filesys_scheme, int) oper" where
  "filewrite_loop f ip addr n i =
     (if \<not> i < n then ret (if i = n then n else - 1)
      else let n1 = min (n - i) filewrite_max in
        andthen begin_op
        (andthen (ilock ip)
        (bind (gets (\<lambda>s. f_off (files s f))) (\<lambda>off.
         bind (writei ip True (addr + of_int i) off (word_of_int n1)) (\<lambda>r.
         andthen (whenM (0 < r) (modify (set_file f (\<lambda>c. c\<lparr>f_off := f_off c + word_of_int r\<rparr>))))
         (andthen (iunlock ip)
         (andthen end_op
         (if r \<noteq> n1 then ret (if i = n then n else - 1)
          else filewrite_loop f ip addr n (i + n1)))))))))"
  by pat_completeness auto
termination
  by (relation "measure (\<lambda>(f, ip, addr, n, i). nat (n - i))") (auto simp: filewrite_max)

declare filewrite_loop.simps [simp del]

definition filewrite :: "nat \<Rightarrow> uint64 \<Rightarrow> int \<Rightarrow> ('z filesys_scheme, int) oper" where
  "filewrite f addr n =
     bind (gets (\<lambda>s. files s f)) (\<lambda>c.
     if \<not> f_writable c then ret (- 1)
     else case f_type c of
       FD_PIPE \<Rightarrow> ret 0
     | FD_DEVICE \<Rightarrow>
         bind (gets (\<lambda>s. dev_entry (devsw_write s) (f_major c))) (\<lambda>d.
         case d of None \<Rightarrow> ret (- 1) | Some d \<Rightarrow> dev_call d True addr n)
     | FD_INODE \<Rightarrow>
         (case f_ip c of None \<Rightarrow> if 0 < n then andthen begin_op (panic ''ilock'') else ret (if n = 0 then n else - 1)
          | Some ip \<Rightarrow> filewrite_loop f ip addr n 0)
     | FD_NONE \<Rightarrow> panic ''filewrite'')"

section \<open>Processes and their files (proc.c)\<close>

text \<open>\<^verbatim>\<open>begin_op(); iput(p->cwd); end_op(); p->cwd = 0;\<close>.\<close>

definition put_cwd :: "nat \<Rightarrow> ('z filesys_scheme, unit) oper" where
  "put_cwd p =
     andthen begin_op
     (bind (gets (\<lambda>s. p_cwd (PCBs s p))) (\<lambda>cwd.
      andthen (case cwd of None \<Rightarrow> Fault Wild | Some ip \<Rightarrow> iput ip)
      (andthen end_op
      (set_pcb p (\<lambda>c. c\<lparr>p_cwd := None\<rparr>)))))"

definition kexit :: "int \<Rightarrow> ('z filesys_scheme, 'a) oper" where
  "kexit status =
     bind thisproc (\<lambda>p.
     andthen (forM [0..<NOFILE] (\<lambda>fd.
       bind (gets (\<lambda>s. p_ofile (PCBs s p) fd)) (\<lambda>fo.
       case fo of None \<Rightarrow> ret ()
       | Some f \<Rightarrow>
           andthen (fileclose f)
           (set_pcb p (\<lambda>c. c\<lparr>p_ofile := (p_ofile c)(fd := None)\<rparr>)))))
     (andthen (put_cwd p)
     (andthen (acquire LWait)
     (andthen (reparent p)
     (bind (gets (\<lambda>s. p_parent (PCBs s p))) (\<lambda>par.
      andthen (wakeup (map_option ChProc par))
      (andthen (acquire (LProc p))
      (andthen (set_pcb p (\<lambda>c. c\<lparr>p_xstate := status, p_state := ZOMBIE\<rparr>))
      (andthen (release LWait)
      (sched Exit))))))))))"

text \<open>The 288 bytes of a trap frame; \<open>a0\<close> is at offset 112.\<close>

definition copy_trapframe :: "uint64 \<Rightarrow> uint64 \<Rightarrow> memory \<Rightarrow> memory" where
  "copy_trapframe dst src m = write_bytes m dst (read_bytes m src 288)"

definition kfork :: "('z filesys_scheme, int) oper" where
  "kfork =
     bind allocproc (\<lambda>r.
     case r of None \<Rightarrow> ret (- 1)
     | Some np \<Rightarrow>
       bind thisproc (\<lambda>p.
       bind (gets (\<lambda>s. (p_pagetable (PCBs s p), p_pagetable (PCBs s np), p_sz (PCBs s p)))) (\<lambda>(old, new, sz).
       bind (uvmcopy old new sz) (\<lambda>r.
       if r < 0 then andthen (uFreeProc np) (andthen (release (LProc np)) (ret (- 1)))
       else
         andthen (set_pcb np (\<lambda>c. c\<lparr>p_sz := sz\<rparr>))
         (andthen (modify (\<lambda>s. s\<lparr>mem := copy_trapframe (p_trapframe (PCBs s np)) (p_trapframe (PCBs s p)) (mem s)\<rparr>))
         (andthen (modify (\<lambda>s. s\<lparr>mem := store64 (mem s) (p_trapframe (PCBs s np) + 112) 0\<rparr>))
         (andthen (forM [0..<NOFILE] (\<lambda>i.
            bind (gets (\<lambda>s. p_ofile (PCBs s p) i)) (\<lambda>fo.
            case fo of None \<Rightarrow> ret ()
            | Some f \<Rightarrow> bind (filedup f) (\<lambda>f.
                set_pcb np (\<lambda>c. c\<lparr>p_ofile := (p_ofile c)(i := Some f)\<rparr>)))))
         (bind (gets (\<lambda>s. p_cwd (PCBs s p))) (\<lambda>cwd.
          bind (case cwd of None \<Rightarrow> Fault Wild | Some ip \<Rightarrow> idup ip) (\<lambda>ip.
          andthen (set_pcb np (\<lambda>c. c\<lparr>p_cwd := Some ip\<rparr>))
          (bind (gets (\<lambda>s. p_name (PCBs s p))) (\<lambda>nm.
           andthen (set_pcb np (\<lambda>c. c\<lparr>p_name := safestrcpy (p_name c) nm 16\<rparr>))
           (bind (gets (\<lambda>s. p_pid (PCBs s np))) (\<lambda>pid.
            andthen (release (LProc np))
            (andthen (critical LWait (bind thisproc (\<lambda>p. set_pcb np (\<lambda>c. c\<lparr>p_parent := Some p\<rparr>))))
            (andthen (critical (LProc np) (set_pcb np (\<lambda>c. c\<lparr>p_state := RUNNABLE\<rparr>)))
            (ret pid)))))))))))))))))"

text \<open>\<^verbatim>\<open>userinit\<close> does not check that there is a free process.\<close>

definition userinit :: "('z filesys_scheme, unit) oper" where
  "userinit =
     bind allocproc (\<lambda>p.
     andthen (modify (\<lambda>s. s\<lparr>initproc := p\<rparr>))
     (bind (namei (bytes ''/'')) (\<lambda>ip.
      case p of None \<Rightarrow> Fault Wild
      | Some p \<Rightarrow>
        andthen (set_pcb p (\<lambda>c. c\<lparr>p_cwd := ip\<rparr>))
        (andthen (set_pcb p (\<lambda>c. c\<lparr>p_state := RUNNABLE\<rparr>))
        (release (LProc p))))))"

end
