(* ===== verification/Sysfile.thy ===== *)
theory Sysfile
  imports File
begin

text \<open>
  System-call arguments (\<^verbatim>\<open>kernel/lib/syscall.c\<close>) and the system calls on files
  (\<^verbatim>\<open>kernel/disk/sysfile.c\<close>). Arguments are fetched from the saved registers in the trap frame,
  strings and pointers from user memory. A result of \<^verbatim>\<open>uint64\<close> type is kept as the \<^verbatim>\<open>int\<close> that is
  converted to it.
\<close>

section \<open>Fetching arguments (syscall.c)\<close>

definition MAXPATH :: nat where "MAXPATH = 128"

definition le64 :: "byte list \<Rightarrow> uint64" where
  "le64 bs = load64 (\<lambda>a. bs ! unat a) 0"

definition fetchaddr :: "uint64 \<Rightarrow> ('z filesys_scheme, int \<times> uint64) oper" where
  "fetchaddr addr =
     bind thisproc (\<lambda>p.
     bind (gets (\<lambda>s. PCBs s p)) (\<lambda>c.
     if p_sz c \<le> addr \<or> p_sz c < addr + 8 then ret (- 1, 0)
     else bind (copyin (p_pagetable c) addr 8) (\<lambda>(r, bs).
       ret (if r \<noteq> 0 then (- 1, 0) else (0, le64 bs)))))"

text \<open>\<open>a0\<close> to \<open>a5\<close> are at offsets 112 to 152; any other number also selects \<open>a0\<close>.\<close>

definition argraw :: "int \<Rightarrow> ('z filesys_scheme, uint64) oper" where
  "argraw n =
     bind thisproc (\<lambda>p.
     gets (\<lambda>s. load64 (mem s) (p_trapframe (PCBs s p) +
       (if 0 \<le> n \<and> n \<le> 5 then of_int (112 + 8 * n) else 112))))"

text \<open>The result and what \<^verbatim>\<open>buf\<close> holds: the string with its zero, or the bytes before the failure.\<close>

definition fetchstr :: "uint64 \<Rightarrow> nat \<Rightarrow> ('z filesys_scheme, int \<times> byte list) oper" where
  "fetchstr addr mx =
     bind thisproc (\<lambda>p.
     bind (gets (\<lambda>s. p_pagetable (PCBs s p))) (\<lambda>pt.
     bind (copyinstr pt addr mx) (\<lambda>(r, bs).
     ret (if r < 0 then (- 1, bs) else (int (length bs) - 1, bs)))))"

definition argint :: "int \<Rightarrow> ('z filesys_scheme, int) oper" where
  "argint n = bind (argraw n) (\<lambda>x. ret (to_int x))"

definition argaddr :: "int \<Rightarrow> ('z filesys_scheme, uint64) oper" where
  "argaddr n = argraw n"

text \<open>The string without its zero.\<close>

definition argstr :: "int \<Rightarrow> nat \<Rightarrow> ('z filesys_scheme, int \<times> byte list) oper" where
  "argstr n mx = bind (argaddr n) (\<lambda>addr. bind (fetchstr addr mx) (\<lambda>(r, bs). ret (r, butlast bs)))"

section \<open>Creating inodes and descriptors (sysfile.c)\<close>

definition iunlockput :: "nat \<Rightarrow> ('z fs_scheme, unit) oper" where
  "iunlockput ip = andthen (iunlock ip) (iput ip)"

definition create_fail :: "nat \<Rightarrow> nat \<Rightarrow> ('z filesys_scheme, nat option) oper" where
  "create_fail ip dp =
     andthen (modify (set_d ip (\<lambda>d. d\<lparr>di_nlink := 0\<rparr>)))
     (andthen (iupdate ip)
     (andthen (iunlockput ip)
     (andthen (iunlockput dp)
     (ret None))))"

definition name_of :: "string \<Rightarrow> cptr" where
  "name_of cs = of_string cs"

definition create :: "byte list \<Rightarrow> ushort \<Rightarrow> ushort \<Rightarrow> ushort \<Rightarrow> ('z filesys_scheme, nat option) oper" where
  "create path type major minor =
     bind (gets stack_junk) (\<lambda>junk.
     bind (nameiparent path junk) (\<lambda>(dpo, name).
     case dpo of None \<Rightarrow> ret None
     | Some dp \<Rightarrow>
       andthen (ilock dp)
       (bind (dirlookup dp name) (\<lambda>r.
        case r of
          Some (ip, _) \<Rightarrow>
            andthen (iunlock dp)
            (andthen (iput dp)
            (andthen (ilock ip)
            (bind (gets (\<lambda>s. di_type (i_d (inodes s ip)))) (\<lambda>t.
             if type = T_FILE \<and> (t = T_FILE \<or> t = T_DEVICE) then ret (Some ip)
             else andthen (iunlockput ip) (ret None)))))
        | None \<Rightarrow>
            bind (gets (\<lambda>s. i_dev (inodes s dp))) (\<lambda>dev.
            bind (ialloc dev type) (\<lambda>r.
            case r of None \<Rightarrow> andthen (iunlockput dp) (ret None)
            | Some ip \<Rightarrow>
              andthen (ilock ip)
              (andthen (modify (set_d ip (\<lambda>d. d\<lparr>di_major := major, di_minor := minor, di_nlink := 1\<rparr>)))
              (andthen (iupdate ip)
              (bind (gets (\<lambda>s. (i_inum (inodes s ip), i_inum (inodes s dp)))) (\<lambda>(inum, dinum).
               bind (if type = T_DIR
                     then bind (dirlink ip (name_of ''.'') inum) (\<lambda>r.
                       if r < 0 then ret r else dirlink ip (name_of ''..'') dinum)
                     else ret 0) (\<lambda>r.
               if r < 0 then create_fail ip dp
               else bind (dirlink dp name inum) (\<lambda>r.
                 if r < 0 then create_fail ip dp
                 else andthen (whenM (type = T_DIR)
                     (andthen (modify (set_d dp (\<lambda>d. d\<lparr>di_nlink := di_nlink d + 1\<rparr>))) (iupdate dp)))
                   (andthen (iunlockput dp)
                   (ret (Some ip)))))))))))))))"

definition fdalloc :: "nat \<Rightarrow> ('z filesys_scheme, int) oper" where
  "fdalloc f =
     bind thisproc (\<lambda>p.
     bind (gets (\<lambda>s. find (\<lambda>fd. p_ofile (PCBs s p) fd = None) [0..<NOFILE])) (\<lambda>r.
     case r of None \<Rightarrow> ret (- 1)
     | Some fd \<Rightarrow>
         andthen (set_pcb p (\<lambda>c. c\<lparr>p_ofile := (p_ofile c)(fd := Some f)\<rparr>))
         (ret (int fd))))"

text \<open>The descriptor and the file, \<open>None\<close> when \<^verbatim>\<open>argfd\<close> returns -1.\<close>

definition argfd :: "int \<Rightarrow> ('z filesys_scheme, (nat \<times> nat) option) oper" where
  "argfd n =
     bind (argint n) (\<lambda>fd.
     if fd < 0 \<or> int NOFILE \<le> fd then ret None
     else bind thisproc (\<lambda>p.
       bind (gets (\<lambda>s. p_ofile (PCBs s p) (nat fd))) (\<lambda>fo.
       ret (map_option (Pair (nat fd)) fo))))"

section \<open>System calls on files\<close>

definition O_RDONLY :: uint where "O_RDONLY = 0x000"
definition O_WRONLY :: uint where "O_WRONLY = 0x001"
definition O_RDWR :: uint where "O_RDWR = 0x002"
definition O_CREATE :: uint where "O_CREATE = 0x200"
definition O_TRUNC :: uint where "O_TRUNC = 0x400"

definition sys_dup :: "('z filesys_scheme, int) oper" where
  "sys_dup =
     bind (argfd 0) (\<lambda>r.
     case r of None \<Rightarrow> ret (- 1)
     | Some (_, f) \<Rightarrow>
         bind (fdalloc f) (\<lambda>fd.
         if fd < 0 then ret (- 1)
         else bind (filedup f) (\<lambda>_. ret fd)))"

definition sys_mknod :: "('z filesys_scheme, int) oper" where
  "sys_mknod =
     andthen begin_op
     (bind (argint 1) (\<lambda>major.
      bind (argint 2) (\<lambda>minor.
      bind (argstr 0 MAXPATH) (\<lambda>(n, path).
      bind (if n < 0 then ret None else create path T_DEVICE (word_of_int major) (word_of_int minor)) (\<lambda>r.
      case r of None \<Rightarrow> andthen end_op (ret (- 1))
      | Some ip \<Rightarrow> andthen (iunlockput ip) (andthen end_op (ret 0)))))))"

text \<open>The part of \<^verbatim>\<open>sys_open\<close> after the inode has been found and locked.\<close>

definition sys_open_file :: "nat \<Rightarrow> uint \<Rightarrow> ('z filesys_scheme, int) oper" where
  "sys_open_file ip omode =
     bind (gets (\<lambda>s. i_d (inodes s ip))) (\<lambda>d.
     if di_type d = T_DEVICE \<and> (sint (di_major d) < 0 \<or> int NDEV \<le> sint (di_major d))
     then andthen (iunlockput ip) (andthen end_op (ret (- 1)))
     else bind filealloc (\<lambda>fo.
       case fo of None \<Rightarrow> andthen (iunlockput ip) (andthen end_op (ret (- 1)))
       | Some f \<Rightarrow>
         bind (fdalloc f) (\<lambda>fd.
         if fd < 0
         then andthen (fileclose f) (andthen (iunlockput ip) (andthen end_op (ret (- 1))))
         else
           andthen (modify (set_file f (\<lambda>c.
             if di_type d = T_DEVICE then c\<lparr>f_type := FD_DEVICE, f_major := di_major d\<rparr>
             else c\<lparr>f_type := FD_INODE, f_off := 0\<rparr>)))
           (andthen (modify (set_file f (\<lambda>c. c\<lparr>f_ip := Some ip, f_readable := (omode AND O_WRONLY = 0),
             f_writable := (omode AND O_WRONLY \<noteq> 0 \<or> omode AND O_RDWR \<noteq> 0)\<rparr>)))
           (andthen (whenM (omode AND O_TRUNC \<noteq> 0 \<and> di_type d = T_FILE) (itrunc ip))
           (andthen (iunlock ip)
           (andthen end_op
           (ret fd))))))))"

definition sys_open :: "('z filesys_scheme, int) oper" where
  "sys_open =
     bind (argint 1) (\<lambda>om.
     let omode = word_of_int om in
     bind (argstr 0 MAXPATH) (\<lambda>(n, path).
     if n < 0 then ret (- 1)
     else
       andthen begin_op
       (if omode AND O_CREATE \<noteq> 0
        then bind (create path T_FILE 0 0) (\<lambda>r.
          case r of None \<Rightarrow> andthen end_op (ret (- 1)) | Some ip \<Rightarrow> sys_open_file ip omode)
        else bind (namei path) (\<lambda>r.
          case r of None \<Rightarrow> andthen end_op (ret (- 1))
          | Some ip \<Rightarrow>
            andthen (ilock ip)
            (bind (gets (\<lambda>s. di_type (i_d (inodes s ip)))) (\<lambda>t.
             if t = T_DIR \<and> omode \<noteq> O_RDONLY
             then andthen (iunlock ip) (andthen (iput ip) (andthen end_op (ret (- 1))))
             else sys_open_file ip omode))))))"

definition sys_write :: "('z filesys_scheme, int) oper" where
  "sys_write =
     bind (argaddr 1) (\<lambda>p.
     bind (argint 2) (\<lambda>n.
     bind (argfd 0) (\<lambda>r.
     case r of None \<Rightarrow> ret (- 1)
     | Some (_, f) \<Rightarrow> if p \<le> 0 then ret (- 1) else filewrite f p n)))"

text \<open>
  \<^verbatim>\<open>sys_read\<close> ignores the result of \<^verbatim>\<open>argfd\<close>, and its test \<^verbatim>\<open>f < 0\<close> on a pointer never holds: with a
  bad descriptor it goes on with an uninitialised pointer.
\<close>

definition sys_read :: "('z filesys_scheme, int) oper" where
  "sys_read =
     bind (argfd 0) (\<lambda>r.
     bind (argaddr 1) (\<lambda>p.
     bind (argint 2) (\<lambda>n.
     case r of None \<Rightarrow> Fault Wild | Some (_, f) \<Rightarrow> fileread f p n)))"

definition sys_close :: "('z filesys_scheme, int) oper" where
  "sys_close =
     bind (argfd 0) (\<lambda>r.
     case r of None \<Rightarrow> ret (- 1)
     | Some (fd, f) \<Rightarrow>
         bind thisproc (\<lambda>p.
         andthen (set_pcb p (\<lambda>c. c\<lparr>p_ofile := (p_ofile c)(fd := None)\<rparr>))
         (andthen (fileclose f)
         (ret 0))))"

definition namecmp :: "cptr \<Rightarrow> cptr \<Rightarrow> int" where
  "namecmp a b = strncmp a b (of_nat DIRSIZ)"

primrec isdirempty_loop :: "nat list \<Rightarrow> nat \<Rightarrow> ('z filesys_scheme, bool) oper" where
  "isdirempty_loop [] dp = ret True"
| "isdirempty_loop (off # offs) dp =
     bind (readi_local dp (of_nat off) 16) (\<lambda>(r, de).
     if r \<noteq> 16 then panic ''isdirempty: readi''
     else if de_inum de \<noteq> 0 then ret False
     else isdirempty_loop offs dp)"

definition isdirempty :: "nat \<Rightarrow> ('z filesys_scheme, bool) oper" where
  "isdirempty dp =
     bind (gets (\<lambda>s. unat (di_size (i_d (inodes s dp))))) (\<lambda>sz.
     isdirempty_loop (drop 2 (dir_offsets sz)) dp)"

definition sys_unlink_bad :: "nat \<Rightarrow> ('z filesys_scheme, int) oper" where
  "sys_unlink_bad dp = andthen (iunlockput dp) (andthen end_op (ret (- 1)))"

definition sys_unlink :: "('z filesys_scheme, int) oper" where
  "sys_unlink =
     bind (argstr 0 MAXPATH) (\<lambda>(n, path).
     if n < 0 then ret (- 1)
     else
       andthen begin_op
       (bind (gets stack_junk) (\<lambda>junk.
        bind (nameiparent path junk) (\<lambda>(dpo, name).
        case dpo of None \<Rightarrow> andthen end_op (ret (- 1))
        | Some dp \<Rightarrow>
          andthen (ilock dp)
          (if namecmp name (name_of ''.'') = 0 \<or> namecmp name (name_of ''..'') = 0 then sys_unlink_bad dp
           else bind (dirlookup dp name) (\<lambda>r.
           case r of None \<Rightarrow> sys_unlink_bad dp
           | Some (ip, off) \<Rightarrow>
             andthen (ilock ip)
             (bind (gets (\<lambda>s. i_d (inodes s ip))) (\<lambda>d.
              if sint (di_nlink d) < 1 then panic ''unlink: nlink < 1''
              else bind (if di_type d = T_DIR then isdirempty ip else ret True) (\<lambda>empty.
              if \<not> empty then andthen (iunlockput ip) (sys_unlink_bad dp)
              else bind (writei_local dp (replicate 16 0) (of_nat off)) (\<lambda>r.
              if r \<noteq> 16 then panic ''unlink: writei''
              else
                andthen (whenM (di_type d = T_DIR)
                  (andthen (modify (set_d dp (\<lambda>d. d\<lparr>di_nlink := di_nlink d - 1\<rparr>))) (iupdate dp)))
                (andthen (iunlockput dp)
                (andthen (modify (set_d ip (\<lambda>d. d\<lparr>di_nlink := di_nlink d - 1\<rparr>)))
                (andthen (iupdate ip)
                (andthen (iunlockput ip)
                (andthen end_op
                (ret 0))))))))))))))))"

end
