(* ===== verification/Exec.thy ===== *)
theory Exec
  imports Sysfile
begin

text \<open>
  Loading programs (\<^verbatim>\<open>kernel/lib/exec.c\<close>), the system calls on processes
  (\<^verbatim>\<open>kernel/proc/sysproc.c\<close>) and the system-call table (\<^verbatim>\<open>kernel/lib/syscall.c\<close>).
\<close>

section \<open>Loading a program (exec.c)\<close>

definition ELF_MAGIC :: uint where "ELF_MAGIC = 0x464C457F"
definition ELF_PROG_LOAD :: uint where "ELF_PROG_LOAD = 1"
definition MAXARG :: nat where "MAXARG = 32"
definition USERSTACK :: uint64 where "USERSTACK = 3"

text \<open>The fields of \<^verbatim>\<open>struct elfhdr\<close> and \<^verbatim>\<open>struct proghdr\<close> that are used, by offset.\<close>

record elfhdr =
  e_magic :: uint
  e_entry :: uint64
  e_phoff :: uint64
  e_phnum :: ushort

definition elf_of :: "byte list \<Rightarrow> elfhdr" where
  "elf_of bs = \<lparr>e_magic = get32 ((!) bs) 0, e_entry = le64 (drop 24 bs), e_phoff = le64 (drop 32 bs),
     e_phnum = get16 ((!) bs) 56\<rparr>"

record proghdr =
  ph_type :: uint
  ph_flags :: uint
  ph_off :: uint64
  ph_vaddr :: uint64
  ph_filesz :: uint64
  ph_memsz :: uint64

definition ph_of :: "byte list \<Rightarrow> proghdr" where
  "ph_of bs = \<lparr>ph_type = get32 ((!) bs) 0, ph_flags = get32 ((!) bs) 4, ph_off = le64 (drop 8 bs),
     ph_vaddr = le64 (drop 16 bs), ph_filesz = le64 (drop 32 bs), ph_memsz = le64 (drop 40 bs)\<rparr>"

definition flags2perm :: "uint \<Rightarrow> uint64" where
  "flags2perm flags =
     (let perm = (if flags AND 1 \<noteq> 0 then PTE_X else 0)
      in if flags AND 2 \<noteq> 0 then perm OR PTE_W else perm)"

text \<open>The rounds of \<^verbatim>\<open>loadseg\<close>, over the offsets \<open>i\<close> of the pages of the segment.\<close>

primrec loadseg_loop :: "nat list \<Rightarrow> uint64 \<Rightarrow> uint64 \<Rightarrow> nat \<Rightarrow> uint \<Rightarrow> uint \<Rightarrow> ('z filesys_scheme, int) oper" where
  "loadseg_loop [] pagetable va ip offset sz = ret 0"
| "loadseg_loop (i # is) pagetable va ip offset sz =
     bind (uVA2PA pagetable (va + of_nat i)) (\<lambda>pa.
     if pa = 0 then panic ''loadseg: address should exist''
     else let n = (if unat sz - i < 4096 then sz - of_nat i else 4096) in
       bind (readi ip False pa (offset + of_nat i) n) (\<lambda>r.
       if word_of_int r \<noteq> n then ret (- 1) else loadseg_loop is pagetable va ip offset sz))"

definition loadseg :: "uint64 \<Rightarrow> uint64 \<Rightarrow> nat \<Rightarrow> uint \<Rightarrow> uint \<Rightarrow> ('z filesys_scheme, int) oper" where
  "loadseg pagetable va ip offset sz =
     loadseg_loop (map (\<lambda>k. 4096 * k) [0..<(unat sz + 4095) div 4096]) pagetable va ip offset sz"

text \<open>
  The loop over the program headers; \<open>k\<close> counts the headers left. The result is the size of the
  image so far and whether the loop came to its end (\<open>False\<close> is \<^verbatim>\<open>goto bad\<close>).
\<close>

primrec kexec_load :: "nat \<Rightarrow> uint64 \<Rightarrow> nat \<Rightarrow> uint \<Rightarrow> uint64 \<Rightarrow> ('z filesys_scheme, bool \<times> uint64) oper" where
  "kexec_load 0 pagetable ip off sz = ret (True, sz)"
| "kexec_load (Suc k) pagetable ip off sz =
     bind (readi_local ip off 56) (\<lambda>(r, bs).
     if r \<noteq> 56 then ret (False, sz)
     else let ph = ph_of bs in
       if ph_type ph \<noteq> ELF_PROG_LOAD then kexec_load k pagetable ip (off + 56) sz
       else if ph_memsz ph < ph_filesz ph then ret (False, sz)
       else if ph_vaddr ph + ph_memsz ph < ph_vaddr ph then ret (False, sz)
       else if ph_vaddr ph mod PGSIZE \<noteq> 0 then ret (False, sz)
       else bind (uVmAlloc pagetable sz (ph_vaddr ph + ph_memsz ph) (flags2perm (ph_flags ph))) (\<lambda>sz1.
         if sz1 = 0 then ret (False, sz)
         else bind (loadseg pagetable (ph_vaddr ph) ip (ucast (ph_off ph)) (ucast (ph_filesz ph))) (\<lambda>r.
           if r < 0 then ret (False, sz1)
           else kexec_load k pagetable ip (off + 56) sz1)))"

text \<open>
  Pushing the argument strings; the strings are those \<^verbatim>\<open>argv\<close> points to. The result is the stack
  pointer and the addresses of the strings.
\<close>

primrec kexec_args :: "byte list list \<Rightarrow> uint64 \<Rightarrow> uint64 \<Rightarrow> uint64 \<Rightarrow> uint64 list
    \<Rightarrow> ('z filesys_scheme, (uint64 \<times> uint64 list) option) oper" where
  "kexec_args [] pagetable sp stackbase ustack = ret (Some (sp, ustack))"
| "kexec_args (a # argv) pagetable sp stackbase ustack =
     (if MAXARG \<le> length ustack then ret None
      else let sp = sp - (of_nat (length a) + 1); sp = sp - sp mod 16 in
        if sp < stackbase then ret None
        else bind (copyout pagetable sp (a @ [0])) (\<lambda>r.
          if r < 0 then ret None
          else kexec_args argv pagetable sp stackbase (ustack @ [sp])))"

definition le64_bytes :: "uint64 \<Rightarrow> byte list" where
  "le64_bytes x = map (\<lambda>i. ucast (drop_bit (8 * i) x)) [0..<8]"

text \<open>\<^verbatim>\<open>bad:\<close> of \<^verbatim>\<open>kexec\<close>.\<close>

definition kexec_bad :: "uint64 \<Rightarrow> uint64 \<Rightarrow> nat option \<Rightarrow> ('z filesys_scheme, int) oper" where
  "kexec_bad pagetable sz ipo =
     andthen (whenM (pagetable \<noteq> 0) (uFreeUserVM pagetable sz))
     (andthen (case ipo of None \<Rightarrow> ret () | Some ip \<Rightarrow> andthen (iunlock ip) (andthen (iput ip) end_op))
     (ret (- 1)))"

definition last_elem :: "byte list \<Rightarrow> cptr" where
  "last_elem path = nth0 (rev (takeWhile (\<lambda>c. c \<noteq> slash) (rev path)))"

text \<open>From the allocation of the stack on.\<close>

definition kexec_stack :: "byte list \<Rightarrow> byte list list \<Rightarrow> elfhdr \<Rightarrow> uint64 \<Rightarrow> uint64 \<Rightarrow> ('z filesys_scheme, int) oper" where
  "kexec_stack path argv elf pagetable sz =
     bind thisproc (\<lambda>p.
     bind (gets (\<lambda>s. p_sz (PCBs s p))) (\<lambda>oldsz.
     let sz = PGROUNDUP sz in
     bind (uVmAlloc pagetable sz (sz + (USERSTACK + 1) * PGSIZE) PTE_W) (\<lambda>sz1.
     if sz1 = 0 then kexec_bad pagetable sz None
     else
       andthen (uvmclear pagetable (sz1 - (USERSTACK + 1) * PGSIZE))
       (let stackbase = sz1 - USERSTACK * PGSIZE in
        bind (kexec_args argv pagetable sz1 stackbase []) (\<lambda>r.
        case r of None \<Rightarrow> kexec_bad pagetable sz1 None
        | Some (sp, ustack) \<Rightarrow>
          let sp = sp - of_nat (8 * (length ustack + 1)); sp = sp - sp mod 16 in
          if sp < stackbase then kexec_bad pagetable sz1 None
          else bind (copyout pagetable sp (concat (map le64_bytes (ustack @ [0])))) (\<lambda>r.
          if r < 0 then kexec_bad pagetable sz1 None
          else
            bind (gets (\<lambda>s. p_trapframe (PCBs s p))) (\<lambda>tf.
            andthen (modify (\<lambda>s. s\<lparr>mem := store64 (mem s) (tf + 120) sp\<rparr>))
            (andthen (set_pcb p (\<lambda>c. c\<lparr>p_name := safestrcpy (p_name c) (last_elem path) 16\<rparr>))
            (bind (gets (\<lambda>s. p_pagetable (PCBs s p))) (\<lambda>oldpagetable.
             andthen (set_pcb p (\<lambda>c. c\<lparr>p_pagetable := pagetable, p_sz := sz1\<rparr>))
             (andthen (modify (\<lambda>s. s\<lparr>mem := store64 (mem s) (tf + 24) (e_entry elf)\<rparr>))
             (andthen (modify (\<lambda>s. s\<lparr>mem := store64 (mem s) (tf + 48) sp\<rparr>))
             (andthen (uFreeUserVM oldpagetable oldsz)
             (ret (int (length ustack))))))))))))))))"

definition kexec :: "byte list \<Rightarrow> byte list list \<Rightarrow> ('z filesys_scheme, int) oper" where
  "kexec path argv =
     bind thisproc (\<lambda>p.
     andthen begin_op
     (bind (namei path) (\<lambda>r.
      case r of None \<Rightarrow> andthen end_op (ret (- 1))
      | Some ip \<Rightarrow>
        andthen (ilock ip)
        (bind (readi_local ip 0 64) (\<lambda>(r, bs).
         if r \<noteq> 64 then kexec_bad 0 0 (Some ip)
         else let elf = elf_of bs in
         if e_magic elf \<noteq> ELF_MAGIC then kexec_bad 0 0 (Some ip)
         else bind (procPagetable p) (\<lambda>pagetable.
         if pagetable = 0 then kexec_bad 0 0 (Some ip)
         else bind (kexec_load (unat (e_phnum elf)) pagetable ip (ucast (e_phoff elf)) 0) (\<lambda>(ok, sz).
         if \<not> ok then kexec_bad pagetable sz (Some ip)
         else
           andthen (iunlock ip)
           (andthen (iput ip)
           (andthen end_op
           (kexec_stack path argv elf pagetable sz))))))))))"

section \<open>System calls on processes (sysproc.c)\<close>

text \<open>The counter of clock ticks.\<close>

record ksys = filesys +
  ticks :: int

definition sys_exit :: "('z ksys_scheme, int) oper" where
  "sys_exit = bind (argint 0) (\<lambda>n. andthen (kexit n :: ('z ksys_scheme, unit) oper) (ret 0))"

definition sys_uptime :: "('z ksys_scheme, int) oper" where
  "sys_uptime = critical LTicks (gets ticks)"

definition sys_wait :: "('z ksys_scheme, int) oper" where
  "sys_wait = bind (argaddr 0) kwait"

definition sys_fork :: "('z ksys_scheme, int) oper" where
  "sys_fork = kfork"

definition sys_getpid :: "('z ksys_scheme, int) oper" where
  "sys_getpid = bind thisproc (\<lambda>p. gets (\<lambda>s. p_pid (PCBs s p)))"

text \<open>
  The loop of \<^verbatim>\<open>sys_exec\<close> that fetches the arguments into pages of their own; \<open>k\<close> counts the
  elements of \<^verbatim>\<open>argv\<close> left. The result is whether it succeeded, the pages and the strings.
\<close>

primrec exec_argv :: "nat \<Rightarrow> uint64 \<Rightarrow> uint64 list \<Rightarrow> byte list list
    \<Rightarrow> ('z ksys_scheme, bool \<times> uint64 list \<times> byte list list) oper" where
  "exec_argv 0 uargv pages strs = ret (False, pages, strs)"
| "exec_argv (Suc k) uargv pages strs =
     bind (fetchaddr (uargv + 8 * of_nat (length pages))) (\<lambda>(r, uarg).
     if r < 0 then ret (False, pages, strs)
     else if uarg = 0 then ret (True, pages, strs)
     else bind kalloc (\<lambda>pg.
       if pg = 0 then ret (False, pages, strs)
       else bind (fetchstr uarg 4096) (\<lambda>(r, bs).
         andthen (modify (\<lambda>s. s\<lparr>mem := write_bytes (mem s) pg bs\<rparr>))
         (if r < 0 then ret (False, pages @ [pg], strs)
          else exec_argv k uargv (pages @ [pg]) (strs @ [butlast bs])))))"

definition sys_exec :: "('z ksys_scheme, int) oper" where
  "sys_exec =
     bind (argaddr 1) (\<lambda>uargv.
     bind (argstr 0 MAXPATH) (\<lambda>(n, path).
     if n < 0 then ret (- 1)
     else bind (exec_argv MAXARG uargv [] []) (\<lambda>(ok, pages, strs).
       if ok
       then bind (kexec path strs) (\<lambda>r. andthen (forM pages kfree) (ret r))
       else andthen (printf (bytes ''exec bad'' @ [10]) []) (andthen (forM pages kfree) (ret (- 1))))))"

section \<open>The system-call table (syscall.c)\<close>

definition sys_hello :: "('z ksys_scheme, int) oper" where
  "sys_hello = andthen (printf (bytes ''Hello, world!'' @ [10]) []) (ret 0)"

text \<open>The numbers of \<^verbatim>\<open>include/syscall.h\<close>; number 12, \<^verbatim>\<open>getpid\<close>, has no entry.\<close>

definition syscalls :: "int \<Rightarrow> ('z ksys_scheme, int) oper option" where
  "syscalls num =
     (if num = 1 then Some sys_hello
      else if num = 2 then Some sys_exit
      else if num = 3 then Some sys_wait
      else if num = 4 then Some sys_fork
      else if num = 5 then Some sys_exec
      else if num = 6 then Some sys_open
      else if num = 7 then Some sys_dup
      else if num = 8 then Some sys_mknod
      else if num = 9 then Some sys_write
      else if num = 10 then Some sys_read
      else if num = 11 then Some sys_close
      else if num = 13 then Some sys_unlink
      else if num = 14 then Some sys_uptime
      else None)"

text \<open>\<open>a7\<close> is at offset 168 of the trap frame, \<open>a0\<close> at offset 112.\<close>

definition set_a0 :: "nat \<Rightarrow> int \<Rightarrow> ('z ksys_scheme, unit) oper" where
  "set_a0 p v = modify (\<lambda>s. s\<lparr>mem := store64 (mem s) (p_trapframe (PCBs s p) + 112) (word_of_int v)\<rparr>)"

definition syscall :: "('z ksys_scheme, unit) oper" where
  "syscall =
     bind thisproc (\<lambda>p.
     bind (gets (\<lambda>s. to_int (load64 (mem s) (p_trapframe (PCBs s p) + 168)))) (\<lambda>num.
     case syscalls num of
       Some f \<Rightarrow> bind f (set_a0 p)
     | None \<Rightarrow>
         bind (gets (\<lambda>s. (p_pid (PCBs s p), cpuid s))) (\<lambda>(pid, cid).
         andthen (printf (bytes ''%d %d: unknown sys call %d'' @ [10])
           [AInt (word_of_int pid), AInt (of_nat cid), AInt (word_of_int num)])
         (set_a0 p (- 1)))))"

end
