(* ===== verification/Trap.thy ===== *)
theory Trap
  imports Exec
begin

text \<open>
  Traps and booting: the control registers (\<^verbatim>\<open>include/riscv.h\<close>), the interrupt controller
  (\<^verbatim>\<open>kernel/driver/plic.c\<close>), \<^verbatim>\<open>kernel/trap/trap.c\<close>, the return of a new process to user space
  (\<^verbatim>\<open>forkret\<close> of \<^verbatim>\<open>kernel/proc/proc.c\<close>) and \<^verbatim>\<open>kernel/boot\<close>.
\<close>

section \<open>State\<close>

datatype csr = Mhartid | Mstatus | Mepc | Sip | Sie | Mie | Sepc | Medeleg | Mideleg | Stvec | Stimecmp
  | Menvcfg | Pmpcfg0 | Pmpaddr0 | Satp | Scause | Stval | Mcounteren | Time

text \<open>
  Every hart has its control registers; \<^verbatim>\<open>scause\<close>, \<^verbatim>\<open>stval\<close>, \<^verbatim>\<open>sepc\<close> and \<^verbatim>\<open>time\<close> are set by the
  hardware. \<open>plic_mem\<close> are the registers of the interrupt controller that have been written,
  \<open>plic_claim\<close> the interrupt the controller hands to a hart that claims one. The last fields are
  addresses the linker chooses.
\<close>

record trapst = ksys +
  csrs :: "nat \<Rightarrow> csr \<Rightarrow> uint64"
  plic_mem :: "uint64 \<Rightarrow> uint"
  plic_claim :: "nat \<Rightarrow> uint"
  kernel_pagetable :: uint64
  first :: bool
  started :: bool
  kernelVec_addr :: uint64
  uservec_addr :: uint64
  userret_addr :: uint64
  usertrap_addr :: uint64
  main_addr :: uint64
  etext :: uint64

definition r_csr :: "csr \<Rightarrow> 'z trapst_scheme \<Rightarrow> uint64" where
  "r_csr c s = csrs s (tp s) c"

definition w_csr :: "csr \<Rightarrow> uint64 \<Rightarrow> 'z trapst_scheme \<Rightarrow> 'z trapst_scheme" where
  "w_csr c x s = s\<lparr>csrs := (csrs s)(tp s := (csrs s (tp s))(c := x))\<rparr>"

section \<open>Control registers (riscv.h)\<close>

definition r_mhartid :: "'z trapst_scheme \<Rightarrow> uint64" where "r_mhartid = r_csr Mhartid"
definition r_mstatus :: "'z trapst_scheme \<Rightarrow> uint64" where "r_mstatus = r_csr Mstatus"
definition r_sip :: "'z trapst_scheme \<Rightarrow> uint64" where "r_sip = r_csr Sip"
definition r_sie :: "'z trapst_scheme \<Rightarrow> uint64" where "r_sie = r_csr Sie"
definition r_mie :: "'z trapst_scheme \<Rightarrow> uint64" where "r_mie = r_csr Mie"
definition r_sepc :: "'z trapst_scheme \<Rightarrow> uint64" where "r_sepc = r_csr Sepc"
definition r_medeleg :: "'z trapst_scheme \<Rightarrow> uint64" where "r_medeleg = r_csr Medeleg"
definition r_mideleg :: "'z trapst_scheme \<Rightarrow> uint64" where "r_mideleg = r_csr Mideleg"
definition r_stvec :: "'z trapst_scheme \<Rightarrow> uint64" where "r_stvec = r_csr Stvec"
definition r_stimecmp :: "'z trapst_scheme \<Rightarrow> uint64" where "r_stimecmp = r_csr Stimecmp"
definition r_menvcfg :: "'z trapst_scheme \<Rightarrow> uint64" where "r_menvcfg = r_csr Menvcfg"
definition r_satp :: "'z trapst_scheme \<Rightarrow> uint64" where "r_satp = r_csr Satp"
definition r_scause :: "'z trapst_scheme \<Rightarrow> uint64" where "r_scause = r_csr Scause"
definition r_stval :: "'z trapst_scheme \<Rightarrow> uint64" where "r_stval = r_csr Stval"
definition r_mcounteren :: "'z trapst_scheme \<Rightarrow> uint64" where "r_mcounteren = r_csr Mcounteren"
definition r_time :: "'z trapst_scheme \<Rightarrow> uint64" where "r_time = r_csr Time"

definition w_mstatus :: "uint64 \<Rightarrow> 'z trapst_scheme \<Rightarrow> 'z trapst_scheme" where "w_mstatus = w_csr Mstatus"
definition w_mepc :: "uint64 \<Rightarrow> 'z trapst_scheme \<Rightarrow> 'z trapst_scheme" where "w_mepc = w_csr Mepc"
definition w_sip :: "uint64 \<Rightarrow> 'z trapst_scheme \<Rightarrow> 'z trapst_scheme" where "w_sip = w_csr Sip"
definition w_sie :: "uint64 \<Rightarrow> 'z trapst_scheme \<Rightarrow> 'z trapst_scheme" where "w_sie = w_csr Sie"
definition w_mie :: "uint64 \<Rightarrow> 'z trapst_scheme \<Rightarrow> 'z trapst_scheme" where "w_mie = w_csr Mie"
definition w_sepc :: "uint64 \<Rightarrow> 'z trapst_scheme \<Rightarrow> 'z trapst_scheme" where "w_sepc = w_csr Sepc"
definition w_medeleg :: "uint64 \<Rightarrow> 'z trapst_scheme \<Rightarrow> 'z trapst_scheme" where "w_medeleg = w_csr Medeleg"
definition w_mideleg :: "uint64 \<Rightarrow> 'z trapst_scheme \<Rightarrow> 'z trapst_scheme" where "w_mideleg = w_csr Mideleg"
definition w_stvec :: "uint64 \<Rightarrow> 'z trapst_scheme \<Rightarrow> 'z trapst_scheme" where "w_stvec = w_csr Stvec"
definition w_stimecmp :: "uint64 \<Rightarrow> 'z trapst_scheme \<Rightarrow> 'z trapst_scheme" where "w_stimecmp = w_csr Stimecmp"
definition w_menvcfg :: "uint64 \<Rightarrow> 'z trapst_scheme \<Rightarrow> 'z trapst_scheme" where "w_menvcfg = w_csr Menvcfg"
definition w_pmpcfg0 :: "uint64 \<Rightarrow> 'z trapst_scheme \<Rightarrow> 'z trapst_scheme" where "w_pmpcfg0 = w_csr Pmpcfg0"
definition w_pmpaddr0 :: "uint64 \<Rightarrow> 'z trapst_scheme \<Rightarrow> 'z trapst_scheme" where "w_pmpaddr0 = w_csr Pmpaddr0"
definition w_satp :: "uint64 \<Rightarrow> 'z trapst_scheme \<Rightarrow> 'z trapst_scheme" where "w_satp = w_csr Satp"
definition w_mcounteren :: "uint64 \<Rightarrow> 'z trapst_scheme \<Rightarrow> 'z trapst_scheme" where "w_mcounteren = w_csr Mcounteren"

definition w_tp :: "uint64 \<Rightarrow> 'z trapst_scheme \<Rightarrow> 'z trapst_scheme" where "w_tp x s = s\<lparr>tp := unat x\<rparr>"

definition MSTATUS_MPP_MASK :: uint64 where "MSTATUS_MPP_MASK = push_bit 11 3"
definition MSTATUS_MPP_S :: uint64 where "MSTATUS_MPP_S = push_bit 11 1"
definition SSTATUS_SPP :: uint64 where "SSTATUS_SPP = push_bit 8 1"
definition SSTATUS_SPIE :: uint64 where "SSTATUS_SPIE = push_bit 5 1"
definition SIE_SEIE :: uint64 where "SIE_SEIE = push_bit 9 1"
definition MIE_STIE :: uint64 where "MIE_STIE = push_bit 5 1"

section \<open>The interrupt controller (plic.c)\<close>

definition UART0_IRQ :: int where "UART0_IRQ = 10"
definition VIRTIO0_IRQ :: int where "VIRTIO0_IRQ = 1"
definition PLIC :: uint64 where "PLIC = 0x0c000000"
definition PLIC_SENABLE :: "nat \<Rightarrow> uint64" where "PLIC_SENABLE hart = PLIC + 0x2080 + of_nat (hart * 0x100)"
definition PLIC_SPRIORITY :: "nat \<Rightarrow> uint64" where "PLIC_SPRIORITY hart = PLIC + 0x201000 + of_nat (hart * 0x2000)"
definition PLIC_SCLAIM :: "nat \<Rightarrow> uint64" where "PLIC_SCLAIM hart = PLIC + 0x201004 + of_nat (hart * 0x2000)"

definition plic_write :: "uint64 \<Rightarrow> uint \<Rightarrow> 'z trapst_scheme \<Rightarrow> 'z trapst_scheme" where
  "plic_write a v s = s\<lparr>plic_mem := (plic_mem s)(a := v)\<rparr>"

definition registerDev :: "int \<Rightarrow> int \<Rightarrow> ('z trapst_scheme, unit) oper" where
  "registerDev irq priority = modify (plic_write (PLIC + of_int (irq * 4)) (word_of_int priority))"

definition plicInit :: "('z trapst_scheme, unit) oper" where
  "plicInit = registerDev VIRTIO0_IRQ 1"

definition unregisterDev :: "int \<Rightarrow> ('z trapst_scheme, unit) oper" where
  "unregisterDev irq = modify (plic_write (PLIC + of_int (irq * 4)) 0)"

definition enableDev :: "int \<Rightarrow> ('z trapst_scheme, unit) oper" where
  "enableDev irq = modify (\<lambda>s. plic_write (PLIC_SENABLE (cpuid s))
     (plic_mem s (PLIC_SENABLE (cpuid s)) OR push_bit (nat irq) 1) s)"

definition disableDev :: "int \<Rightarrow> ('z trapst_scheme, unit) oper" where
  "disableDev irq = modify (\<lambda>s. plic_write (PLIC_SENABLE (cpuid s))
     (plic_mem s (PLIC_SENABLE (cpuid s)) AND NOT (push_bit (nat irq) 1)) s)"

definition plicInitHart :: "('z trapst_scheme, unit) oper" where
  "plicInitHart = andthen (enableDev VIRTIO0_IRQ)
     (modify (\<lambda>s. plic_write (PLIC_SPRIORITY (cpuid s)) 0 s))"

definition plicClaim :: "('z trapst_scheme, int) oper" where
  "plicClaim = gets (\<lambda>s. sint (plic_claim s (cpuid s)))"

definition plicComplete :: "int \<Rightarrow> ('z trapst_scheme, unit) oper" where
  "plicComplete irq = modify (\<lambda>s. plic_write (PLIC_SCLAIM (cpuid s)) (word_of_int irq) s)"

section \<open>Traps (trap.c)\<close>

definition trapInit :: "('z trapst_scheme, unit) oper" where
  "trapInit = modify (initlock LTicks ''time'')"

definition trapInitHart :: "('z trapst_scheme, unit) oper" where
  "trapInitHart = modify (\<lambda>s. w_stvec (kernelVec_addr s) s)"

text \<open>The trap frame: \<^verbatim>\<open>kernel_satp\<close> 0, \<^verbatim>\<open>kernel_sp\<close> 8, \<^verbatim>\<open>kernel_trap\<close> 16, \<^verbatim>\<open>epc\<close> 24, \<^verbatim>\<open>kernel_hartid\<close> 32.\<close>

definition set_tf :: "nat \<Rightarrow> uint64 \<Rightarrow> uint64 \<Rightarrow> 'z procs_scheme \<Rightarrow> 'z procs_scheme" where
  "set_tf p off v s = s\<lparr>mem := store64 (mem s) (p_trapframe (PCBs s p) + off) v\<rparr>"

definition get_tf :: "nat \<Rightarrow> uint64 \<Rightarrow> 'z procs_scheme \<Rightarrow> uint64" where
  "get_tf p off s = load64 (mem s) (p_trapframe (PCBs s p) + off)"

definition prepare_return :: "('z trapst_scheme, unit) oper" where
  "prepare_return =
     bind thisproc (\<lambda>p.
     andthen (modify intr_off)
     (andthen (modify (\<lambda>s. w_stvec (TRAMPOLINE + (uservec_addr s - trampoline s)) s))
     (andthen (modify (\<lambda>s. set_tf p 0 (r_satp s) s))
     (andthen (modify (\<lambda>s. set_tf p 8 (p_kstack (PCBs s p) + PGSIZE) s))
     (andthen (modify (\<lambda>s. set_tf p 16 (usertrap_addr s) s))
     (andthen (modify (\<lambda>s. set_tf p 32 (of_nat (r_tp s)) s))
     (andthen (modify (\<lambda>s. w_sstatus ((r_sstatus s AND NOT SSTATUS_SPP) OR SSTATUS_SPIE) s))
     (modify (\<lambda>s. w_sepc (get_tf p 24 s) s)))))))))"

definition clockIntr :: "('z trapst_scheme, unit) oper" where
  "clockIntr =
     bind (gets cpuid) (\<lambda>cid.
     andthen (whenM (cid = 0)
       (andthen (acquire LTicks)
       (andthen (modify (\<lambda>s. s\<lparr>ticks := ticks s + 1\<rparr>))
       (andthen (wakeup (Some ChTicks))
       (release LTicks)))))
     (modify (\<lambda>s. w_stimecmp (r_time s + 1000000) s)))"

text \<open>
  The messages in Chinese, as UTF-8. \<^verbatim>\<open>devIntr\<close> prints them for an interrupt of the serial port and
  an unknown interrupt.
\<close>

definition uart_message :: "byte list" where
  "uart_message = [0xe4, 0xb8, 0xb2, 0xe5, 0x8f, 0xa3, 0xe4, 0xb8, 0xad, 0xe6, 0x96, 0xad, 10]"

definition irq_message :: "byte list" where
  "irq_message = [0xe6, 0x9c, 0xaa, 0xe7, 0x9f, 0xa5, 0xe4, 0xb8, 0xad, 0xe6, 0x96, 0xad, 0xe5, 0x8f, 0xb7, 0x20]
     @ bytes ''irq=%d'' @ [10]"

definition devIntr :: "('z trapst_scheme, int) oper" where
  "devIntr =
     bind (gets r_scause) (\<lambda>scause.
     if scause = 0x8000000000000009
     then bind plicClaim (\<lambda>irq.
       andthen
         (if irq = UART0_IRQ then printf uart_message []
          else if irq = VIRTIO0_IRQ then virtio_disk_intr
          else if irq \<noteq> 0 then printf irq_message [AInt (word_of_int irq)]
          else ret ())
       (andthen (whenM (irq \<noteq> 0) (plicComplete irq))
       (ret 1)))
     else if scause = 0x8000000000000005
     then andthen clockIntr (ret 2)
     else ret 0)"

definition kernelTrap :: "('z trapst_scheme, unit) oper" where
  "kernelTrap =
     bind (gets (\<lambda>s. (r_sepc s, r_sstatus s, r_scause s))) (\<lambda>(sepc, sstat, scause).
     if sstat AND SSTATUS_SPP = 0 then panic ''kerneltrap: not from supervisor mode''
     else bind (gets intr_get) (\<lambda>i.
     if i then panic ''kerneltrap: interrupts enabled''
     else bind devIntr (\<lambda>which_dev.
     if which_dev = 0
     then andthen (printf (bytes ''scause %p'' @ [10]) [AInt scause])
       (bind (gets (\<lambda>s. (r_sepc s, r_stval s))) (\<lambda>(a, b).
        andthen (printf (bytes ''sepc=%p stval=%p'' @ [10]) [AInt a, AInt b])
        (panic ''PLIC'')))
     else
       bind (gets (\<lambda>s. c_proc (mycpu s))) (\<lambda>p.
       andthen (whenM (which_dev = 2 \<and> p \<noteq> None) yield)
       (andthen (modify (w_sepc sepc))
       (modify (w_sstatus sstat)))))))"

definition page_message :: "byte list" where
  "page_message = [0xe5, 0xa4, 0x84, 0xe7, 0x90, 0x86, 0xe7, 0xbc, 0xba, 0xe9, 0xa1, 0xb5, 0xe5, 0xbc, 0x82, 0xe5,
     0xb8, 0xb8, 0xe6, 0x88, 0x90, 0xe5, 0x8a, 0x9f, 10]"

text \<open>
  The four cases of \<^verbatim>\<open>usertrap\<close>: a system call, a device, a page fault that can be handled, and
  everything else, which kills the process. The result is \<^verbatim>\<open>which_dev\<close>.
\<close>

definition usertrap_cause :: "nat \<Rightarrow> ('z trapst_scheme, int) oper" where
  "usertrap_cause p =
     bind (gets r_scause) (\<lambda>scause.
     if scause = 8
     then andthen (modify (\<lambda>s. set_tf p 24 (get_tf p 24 s + 4) s))
       (andthen (modify intr_on)
       (andthen syscall (ret 0)))
     else bind devIntr (\<lambda>which_dev.
     if which_dev \<noteq> 0 then ret which_dev
     else bind (if scause = 15 \<or> scause = 13
                then bind (gets (\<lambda>s. (p_pagetable (PCBs s p), r_stval s))) (\<lambda>(pt, va). vmfault pt va)
                else ret 0) (\<lambda>pa.
       if pa \<noteq> 0 then andthen (printf page_message []) (ret 0)
       else
         bind (gets (\<lambda>s. (p_pid (PCBs s p), r_sepc s, r_stval s))) (\<lambda>(pid, sepc, stval).
         andthen (printf (bytes ''usertrap(): unexpected scause 0x%lx pid=%d'' @ [10]) [AInt scause, AInt (word_of_int pid)])
         (andthen (printf (bytes ''            sepc=0x%lx stval=0x%lx'' @ [10]) [AInt sepc, AInt stval])
         (andthen (setkilled p)
         (ret 0)))))))"

text \<open>From \<^verbatim>\<open>prepare_return\<close> on, also run when the process continues after its \<^verbatim>\<open>yield\<close>.\<close>

definition usertrap_return :: "nat \<Rightarrow> ('z trapst_scheme, uint64) oper" where
  "usertrap_return p = andthen prepare_return (gets (\<lambda>s. MAKE_SATP (p_pagetable (PCBs s p))))"

definition usertrap :: "('z trapst_scheme, uint64) oper" where
  "usertrap =
     bind (gets r_sstatus) (\<lambda>sstat.
     if sstat AND SSTATUS_SPP \<noteq> 0 then panic ''usertrap: not from user mode''
     else
       andthen (modify (\<lambda>s. w_stvec (kernelVec_addr s) s))
       (bind thisproc (\<lambda>p.
        andthen (modify (\<lambda>s. set_tf p 24 (r_sepc s) s))
        (bind (usertrap_cause p) (\<lambda>which_dev.
         bind (killed p) (\<lambda>k.
         andthen (whenM (k \<noteq> 0) (kexit (- 1)))
         (andthen (whenM (which_dev = 2) yield)
         (usertrap_return p))))))))"

section \<open>The first return to user space (proc.c)\<close>

text \<open>
  \<^verbatim>\<open>forkret\<close>; the first process to get here mounts the file system and loads \<^verbatim>\<open>/waiter\<close>. The result
  is the address it jumps to and the argument.
\<close>

definition forkret :: "('z trapst_scheme, uint64 \<times> uint64) oper" where
  "forkret =
     bind thisproc (\<lambda>p.
     andthen (release (LProc p))
     (bind (gets first) (\<lambda>fst_time.
      andthen (whenM fst_time
        (andthen (fsinit ROOTDEV)
        (andthen (modify (\<lambda>s. s\<lparr>first := False\<rparr>))
        (bind (kexec (bytes ''/waiter'') [bytes ''/waiter'']) (\<lambda>r.
         andthen (modify (set_tf p 112 (word_of_int r)))
         (bind (gets (get_tf p 112)) (\<lambda>a0.
          if a0 = - 1 then panic ''exec'' else ret ())))))))
      (bind (usertrap_return p) (\<lambda>satp.
       gets (\<lambda>s. (TRAMPOLINE + (userret_addr s - trampoline s), satp)))))))"

section \<open>Booting (start.c, main.c)\<close>

definition timerinit :: "('z trapst_scheme, unit) oper" where
  "timerinit =
     andthen (modify (\<lambda>s. w_mie (r_mie s OR MIE_STIE) s))
     (andthen (modify (\<lambda>s. w_menvcfg (r_menvcfg s OR push_bit 63 1) s))
     (andthen (modify (\<lambda>s. w_mcounteren (r_mcounteren s OR 2) s))
     (modify (\<lambda>s. w_stimecmp (r_time s + 1000000) s))))"

text \<open>Up to the \<^verbatim>\<open>mret\<close>.\<close>

definition start :: "('z trapst_scheme, unit) oper" where
  "start =
     andthen (modify (\<lambda>s. w_mstatus ((r_mstatus s AND NOT MSTATUS_MPP_MASK) OR MSTATUS_MPP_S) s))
     (andthen (modify (\<lambda>s. w_mepc (main_addr s) s))
     (andthen (modify (w_satp 0))
     (andthen (modify (w_medeleg 0xffff))
     (andthen (modify (w_mideleg 0xffff))
     (andthen (modify (\<lambda>s. w_sie (r_sie s OR SIE_SEIE) s))
     (andthen (modify (w_pmpaddr0 0x3fffffffffffff))
     (andthen (modify (w_pmpcfg0 0xf))
     (andthen timerinit
     (modify (\<lambda>s. w_tp (r_mhartid s) s))))))))))"

definition kVmInit :: "('z trapst_scheme, unit) oper" where
  "kVmInit = bind (gets (\<lambda>s. (etext s, trampoline s))) (\<lambda>(et, tr).
     bind (kVmMake et tr) (\<lambda>pt. modify (\<lambda>s. s\<lparr>kernel_pagetable := pt\<rparr>)))"

definition kVmInitHart :: "('z trapst_scheme, unit) oper" where
  "kVmInitHart = modify (\<lambda>s. w_satp (MAKE_SATP (kernel_pagetable s)) s)"

text \<open>
  \<^verbatim>\<open>main\<close> up to its call of \<^verbatim>\<open>scheduler\<close>. A hart other than 0 waits until \<^verbatim>\<open>started\<close> is set.
\<close>

definition kmain :: "('z trapst_scheme, unit) oper" where
  "kmain =
     bind (gets cpuid) (\<lambda>cid.
     if cid = 0
     then
       andthen consoleinit
       (andthen printfinit
       (andthen (printf [10] [])
       (andthen (printf (bytes ''Hello World'' @ [10]) [])
       (andthen kinit
       (andthen kVmInit
       (andthen kVmInitHart
       (andthen procinit
       (andthen trapInit
       (andthen trapInitHart
       (andthen plicInit
       (andthen plicInitHart
       (andthen binit
       (andthen iinit
       (andthen fileinit
       (andthen virtio_disk_init
       (andthen userinit
       (modify (\<lambda>s. s\<lparr>started := True\<rparr>))))))))))))))))))
     else bind (gets started) (\<lambda>b. if b then ret () else Fault Diverge))"

end
