(* ===== verification/Asm.thy ===== *)
theory Asm
  imports Pagetable
begin

text \<open>
  The assembly stubs: \<^verbatim>\<open>kernel/trap/swtch.S\<close> switches between kernel threads, \<^verbatim>\<open>kernel/trap/kernelVec.S\<close>
  takes traps in the kernel, \<^verbatim>\<open>kernel/trap/trampoline.S\<close> leads from user space to the kernel and back,
  \<^verbatim>\<open>kernel/boot/entry.S\<close> sets up the first stack. The code is a list of instructions; the
  translation of addresses by the hardware is the parameter \<open>xl\<close>, a function of \<^verbatim>\<open>satp\<close> and the
  virtual address.
\<close>

section \<open>Instructions\<close>

datatype reg = RA | SP | GP | TP | T0 | T1 | T2 | T3 | T4 | T5 | T6
  | S0 | S1 | S2 | S3 | S4 | S5 | S6 | S7 | S8 | S9 | S10 | S11
  | A0 | A1 | A2 | A3 | A4 | A5 | A6 | A7

datatype csr = SATP | SSCRATCH | SEPC

record hart =
  regs :: "reg \<Rightarrow> uint64"
  csrs :: "csr \<Rightarrow> uint64"
  pc :: uint64
  pmem :: memory

text \<open>
  \<open>SD r k b\<close> is \<^verbatim>\<open>sd r, k(b)\<close>. \<open>LI\<close> stands for \<^verbatim>\<open>li\<close> and \<^verbatim>\<open>la\<close>. The last instruction of a piece of code
  jumps: \<open>RET\<close> to \<^verbatim>\<open>ra\<close>, \<open>SRET\<close> to \<^verbatim>\<open>sepc\<close>, \<open>JALR\<close> to a register, with \<^verbatim>\<open>ra\<close> set to the address behind it,
  which is an operand here. The fence has no effect on this state.
\<close>

datatype instr = SD reg nat reg | LD reg nat reg | SB reg nat reg | ADDI reg reg int | ADD reg reg reg | LI reg uint64
  | CSRW csr reg | CSRR reg csr | SFENCE_VMA | RET | JALR reg uint64 | SRET

fun exec :: "(uint64 \<Rightarrow> uint64 \<Rightarrow> uint64) \<Rightarrow> instr \<Rightarrow> hart \<Rightarrow> hart" where
  "exec xl (SD r k b) h = h\<lparr>pmem := store64 (pmem h) (xl (csrs h SATP) (regs h b + of_nat k)) (regs h r)\<rparr>"
| "exec xl (LD r k b) h = h\<lparr>regs := (regs h)(r := load64 (pmem h) (xl (csrs h SATP) (regs h b + of_nat k)))\<rparr>"
| "exec xl (SB r k b) h = h\<lparr>pmem := (pmem h)(xl (csrs h SATP) (regs h b + of_nat k) := ucast (regs h r))\<rparr>"
| "exec xl (ADDI r a i) h = h\<lparr>regs := (regs h)(r := regs h a + of_int i)\<rparr>"
| "exec xl (ADD r a b) h = h\<lparr>regs := (regs h)(r := regs h a + regs h b)\<rparr>"
| "exec xl (LI r v) h = h\<lparr>regs := (regs h)(r := v)\<rparr>"
| "exec xl (CSRW c r) h = h\<lparr>csrs := (csrs h)(c := regs h r)\<rparr>"
| "exec xl (CSRR r c) h = h\<lparr>regs := (regs h)(r := csrs h c)\<rparr>"
| "exec xl SFENCE_VMA h = h"
| "exec xl RET h = h\<lparr>pc := regs h RA\<rparr>"
| "exec xl (JALR r next) h = h\<lparr>pc := regs h r, regs := (regs h)(RA := next)\<rparr>"
| "exec xl SRET h = h\<lparr>pc := csrs h SEPC\<rparr>"

definition run :: "(uint64 \<Rightarrow> uint64 \<Rightarrow> uint64) \<Rightarrow> instr list \<Rightarrow> hart \<Rightarrow> hart" where
  "run xl is = fold (exec xl) is"

section \<open>The code\<close>

definition swtch :: "instr list" where
  "swtch =
    [SD RA 0 A0, SD SP 8 A0, SD S0 16 A0, SD S1 24 A0, SD S2 32 A0, SD S3 40 A0, SD S4 48 A0,
     SD S5 56 A0, SD S6 64 A0, SD S7 72 A0, SD S8 80 A0, SD S9 88 A0, SD S10 96 A0, SD S11 104 A0,
     LD RA 0 A1, LD SP 8 A1, LD S0 16 A1, LD S1 24 A1, LD S2 32 A1, LD S3 40 A1, LD S4 48 A1,
     LD S5 56 A1, LD S6 64 A1, LD S7 72 A1, LD S8 80 A1, LD S9 88 A1, LD S10 96 A1, LD S11 104 A1,
     RET]"

text \<open>\<^verbatim>\<open>kernelVec\<close> up to its call of \<^verbatim>\<open>kernelTrap\<close>, and from its return.\<close>

definition kernelVec_save :: "instr list" where
  "kernelVec_save =
    [ADDI SP SP (-256),
     SD RA 0 SP, SD GP 16 SP, SD TP 24 SP, SD T0 32 SP, SD T1 40 SP, SD T2 48 SP,
     SD A0 72 SP, SD A1 80 SP, SD A2 88 SP, SD A3 96 SP, SD A4 104 SP, SD A5 112 SP, SD A6 120 SP, SD A7 128 SP,
     SD T3 216 SP, SD T4 224 SP, SD T5 232 SP, SD T6 240 SP]"

definition kernelVec_restore :: "instr list" where
  "kernelVec_restore =
    [LD RA 0 SP, LD GP 16 SP, LD TP 24 SP, LD T0 32 SP, LD T1 40 SP, LD T2 48 SP,
     LD A0 72 SP, LD A1 80 SP, LD A2 88 SP, LD A3 96 SP, LD A4 104 SP, LD A5 112 SP, LD A6 120 SP, LD A7 128 SP,
     LD T3 216 SP, LD T4 224 SP, LD T5 232 SP, LD T6 240 SP,
     ADDI SP SP 256, SRET]"

text \<open>Behind \<^verbatim>\<open>uservec\<close> follows \<^verbatim>\<open>userret\<close>, to which \<^verbatim>\<open>usertrap\<close> therefore returns.\<close>

definition uservec :: "uint64 \<Rightarrow> instr list" where
  "uservec userret_addr =
    [CSRW SSCRATCH A0, LI A0 TRAPFRAME,
     SD RA 40 A0, SD SP 48 A0, SD GP 56 A0, SD TP 64 A0, SD T0 72 A0, SD T1 80 A0, SD T2 88 A0,
     SD S0 96 A0, SD S1 104 A0, SD A1 120 A0, SD A2 128 A0, SD A3 136 A0, SD A4 144 A0, SD A5 152 A0,
     SD A6 160 A0, SD A7 168 A0, SD S2 176 A0, SD S3 184 A0, SD S4 192 A0, SD S5 200 A0, SD S6 208 A0,
     SD S7 216 A0, SD S8 224 A0, SD S9 232 A0, SD S10 240 A0, SD S11 248 A0, SD T3 256 A0, SD T4 264 A0,
     SD T5 272 A0, SD T6 280 A0,
     CSRR T0 SSCRATCH, SD T0 112 A0,
     LD SP 8 A0, LD TP 32 A0, LD T0 16 A0, LD T1 0 A0,
     SFENCE_VMA, CSRW SATP T1, SFENCE_VMA, JALR T0 userret_addr]"

definition userret :: "instr list" where
  "userret =
    [SFENCE_VMA, CSRW SATP A0, SFENCE_VMA, LI A0 TRAPFRAME,
     LD RA 40 A0, LD SP 48 A0, LD GP 56 A0, LD TP 64 A0, LD T0 72 A0, LD T1 80 A0, LD T2 88 A0,
     LD S0 96 A0, LD S1 104 A0, LD A1 120 A0, LD A2 128 A0, LD A3 136 A0, LD A4 144 A0, LD A5 152 A0,
     LD A6 160 A0, LD A7 168 A0, LD S2 176 A0, LD S3 184 A0, LD S4 192 A0, LD S5 200 A0, LD S6 208 A0,
     LD S7 216 A0, LD S8 224 A0, LD S9 232 A0, LD S10 240 A0, LD S11 248 A0, LD T3 256 A0, LD T4 264 A0,
     LD T5 272 A0, LD T6 280 A0,
     LD A0 112 A0, SRET]"

text \<open>
  \<^verbatim>\<open>entry.S\<close>: the addresses of \<^verbatim>\<open>stack0\<close>, \<^verbatim>\<open>start\<close> and \<^verbatim>\<open>test\<close> come from the linker. \<^verbatim>\<open>call start\<close> is a
  jump through a free register, here T1, that sets \<^verbatim>\<open>ra\<close>.
\<close>

definition entry :: "uint64 \<Rightarrow> uint64 \<Rightarrow> uint64 \<Rightarrow> instr list" where
  "entry stack0 start test = [LI SP stack0, LI A0 (1024 * 8), ADD SP SP A0, LI T1 start, JALR T1 test]"

definition entry_test :: "instr list" where
  "entry_test = [LI T0 0x10000000, LI T1 (of_char CHR ''S''), SB T1 0 T0, RET]"

section \<open>Sequences of saves and loads\<close>

abbreviation saves :: "reg \<Rightarrow> (reg \<times> nat) list \<Rightarrow> instr list" where
  "saves b ps \<equiv> map (\<lambda>(r, k). SD r k b) ps"

abbreviation loads :: "reg \<Rightarrow> (reg \<times> nat) list \<Rightarrow> instr list" where
  "loads b ps \<equiv> map (\<lambda>(r, k). LD r k b) ps"

text \<open>A frame: the translation maps the \<open>n\<close> bytes from \<open>va\<close> to those from \<open>pa\<close>, which is aligned and does not wrap.\<close>

definition framed :: "(uint64 \<Rightarrow> uint64) \<Rightarrow> uint64 \<Rightarrow> uint64 \<Rightarrow> nat \<Rightarrow> bool" where
  "framed x va pa n \<longleftrightarrow> (\<forall>k < n. x (va + of_nat k) = pa + of_nat k) \<and> unat pa mod 8 = 0 \<and> unat pa + n \<le> 2 ^ 64"

text \<open>The offsets used: different words of the frame.\<close>

definition slots :: "nat \<Rightarrow> nat list \<Rightarrow> bool" where
  "slots n ks \<longleftrightarrow> distinct ks \<and> (\<forall>k \<in> set ks. k mod 8 = 0 \<and> k < n)"

definition put_regs :: "(reg \<Rightarrow> uint64) \<Rightarrow> uint64 \<Rightarrow> (reg \<times> nat) list \<Rightarrow> memory \<Rightarrow> memory" where
  "put_regs f pa = fold (\<lambda>(r, k) m. store64 m (pa + of_nat k) (f r))"

definition get_regs :: "memory \<Rightarrow> uint64 \<Rightarrow> (reg \<times> nat) list \<Rightarrow> (reg \<Rightarrow> uint64) \<Rightarrow> reg \<Rightarrow> uint64" where
  "get_regs m pa = fold (\<lambda>(r, k) f. f(r := load64 m (pa + of_nat k)))"

lemma run_simps [simp]: "run xl [] h = h" "run xl (i # is) h = run xl is (exec xl i h)" "run xl (is @ js) h = run xl js (run xl is h)"
  by (simp_all add: run_def)

lemma run_saves:
  assumes "framed (xl (csrs h SATP)) (regs h b) pa n" "\<forall>(r, k) \<in> set ps. k < n"
  shows "run xl (saves b ps) h = h\<lparr>pmem := put_regs (regs h) pa ps (pmem h)\<rparr>"
  using assms
proof (induction ps arbitrary: h)
  case Nil
  then show ?case by (simp add: put_regs_def)
next
  case (Cons p ps)
  obtain r k where p: "p = (r, k)"
    by force
  have "xl (csrs h SATP) (regs h b + of_nat k) = pa + of_nat k"
    using Cons.prems p by (auto simp: framed_def)
  then show ?case
    using Cons by (simp add: p put_regs_def)
qed

lemma run_loads:
  assumes "framed (xl (csrs h SATP)) (regs h b) pa n" "\<forall>(r, k) \<in> set ps. k < n" "b \<notin> fst ` set ps"
  shows "run xl (loads b ps) h = h\<lparr>regs := get_regs (pmem h) pa ps (regs h)\<rparr>"
  using assms
proof (induction ps arbitrary: h)
  case Nil
  then show ?case by (simp add: get_regs_def)
next
  case (Cons p ps)
  obtain r k where p: "p = (r, k)"
    by force
  have "xl (csrs h SATP) (regs h b + of_nat k) = pa + of_nat k" "r \<noteq> b"
    using Cons.prems p by (auto simp: framed_def)
  then show ?case
    using Cons by (simp add: p get_regs_def)
qed

lemma frame_word:
  assumes "framed x va pa n" "k mod 8 = 0" "k < n" "j mod 8 = 0" "j < n"
  shows "unat (pa + of_nat k) mod 8 = 0" "pa + of_nat k = pa + of_nat j \<longleftrightarrow> k = j"
proof -
  have u: "unat (pa + of_nat i) = unat pa + i" if "i < n" for i
    using assms(1) that by (simp add: framed_def unat_word_ariths unat_of_nat)
  show "unat (pa + of_nat k) mod 8 = 0"
    using u [OF assms(3)] assms(1,2) by (simp add: framed_def mod_add_eq [symmetric])
  show "pa + of_nat k = pa + of_nat j \<longleftrightarrow> k = j"
    using u [OF assms(3)] u [OF assms(5)] by (metis add_left_cancel)
qed

lemma load_put_regs:
  assumes "framed x va pa n" "slots n (map snd ps)" "j mod 8 = 0" "j < n"
  shows "load64 (put_regs f pa ps m) (pa + of_nat j) = (case find (\<lambda>(r, k). k = j) ps of Some (r, k) \<Rightarrow> f r | None \<Rightarrow> load64 m (pa + of_nat j))"
  using assms(2)
proof (induction ps arbitrary: m)
  case Nil
  then show ?case by (simp add: put_regs_def)
next
  case (Cons p ps)
  obtain r k where p: "p = (r, k)"
    by force
  have k: "k mod 8 = 0" "k < n" "slots n (map snd ps)" "k \<notin> snd ` set ps"
    using Cons.prems p by (auto simp: slots_def)
  note w = frame_word [OF assms(1) k(1,2) assms(3,4)] frame_word(1) [OF assms(1,3,4) k(1,2)]
  have "find (\<lambda>(r, i). i = k) ps = None"
    using k(4) by (force simp: find_None_iff)
  then show ?case
    using Cons.IH [OF k(3), of "store64 m (pa + of_nat k) (f r)"] w load_store_other [of "pa + of_nat k" "pa + of_nat j" m "f r"]
    by (auto simp: p put_regs_def split: option.split)
qed

lemma put_regs_outside:
  assumes "framed x va pa n" "\<forall>(r, k) \<in> set ps. k + 8 \<le> n" "\<not> within pa n a"
  shows "put_regs f pa ps m a = m a"
  using assms(2)
proof (induction ps arbitrary: m)
  case Nil
  then show ?case by (simp add: put_regs_def)
next
  case (Cons p ps)
  obtain r k where p: "p = (r, k)"
    by force
  have "k + 8 \<le> n"
    using Cons.prems p by auto
  then have "\<not> within (pa + of_nat k) 8 a"
    using assms(1,3) by (auto simp: within_def framed_def unat_word_ariths unat_of_nat unat_sub_if')
  then show ?case
    using Cons by (simp add: p put_regs_def store64_other)
qed

lemma get_regs_apply:
  assumes "distinct (map fst ps)"
  shows "get_regs m pa ps f r = (case map_of ps r of Some k \<Rightarrow> load64 m (pa + of_nat k) | None \<Rightarrow> f r)"
  using assms
proof (induction ps arbitrary: f)
  case Nil
  then show ?case by (simp add: get_regs_def)
next
  case (Cons p ps)
  obtain q k where p: "p = (q, k)"
    by force
  have "map_of ps q = None"
    using Cons.prems p by (simp add: map_of_eq_None_iff image_iff)
  then show ?case
    using Cons by (auto simp: p get_regs_def split: option.split)
qed

section \<open>Context switches\<close>

text \<open>The layouts of \<^verbatim>\<open>struct context\<close> and of the user registers in \<^verbatim>\<open>struct trapframe\<close>.\<close>

definition context_slots :: "(reg \<times> nat) list" where
  "context_slots = [(RA, 0), (SP, 8), (S0, 16), (S1, 24), (S2, 32), (S3, 40), (S4, 48), (S5, 56), (S6, 64), (S7, 72),
     (S8, 80), (S9, 88), (S10, 96), (S11, 104)]"

definition frame_slots :: "(reg \<times> nat) list" where
  "frame_slots = [(RA, 40), (SP, 48), (GP, 56), (TP, 64), (T0, 72), (T1, 80), (T2, 88), (S0, 96), (S1, 104), (A1, 120), (A2, 128),
     (A3, 136), (A4, 144), (A5, 152), (A6, 160), (A7, 168), (S2, 176), (S3, 184), (S4, 192), (S5, 200), (S6, 208), (S7, 216),
     (S8, 224), (S9, 232), (S10, 240), (S11, 248), (T3, 256), (T4, 264), (T5, 272), (T6, 280)]"

definition kernelVec_slots :: "(reg \<times> nat) list" where
  "kernelVec_slots = [(RA, 0), (GP, 16), (TP, 24), (T0, 32), (T1, 40), (T2, 48), (A0, 72), (A1, 80), (A2, 88), (A3, 96), (A4, 104),
     (A5, 112), (A6, 120), (A7, 128), (T3, 216), (T4, 224), (T5, 232), (T6, 240)]"

lemma slots_ok [simp]:
  "slots 112 (map snd context_slots)" "slots 288 (map snd frame_slots)" "slots 256 (map snd kernelVec_slots)"
  "distinct (map fst context_slots)" "distinct (map fst frame_slots)" "distinct (map fst kernelVec_slots)"
  by (simp_all add: slots_def context_slots_def frame_slots_def kernelVec_slots_def)

lemma slots_bound: "slots n (map snd ps) \<Longrightarrow> \<forall>(r, k) \<in> set ps. k < n"
  by (auto simp: slots_def)

lemma code_slots:
  "swtch = saves A0 context_slots @ loads A1 context_slots @ [RET]"
  "kernelVec_save = ADDI SP SP (-256) # saves SP kernelVec_slots"
  "kernelVec_restore = loads SP kernelVec_slots @ [ADDI SP SP 256, SRET]"
  "uservec a = [CSRW SSCRATCH A0, LI A0 TRAPFRAME] @ saves A0 frame_slots @ [CSRR T0 SSCRATCH, SD T0 112 A0,
     LD SP 8 A0, LD TP 32 A0, LD T0 16 A0, LD T1 0 A0, SFENCE_VMA, CSRW SATP T1, SFENCE_VMA, JALR T0 a]"
  "userret = [SFENCE_VMA, CSRW SATP A0, SFENCE_VMA, LI A0 TRAPFRAME] @ loads A0 frame_slots @ [LD A0 112 A0, SRET]"
  by (simp_all add: swtch_def kernelVec_save_def kernelVec_restore_def uservec_def userret_def context_slots_def frame_slots_def
    kernelVec_slots_def)

lemma load_put_slot:
  assumes "framed x va pa n" "slots n (map snd ps)" "(r, k) \<in> set ps"
  shows "load64 (put_regs f pa ps m) (pa + of_nat k) = f r"
proof -
  have "k mod 8 = 0" "k < n"
    using assms(2,3) by (auto simp: slots_def)
  moreover have "find (\<lambda>(r, i). i = k) ps = Some (r, k)"
    using assms(2,3) unfolding slots_def
    by (induction ps) (auto simp: image_iff)
  ultimately show ?thesis
    using load_put_regs [OF assms(1,2), of k f m] by simp
qed

lemma swtch_run:
  assumes "framed (xl (csrs h SATP)) (regs h A0) old 112" "framed (xl (csrs h SATP)) (regs h A1) new 112"
  defines "m \<equiv> put_regs (regs h) old context_slots (pmem h)"
  shows "run xl swtch h = h\<lparr>pmem := m, regs := get_regs m new context_slots (regs h), pc := load64 m new\<rparr>"
proof -
  let ?s = "h\<lparr>pmem := m\<rparr>"
  have "run xl (saves A0 context_slots) h = ?s"
    unfolding m_def by (rule run_saves [where xl = xl and n = 112]) (use assms(1) slots_bound [OF slots_ok(1)] in simp_all)
  moreover have "framed (xl (csrs ?s SATP)) (regs ?s A1) new 112"
    using assms(2) by simp
  then have "run xl (loads A1 context_slots) ?s = ?s\<lparr>regs := get_regs m new context_slots (regs ?s)\<rparr>"
    by (subst run_loads [where pa = new and n = 112]) (use slots_bound [OF slots_ok(1)] in \<open>simp_all add: context_slots_def\<close>)
  moreover have "get_regs m new context_slots (regs h) RA = load64 m new"
    by (simp add: get_regs_apply) (simp add: context_slots_def)
  ultimately show ?thesis
    by (simp add: code_slots)
qed

lemma get_slot:
  assumes "distinct (map fst ps)" "(r, k) \<in> set ps"
  shows "get_regs m pa ps f r = load64 m (pa + of_nat k)"
  using assms by (simp add: get_regs_apply)

lemma frame_part:
  assumes "framed x va pa n" "k + 8 \<le> n" "within (pa + of_nat k) 8 a"
  shows "within pa n a"
proof -
  have "unat (pa + of_nat k) = unat pa + k" "unat pa + n \<le> 2 ^ 64"
    using assms(1,2) by (simp_all add: framed_def unat_word_ariths unat_of_nat)
  with assms(2,3) show ?thesis
    by (simp add: within_nat)
qed

lemma load_frame_cong:
  assumes "framed x va pa n" "k + 8 \<le> n" "\<And>a. within pa n a \<Longrightarrow> m' a = m a"
  shows "load64 m' (pa + of_nat k) = load64 m (pa + of_nat k)"
  by (rule load64_cong) (use assms frame_part in blast)

definition apart :: "uint64 \<Rightarrow> uint64 \<Rightarrow> bool" where
  "apart a b \<longleftrightarrow> (\<forall>x. \<not> (within a 112 x \<and> within b 112 x))"

lemma context_bounds: "(r, k) \<in> set context_slots \<Longrightarrow> k + 8 \<le> 112"
  by (auto simp: context_slots_def)

lemma swtch_effect:
  assumes "framed (xl (csrs h SATP)) (regs h A0) old 112" "framed (xl (csrs h SATP)) (regs h A1) new 112" "apart old new"
  shows "(r, k) \<in> set context_slots \<Longrightarrow> regs (run xl swtch h) r = load64 (pmem h) (new + of_nat k)"
    "pc (run xl swtch h) = load64 (pmem h) new"
    "(r, k) \<in> set context_slots \<Longrightarrow> load64 (pmem (run xl swtch h)) (old + of_nat k) = regs h r"
    "\<not> within old 112 x \<Longrightarrow> pmem (run xl swtch h) x = pmem h x"
proof -
  define m where "m = put_regs (regs h) old context_slots (pmem h)"
  note run = swtch_run [where xl = xl and h = h, OF assms(1,2), folded m_def]
  have out: "m x = pmem h x" if "\<not> within old 112 x" for x
    unfolding m_def by (rule put_regs_outside [OF assms(1) _ that]) (use context_bounds in blast)
  have new: "load64 m (new + of_nat k) = load64 (pmem h) (new + of_nat k)" if "k + 8 \<le> 112" for k
    by (rule load_frame_cong [OF assms(2) that]) (use out assms(3) in \<open>auto simp: apart_def\<close>)
  show "regs (run xl swtch h) r = load64 (pmem h) (new + of_nat k)" if "(r, k) \<in> set context_slots"
    using get_slot [OF slots_ok(4) that] new [OF context_bounds [OF that]] by (simp add: run)
  show "pc (run xl swtch h) = load64 (pmem h) new"
    using new [of 0] by (simp add: run)
  show "load64 (pmem (run xl swtch h)) (old + of_nat k) = regs h r" if "(r, k) \<in> set context_slots"
    using load_put_slot [OF assms(1) slots_ok(1) that, of "regs h" "pmem h"] by (simp add: run m_def)
  show "pmem (run xl swtch h) x = pmem h x" if "\<not> within old 112 x"
    using out [OF that] by (simp add: run)
qed

text \<open>
  C28. \<^verbatim>\<open>swtch\<close> switches threads and back. It continues with the registers and at the return address
  that the new context holds and writes only to the old context. When any thread later switches
  back, with that context untouched in between, the thread continues where it called \<^verbatim>\<open>swtch\<close> with
  its return address, stack pointer and callee-saved registers as they were.
\<close>

theorem swtch_switches_and_returns:
  assumes "framed (xl (csrs h SATP)) (regs h A0) old 112" "framed (xl (csrs h SATP)) (regs h A1) new 112" "apart old new"
    and "framed (xl (csrs g SATP)) (regs g A0) other 112" "framed (xl (csrs g SATP)) (regs g A1) old 112" "apart other old"
    and "\<forall>x. within old 112 x \<longrightarrow> pmem g x = pmem (run xl swtch h) x"
  shows "(\<forall>(r, k) \<in> set context_slots. regs (run xl swtch h) r = load64 (pmem h) (new + of_nat k) \<and> regs (run xl swtch g) r = regs h r)
    \<and> pc (run xl swtch h) = load64 (pmem h) new \<and> pc (run xl swtch g) = regs h RA
    \<and> (\<forall>x. \<not> within old 112 x \<longrightarrow> pmem (run xl swtch h) x = pmem h x)"
proof -
  note there = swtch_effect [where xl = xl and h = h, OF assms(1-3)] and return = swtch_effect [where xl = xl and h = g, OF assms(4-6)]
  have same: "load64 (pmem g) (old + of_nat k) = load64 (pmem (run xl swtch h)) (old + of_nat k)" if "k + 8 \<le> 112" for k
    by (rule load_frame_cong [OF assms(5) that]) (use assms(7) in blast)
  have regs: "regs (run xl swtch g) r = regs h r" if "(r, k) \<in> set context_slots" for r k
    using return(1) [OF that] same [OF context_bounds [OF that]] there(3) [OF that] by simp
  have "(RA, 0) \<in> set context_slots"
    by (simp add: context_slots_def)
  then have "pc (run xl swtch g) = regs h RA"
    using return(2) same [of 0] there(3) [of RA 0] by simp
  then show ?thesis
    using there(1,2,4) regs by blast
qed

definition some_hart :: "(reg \<Rightarrow> uint64) \<Rightarrow> memory \<Rightarrow> hart" where
  "some_hart f m = \<lparr>regs = f, csrs = (\<lambda>_. 0), pc = 0, pmem = m\<rparr>"

theorem swtch_switches_and_returns_witness:
  "regs (run (\<lambda>_ a. a) swtch (some_hart ((\<lambda>_. 0)(A0 := 0x2000, A1 := 0x1000))
     (pmem (run (\<lambda>_ a. a) swtch (some_hart ((\<lambda>_. 7)(A0 := 0x1000, A1 := 0x2000)) (\<lambda>_. 0)))))) S3 = 7"
proof -
  let ?h = "some_hart ((\<lambda>_. 7)(A0 := 0x1000, A1 := 0x2000)) (\<lambda>_. 0)"
  let ?g = "some_hart ((\<lambda>_. 0)(A0 := 0x2000, A1 := 0x1000)) (pmem (run (\<lambda>_ a. a) swtch ?h))"
  have "apart 0x1000 0x2000" "apart 0x2000 0x1000"
    by (auto simp: apart_def within_def unat_sub_if' split: if_splits)
  moreover have "framed (\<lambda>a. a) 0x1000 0x1000 112" "framed (\<lambda>a. a) 0x2000 0x2000 112"
    by (simp_all add: framed_def)
  ultimately have "\<forall>(r, k) \<in> set context_slots. regs (run (\<lambda>_ a. a) swtch ?g) r = regs ?h r"
    using swtch_switches_and_returns [of "\<lambda>_ a. a" ?h "0x1000" "0x2000" ?g "0x2000"] by (auto simp: some_hart_def)
  moreover have "(S3, 40) \<in> set context_slots"
    by (simp add: context_slots_def)
  ultimately have "regs (run (\<lambda>_ a. a) swtch ?g) S3 = regs ?h S3"
    by blast
  then show ?thesis
    by (simp add: some_hart_def)
qed

section \<open>Traps from user space\<close>

definition user_slots :: "(reg \<times> nat) list" where
  "user_slots = frame_slots @ [(A0, 112)]"

lemma user_slots_ok [simp]: "slots 288 (map snd user_slots)" "distinct (map fst user_slots)"
  by (simp_all add: slots_def user_slots_def frame_slots_def)

lemma user_bounds: "(r, k) \<in> set user_slots \<Longrightarrow> k + 8 \<le> 288"
  by (auto simp: user_slots_def frame_slots_def)

lemma all_regs_saved: "\<exists>k. (r, k) \<in> set user_slots"
  by (cases r) (auto simp: user_slots_def frame_slots_def)

lemma put_regs_cong: "(\<And>r. r \<in> fst ` set ps \<Longrightarrow> f r = g r) \<Longrightarrow> put_regs f pa ps = put_regs g pa ps"
  unfolding put_regs_def by (rule ext) (rule fold_cong, force+)

lemma uservec_run:
  assumes "framed (xl (csrs h SATP)) TRAPFRAME tf 288"
  defines "m \<equiv> put_regs (regs h) tf user_slots (pmem h)"
  shows "pmem (run xl (uservec a) h) = m" "regs (run xl (uservec a) h) SP = load64 m (tf + 8)"
    "regs (run xl (uservec a) h) TP = load64 m (tf + 32)" "pc (run xl (uservec a) h) = load64 m (tf + 16)"
    "csrs (run xl (uservec a) h) SATP = load64 m tf" "regs (run xl (uservec a) h) RA = a"
proof -
  define h1 where "h1 = h\<lparr>csrs := (csrs h)(SSCRATCH := regs h A0), regs := (regs h)(A0 := TRAPFRAME)\<rparr>"
  let ?m = "put_regs (regs h1) tf frame_slots (pmem h)"
  have x: "xl (csrs h SATP) (TRAPFRAME + of_nat k) = tf + of_nat k" if "k < 288" for k
    using assms(1) that by (simp add: framed_def)
  have "run xl (saves A0 frame_slots) h1 = h1\<lparr>pmem := ?m\<rparr>"
    by (subst run_saves [where pa = tf and n = 288]) (use assms(1) slots_bound [OF slots_ok(2)] in \<open>simp_all add: h1_def\<close>)
  moreover have "?m = put_regs (regs h) tf frame_slots (pmem h)"
    by (rule fun_cong [OF put_regs_cong]) (auto simp: h1_def frame_slots_def)
  then have "store64 ?m (tf + 112) (regs h A0) = m"
    by (simp add: m_def user_slots_def put_regs_def)
  ultimately show "pmem (run xl (uservec a) h) = m" "regs (run xl (uservec a) h) SP = load64 m (tf + 8)"
    "regs (run xl (uservec a) h) TP = load64 m (tf + 32)" "pc (run xl (uservec a) h) = load64 m (tf + 16)"
    "csrs (run xl (uservec a) h) SATP = load64 m tf" "regs (run xl (uservec a) h) RA = a"
    using x [of 112] x [of 8] x [of 32] x [of 16] x [of 0] by (simp_all add: code_slots flip: h1_def) (simp_all add: h1_def)
qed

lemma userret_run:
  assumes "framed (xl (regs g A0)) TRAPFRAME tf 288"
  shows "(r, k) \<in> set user_slots \<Longrightarrow> regs (run xl userret g) r = load64 (pmem g) (tf + of_nat k)"
    "pc (run xl userret g) = csrs g SEPC" "csrs (run xl userret g) SATP = regs g A0" "pmem (run xl userret g) = pmem g"
proof -
  define g1 where "g1 = g\<lparr>csrs := (csrs g)(SATP := regs g A0), regs := (regs g)(A0 := TRAPFRAME)\<rparr>"
  let ?f = "get_regs (pmem g) tf frame_slots (regs g1)"
  have x: "xl (regs g A0) (TRAPFRAME + 112) = tf + 112"
    using assms [unfolded framed_def] by (auto dest!: conjunct1 dest: spec [of _ "112 :: nat"])
  have l: "run xl (loads A0 frame_slots) g1 = g1\<lparr>regs := ?f\<rparr>"
    by (subst run_loads [where pa = tf and n = 288])
      (use assms slots_bound [OF slots_ok(2)] in \<open>simp_all add: g1_def frame_slots_def\<close>)
  moreover have a0: "?f A0 = TRAPFRAME"
    by (simp add: get_regs_apply) (simp add: frame_slots_def g1_def)
  ultimately have t: "run xl userret g = g1\<lparr>regs := ?f(A0 := load64 (pmem g) (tf + 112)), pc := csrs g SEPC\<rparr>"
    using x by (simp add: code_slots flip: g1_def) (simp add: g1_def)
  then show "pc (run xl userret g) = csrs g SEPC" "csrs (run xl userret g) SATP = regs g A0" "pmem (run xl userret g) = pmem g"
    by (simp_all add: g1_def)
  show "regs (run xl userret g) r = load64 (pmem g) (tf + of_nat k)" if "(r, k) \<in> set user_slots"
  proof (cases "r = A0")
    case True
    then have "k = 112"
      using that by (auto simp: user_slots_def frame_slots_def)
    with True t show ?thesis by simp
  next
    case False
    then have "(r, k) \<in> set frame_slots"
      using that by (simp add: user_slots_def)
    with False t show ?thesis
      using get_slot [OF slots_ok(5)] by simp
  qed
qed

text \<open>
  C29. A trap from user space and the return from it preserve the user's registers. \<^verbatim>\<open>uservec\<close> saves all
  of them in the trapframe and enters the kernel with the stack, hart id, page table and handler that
  the trapframe holds, set to return to \<^verbatim>\<open>userret\<close>. \<^verbatim>\<open>userret\<close> loads every register from its place in
  the trapframe and continues at \<^verbatim>\<open>sepc\<close> under the user's page table; so what the kernel has not
  changed in the trapframe is as the user left it.
\<close>

theorem trampoline_preserves_user_registers:
  assumes "framed (xl (csrs h SATP)) TRAPFRAME tf 288" "framed (xl (regs g A0)) TRAPFRAME tf 288"
    and "\<forall>(r, k) \<in> set user_slots. r \<notin> changed \<longrightarrow> load64 (pmem g) (tf + of_nat k) = load64 (pmem (run xl (uservec a) h)) (tf + of_nat k)"
  shows "(\<forall>r. r \<notin> changed \<longrightarrow> regs (run xl userret g) r = regs h r)
    \<and> (\<forall>(r, k) \<in> set user_slots. regs (run xl userret g) r = load64 (pmem g) (tf + of_nat k))
    \<and> pc (run xl userret g) = csrs g SEPC \<and> csrs (run xl userret g) SATP = regs g A0 \<and> pmem (run xl userret g) = pmem g
    \<and> regs (run xl (uservec a) h) SP = load64 (pmem h) (tf + 8) \<and> regs (run xl (uservec a) h) TP = load64 (pmem h) (tf + 32)
    \<and> pc (run xl (uservec a) h) = load64 (pmem h) (tf + 16) \<and> csrs (run xl (uservec a) h) SATP = load64 (pmem h) tf
    \<and> regs (run xl (uservec a) h) RA = a"
proof -
  note v = uservec_run [where xl = xl and h = h and a = a, OF assms(1)] and r = userret_run [where xl = xl and g = g, OF assms(2)]
  let ?m = "put_regs (regs h) tf user_slots (pmem h)"
  have saved: "load64 ?m (tf + of_nat k) = regs h r" if "(r, k) \<in> set user_slots" for r k
    by (rule load_put_slot [OF assms(1) user_slots_ok(1) that])
  have kept: "load64 ?m (tf + of_nat k) = load64 (pmem h) (tf + of_nat k)" if "k \<in> {0, 8, 16, 32}" for k
    using load_put_regs [OF assms(1) user_slots_ok(1), of k "regs h" "pmem h"] that
    by (auto simp: user_slots_def frame_slots_def)
  have "regs (run xl userret g) q = regs h q" if "q \<notin> changed" for q
  proof -
    obtain k where k: "(q, k) \<in> set user_slots"
      using all_regs_saved by blast
    then show ?thesis
      using r(1) [OF k] assms(3) saved [OF k] v(1) that by auto
  qed
  moreover have "\<forall>(q, k) \<in> set user_slots. regs (run xl userret g) q = load64 (pmem g) (tf + of_nat k)"
    using r(1) by blast
  ultimately show ?thesis
    using v r(2-4) kept [of 0] kept [of 8] kept [of 16] kept [of 32] by simp
qed

theorem trampoline_preserves_user_registers_witness:
  "regs (run (\<lambda>_ a. a) userret (some_hart (\<lambda>_. 0) (pmem (run (\<lambda>_ a. a) (uservec 0x40) (some_hart (\<lambda>_. 7) (\<lambda>_. 0)))))) = (\<lambda>_. 7)"
proof -
  let ?h = "some_hart (\<lambda>_. 7) (\<lambda>_. 0)"
  let ?g = "some_hart (\<lambda>_. 0) (pmem (run (\<lambda>_ a. a) (uservec 0x40) ?h))"
  have "framed (\<lambda>a. a) TRAPFRAME TRAPFRAME 288"
    by (simp add: framed_def TRAPFRAME_def TRAMPOLINE_def MAXVA_def PGSIZE_def)
  then have "\<forall>r. regs (run (\<lambda>_ a. a) userret ?g) r = regs ?h r"
    using trampoline_preserves_user_registers [of "\<lambda>_ a. a" ?h TRAPFRAME ?g "{}" "0x40"] by (auto simp: some_hart_def)
  then show ?thesis
    by (auto simp: some_hart_def)
qed

section \<open>Traps in the kernel\<close>

definition callee_saved :: "reg set" where
  "callee_saved = {SP, S0, S1, S2, S3, S4, S5, S6, S7, S8, S9, S10, S11}"

lemma saved_by_someone: "r \<in> callee_saved \<or> (\<exists>k. (r, k) \<in> set kernelVec_slots)"
  by (cases r) (auto simp: callee_saved_def kernelVec_slots_def)

lemma kernelVec_save_run:
  assumes "framed (xl (csrs h SATP)) (regs h SP - 256) pa 256"
  defines "f \<equiv> (regs h)(SP := regs h SP - 256)"
  shows "run xl kernelVec_save h = h\<lparr>regs := f, pmem := put_regs f pa kernelVec_slots (pmem h)\<rparr>"
  unfolding code_slots
  by (simp, subst run_saves [where pa = pa and n = 256])
    (use assms slots_bound [OF slots_ok(3)] in simp_all)

lemma kernelVec_restore_run:
  assumes "framed (xl (csrs u SATP)) (regs u SP) pa 256"
  defines "f \<equiv> get_regs (pmem u) pa kernelVec_slots (regs u)"
  shows "run xl kernelVec_restore u = u\<lparr>regs := f(SP := regs u SP + 256), pc := csrs u SEPC\<rparr>"
proof -
  have "run xl (loads SP kernelVec_slots) u = u\<lparr>regs := f\<rparr>"
    unfolding f_def
    by (subst run_loads [where pa = pa and n = 256])
      (use assms slots_bound [OF slots_ok(3)] in \<open>simp_all add: kernelVec_slots_def\<close>)
  moreover have "f SP = regs u SP"
    unfolding f_def by (simp add: get_regs_apply) (simp add: kernelVec_slots_def)
  ultimately show ?thesis
    by (simp add: code_slots)
qed

text \<open>
  C30. A trap in the kernel is transparent to the interrupted code: if \<^verbatim>\<open>kernelTrap\<close> keeps the registers
  that the calling convention assigns to the callee, the stack above it and \<^verbatim>\<open>satp\<close>, then \<^verbatim>\<open>kernelVec\<close>
  continues at \<^verbatim>\<open>sepc\<close> with every register as it was. That includes \<^verbatim>\<open>tp\<close>: whatever hart the handler
  returns on, the hart id is the one of the hart that took the trap.
\<close>

theorem kernelVec_preserves_registers:
  assumes "framed (xl (csrs h SATP)) (regs h SP - 256) pa 256"
    and "\<forall>r \<in> callee_saved. regs u r = regs (run xl kernelVec_save h) r"
    and "\<forall>a. within pa 256 a \<longrightarrow> pmem u a = pmem (run xl kernelVec_save h) a"
    and "csrs u SATP = csrs h SATP"
  shows "regs (run xl kernelVec_restore u) = regs h \<and> pc (run xl kernelVec_restore u) = csrs u SEPC
    \<and> pmem (run xl kernelVec_restore u) = pmem u"
proof -
  let ?f = "(regs h)(SP := regs h SP - 256)"
  note s = kernelVec_save_run [where xl = xl and h = h, OF assms(1)]
  have sp: "regs u SP = regs h SP - 256" and kept: "r \<in> callee_saved - {SP} \<Longrightarrow> regs u r = regs h r" for r
    using assms(2) by (auto simp: s callee_saved_def)
  have fr: "framed (xl (csrs u SATP)) (regs u SP) pa 256"
    using assms(1,4) sp by simp
  have slot: "load64 (pmem u) (pa + of_nat k) = ?f r" if "(r, k) \<in> set kernelVec_slots" for r k
  proof -
    have "k + 8 \<le> 256"
      using that by (auto simp: kernelVec_slots_def)
    then have "load64 (pmem u) (pa + of_nat k) = load64 (put_regs ?f pa kernelVec_slots (pmem h)) (pa + of_nat k)"
      using assms(3) by (intro load_frame_cong [OF assms(1)]) (simp_all add: s)
    then show ?thesis
      using load_put_slot [OF assms(1) slots_ok(3) that] by simp
  qed
  have "regs (run xl kernelVec_restore u) r = regs h r" for r
  proof (cases "r \<in> fst ` set kernelVec_slots")
    case True
    then obtain k where k: "(r, k) \<in> set kernelVec_slots"
      by force
    then have "r \<noteq> SP"
      by (auto simp: kernelVec_slots_def)
    then show ?thesis
      using get_slot [OF slots_ok(6) k] slot [OF k] by (simp add: kernelVec_restore_run [where xl = xl, OF fr])
  next
    case False
    then have "r \<in> callee_saved" "map_of kernelVec_slots r = None"
      using saved_by_someone [of r] by (force simp: map_of_eq_None_iff)+
    then show ?thesis
      using kept [of r] sp by (auto simp: kernelVec_restore_run [where xl = xl, OF fr] get_regs_apply)
  qed
  then show ?thesis
    by (auto simp: kernelVec_restore_run [where xl = xl, OF fr])
qed

theorem kernelVec_preserves_registers_witness:
  "let t = run (\<lambda>_ a. a) kernelVec_save (some_hart (\<lambda>_. 0x1000) (\<lambda>_. 0))
   in regs (run (\<lambda>_ a. a) kernelVec_restore (t\<lparr>regs := (regs t)(TP := 1, RA := 2, A0 := 3)\<rparr>)) = (\<lambda>_. 0x1000)"
proof -
  let ?h = "some_hart (\<lambda>_. 0x1000) (\<lambda>_. 0)"
  have fr: "framed (\<lambda>a. a) (regs ?h SP - 256) 0xf00 256"
    by (simp add: framed_def some_hart_def)
  define t where "t = run (\<lambda>_ a. a) kernelVec_save ?h"
  have "csrs t = csrs ?h"
    using kernelVec_save_run [where xl = "\<lambda>_ a. a" and h = ?h, OF fr] by (simp add: t_def)
  then have "regs (run (\<lambda>_ a. a) kernelVec_restore (t\<lparr>regs := (regs t)(TP := 1, RA := 2, A0 := 3)\<rparr>)) = regs ?h"
    using kernelVec_preserves_registers [where xl = "\<lambda>_ a. a" and h = ?h and u = "t\<lparr>regs := (regs t)(TP := 1, RA := 2, A0 := 3)\<rparr>", OF fr]
    by (simp add: callee_saved_def t_def)
  then show ?thesis
    by (simp add: t_def some_hart_def)
qed

end
