(* ===== verification/Buddy.thy ===== *)
theory Buddy
  imports Kalloc Cstring Ring
begin

text \<open>
  The buddy allocator, \<^verbatim>\<open>kernel/mm/buddy.c\<close>. Its metadata lies at the start of the memory it manages: one
  \<^verbatim>\<open>struct sz_info\<close> per size class, then the bitmaps. The free lists are lists of list.c whose nodes are
  the first bytes of the free blocks; so everything happens in the byte memory of the kernel. Size classes are
  natural numbers, since \<^verbatim>\<open>nsizes\<close> is positive once it is set. Messages printed on the console are left out.
\<close>

section \<open>State\<close>

record buddy = kmem +
  nsizes :: nat
  bd_base :: uint64
  bd_sizes :: uint64

definition LEAF_SIZE :: int where
  "LEAF_SIZE = 4096"

definition BLK_SIZE :: "nat \<Rightarrow> uint64" where
  "BLK_SIZE k = push_bit k 1 * word_of_int LEAF_SIZE"

abbreviation MAXSIZE :: "'z buddy_scheme \<Rightarrow> nat" where
  "MAXSIZE s \<equiv> nsizes s - 1"

definition HEAP_SIZE :: "'z buddy_scheme \<Rightarrow> uint64" where
  "HEAP_SIZE s = BLK_SIZE (MAXSIZE s)"

definition NBLK :: "nat \<Rightarrow> 'z buddy_scheme \<Rightarrow> uint64" where
  "NBLK k s = HEAP_SIZE s div BLK_SIZE k"

text \<open>\<^verbatim>\<open>struct sz_info\<close>, 32 bytes: the list head, then the pointers \<^verbatim>\<open>alloc\<close> and \<^verbatim>\<open>split\<close>.\<close>

definition sz_free :: "'z buddy_scheme \<Rightarrow> nat \<Rightarrow> uint64" where
  "sz_free s k = bd_sizes s + of_nat (32 * k)"

definition sz_alloc :: "'z buddy_scheme \<Rightarrow> nat \<Rightarrow> uint64" where
  "sz_alloc s k = load64 (mem s) (sz_free s k + 16)"

definition sz_split :: "'z buddy_scheme \<Rightarrow> nat \<Rightarrow> uint64" where
  "sz_split s k = load64 (mem s) (sz_free s k + 24)"

definition set_alloc :: "nat \<Rightarrow> uint64 \<Rightarrow> 'z buddy_scheme \<Rightarrow> 'z buddy_scheme" where
  "set_alloc k v s = s\<lparr>mem := store64 (mem s) (sz_free s k + 16) v\<rparr>"

definition set_split :: "nat \<Rightarrow> uint64 \<Rightarrow> 'z buddy_scheme \<Rightarrow> 'z buddy_scheme" where
  "set_split k v s = s\<lparr>mem := store64 (mem s) (sz_free s k + 24) v\<rparr>"

definition on_mem :: "(memory \<Rightarrow> memory) \<Rightarrow> ('z buddy_scheme, unit) oper" where
  "on_mem f = modify (\<lambda>s. s\<lparr>mem := f (mem s)\<rparr>)"

section \<open>Blocks and bits\<close>

text \<open>The offset is computed as a C \<^verbatim>\<open>int\<close>.\<close>

definition addr :: "nat \<Rightarrow> int \<Rightarrow> 'z buddy_scheme \<Rightarrow> uint64" where
  "addr k bi s = (let n = to_int (word_of_int bi * BLK_SIZE k) in bd_base s + word_of_int n)"

definition blk_index :: "nat \<Rightarrow> uint64 \<Rightarrow> 'z buddy_scheme \<Rightarrow> int" where
  "blk_index k a s = to_int ((a - bd_base s) div BLK_SIZE k)"

definition blk_index_next :: "nat \<Rightarrow> uint64 \<Rightarrow> 'z buddy_scheme \<Rightarrow> int" where
  "blk_index_next k a s =
     (let n = blk_index k a s in if (a - bd_base s) mod BLK_SIZE k \<noteq> 0 then n + 1 else n)"

definition bit_isset :: "uint64 \<Rightarrow> int \<Rightarrow> memory \<Rightarrow> bool" where
  "bit_isset bitmap index m \<longleftrightarrow>
     (let b = m (bitmap + word_of_int (index sdiv 8)); k = ucast (shl1 (index smod 8)) in b AND k = k)"

definition bit_set :: "uint64 \<Rightarrow> int \<Rightarrow> memory \<Rightarrow> memory" where
  "bit_set bitmap index m =
     (let a = bitmap + word_of_int (index sdiv 8); k = ucast (shl1 (index smod 8)) in m(a := m a OR k))"

definition bit_clear :: "uint64 \<Rightarrow> int \<Rightarrow> memory \<Rightarrow> memory" where
  "bit_clear bitmap index m =
     (let a = bitmap + word_of_int (index sdiv 8); k = ucast (shl1 (index smod 8)) in m(a := m a AND NOT k))"

definition bd_set_alloc :: "nat \<Rightarrow> int \<Rightarrow> ('z buddy_scheme, unit) oper" where
  "bd_set_alloc k bi = bind (gets (\<lambda>s. sz_alloc s k)) (\<lambda>b. on_mem (bit_set b bi))"

definition bd_set_split :: "nat \<Rightarrow> int \<Rightarrow> ('z buddy_scheme, unit) oper" where
  "bd_set_split k bi = bind (gets (\<lambda>s. sz_split s k)) (\<lambda>b. on_mem (bit_set b bi))"

definition bd_push :: "nat \<Rightarrow> uint64 \<Rightarrow> ('z buddy_scheme, unit) oper" where
  "bd_push k a = bind (gets (\<lambda>s. sz_free s k)) (\<lambda>lst. on_mem (lst_push lst a))"

section \<open>Initialisation\<close>

definition bd_initfree_pair :: "nat \<Rightarrow> int \<Rightarrow> ('z buddy_scheme, int) oper" where
  "bd_initfree_pair k bi =
     (let buddy = (if bi smod 2 = 0 then bi + 1 else bi - 1) in
      bind (gets (\<lambda>s. bit_isset (sz_alloc s k) bi (mem s))) (\<lambda>a.
      bind (gets (\<lambda>s. bit_isset (sz_alloc s k) buddy (mem s))) (\<lambda>b.
      if a \<noteq> b
      then andthen (bind (gets (addr k (if a then buddy else bi))) (bd_push k))
        (ret (to_int (BLK_SIZE k)))
      else ret 0)))"

primrec bd_initfree_loop :: "nat list \<Rightarrow> uint64 \<Rightarrow> uint64 \<Rightarrow> int \<Rightarrow> ('z buddy_scheme, int) oper" where
  "bd_initfree_loop [] bd_left bd_right free = ret free"
| "bd_initfree_loop (k # ks) bd_left bd_right free =
     bind (gets (blk_index_next k bd_left)) (\<lambda>left.
     bind (gets (blk_index k bd_right)) (\<lambda>right.
     bind (bd_initfree_pair k left) (\<lambda>f.
     if right \<le> left then bd_initfree_loop ks bd_left bd_right (free + f)
     else bind (bd_initfree_pair k right) (\<lambda>g.
       bd_initfree_loop ks bd_left bd_right (free + f + g)))))"

definition bd_initfree :: "uint64 \<Rightarrow> uint64 \<Rightarrow> ('z buddy_scheme, int) oper" where
  "bd_initfree bd_left bd_right =
     bind (gets MAXSIZE) (\<lambda>n. bd_initfree_loop [0..<n] bd_left bd_right 0)"

definition bd_mark :: "uint64 \<Rightarrow> uint64 \<Rightarrow> ('z buddy_scheme, unit) oper" where
  "bd_mark start stop =
     (if start mod word_of_int LEAF_SIZE \<noteq> 0 \<or> stop mod word_of_int LEAF_SIZE \<noteq> 0 then panic ''bd_mark''
      else bind (gets nsizes) (\<lambda>n. forM [0..<n] (\<lambda>k.
        bind (gets (blk_index k start)) (\<lambda>bi.
        bind (gets (blk_index_next k stop)) (\<lambda>bj.
        forM [bi..bj - 1] (\<lambda>bi. andthen (whenM (0 < k) (bd_set_split k bi)) (bd_set_alloc k bi)))))))"

definition bd_mark_data_structures :: "uint64 \<Rightarrow> ('z buddy_scheme, int) oper" where
  "bd_mark_data_structures p =
     bind (gets bd_base) (\<lambda>base.
     andthen (bd_mark base p) (ret (to_int (p - base))))"

definition bd_mark_unavailable :: "uint64 \<Rightarrow> uint64 \<Rightarrow> ('z buddy_scheme, int) oper" where
  "bd_mark_unavailable end' left =
     bind (gets bd_base) (\<lambda>base.
     bind (gets HEAP_SIZE) (\<lambda>heap.
     let u = to_int (heap - (end' - base));
         u = (if 0 < u then ((u - 1) sdiv LEAF_SIZE + 1) * LEAF_SIZE else u);
         bd_end = base + heap - word_of_int u
     in andthen (bd_mark bd_end (base + heap)) (ret u)))"

definition bitmap_bytes :: "nat \<Rightarrow> 'z buddy_scheme \<Rightarrow> int" where
  "bitmap_bytes k s = to_int (((NBLK k s - 1) div 8 + 1) * 8 div 8)"

text \<open>The two loops that lay out the bitmaps; \<open>p\<close> runs through the memory behind \<^verbatim>\<open>bd_sizes\<close>.\<close>

primrec bd_init_alloc :: "nat list \<Rightarrow> uint64 \<Rightarrow> ('z buddy_scheme, uint64) oper" where
  "bd_init_alloc [] p = ret p"
| "bd_init_alloc (k # ks) p =
     andthen (bind (gets (\<lambda>s. sz_free s k)) (\<lambda>lst. on_mem (lst_init lst)))
     (bind (gets (bitmap_bytes k)) (\<lambda>sz.
      andthen (modify (set_alloc k p))
      (andthen (on_mem (\<lambda>m. memset m p 0 (word_of_int sz)))
      (bd_init_alloc ks (p + word_of_int sz)))))"

primrec bd_init_split :: "nat list \<Rightarrow> uint64 \<Rightarrow> ('z buddy_scheme, uint64) oper" where
  "bd_init_split [] p = ret p"
| "bd_init_split (k # ks) p =
     bind (gets (bitmap_bytes k)) (\<lambda>sz.
     andthen (modify (set_split k p))
     (andthen (on_mem (\<lambda>m. memset m p 0 (word_of_int sz)))
     (bd_init_split ks (p + word_of_int sz))))"

definition bd_init :: "uint64 \<Rightarrow> uint64 \<Rightarrow> ('z buddy_scheme, unit) oper" where
  "bd_init start end' =
     (let p = PGROUNDUP start;
          n = nat (log2 (word_of_int (sint (end' - p) sdiv LEAF_SIZE))) + 1;
          n = (if sint (BLK_SIZE (n - 1)) < sint (end' - p) then n + 1 else n)
      in andthen (modify (initlock LBuddy ''buddy''))
      (andthen (modify (\<lambda>s. s\<lparr>nsizes := n, bd_base := p, bd_sizes := p\<rparr>))
      (andthen (on_mem (\<lambda>m. memset m p 0 (of_nat (32 * n))))
      (bind (bd_init_alloc [0..<n] (p + of_nat (32 * n))) (\<lambda>p.
       bind (bd_init_split [1..<n] p) (\<lambda>p.
       let p = ((p - 1) div word_of_int LEAF_SIZE + 1) * word_of_int LEAF_SIZE in
       bind (bd_mark_data_structures p) (\<lambda>meta.
       bind (bd_mark_unavailable end' p) (\<lambda>unavailable.
       bind (gets bd_base) (\<lambda>base.
       bind (gets HEAP_SIZE) (\<lambda>heap.
       bind (bd_initfree p (base + heap - word_of_int unavailable)) (\<lambda>free.
       whenM (free \<noteq> sint heap - meta - unavailable) (panic ''bd_init: free mem''))))))))))))"

section \<open>Allocation\<close>

text \<open>\<^verbatim>\<open>size\<close> can wrap around to zero, and then the loop does not end.\<close>

partial_function (option) firstk_loop :: "uint64 \<Rightarrow> nat \<Rightarrow> uint64 \<Rightarrow> nat option" where
  "firstk_loop sz k n = (if sz < n then firstk_loop (sz * 2) (k + 1) n else Some k)"

definition firstk :: "uint64 \<Rightarrow> nat option" where
  "firstk n = firstk_loop (word_of_int LEAF_SIZE) 0 n"

text \<open>One round of splitting: the block at \<open>p\<close> of class \<open>k\<close> becomes two of class \<open>k - 1\<close>.\<close>

definition bd_split :: "uint64 \<Rightarrow> nat \<Rightarrow> ('z buddy_scheme, unit) oper" where
  "bd_split p k =
     andthen (bind (gets (blk_index k p)) (bd_set_split k))
     (andthen (bind (gets (blk_index (k - 1) p)) (bd_set_alloc (k - 1)))
     (bd_push (k - 1) (p + BLK_SIZE (k - 1))))"

definition bd_pop :: "nat \<Rightarrow> ('z buddy_scheme, uint64) oper" where
  "bd_pop k s = (case lst_pop (sz_free s k) (mem s) of
     Ret p m \<Rightarrow> Ret p (s\<lparr>mem := m\<rparr>) | Fault e m \<Rightarrow> Fault e (s\<lparr>mem := m\<rparr>))"

definition bd_malloc :: "uint64 \<Rightarrow> ('z buddy_scheme, uint64) oper" where
  "bd_malloc nbytes =
     andthen (acquire LBuddy)
     (case firstk nbytes of
        None \<Rightarrow> Fault Diverge
      | Some fk \<Rightarrow>
          bind (gets (\<lambda>s. find (\<lambda>k. \<not> lst_empty (sz_free s k) (mem s)) [fk..<nsizes s])) (\<lambda>r.
          case r of
            None \<Rightarrow> andthen (release LBuddy) (ret 0)
          | Some k \<Rightarrow>
              bind (bd_pop k) (\<lambda>p.
              andthen (bind (gets (blk_index k p)) (bd_set_alloc k))
              (andthen (forM (rev [fk + 1..<k + 1]) (bd_split p))
              (andthen (release LBuddy)
              (ret p))))))"

section \<open>The search for a size class\<close>

definition bsz :: "nat \<Rightarrow> nat" where
  "bsz k = 2 ^ k * 4096"

lemma bsz_simps [simp]: "0 < bsz k" "bsz (Suc k) = 2 * bsz k" "bsz 0 = 4096"
  by (simp_all add: bsz_def)

lemma bsz_mono: "j \<le> k \<Longrightarrow> bsz j \<le> bsz k"
  by (simp add: bsz_def power_increasing)

lemma bsz_dvd: "j \<le> k \<Longrightarrow> bsz j dvd bsz k"
  by (auto simp: bsz_def intro!: mult_dvd_mono le_imp_power_dvd)

lemma BLK_SIZE_unat: "k < 52 \<Longrightarrow> unat (BLK_SIZE k) = bsz k"
proof -
  assume k: "k < 52"
  have "bsz k \<le> bsz 51"
    by (rule bsz_mono) (use k in simp)
  then have lt: "bsz k < 2 ^ 64"
    by (simp add: bsz_def)
  have "BLK_SIZE k = of_nat (bsz k)"
    by (simp add: BLK_SIZE_def LEAF_SIZE_def bsz_def push_bit_eq_mult)
  with lt show ?thesis
    by (simp add: unat_of_nat)
qed

lemma firstk_loop_pos:
  assumes "firstk_loop sz k n = Some j"
  shows "0 < n \<longrightarrow> sz \<noteq> 0"
proof (rule firstk_loop.raw_induct [rotated, OF assms])
  fix f sz k n j
  assume IH: "\<And>a b c y. f a b c = Some y \<Longrightarrow> 0 < c \<longrightarrow> a \<noteq> (0 :: uint64)"
    and r: "(if sz < n then f (sz * 2) (k + 1) n else Some k) = Some j"
  show "0 < n \<longrightarrow> sz \<noteq> 0"
  proof (cases "sz < n")
    case True
    with r IH [of "sz * 2" "k + 1" n j] show ?thesis by auto
  next
    case False
    then show ?thesis by auto
  qed
qed

lemma firstk_loop_spec:
  assumes "unat sz = bsz k" "k < 52"
  shows "if n \<le> BLK_SIZE 51 then \<exists>j \<ge> k. j < 52 \<and> firstk_loop sz k n = Some j \<and> unat n \<le> bsz j \<and> (k < j \<longrightarrow> bsz (j - 1) < unat n)
    else firstk_loop sz k n = None"
  using assms
proof (induction "51 - k" arbitrary: sz k)
  case 0
  then have k: "k = 51"
    by simp
  with 0 have sz: "sz = BLK_SIZE 51"
    using BLK_SIZE_unat [of 51] by (simp add: word_unat_eq_iff)
  show ?case
  proof (cases "n \<le> BLK_SIZE 51")
    case True
    then have "unat n \<le> bsz 51"
      using BLK_SIZE_unat [of 51] by (simp add: word_le_nat_alt)
    with True k sz show ?thesis
      by (auto simp: firstk_loop.simps [of "BLK_SIZE 51" 51] intro!: exI [of _ 51])
  next
    case False
    then have "0 < n"
      by (cases "n = 0") (simp_all add: word_gt_0)
    moreover have "sz * 2 = 0"
      unfolding sz by (simp add: BLK_SIZE_def LEAF_SIZE_def)
    ultimately have "firstk_loop (sz * 2) (k + 1) n = None"
      using firstk_loop_pos by fastforce
    with False k sz show ?thesis
      by (simp add: firstk_loop.simps [of "BLK_SIZE 51" 51] not_le)
  qed
next
  case (Suc x)
  then have k: "Suc k < 52" "x = 51 - Suc k"
    by auto
  have "bsz (Suc k) \<le> bsz 51"
    by (rule bsz_mono) (use k in simp)
  then have "unat (sz * 2) = bsz (Suc k)"
    using Suc.prems(1) by (simp add: unat_word_ariths bsz_def)
  note IH = Suc.hyps(1) [OF k(2) this k(1)]
  show ?case
  proof (cases "sz < n")
    case True
    then have "bsz k < unat n"
      using Suc.prems(1) by (simp add: word_less_nat_alt)
    with IH True show ?thesis
      apply (simp add: firstk_loop.simps [of sz k] del: bsz_simps split: if_splits)
      apply (elim exE conjE)
      subgoal for j by (rule exI [of _ j], cases "j = Suc k") auto
      done
  next
    case False
    then have "unat n \<le> bsz k"
      using Suc.prems(1) by (simp add: word_less_nat_alt)
    moreover have "n \<le> BLK_SIZE 51"
      using calculation bsz_mono [of k 51] Suc.prems(2) BLK_SIZE_unat [of 51] by (simp add: word_le_nat_alt)
    ultimately show ?thesis
      using False Suc.prems(2) by (auto simp: firstk_loop.simps [of sz k])
  qed
qed

lemma firstk_spec:
  "if unat n \<le> 2 ^ 63 then \<exists>k. firstk n = Some k \<and> unat n \<le> bsz k \<and> (\<forall>j < k. bsz j < unat n)
   else firstk n = None"
proof -
  have sz: "unat (word_of_int LEAF_SIZE :: uint64) = bsz 0"
    by (simp add: LEAF_SIZE_def)
  have le: "n \<le> BLK_SIZE 51 \<longleftrightarrow> unat n \<le> 2 ^ 63"
    using BLK_SIZE_unat [of 51] by (simp add: word_le_nat_alt bsz_def)
  show ?thesis
  proof (cases "unat n \<le> 2 ^ 63")
    case True
    then obtain k where k: "firstk n = Some k" "unat n \<le> bsz k" "0 < k \<longrightarrow> bsz (k - 1) < unat n"
      using firstk_loop_spec [OF sz, of n] le by (auto simp: firstk_def)
    have "bsz j < unat n" if "j < k" for j
    proof -
      have "j \<le> k - 1" "0 < k"
        using that by auto
      then show ?thesis
        using k(3) bsz_mono [of j "k - 1"] by linarith
    qed
    with k True show ?thesis by auto
  next
    case False
    then show ?thesis
      using firstk_loop_spec [OF sz, of n] le by (simp add: firstk_def)
  qed
qed

text \<open>
  C36. \<^verbatim>\<open>firstk(n)\<close> returns the least size class whose blocks hold \<open>n\<close> bytes, for every \<open>n\<close> up to
  \<open>2 ^ 63\<close>. For a larger \<open>n\<close> the size wraps around to zero before it reaches \<open>n\<close> and the loop
  does not end.
\<close>

theorem firstk_least_class:
  "if unat n \<le> 2 ^ 63 then \<exists>k. firstk n = Some k \<and> unat n \<le> bsz k \<and> (\<forall>j < k. bsz j < unat n)
   else firstk n = None"
  by (rule firstk_spec)

theorem firstk_least_class_witness:
  "\<exists>k. firstk 5000 = Some k \<and> 5000 \<le> bsz k \<and> (\<forall>j < k. bsz j < 5000)"
  using firstk_least_class [of 5000] by simp

section \<open>The invariant\<close>

text \<open>
  \<open>off b a\<close> is the offset of an address in the managed memory. A block of class \<open>k\<close> at \<open>x\<close> occupies
  \<open>bytes b k x\<close>. The list heads, the pointers and the bitmaps occupy the first \<open>M\<close> bytes.
\<close>

abbreviation off :: "uint64 \<Rightarrow> uint64 \<Rightarrow> nat" where
  "off b a \<equiv> unat (a - b)"

definition bytes :: "uint64 \<Rightarrow> nat \<Rightarrow> uint64 \<Rightarrow> nat set" where
  "bytes b k x = {off b x ..< off b x + bsz k}"

definition free_bytes :: "uint64 \<Rightarrow> (nat \<Rightarrow> uint64 list) \<Rightarrow> nat set" where
  "free_bytes b F = (\<Union>k. \<Union>x \<in> set (F k). bytes b k x)"

definition in_heap :: "nat \<Rightarrow> uint64 \<Rightarrow> nat \<Rightarrow> nat \<Rightarrow> uint64 \<Rightarrow> bool" where
  "in_heap n b M k x \<longleftrightarrow> bsz k dvd off b x \<and> M \<le> off b x \<and> off b x + bsz k \<le> bsz (n - 1)"

definition head :: "uint64 \<Rightarrow> nat \<Rightarrow> uint64" where
  "head b k = b + of_nat (32 * k)"

definition map_of_class :: "nat \<Rightarrow> uint64 \<Rightarrow> nat \<Rightarrow> uint64 \<Rightarrow> nat \<Rightarrow> bool" where
  "map_of_class n b M p k \<longleftrightarrow>
     (\<forall>i < 2 ^ (n - 1 - k). 32 * n \<le> off b (p + of_nat (i div 8)) \<and> off b (p + of_nat (i div 8)) < M)"

text \<open>The free blocks lie behind the metadata, aligned to their size, and do not overlap.\<close>

definition bd_geo :: "nat \<Rightarrow> uint64 \<Rightarrow> nat \<Rightarrow> (nat \<Rightarrow> uint64 list) \<Rightarrow> bool" where
  "bd_geo n b M F \<longleftrightarrow>
     0 < n \<and> n \<le> 32 \<and> unat b mod 4096 = 0 \<and> 32 * n \<le> M \<and> unat b + bsz (n - 1) \<le> 2 ^ 64
     \<and> (\<forall>k \<ge> n. F k = []) \<and> (\<forall>k. \<forall>x \<in> set (F k). in_heap n b M k x)
     \<and> (\<forall>j k x y. x \<in> set (F j) \<longrightarrow> y \<in> set (F k) \<longrightarrow> (j, x) \<noteq> (k, y) \<longrightarrow> bytes b j x \<inter> bytes b k y = {})"

definition bd_wf :: "nat \<Rightarrow> uint64 \<Rightarrow> nat \<Rightarrow> memory \<Rightarrow> (nat \<Rightarrow> uint64 list) \<Rightarrow> bool" where
  "bd_wf n b M m F \<longleftrightarrow>
     bd_geo n b M F \<and> (\<forall>k < n. mlist m (head b k) (F k))
     \<and> (\<forall>k < n. map_of_class n b M (load64 m (head b k + 16)) k)
     \<and> (\<forall>k < n. 0 < k \<longrightarrow> map_of_class n b M (load64 m (head b k + 24)) k)"

lemma bd_geoD:
  assumes "bd_geo n b M F"
  shows "0 < n" "n \<le> 32" "unat b mod 4096 = 0" "32 * n \<le> M" "n \<le> k \<Longrightarrow> F k = []"
    "x \<in> set (F k) \<Longrightarrow> in_heap n b M k x"
    "x \<in> set (F j) \<Longrightarrow> y \<in> set (F k) \<Longrightarrow> (j, x) \<noteq> (k, y) \<Longrightarrow> bytes b j x \<inter> bytes b k y = {}"
    "unat b + bsz (n - 1) \<le> 2 ^ 64"
  using assms unfolding bd_geo_def by blast+

lemma bd_wfD:
  assumes "bd_wf n b M m F"
  shows "bd_geo n b M F" "k < n \<Longrightarrow> mlist m (head b k) (F k)"
    "k < n \<Longrightarrow> map_of_class n b M (load64 m (head b k + 16)) k"
    "k < n \<Longrightarrow> 0 < k \<Longrightarrow> map_of_class n b M (load64 m (head b k + 24)) k"
  using assms unfolding bd_wf_def by blast+

lemma within_off:
  assumes "off b x + l \<le> 2 ^ 64"
  shows "within x l a \<longleftrightarrow> off b x \<le> off b a \<and> off b a < off b x + l"
proof -
  have "a - x = (a - b) - (x - b)"
    by simp
  then have "within x l a \<longleftrightarrow> within (x - b) l (a - b)"
    by (simp add: within_def)
  with assms show ?thesis
    by (simp add: within_nat)
qed

lemma bsz_bound: "n \<le> 32 \<Longrightarrow> bsz (n - 1) \<le> 2 ^ 43"
  using bsz_mono [of "n - 1" 31] by (simp add: bsz_def)

lemma off_head:
  assumes "k < n" "n \<le> 32" "i \<le> 32"
  shows "off b (head b k + of_nat i) = 32 * k + i"
proof -
  have "head b k + of_nat i - b = of_nat (32 * k + i)"
    by (simp add: head_def)
  moreover have "unat (of_nat (32 * k + i) :: uint64) = 32 * k + i"
    using assms by (simp add: unat_of_nat take_bit_nat_eq_self del: of_nat_add of_nat_mult)
  ultimately show ?thesis
    by (simp only:)
qed

lemma off_blk:
  assumes "in_heap n b M k x" "n \<le> 32"
  shows "off b x + 16 \<le> 2 ^ 64" "off b x + 16 \<le> off b x + bsz k"
proof -
  have "16 \<le> bsz k"
    using bsz_mono [of 0 k] by simp
  then show "off b x + 16 \<le> off b x + bsz k"
    by simp
  with assms bsz_bound [OF assms(2)] show "off b x + 16 \<le> 2 ^ 64"
    by (simp add: in_heap_def)
qed

lemma lst_node_off:
  assumes "unat b mod 4096 = 0" "off b x mod 16 = 0"
  shows "lst_node x"
proof -
  have "16 dvd unat b"
    by (rule dvd_trans [of _ 4096]) (use assms(1) in \<open>simp_all add: mod_0_imp_dvd\<close>)
  moreover have "16 dvd off b x"
    using assms(2) by (rule mod_0_imp_dvd)
  ultimately have "16 dvd (off b x + unat b) mod 2 ^ 64"
    by (intro dvd_mod dvd_add) simp_all
  also have "(off b x + unat b) mod 2 ^ 64 = unat x"
    using unat_word_ariths(1) [of "x - b" b] by simp
  finally show ?thesis
    by (simp add: lst_node_def)
qed

section \<open>Writes that keep the invariant\<close>

lemma off_head_cell:
  assumes "k < n" "n \<le> 32"
  shows "within (head b k) 16 a \<longleftrightarrow> 32 * k \<le> off b a \<and> off b a < 32 * k + 16"
    "within (head b k + 16) 8 a \<longleftrightarrow> 32 * k + 16 \<le> off b a \<and> off b a < 32 * k + 24"
    "within (head b k + 24) 8 a \<longleftrightarrow> 32 * k + 24 \<le> off b a \<and> off b a < 32 * k + 32"
  using off_head [OF assms, of 0 b] off_head [OF assms, of 16 b] off_head [OF assms, of 24 b] assms
  by (simp_all add: within_off [where b = b] add.commute)

lemma off_blk_cell:
  assumes "in_heap n b M k x" "n \<le> 32" "within x 16 a"
  shows "off b a \<in> bytes b k x" "M \<le> off b a"
  using assms off_blk [OF assms(1,2)] by (auto simp: within_off [where b = b] bytes_def in_heap_def)

lemma geo_node:
  assumes "bd_geo n b M F" "k < n" "x \<in> set (head b k # F k)" "within x 16 a"
  shows "(32 * k \<le> off b a \<and> off b a < 32 * k + 16) \<or> (x \<in> set (F k) \<and> off b a \<in> bytes b k x \<and> M \<le> off b a)"
proof (cases "x = head b k")
  case True
  with assms bd_geoD(2) [OF assms(1)] show ?thesis
    by (auto simp: off_head_cell)
next
  case False
  with assms show ?thesis
    using off_blk_cell [OF bd_geoD(6) [OF assms(1)] bd_geoD(2) [OF assms(1)]] by auto
qed

lemma geo_cells:
  assumes "bd_geo n b M F" "j < n" "k < n" "j \<noteq> k"
    and "x \<in> set (head b j # F j)" "y \<in> set (head b k # F k)" "within x 16 a"
  shows "\<not> within y 16 a"
proof
  assume w: "within y 16 a"
  have "32 * n \<le> M"
    using assms(1) by (rule bd_geoD)
  then have "32 * j + 32 \<le> M" "32 * k + 32 \<le> M"
    using assms(2,3) by auto
  moreover have "32 * j + 16 \<le> 32 * k \<or> 32 * k + 16 \<le> 32 * j"
    using assms(4) by linarith
  moreover note geo_node [OF assms(1,2,5,7)] geo_node [OF assms(1,3,6) w]
  ultimately show False
    using bd_geoD(7) [OF assms(1), of x j y k] assms(4) by auto
qed

lemma geo_pointers:
  assumes "bd_geo n b M F" "j < n" "k < n" "x \<in> set (head b j # F j)" "within x 16 a"
  shows "\<not> within (head b k + 16) 8 a" "\<not> within (head b k + 24) 8 a"
proof -
  have n: "n \<le> 32" "32 * n \<le> M"
    using assms(1) by (auto dest: bd_geoD)
  then have "32 * k + 32 \<le> M"
    using assms(3) by auto
  moreover have "32 * j + 16 \<le> 32 * k \<or> 32 * k + 32 \<le> 32 * j \<or> j = k"
    by linarith
  moreover note geo_node [OF assms(1,2,4,5)]
  ultimately show "\<not> within (head b k + 16) 8 a" "\<not> within (head b k + 24) 8 a"
    unfolding off_head_cell [OF assms(3) n(1)] by auto
qed

lemma bd_wf_bitmap:
  assumes "bd_wf n b M m F" "\<And>a. m' a \<noteq> m a \<Longrightarrow> 32 * n \<le> off b a \<and> off b a < M"
  shows "bd_wf n b M m' F"
proof -
  note g = bd_wfD(1) [OF assms(1)]
  have keep: "m' a = m a" if "off b a < 32 * n \<or> M \<le> off b a" for a
    by (rule ccontr) (use assms(2) [of a] that in auto)
  have "mlist m' (head b k) (F k)" if k: "k < n" for k
  proof (rule mlist_frame [OF bd_wfD(2) [OF assms(1) k]])
    fix x a
    assume "x \<in> set (head b k # F k)" "within x 16 a"
    from geo_node [OF g k this] k show "m' a = m a"
      by (intro keep) auto
  qed
  moreover have "load64 m' (head b k + 16) = load64 m (head b k + 16)"
    "load64 m' (head b k + 24) = load64 m (head b k + 24)" if k: "k < n" for k
    by (rule load64_cong, rule keep, use off_head_cell(2,3) [OF k bd_geoD(2) [OF g], of b] k in auto)+
  ultimately show ?thesis
    using assms(1) by (simp add: bd_wf_def)
qed

lemma bd_wf_list:
  assumes "bd_wf n b M m F" "bd_geo n b M G" "k < n" "\<And>j. j \<noteq> k \<Longrightarrow> G j = F j"
    and "\<And>a. (\<And>x. x \<in> set (head b k # G k) \<Longrightarrow> \<not> within x 16 a) \<Longrightarrow> m' a = m a"
    and "mlist m' (head b k) ys" "bd_geo n b M (F(k := ys))"
  shows "bd_wf n b M m' (F(k := ys))"
proof -
  have "mlist m' (head b j) ((F(k := ys)) j)" if j: "j < n" for j
  proof (cases "j = k")
    case False
    have "mlist m' (head b j) (F j)"
    proof (rule mlist_frame [OF bd_wfD(2) [OF assms(1) j]])
      fix x a
      assume "x \<in> set (head b j # F j)" "within x 16 a"
      then show "m' a = m a"
        using geo_cells [OF assms(2) j assms(3) False, of x _ a] assms(4) [OF False] by (intro assms(5)) auto
    qed
    with False show ?thesis by simp
  qed (use assms(6) in simp)
  moreover have "load64 m' (head b j + 16) = load64 m (head b j + 16)"
    "load64 m' (head b j + 24) = load64 m (head b j + 24)" if j: "j < n" for j
    by (rule load64_cong, rule assms(5), use geo_pointers [OF assms(2,3) j] in blast)+
  ultimately show ?thesis
    using assms(1,7) by (simp add: bd_wf_def)
qed

text \<open>A block in hand: it overlaps no free block.\<close>

definition held :: "nat \<Rightarrow> uint64 \<Rightarrow> nat \<Rightarrow> (nat \<Rightarrow> uint64 list) \<Rightarrow> nat \<Rightarrow> uint64 \<Rightarrow> bool" where
  "held n b M F k x \<longleftrightarrow> k < n \<and> in_heap n b M k x \<and> bytes b k x \<inter> free_bytes b F = {}"

text \<open>What an allocator step may write: the metadata and the free blocks.\<close>

definition bd_frame :: "uint64 \<Rightarrow> nat \<Rightarrow> nat set \<Rightarrow> memory \<Rightarrow> memory \<Rightarrow> bool" where
  "bd_frame b M A m m' \<longleftrightarrow> (\<forall>a. M \<le> off b a \<longrightarrow> off b a \<notin> A \<longrightarrow> m' a = m a)"

lemma bd_frame_trans: "bd_frame b M A m m' \<Longrightarrow> bd_frame b M A m' m'' \<Longrightarrow> bd_frame b M A m m''"
  by (simp add: bd_frame_def)

lemma bytes_free: "x \<in> set (F k) \<Longrightarrow> bytes b k x \<subseteq> free_bytes b F"
  by (auto simp: free_bytes_def)

lemma bytes_start: "off b x \<in> bytes b k x"
  by (simp add: bytes_def)

lemma free_bytes_split:
  "free_bytes b F = (\<Union>x \<in> set (F k). bytes b k x) \<union> (\<Union>j \<in> - {k}. \<Union>x \<in> set (F j). bytes b j x)"
  unfolding free_bytes_def by blast

lemma free_bytes_cons: "free_bytes b (F(k := x # F k)) = bytes b k x \<union> free_bytes b F"
proof -
  have "(\<Union>j \<in> - {k}. \<Union>y \<in> set ((F(k := x # F k)) j). bytes b j y) = (\<Union>j \<in> - {k}. \<Union>y \<in> set (F j). bytes b j y)"
    by (intro SUP_cong refl) simp
  then show ?thesis
    using free_bytes_split [of b "F(k := x # F k)" k] free_bytes_split [of b F k] by auto
qed

lemma list_frame:
  assumes "bd_geo n b M G" "k < n" "free_bytes b G \<subseteq> A"
    and "\<And>a. (\<And>x. x \<in> set (head b k # G k) \<Longrightarrow> \<not> within x 16 a) \<Longrightarrow> m' a = m a"
  shows "bd_frame b M A m m'"
  unfolding bd_frame_def
proof (intro allI impI, rule assms(4), rule notI)
  fix a x
  assume a: "M \<le> off b a" "off b a \<notin> A" and x: "x \<in> set (head b k # G k)" "within x 16 a"
  have "32 * n \<le> M"
    using assms(1) by (rule bd_geoD)
  with geo_node [OF assms(1,2) x] a(1) assms(2) have "off b a \<in> free_bytes b G"
    using bytes_free [of x G k b] by auto
  with a(2) assms(3) show False by auto
qed

lemma bd_geo_pop:
  assumes "bd_geo n b M F" "F k = x # xs" "x \<notin> set xs"
  shows "bd_geo n b M (F(k := xs))" "held n b M (F(k := xs)) k x"
    "free_bytes b F = bytes b k x \<union> free_bytes b (F(k := xs))"
proof -
  have sub: "set ((F(k := xs)) j) \<subseteq> set (F j)" for j
    using assms(2) by auto
  show geo: "bd_geo n b M (F(k := xs))"
    unfolding bd_geo_def
  proof (intro conjI allI impI ballI)
    show "0 < n" "n \<le> 32" "unat b mod 4096 = 0" "32 * n \<le> M" "unat b + bsz (n - 1) \<le> 2 ^ 64"
      by (rule bd_geoD [OF assms(1)])+
    show "(F(k := xs)) j = []" if "n \<le> j" for j
      using bd_geoD(5) [OF assms(1) that] assms(2) by auto
    show "in_heap n b M j y" if "y \<in> set ((F(k := xs)) j)" for j y
      using that sub bd_geoD(6) [OF assms(1)] by blast
    show "bytes b i y \<inter> bytes b j z = {}"
      if "y \<in> set ((F(k := xs)) i)" "z \<in> set ((F(k := xs)) j)" "(i, y) \<noteq> (j, z)" for i j y z
      using that sub bd_geoD(7) [OF assms(1)] by blast
  qed
  have "k < n"
    using bd_geoD(5) [OF assms(1), of k] assms(2) by (cases "n \<le> k") auto
  moreover have "bytes b k x \<inter> bytes b j y = {}" if "y \<in> set ((F(k := xs)) j)" for j y
  proof (rule bd_geoD(7) [OF assms(1)])
    show "x \<in> set (F k)" "y \<in> set (F j)"
      using assms(2) sub that by auto
    show "(k, x) \<noteq> (j, y)"
      using that assms(3) by auto
  qed
  ultimately show "held n b M (F(k := xs)) k x"
    using bd_geoD(6) [OF assms(1), of x k] assms(2) unfolding held_def free_bytes_def by auto
  show "free_bytes b F = bytes b k x \<union> free_bytes b (F(k := xs))"
    using free_bytes_cons [of b "F(k := xs)" k x] assms(2) fun_upd_triv [of F k] by simp
qed

lemma bd_geo_push:
  assumes "bd_geo n b M F" "held n b M F k x"
  shows "bd_geo n b M (F(k := x # F k))" "x \<notin> set (F k)"
proof -
  have h: "k < n" "in_heap n b M k x" "bytes b k x \<inter> free_bytes b F = {}"
    using assms(2) by (simp_all add: held_def)
  show "x \<notin> set (F k)"
  proof
    assume "x \<in> set (F k)"
    then have "off b x \<in> bytes b k x \<inter> free_bytes b F"
      using bytes_free [of x F k b] bytes_start [of x b k] by (simp add: subset_iff)
    with h(3) show False by simp
  qed
  have d: "bytes b k x \<inter> bytes b j y = {}" if "y \<in> set (F j)" for j y
    using h(3) bytes_free [of y F j b, OF that] by blast
  show "bd_geo n b M (F(k := x # F k))"
    unfolding bd_geo_def
  proof (intro conjI allI impI ballI)
    show "0 < n" "n \<le> 32" "unat b mod 4096 = 0" "32 * n \<le> M" "unat b + bsz (n - 1) \<le> 2 ^ 64"
      by (rule bd_geoD [OF assms(1)])+
    show "(F(k := x # F k)) j = []" if "n \<le> j" for j
      using bd_geoD(5) [OF assms(1) that] that h(1) by auto
    show "in_heap n b M j y" if "y \<in> set ((F(k := x # F k)) j)" for j y
      using that h(2) bd_geoD(6) [OF assms(1)] by (auto split: if_splits)
    show "bytes b i y \<inter> bytes b j z = {}"
      if "y \<in> set ((F(k := x # F k)) i)" "z \<in> set ((F(k := x # F k)) j)" "(i, y) \<noteq> (j, z)" for i j y z
    proof -
      have "(i, y) = (k, x) \<or> y \<in> set (F i)" "(j, z) = (k, x) \<or> z \<in> set (F j)"
        using that by (auto split: if_splits)
      moreover note ne = that(3)
      ultimately consider "y \<in> set (F i)" "z \<in> set (F j)" | "(i, y) = (k, x)" "z \<in> set (F j)"
        | "(j, z) = (k, x)" "y \<in> set (F i)"
        by blast
      then show ?thesis
      proof cases
        case 1
        then show ?thesis using bd_geoD(7) [OF assms(1)] ne by blast
      next
        case 2
        then show ?thesis using d by simp
      next
        case 3
        then show ?thesis using d [of y i] by (simp add: Int_commute)
      qed
    qed
  qed
qed

text \<open>The first half of a block stays in hand when the second half becomes free.\<close>

lemma off_second_half:
  assumes "in_heap n b M (Suc k) x" "n \<le> 32" "Suc k < n"
  shows "off b (x + BLK_SIZE k) = off b x + bsz k"
proof -
  have "off b x + bsz k < 2 ^ 64"
    using assms(1) bsz_bound [OF assms(2)] by (simp add: in_heap_def)
  moreover have "unat (BLK_SIZE k) = bsz k"
    using assms by (intro BLK_SIZE_unat) simp
  ultimately have "unat ((x - b) + BLK_SIZE k) = off b x + bsz k"
    by (simp add: unat_word_ariths(1))
  then show ?thesis
    by (simp add: diff_add_eq)
qed

lemma halves:
  assumes "held n b M F (Suc k) x" "n \<le> 32"
  shows "held n b M F k (x + BLK_SIZE k)"
    and "held n b M (F(k := (x + BLK_SIZE k) # F k)) k x"
    and "bytes b (Suc k) x = bytes b k x \<union> bytes b k (x + BLK_SIZE k)"
proof -
  have h: "Suc k < n" "in_heap n b M (Suc k) x" "bytes b (Suc k) x \<inter> free_bytes b F = {}"
    using assms(1) by (simp_all add: held_def)
  note o = off_second_half [OF h(2) assms(2) h(1)]
  show u: "bytes b (Suc k) x = bytes b k x \<union> bytes b k (x + BLK_SIZE k)"
    unfolding bytes_def o by auto
  have d: "bytes b k x \<inter> bytes b k (x + BLK_SIZE k) = {}"
    unfolding bytes_def o by auto
  have "bsz k dvd off b x"
    using h(2) unfolding in_heap_def by (auto intro: dvd_trans [of _ "bsz (Suc k)"])
  then have bl: "in_heap n b M k x" "in_heap n b M k (x + BLK_SIZE k)"
    using h(2) unfolding in_heap_def o by auto
  show "held n b M F k (x + BLK_SIZE k)"
    using h(1,3) bl(2) u unfolding held_def by auto
  show "held n b M (F(k := (x + BLK_SIZE k) # F k)) k x"
    using h(1,3) bl(1) u d unfolding held_def free_bytes_cons by auto
qed

text \<open>The three writes of the allocator.\<close>

lemma wf_pop:
  assumes "bd_wf n b M m F" "F k = x # xs"
  shows "lst_pop (head b k) m = Ret x (lst_remove x m)"
    and "bd_wf n b M (lst_remove x m) (F(k := xs))" "held n b M (F(k := xs)) k x"
    and "free_bytes b F = bytes b k x \<union> free_bytes b (F(k := xs))"
    and "bd_frame b M (free_bytes b F) m (lst_remove x m)"
proof -
  note g = bd_wfD(1) [OF assms(1)]
  have k: "k < n"
    using bd_geoD(5) [OF g, of k] assms(2) by (cases "n \<le> k") auto
  have l: "mlist m (head b k) (x # xs)"
    using bd_wfD(2) [OF assms(1) k] assms(2) by simp
  then have x: "x \<notin> set xs"
    by (simp add: mlist_def ring_def)
  show "lst_pop (head b k) m = Ret x (lst_remove x m)"
    by (rule lst_pop_spec [OF l])
  note p = bd_geo_pop [OF g assms(2) x]
  show "held n b M (F(k := xs)) k x" "free_bytes b F = bytes b k x \<union> free_bytes b (F(k := xs))"
    by (rule p)+
  have o: "lst_remove x m a = m a" if "\<And>y. y \<in> set (head b k # F k) \<Longrightarrow> \<not> within y 16 a" for a
    using that lst_remove_other [of m "head b k" "[]" x xs a] l assms(2) by simp
  show "bd_wf n b M (lst_remove x m) (F(k := xs))"
    by (rule bd_wf_list [OF assms(1) g k refl o lst_pop_spec(2) [OF l] p(1)])
  show "bd_frame b M (free_bytes b F) m (lst_remove x m)"
    by (rule list_frame [OF g k order_refl o])
qed

lemma wf_push:
  assumes "bd_wf n b M m F" "held n b M F k x"
  shows "bd_wf n b M (lst_push (head b k) x m) (F(k := x # F k))"
    and "bd_frame b M (bytes b k x \<union> free_bytes b F) m (lst_push (head b k) x m)"
proof -
  note g = bd_wfD(1) [OF assms(1)]
  note p = bd_geo_push [OF g assms(2)]
  have k: "k < n" and bl: "in_heap n b M k x"
    using assms(2) by (simp_all add: held_def)
  have n: "n \<le> 32" "32 * n \<le> M" "unat b mod 4096 = 0"
    using g by (simp_all add: bd_geoD)
  note l = bd_wfD(2) [OF assms(1) k]
  have "off b (head b k) = 32 * k"
    using off_head [OF k n(1), of 0 b] by simp
  then have "x \<noteq> head b k"
    using bl k n(2) by (auto simp: in_heap_def)
  with p(2) have x: "x \<notin> set (head b k # F k)"
    by simp
  have "bsz 0 dvd off b x"
    using bl bsz_dvd [of 0 k] unfolding in_heap_def by (auto intro: dvd_trans)
  then have "(16 :: nat) dvd off b x"
    by (auto intro: dvd_trans [of _ 4096])
  then have nd: "lst_node x"
    by (intro lst_node_off [OF n(3)]) simp
  have o: "lst_push (head b k) x m a = m a"
    if "\<And>y. y \<in> set (head b k # (F(k := x # F k)) k) \<Longrightarrow> \<not> within y 16 a" for a
    by (rule lst_push_other [OF l x nd]) (use that in simp)
  show "bd_wf n b M (lst_push (head b k) x m) (F(k := x # F k))"
    by (rule bd_wf_list [OF assms(1) p(1) k _ o lst_push_spec [OF l x nd] p(1)]) simp
  show "bd_frame b M (bytes b k x \<union> free_bytes b F) m (lst_push (head b k) x m)"
    by (rule list_frame [OF p(1) k _ o]) (simp add: free_bytes_cons)
qed

lemma wf_bit:
  assumes "bd_wf n b M m F" "map_of_class n b M p k" "i < 2 ^ (n - 1 - k)"
  shows "bd_wf n b M (bit_on m p i) F" "bd_frame b M A m (bit_on m p i)"
proof -
  have c: "32 * n \<le> off b a \<and> off b a < M" if "bit_on m p i a \<noteq> m a" for a
    using assms(2,3) that unfolding map_of_class_def bit_on_def by (auto split: if_splits)
  show "bd_wf n b M (bit_on m p i) F"
    by (rule bd_wf_bitmap [OF assms(1) c])
  show "bd_frame b M A m (bit_on m p i)"
    unfolding bd_frame_def using c by (metis leD)
qed

text \<open>The bit of a block in the \<^verbatim>\<open>alloc\<close> bitmap of its class.\<close>

definition blk_no :: "uint64 \<Rightarrow> nat \<Rightarrow> uint64 \<Rightarrow> nat" where
  "blk_no b k x = off b x div bsz k"

definition marked :: "memory \<Rightarrow> uint64 \<Rightarrow> nat \<Rightarrow> uint64 \<Rightarrow> bool" where
  "marked m b k x \<longleftrightarrow> page_bit m (load64 m (head b k + 16)) (blk_no b k x)"

lemma blk_no_bound:
  assumes "in_heap n b M k x" "k < n"
  shows "blk_no b k x < 2 ^ (n - 1 - k)"
proof -
  have "n - 1 = (n - 1 - k) + k"
    using assms(2) by simp
  then have "(2 :: nat) ^ (n - 1) = 2 ^ (n - 1 - k) * 2 ^ k"
    using power_add [of "2 :: nat" "n - 1 - k" k] by simp
  then have "bsz (n - 1) = 2 ^ (n - 1 - k) * bsz k"
    by (simp add: bsz_def)
  with assms(1) have "off b x < 2 ^ (n - 1 - k) * bsz k"
    using bsz_simps(1) [of k] unfolding in_heap_def by linarith
  then show ?thesis
    unfolding blk_no_def by (simp add: less_mult_imp_div_less)
qed

lemma marked_push:
  assumes "bd_wf n b M m F" "held n b M F j y" "marked m b k x" "in_heap n b M k x" "k < n"
  shows "marked (lst_push (head b j) y m) b k x"
proof -
  let ?m = "lst_push (head b j) y m" and ?F = "F(j := y # F j)"
  note g = bd_wfD(1) [OF assms(1)] and g' = bd_wfD(1) [OF wf_push(1) [OF assms(1,2)]]
  have j: "j < n" "in_heap n b M j y"
    using assms(2) by (simp_all add: held_def)
  have n: "n \<le> 32" "32 * n \<le> M" "unat b mod 4096 = 0"
    using g by (simp_all add: bd_geoD)
  have "mlist ?m (head b j) (y # F j)"
    using bd_wfD(2) [OF wf_push(1) [OF assms(1,2)] j(1)] by simp
  then have y: "y \<notin> set (head b j # F j)" "lst_node y"
    by (auto simp: mlist_def ring_def)
  have o: "?m a = m a" if "\<And>z. z \<in> set (head b j # ?F j) \<Longrightarrow> \<not> within z 16 a" for a
    by (rule lst_push_other [OF bd_wfD(2) [OF assms(1) j(1)] y]) (use that in simp)
  have "load64 ?m (head b k + 16) = load64 m (head b k + 16)"
    by (rule load64_cong, rule o) (use geo_pointers [OF g' j(1) assms(5)] in blast)
  moreover have "?m a = m a" if "32 * n \<le> off b a" "off b a < M" for a
    by (rule o) (use geo_node [OF g' j(1), of _ a] that j(1) in force)
  moreover note bd_wfD(3) [OF assms(1,5)] blk_no_bound [OF assms(4,5)]
  ultimately show ?thesis
    using assms(3) unfolding marked_def page_bit_def map_of_class_def by auto
qed

section \<open>Allocation\<close>

definition bd_inv :: "nat \<Rightarrow> 'z buddy_scheme \<Rightarrow> (nat \<Rightarrow> uint64 list) \<Rightarrow> bool" where
  "bd_inv M s F \<longleftrightarrow> bd_wf (nsizes s) (bd_base s) M (mem s) F \<and> bd_sizes s = bd_base s"

lemma bd_invD:
  assumes "bd_inv M s F"
  shows "bd_wf (nsizes s) (bd_base s) M (mem s) F" "bd_sizes s = bd_base s" "nsizes s \<le> 32" "0 < nsizes s"
    "sz_free s k = head (bd_base s) k" "sz_alloc s k = load64 (mem s) (head (bd_base s) k + 16)"
    "sz_split s k = load64 (mem s) (head (bd_base s) k + 24)"
  using assms bd_geoD(1,2) [OF bd_wfD(1), of "nsizes s" "bd_base s" M "mem s" F]
  by (auto simp: bd_inv_def sz_free_def head_def sz_alloc_def sz_split_def)

lemma buddy_after_lock [simp]:
  "nsizes (acquired L s) = nsizes s" "nsizes (released L s) = nsizes s" "nsizes (settle s) = nsizes s"
  "bd_base (acquired L s) = bd_base s" "bd_base (released L s) = bd_base s" "bd_base (settle s) = bd_base s"
  "bd_sizes (acquired L s) = bd_sizes s" "bd_sizes (released L s) = bd_sizes s" "bd_sizes (settle s) = bd_sizes s"
  by (simp_all add: acquired_def released_def settle_def)

lemma bit_set_on: "bit_set p (int i) m = bit_on m p i"
  unfolding bit_set_def index_div_mod bit_on_def by (simp add: Let_def)

lemma blk_index_no:
  assumes "bd_inv M s F" "in_heap (nsizes s) (bd_base s) M k x" "k < nsizes s"
  shows "blk_index k x s = int (blk_no (bd_base s) k x)"
proof -
  have "unat ((x - bd_base s) div BLK_SIZE k) = blk_no (bd_base s) k x"
    using assms(3) bd_invD(3) [OF assms(1)] by (simp add: unat_div BLK_SIZE_unat blk_no_def)
  moreover have "blk_no (bd_base s) k x < 2 ^ 31"
  proof (rule less_le_trans [OF blk_no_bound [OF assms(2,3)]])
    show "2 ^ (nsizes s - 1 - k) \<le> (2 :: nat) ^ 31"
      using bd_invD(3) [OF assms(1)] by (intro power_increasing) simp_all
  qed
  ultimately show ?thesis
    unfolding blk_index_def by (subst to_int_small) simp_all
qed

lemma set_alloc_spec:
  assumes "bd_inv M s F" "in_heap (nsizes s) (bd_base s) M k x" "k < nsizes s"
  shows "\<exists>m'. bind (gets (blk_index k x)) (bd_set_alloc k) s = Ret () (s\<lparr>mem := m'\<rparr>)
    \<and> bd_inv M (s\<lparr>mem := m'\<rparr>) F \<and> bd_frame (bd_base s) M A (mem s) m' \<and> marked m' (bd_base s) k x"
proof -
  let ?b = "bd_base s" and ?n = "nsizes s"
  let ?p = "load64 (mem s) (head ?b k + 16)" and ?i = "blk_no ?b k x"
  let ?m = "bit_on (mem s) ?p ?i"
  note wf = bd_invD(1) [OF assms(1)]
  have map: "map_of_class ?n ?b M ?p k"
    by (rule bd_wfD(3) [OF wf assms(3)])
  note i = blk_no_bound [OF assms(2,3)]
  have cell: "32 * ?n \<le> off ?b (?p + of_nat (?i div 8))"
    using map i by (simp add: map_of_class_def)
  have "load64 ?m (head ?b k + 16) = ?p"
  proof (rule load64_cong)
    fix a assume "within (head ?b k + 16) 8 a"
    then have "off ?b a < 32 * ?n"
      using off_head_cell(2) [OF assms(3) bd_invD(3) [OF assms(1)]] assms(3) by auto
    with cell show "?m a = mem s a"
      by (auto simp: bit_on_def)
  qed
  then have "marked ?m ?b k x"
    by (simp add: marked_def page_bit_def bit_on_def bit_on_byte)
  moreover have "bd_inv M (s\<lparr>mem := ?m\<rparr>) F" "bd_frame ?b M A (mem s) ?m"
    using wf_bit [OF wf map i] assms(1) by (simp_all add: bd_inv_def)
  moreover have "bind (gets (blk_index k x)) (bd_set_alloc k) s = Ret () (s\<lparr>mem := ?m\<rparr>)"
    by (simp add: bd_set_alloc_def blk_index_no [OF assms] bd_invD(6) [OF assms(1)] on_mem_def bit_set_on)
  ultimately show ?thesis by blast
qed

lemma set_split_spec:
  assumes "bd_inv M s F" "in_heap (nsizes s) (bd_base s) M k x" "k < nsizes s" "0 < k"
  shows "\<exists>m'. bind (gets (blk_index k x)) (bd_set_split k) s = Ret () (s\<lparr>mem := m'\<rparr>)
    \<and> bd_inv M (s\<lparr>mem := m'\<rparr>) F \<and> bd_frame (bd_base s) M A (mem s) m'"
proof -
  let ?b = "bd_base s" and ?n = "nsizes s"
  let ?p = "load64 (mem s) (head ?b k + 24)" and ?i = "blk_no ?b k x"
  let ?m = "bit_on (mem s) ?p ?i"
  note wf = bd_invD(1) [OF assms(1)]
  note w = wf_bit [OF wf bd_wfD(4) [OF wf assms(3,4)] blk_no_bound [OF assms(2,3)]]
  have "bd_inv M (s\<lparr>mem := ?m\<rparr>) F" "bd_frame ?b M A (mem s) ?m"
    using w assms(1) by (simp_all add: bd_inv_def)
  moreover have "bind (gets (blk_index k x)) (bd_set_split k) s = Ret () (s\<lparr>mem := ?m\<rparr>)"
    by (simp add: bd_set_split_def blk_index_no [OF assms(1,2,3)] bd_invD(7) [OF assms(1)] on_mem_def bit_set_on)
  ultimately show ?thesis by blast
qed

text \<open>A block in hand, marked as allocated, and what is free beside it: together they are \<open>A\<close>.\<close>

definition in_hand :: "nat \<Rightarrow> 'z buddy_scheme \<Rightarrow> (nat \<Rightarrow> uint64 list) \<Rightarrow> nat \<Rightarrow> uint64 \<Rightarrow> nat set \<Rightarrow> bool" where
  "in_hand M s F k x A \<longleftrightarrow> bd_inv M s F \<and> held (nsizes s) (bd_base s) M F k x
     \<and> marked (mem s) (bd_base s) k x \<and> bytes (bd_base s) k x \<union> free_bytes (bd_base s) F = A"

lemma bd_split_spec:
  assumes "in_hand M s F (Suc k) x A"
  shows "\<exists>m'. bd_split x (Suc k) s = Ret () (s\<lparr>mem := m'\<rparr>)
    \<and> in_hand M (s\<lparr>mem := m'\<rparr>) (F(k := (x + BLK_SIZE k) # F k)) k x A \<and> bd_frame (bd_base s) M A (mem s) m'"
proof -
  let ?b = "bd_base s" and ?n = "nsizes s" and ?y = "x + BLK_SIZE k"
  have inv: "bd_inv M s F" and h: "held ?n ?b M F (Suc k) x"
    and A: "bytes ?b (Suc k) x \<union> free_bytes ?b F = A"
    using assms by (simp_all add: in_hand_def)
  have n: "?n \<le> 32"
    by (rule bd_invD(3) [OF inv])
  have k: "Suc k < ?n" "k < ?n" and bl: "in_heap ?n ?b M (Suc k) x"
    using h by (simp_all add: held_def)
  note hv = halves [OF h n]
  have bk: "in_heap ?n ?b M k x"
    using hv(2) by (simp add: held_def)
  obtain m1 where m1: "bind (gets (blk_index (Suc k) x)) (bd_set_split (Suc k)) s = Ret () (s\<lparr>mem := m1\<rparr>)"
    "bd_inv M (s\<lparr>mem := m1\<rparr>) F" "bd_frame ?b M A (mem s) m1"
    using set_split_spec [OF inv bl k(1)] by blast
  obtain m2 where m2: "bind (gets (blk_index k x)) (bd_set_alloc k) (s\<lparr>mem := m1\<rparr>) = Ret () (s\<lparr>mem := m2\<rparr>)"
    "bd_inv M (s\<lparr>mem := m2\<rparr>) F" "bd_frame ?b M A m1 m2" "marked m2 ?b k x"
    using set_alloc_spec [OF m1(2), of k x A] bk k(2) by auto
  let ?m = "lst_push (head ?b k) ?y m2" and ?F = "F(k := ?y # F k)"
  have wf2: "bd_wf ?n ?b M m2 F"
    using bd_invD(1) [OF m2(2)] by simp
  note p = wf_push [OF wf2 hv(1)]
  have "bd_split x (Suc k) s = Ret () (s\<lparr>mem := ?m\<rparr>)"
    using m1(1) m2(1) bd_invD(5) [OF m2(2), of k] by (simp add: bd_split_def bd_push_def on_mem_def bind_def)
  moreover have "bd_frame ?b M A m2 ?m"
    using p(2) hv(3) A by (auto simp: bd_frame_def)
  with m1(3) m2(3) have "bd_frame ?b M A (mem s) ?m"
    by (blast intro: bd_frame_trans)
  moreover have "in_hand M (s\<lparr>mem := ?m\<rparr>) ?F k x A"
    using p(1) m2(2) hv(2,3) A marked_push [OF wf2 hv(1) m2(4) bk k(2)]
    by (auto simp: in_hand_def bd_inv_def free_bytes_cons)
  ultimately show ?thesis by blast
qed

lemma split_down:
  assumes "in_hand M s F (fk + d) x A"
  shows "\<exists>m' F'. forM (rev [fk + 1..<fk + d + 1]) (bd_split x) s = Ret () (s\<lparr>mem := m'\<rparr>)
    \<and> in_hand M (s\<lparr>mem := m'\<rparr>) F' fk x A \<and> bd_frame (bd_base s) M A (mem s) m'"
  using assms
proof (induction d arbitrary: s F)
  case 0
  have "bd_frame (bd_base s) M A (mem s) (mem s)"
    by (simp add: bd_frame_def)
  with 0 show ?case
    by (intro exI [of _ "mem s"] exI [of _ F]) simp
next
  case (Suc d)
  have "rev [fk + 1..<fk + Suc d + 1] = Suc (fk + d) # rev [fk + 1..<fk + d + 1]"
    by simp
  moreover obtain m1 where m1: "bd_split x (Suc (fk + d)) s = Ret () (s\<lparr>mem := m1\<rparr>)"
    "in_hand M (s\<lparr>mem := m1\<rparr>) (F(fk + d := (x + BLK_SIZE (fk + d)) # F (fk + d))) (fk + d) x A"
    "bd_frame (bd_base s) M A (mem s) m1"
    using bd_split_spec [of M s F "fk + d"] Suc.prems by auto
  moreover obtain m2 F' where m2:
    "forM (rev [fk + 1..<fk + d + 1]) (bd_split x) (s\<lparr>mem := m1\<rparr>) = Ret () (s\<lparr>mem := m2\<rparr>)"
    "in_hand M (s\<lparr>mem := m2\<rparr>) F' fk x A" "bd_frame (bd_base s) M A m1 m2"
    using Suc.IH [OF m1(2)] by auto
  ultimately have "forM (rev [fk + 1..<fk + Suc d + 1]) (bd_split x) s = Ret () (s\<lparr>mem := m2\<rparr>)"
    by (simp only: forM.simps bind_def outcome.case)
  moreover have "bd_frame (bd_base s) M A (mem s) m2"
    using m1(3) m2(3) by (rule bd_frame_trans)
  ultimately show ?case
    using m2(2) by blast
qed

lemma find_class:
  assumes "bd_inv M s F"
  shows "find (\<lambda>k. \<not> lst_empty (sz_free s k) (mem s)) [fk..<nsizes s] = find (\<lambda>k. F k \<noteq> []) [fk..<nsizes s]"
proof (rule find_cong [OF refl])
  fix k assume "k \<in> set [fk..<nsizes s]"
  then show "(\<not> lst_empty (sz_free s k) (mem s)) = (F k \<noteq> [])"
    using lst_empty_spec [OF bd_wfD(2) [OF bd_invD(1) [OF assms]], of k] by (simp add: bd_invD(5) [OF assms])
qed

lemma bd_pop_spec:
  assumes "bd_inv M s F" "F k = x # xs"
  shows "\<exists>m'. bind (bd_pop k) (\<lambda>p. andthen (bind (gets (blk_index k p)) (bd_set_alloc k)) (f p)) s
      = f x (s\<lparr>mem := m'\<rparr>)
    \<and> in_hand M (s\<lparr>mem := m'\<rparr>) (F(k := xs)) k x (free_bytes (bd_base s) F)
    \<and> bd_frame (bd_base s) M (free_bytes (bd_base s) F) (mem s) m'"
proof -
  let ?b = "bd_base s" and ?n = "nsizes s" and ?m = "lst_remove x (mem s)"
  note p = wf_pop [where F = F, OF bd_invD(1) [OF assms(1)] assms(2)]
  have inv: "bd_inv M (s\<lparr>mem := ?m\<rparr>) (F(k := xs))"
    using p(2) bd_invD(2) [OF assms(1)] by (simp add: bd_inv_def)
  have k: "k < ?n" "in_heap ?n ?b M k x"
    using p(3) by (simp_all add: held_def)
  obtain m' where m': "bind (gets (blk_index k x)) (bd_set_alloc k) (s\<lparr>mem := ?m\<rparr>) = Ret () (s\<lparr>mem := m'\<rparr>)"
    "bd_inv M (s\<lparr>mem := m'\<rparr>) (F(k := xs))" "bd_frame ?b M (free_bytes ?b F) ?m m'" "marked m' ?b k x"
    using set_alloc_spec [OF inv, of k x "free_bytes ?b F"] k by auto
  have "bd_pop k s = Ret x (s\<lparr>mem := ?m\<rparr>)"
    using p(1) by (simp add: bd_pop_def bd_invD(5) [OF assms(1)])
  with m'(1) have "bind (bd_pop k) (\<lambda>p. andthen (bind (gets (blk_index k p)) (bd_set_alloc k)) (f p)) s
      = f x (s\<lparr>mem := m'\<rparr>)"
    by (simp add: bind_def)
  moreover have "bd_frame ?b M (free_bytes ?b F) (mem s) m'"
    using p(5) m'(3) by (rule bd_frame_trans)
  moreover have "in_hand M (s\<lparr>mem := m'\<rparr>) (F(k := xs)) k x (free_bytes ?b F)"
    using m'(2,4) p(3,4) by (simp add: in_hand_def)
  ultimately show ?thesis by blast
qed

lemma bd_inv_lock [simp]: "bd_inv M (acquired L s) F = bd_inv M s F" "bd_inv M (settle s) F = bd_inv M s F"
  by (simp_all add: bd_inv_def)

lemma blk_nonzero:
  assumes "bd_geo n b M F" "in_heap n b M k x"
  shows "x \<noteq> 0"
proof
  assume x: "x = 0"
  have n: "32 * n \<le> M" "0 < n" "unat b + bsz (n - 1) \<le> 2 ^ 64"
    using bd_geoD(1,4,8) [OF assms(1)] by blast+
  then have o: "0 < off b x" "off b x < bsz (n - 1)"
    using assms(2) bsz_simps(1) [of k] unfolding in_heap_def by linarith+
  then have "off b x + unat b < 2 ^ 64"
    using n(3) by linarith
  then have "unat ((x - b) + b) = off b x + unat b"
    by (subst unat_word_ariths(1)) simp
  with x o(1) show False by simp
qed

lemma bd_malloc_none:
  assumes "bd_inv M s F" "hart_ok s" "idle LBuddy s" "firstk nbytes = Some fk" "\<forall>k \<ge> fk. F k = []"
  shows "bd_malloc nbytes s = Ret 0 (settle s)"
proof -
  have "find (\<lambda>k. F k \<noteq> []) [fk..<nsizes s] = None"
    using assms(5) by (simp add: find_None_iff)
  with find_class [of M "acquired LBuddy s" F fk] assms show ?thesis
    by (simp add: bd_malloc_def acquire_free idle_def [of _ s] release_acquired)
qed

lemma bd_malloc_some:
  assumes "bd_inv M s F" "hart_ok s" "idle LBuddy s" "firstk nbytes = Some fk" "\<exists>k \<ge> fk. F k \<noteq> []"
  shows "\<exists>p m' F'. bd_malloc nbytes s = Ret p (settle (s\<lparr>mem := m'\<rparr>))
    \<and> in_hand M (settle (s\<lparr>mem := m'\<rparr>)) F' fk p (free_bytes (bd_base s) F)
    \<and> bd_frame (bd_base s) M (free_bytes (bd_base s) F) (mem s) m'"
proof -
  let ?s = "acquired LBuddy s" and ?b = "bd_base s"
  let ?A = "free_bytes ?b F"
  have inv: "bd_inv M ?s F"
    using assms(1) by simp
  have "k < nsizes s" if "F k \<noteq> []" for k
    using bd_geoD(5) [OF bd_wfD(1) [OF bd_invD(1) [OF assms(1)]], of k] that by (cases "nsizes s \<le> k") auto
  then have "find (\<lambda>k. F k \<noteq> []) [fk..<nsizes s] \<noteq> None"
    using assms(5) by (auto simp: find_None_iff)
  then obtain k where k: "find (\<lambda>k. F k \<noteq> []) [fk..<nsizes s] = Some k"
    by blast
  then have "F k \<noteq> []" and kf: "fk \<le> k"
    by (auto simp: find_Some_iff dest!: nth_mem [of _ "[fk..<nsizes s]"])
  then obtain x xs where F: "F k = x # xs"
    by (cases "F k") auto
  let ?f = "\<lambda>p. andthen (forM (rev [fk + 1..<k + 1]) (bd_split p)) (andthen (release LBuddy) (ret p))"
  obtain m1 where m1: "bind (bd_pop k) (\<lambda>p. andthen (bind (gets (blk_index k p)) (bd_set_alloc k)) (?f p)) ?s
      = ?f x (acquired LBuddy (s\<lparr>mem := m1\<rparr>))"
    "in_hand M (acquired LBuddy (s\<lparr>mem := m1\<rparr>)) (F(k := xs)) k x ?A" "bd_frame ?b M ?A (mem s) m1"
    using bd_pop_spec [where F = F, OF inv F, of ?f] by auto
  obtain m2 F' where m2: "forM (rev [fk + 1..<k + 1]) (bd_split x) (acquired LBuddy (s\<lparr>mem := m1\<rparr>))
      = Ret () (acquired LBuddy (s\<lparr>mem := m2\<rparr>))"
    "in_hand M (acquired LBuddy (s\<lparr>mem := m2\<rparr>)) F' fk x ?A" "bd_frame ?b M ?A m1 m2"
  proof -
    have kd: "fk + (k - fk) = k"
      using kf by simp
    show ?thesis
      using split_down [of M "acquired LBuddy (s\<lparr>mem := m1\<rparr>)" "F(k := xs)" fk "k - fk" x ?A, unfolded kd, OF m1(2)]
        that by (auto simp del: upt_Suc)
  qed
  have "bd_malloc nbytes s = ?f x (acquired LBuddy (s\<lparr>mem := m1\<rparr>))"
    using m1(1) k find_class [OF inv, of fk] assms(3,4)
    by (simp add: bd_malloc_def acquire_free idle_def [of _ s])
  also have "\<dots> = Ret x (settle (s\<lparr>mem := m2\<rparr>))"
    using m2(1) assms(2,3) by (simp add: bind_def release_acquired)
  finally show ?thesis
    using m2(2) bd_frame_trans [OF m1(3) m2(3)] by (auto simp: in_hand_def)
qed

text \<open>
  C35. \<^verbatim>\<open>bd_malloc(nbytes)\<close> implements allocation from a set of free bytes. If some size class that
  holds \<open>nbytes\<close> has a free block, it returns a block of the least such size class, aligned to its
  size, lying inside the free bytes and marked in the allocation bitmap; exactly the bytes of that
  block leave the set of free bytes, the free lists stay well formed, and no byte outside the
  metadata and the free blocks is written. Otherwise it returns 0 and leaves the memory as it was.
\<close>

theorem bd_malloc_allocates:
  assumes "bd_inv M s F" "hart_ok s" "idle LBuddy s" "unat nbytes \<le> 2 ^ 63"
  shows "\<exists>fk. firstk nbytes = Some fk \<and> unat nbytes \<le> bsz fk \<and>
    (if \<exists>k \<ge> fk. F k \<noteq> []
     then \<exists>p m' F'. bd_malloc nbytes s = Ret p (settle (s\<lparr>mem := m'\<rparr>)) \<and> p \<noteq> 0
       \<and> bd_inv M (settle (s\<lparr>mem := m'\<rparr>)) F'
       \<and> bsz fk dvd off (bd_base s) p \<and> marked m' (bd_base s) fk p
       \<and> bytes (bd_base s) fk p \<subseteq> free_bytes (bd_base s) F
       \<and> free_bytes (bd_base s) F' = free_bytes (bd_base s) F - bytes (bd_base s) fk p
       \<and> (\<forall>a. M \<le> off (bd_base s) a \<longrightarrow> off (bd_base s) a \<notin> free_bytes (bd_base s) F \<longrightarrow> m' a = mem s a)
     else bd_malloc nbytes s = Ret 0 (settle s))"
proof -
  obtain fk where fk: "firstk nbytes = Some fk" "unat nbytes \<le> bsz fk"
    using firstk_spec [of nbytes] assms(4) by auto
  show ?thesis
  proof (cases "\<exists>k \<ge> fk. F k \<noteq> []")
    case True
    obtain p m' F' where r: "bd_malloc nbytes s = Ret p (settle (s\<lparr>mem := m'\<rparr>))"
      "in_hand M (settle (s\<lparr>mem := m'\<rparr>)) F' fk p (free_bytes (bd_base s) F)"
      "bd_frame (bd_base s) M (free_bytes (bd_base s) F) (mem s) m'"
      using bd_malloc_some [OF assms(1-3) fk(1) True] by blast
    then have i: "bd_inv M (settle (s\<lparr>mem := m'\<rparr>)) F'" "held (nsizes s) (bd_base s) M F' fk p"
      "marked m' (bd_base s) fk p" "bytes (bd_base s) fk p \<union> free_bytes (bd_base s) F' = free_bytes (bd_base s) F"
      by (simp_all add: in_hand_def)
    moreover have "p \<noteq> 0"
      by (rule blk_nonzero [OF bd_wfD(1) [OF bd_invD(1) [OF assms(1)]], of fk])
        (use i(2) in \<open>simp add: held_def\<close>)
    moreover have "bsz fk dvd off (bd_base s) p" "bytes (bd_base s) fk p \<inter> free_bytes (bd_base s) F' = {}"
      using i(2) by (simp_all add: held_def in_heap_def)
    moreover have "free_bytes (bd_base s) F' = free_bytes (bd_base s) F - bytes (bd_base s) fk p"
      "bytes (bd_base s) fk p \<subseteq> free_bytes (bd_base s) F"
      using calculation(4,7) by auto
    ultimately show ?thesis
      using fk True r(1,3) unfolding bd_frame_def
      by (intro exI [of _ fk] conjI, simp, simp, simp only: if_True) blast
  next
    case False
    with bd_malloc_none [OF assms(1-3) fk(1)] fk show ?thesis by auto
  qed
qed

text \<open>
  Sixteen kilobytes at 65536 in three size classes: one page of metadata, one allocated page and a free
  block of two pages.
\<close>

definition tiny_heap :: memory where
  "tiny_heap = fold (\<lambda>(a, v) m. store64 m a v)
     [(65536, 65536), (65544, 65536), (65552, 65632),
      (65568, 73728), (65576, 73728), (65584, 65633), (65592, 65635),
      (65600, 65600), (65608, 65600), (65616, 65634), (65624, 65636),
      (73728, 65568), (73736, 65568)] (\<lambda>_. 0)"

definition tiny_buddy :: buddy where
  "tiny_buddy = \<lparr>tp = 0, sstatus = (\<lambda>_. 0), cpus = (\<lambda>_. \<lparr>c_proc = None, noff = 0, intena = False\<rparr>),
     locks = (\<lambda>_. \<lparr>locked = False, lk_name = [], lk_cpu = None\<rparr>), mem = tiny_heap, freelist = 0, kbitmap = 0, addr_base = 0, kend = 0,
     nsizes = 3, bd_base = 65536, bd_sizes = 65536\<rparr>"

definition tiny_free :: "nat \<Rightarrow> uint64 list" where
  "tiny_free k = (if k = 1 then [73728] else [])"

lemma tiny_loads:
  "load64 tiny_heap 65536 = 65536" "load64 tiny_heap 65544 = 65536" "load64 tiny_heap 65552 = 65632"
  "load64 tiny_heap 65568 = 73728" "load64 tiny_heap 65576 = 73728" "load64 tiny_heap 65584 = 65633"
  "load64 tiny_heap 65592 = 65635" "load64 tiny_heap 65600 = 65600" "load64 tiny_heap 65608 = 65600"
  "load64 tiny_heap 65616 = 65634" "load64 tiny_heap 65624 = 65636" "load64 tiny_heap 73728 = 65568"
  "load64 tiny_heap 73736 = 65568"
  by (simp_all add: tiny_heap_def load_store_other)

lemma less_three: "k < 3 \<Longrightarrow> k = 0 \<or> k = 1 \<or> k = (2 :: nat)"
  by auto

lemma tiny_free_bytes: "free_bytes 65536 tiny_free = {8192..<16384}"
proof -
  have "free_bytes 65536 tiny_free = bytes 65536 1 73728"
    by (auto simp: free_bytes_def tiny_free_def split: if_splits)
  then show ?thesis
    by (simp add: bytes_def bsz_def)
qed

lemma tiny_buddy_inv: "bd_inv 4096 tiny_buddy tiny_free"
proof -
  have geo: "bd_geo 3 65536 4096 tiny_free"
    unfolding bd_geo_def tiny_free_def by (auto simp: in_heap_def bsz_def)
  have lists: "mlist tiny_heap (head 65536 k) (tiny_free k)" if "k < 3" for k
    using less_three [OF that] tiny_loads
    by (auto simp: mlist_def ring_def head_def tiny_free_def lst_next_def lst_prev_def lst_node_def)
  have map: "map_of_class 3 65536 4096 p k" if "k < 3" "65632 \<le> unat p" "unat p < 65640" for p k
    unfolding map_of_class_def
  proof (intro allI impI)
    fix i :: nat
    assume "i < 2 ^ (3 - 1 - k)"
    also have "\<dots> \<le> 2 ^ 2"
      by (rule power_increasing) simp_all
    finally have "i div 8 = 0" by simp
    moreover have "unat (p - 65536) = unat p - 65536"
      using that(2) by (subst unat_sub) (simp_all add: word_le_nat_alt)
    ultimately show "32 * 3 \<le> off 65536 (p + of_nat (i div 8)) \<and> off 65536 (p + of_nat (i div 8)) < 4096"
      using that by simp linarith
  qed
  have "map_of_class 3 65536 4096 (load64 tiny_heap (head 65536 k + 16)) k" if "k < 3" for k
    using less_three [OF that] by (intro map) (auto simp: head_def tiny_loads)
  moreover have "map_of_class 3 65536 4096 (load64 tiny_heap (head 65536 k + 24)) k" if "k < 3" "0 < k" for k
    using less_three [OF that(1)] that(2) by (intro map) (auto simp: head_def tiny_loads)
  ultimately show ?thesis
    using geo lists by (simp add: bd_inv_def bd_wf_def tiny_buddy_def)
qed

theorem bd_malloc_allocates_witness:
  "\<exists>p m' F'. bd_malloc 4096 tiny_buddy = Ret p (settle (tiny_buddy\<lparr>mem := m'\<rparr>)) \<and> p \<noteq> 0
    \<and> marked m' 65536 0 p \<and> bytes 65536 0 p \<subseteq> {8192..<16384}
    \<and> free_bytes 65536 F' = {8192..<16384} - bytes 65536 0 p"
proof -
  have "hart_ok tiny_buddy" "idle LBuddy tiny_buddy" "bd_base tiny_buddy = 65536"
    by (simp_all add: tiny_buddy_def hart_ok_def idle_def machine_defs)
  moreover have "firstk 4096 = Some 0"
    by (simp add: firstk_def LEAF_SIZE_def firstk_loop.simps [of _ 0])
  moreover have "\<exists>k. tiny_free k \<noteq> []"
    by (auto simp: tiny_free_def)
  ultimately show ?thesis
    using bd_malloc_allocates [OF tiny_buddy_inv, of 4096] tiny_free_bytes by auto
qed

end
