(* ===== verification/Mkfs.thy ===== *)
theory Mkfs
  imports Fs
begin

text \<open>
  The image builder, \<^verbatim>\<open>mkfs/mkfs.c\<close>. It runs on the host, whose integers are 32 bits wide with the
  least significant byte first. The state holds the bytes of \<^verbatim>\<open>fs.img\<close>, its length, the length up to which the
  host lets it grow, and the global variables. A failed assertion, \<^verbatim>\<open>die\<close> and the usage message end
  the program with a failure; what a failed write leaves in the file is not described. Messages are left out.
\<close>

section \<open>State\<close>

definition NINODES :: nat where "NINODES = 200"
definition FSSIZE :: nat where "FSSIZE = 2000"

definition mk_nbitmap :: nat where "mk_nbitmap = FSSIZE div BPB + 1"
definition mk_ninodeblocks :: nat where "mk_ninodeblocks = NINODES div IPB + 1"
definition mk_nlog :: nat where "mk_nlog = nat LOGBLOCKS + 1"

record mkfs =
  img :: "nat \<Rightarrow> byte"
  img_len :: nat
  img_max :: nat
  mk_sb :: superblock
  nmeta :: nat
  nblocks :: nat
  freeinode :: uint
  freeblock :: uint

definition die :: "string \<Rightarrow> (mkfs, 'a) oper" where
  "die msg = panic msg"

definition assertM :: "bool \<Rightarrow> (mkfs, unit) oper" where
  "assertM c = whenM (\<not> c) (panic ''assert'')"

text \<open>The bytes of \<open>y\<close> are those of \<open>x\<close> from the least significant one on.\<close>

definition xshort :: "ushort \<Rightarrow> ushort" where
  "xshort x = (let y = (\<lambda>_. 0)(0 := ucast x, 1 := ucast (drop_bit 8 x)) in get16 y 0)"

definition xint :: "uint \<Rightarrow> uint" where
  "xint x = (let y = (\<lambda>_. 0)(0 := ucast x, 1 := ucast (drop_bit 8 x), 2 := ucast (drop_bit 16 x),
     3 := ucast (drop_bit 24 x)) in get32 y 0)"

section \<open>Sectors and inodes\<close>

text \<open>The offset is computed in 32 bits; \<^verbatim>\<open>lseek\<close> succeeds for every offset.\<close>

definition sect_off :: "uint \<Rightarrow> nat" where
  "sect_off sec = unat (sec * of_nat BSIZE)"

definition wsect :: "uint \<Rightarrow> block \<Rightarrow> (mkfs, unit) oper" where
  "wsect sec buf s =
     (let k = sect_off sec in
      if img_max s < k + BSIZE then die ''write'' s
      else Ret () (s\<lparr>img := (\<lambda>i. if k \<le> i \<and> i < k + BSIZE then buf (i - k) else if i < img_len s then img s i else 0),
        img_len := max (img_len s) (k + BSIZE)\<rparr>))"

definition rsect :: "uint \<Rightarrow> (mkfs, block) oper" where
  "rsect sec s =
     (let k = sect_off sec in
      if img_len s < k + BSIZE then die ''read'' s
      else Ret (\<lambda>i. if i < BSIZE then img s (k + i) else 0) s)"

definition winode :: "uint \<Rightarrow> dinode \<Rightarrow> (mkfs, unit) oper" where
  "winode inum ip =
     bind (gets (\<lambda>s. IBLOCK (unat inum) (mk_sb s))) (\<lambda>bn.
     bind (rsect bn) (\<lambda>buf.
     wsect bn (put_dinode buf (dinode_off (unat inum)) ip)))"

definition rinode :: "uint \<Rightarrow> (mkfs, dinode) oper" where
  "rinode inum =
     bind (gets (\<lambda>s. IBLOCK (unat inum) (mk_sb s))) (\<lambda>bn.
     bind (rsect bn) (\<lambda>buf.
     ret (get_dinode buf (dinode_off (unat inum)))))"

definition mkfs_ialloc :: "ushort \<Rightarrow> (mkfs, uint) oper" where
  "mkfs_ialloc type =
     bind (gets freeinode) (\<lambda>inum.
     andthen (modify (\<lambda>s. s\<lparr>freeinode := freeinode s + 1\<rparr>))
     (andthen (winode inum \<lparr>di_type = xshort type, di_major = 0, di_minor = 0, di_nlink = xshort 1,
        di_size = xint 0, di_addrs = (\<lambda>_. 0)\<rparr>)
     (ret inum)))"

definition mkfs_balloc :: "int \<Rightarrow> (mkfs, unit) oper" where
  "mkfs_balloc n =
     andthen (assertM (n < int BPB))
     (bind (gets (\<lambda>s. sb_bmapstart (mk_sb s))) (\<lambda>b.
      wsect b (fold bmap_set [0..<nat n] (\<lambda>_. 0))))"

section \<open>Appending to a file\<close>

definition take_block :: "(mkfs, uint) oper" where
  "take_block =
     bind (gets freeblock) (\<lambda>b. andthen (modify (\<lambda>s. s\<lparr>freeblock := freeblock s + 1\<rparr>)) (ret b))"

text \<open>\<^verbatim>\<open>if(xint(din.addrs[i]) == 0) din.addrs[i] = xint(freeblock++);\<close>.\<close>

definition iappend_entry :: "dinode \<Rightarrow> nat \<Rightarrow> (mkfs, dinode) oper" where
  "iappend_entry din i =
     (if xint (di_addrs din i) = 0
      then bind take_block (\<lambda>b. ret (din\<lparr>di_addrs := (di_addrs din)(i := xint b)\<rparr>))
      else ret din)"

text \<open>The block that holds block \<open>fbn\<close> of the file, allocated if there is none.\<close>

definition iappend_addr :: "dinode \<Rightarrow> nat \<Rightarrow> (mkfs, dinode \<times> uint) oper" where
  "iappend_addr din fbn =
     (if fbn < NDIRECT
      then bind (iappend_entry din fbn) (\<lambda>din. ret (din, xint (di_addrs din fbn)))
      else
        bind (iappend_entry din NDIRECT) (\<lambda>din.
        let a = xint (di_addrs din NDIRECT); k = 4 * (fbn - NDIRECT) in
        bind (rsect a) (\<lambda>indirect.
        if get32 indirect k = 0
        then bind take_block (\<lambda>b.
          let indirect = put32 indirect k (xint b) in
          andthen (wsect a indirect) (ret (din, xint (get32 indirect k))))
        else ret (din, xint (get32 indirect k)))))"

text \<open>
  The assertion bounds \<^verbatim>\<open>fbn\<close>, so that no offset wraps around. The bytes still to be appended are the list.
\<close>

function iappend_loop :: "dinode \<Rightarrow> nat \<Rightarrow> byte list \<Rightarrow> (mkfs, dinode \<times> nat) oper" where
  "iappend_loop din off p =
     (if p = [] then ret (din, off)
      else
        let fbn = off div BSIZE;
            n1 = min (length p) ((fbn + 1) * BSIZE - off)
        in
        andthen (assertM (fbn < MAXFILE))
        (bind (iappend_addr din fbn) (\<lambda>(din, x).
         bind (rsect x) (\<lambda>buf.
         andthen (wsect x (put_bytes (off - fbn * BSIZE) (take n1 p) buf))
         (iappend_loop din (off + n1) (drop n1 p))))))"
  by pat_completeness auto
termination
proof (relation "measure (\<lambda>(din, off, p). length p)")
  fix p :: "byte list" and off fbn n1
  assume "p \<noteq> []" "fbn = off div BSIZE" "n1 = min (length p) ((fbn + 1) * BSIZE - off)"
  moreover have "off < (off div BSIZE + 1) * BSIZE"
    using mod_less_divisor [of BSIZE off] div_mult_mod_eq [of off BSIZE] by (simp add: BSIZE_def)
  ultimately have "0 < n1" "p \<noteq> []"
    by simp_all
  then show "((din, off + n1, drop n1 p), (din', off, p)) \<in> measure (\<lambda>(din, off, p). length p)" for din din' :: dinode
    by simp
qed simp

declare iappend_loop.simps [simp del]

definition iappend :: "uint \<Rightarrow> byte list \<Rightarrow> (mkfs, unit) oper" where
  "iappend inum p =
     bind (rinode inum) (\<lambda>din.
     bind (iappend_loop din (unat (xint (di_size din))) p) (\<lambda>(din, off).
     winode inum (din\<lparr>di_size := xint (of_nat off)\<rparr>)))"

section \<open>The program\<close>

text \<open>\<^verbatim>\<open>struct dirent\<close> with the name copied by \<^verbatim>\<open>strcpy\<close> or \<^verbatim>\<open>strncpy\<close> into zeroed memory.\<close>

definition mk_dirent :: "ushort \<Rightarrow> string \<Rightarrow> byte list" where
  "mk_dirent inum name = [ucast inum, ucast (drop_bit 8 inum)] @ map (of_string name) [0..<DIRSIZ]"

text \<open>
  \<open>host\<close> is the file system of the host: for a file that can be opened, what the successive calls of
  \<^verbatim>\<open>read\<close> deliver. The loop stops at the first that delivers nothing.
\<close>

type_synonym host = "string \<Rightarrow> byte list list option"

definition shortname :: "string \<Rightarrow> string" where
  "shortname arg = (if take 5 arg = ''user/'' then drop 5 arg else arg)"

definition skip_underscore :: "string \<Rightarrow> string" where
  "skip_underscore name = (if name \<noteq> [] \<and> hd name = CHR ''_'' then tl name else name)"

definition mkfs_add :: "host \<Rightarrow> uint \<Rightarrow> string \<Rightarrow> (mkfs, unit) oper" where
  "mkfs_add host rootino arg =
     andthen (assertM (CHR ''/'' \<notin> set (shortname arg)))
     (case host arg of
        None \<Rightarrow> die arg
      | Some chunks \<Rightarrow>
          let name = skip_underscore (shortname arg) in
          andthen (assertM (length name \<le> DIRSIZ))
          (bind (mkfs_ialloc T_FILE) (\<lambda>inum.
           andthen (iappend rootino (mk_dirent (xshort (ucast inum)) name))
           (forM (takeWhile (\<lambda>c. c \<noteq> []) chunks) (iappend inum)))))"

definition put_superblock :: "superblock \<Rightarrow> block \<Rightarrow> block" where
  "put_superblock w d =
     put32 (put32 (put32 (put32 (put32 (put32 (put32 (put32 d 0 (sb_magic w)) 4 (sb_size w)) 8 (sb_nblocks w))
       12 (sb_ninodes w)) 16 (sb_nlog w)) 20 (sb_logstart w)) 24 (sb_inodestart w)) 28 (sb_bmapstart w)"

text \<open>The end of \<^verbatim>\<open>main\<close>: the size of the root directory, then the bitmap; before that the root directory and the files.\<close>

definition mkfs_finish :: "uint \<Rightarrow> (mkfs, unit) oper" where
  "mkfs_finish rootino =
     bind (rinode rootino) (\<lambda>din.
     let off = (xint (di_size din) div of_nat BSIZE + 1) * of_nat BSIZE in
     andthen (winode rootino (din\<lparr>di_size := xint off\<rparr>))
     (bind (gets freeblock) (\<lambda>b. mkfs_balloc (sint b))))"

definition mkfs_root :: "host \<Rightarrow> string list \<Rightarrow> (mkfs, unit) oper" where
  "mkfs_root host args =
     bind (mkfs_ialloc T_DIR) (\<lambda>rootino.
     andthen (assertM (rootino = ROOTINO))
     (andthen (iappend rootino (mk_dirent (xshort (ucast rootino)) ''.''))
     (andthen (iappend rootino (mk_dirent (xshort (ucast rootino)) ''..''))
     (andthen (forM args (mkfs_add host rootino))
     (mkfs_finish rootino)))))"

text \<open>\<open>create\<close> tells whether the host can create the image file.\<close>

definition mkfs_main :: "(string \<Rightarrow> bool) \<Rightarrow> host \<Rightarrow> string list \<Rightarrow> (mkfs, unit) oper" where
  "mkfs_main create host argv =
     (if length argv < 2 then panic ''Usage: mkfs fs.img files...''
      else
        andthen (assertM (BSIZE mod 64 = 0))
        (andthen (assertM (BSIZE mod 16 = 0))
        (if \<not> create (argv ! 1) then die (argv ! 1)
         else
        andthen (modify (\<lambda>s. s\<lparr>img_len := 0\<rparr>))
        (andthen (modify (\<lambda>s. s\<lparr>nmeta := 2 + mk_nlog + mk_ninodeblocks + mk_nbitmap\<rparr>))
        (andthen (modify (\<lambda>s. s\<lparr>nblocks := FSSIZE - nmeta s\<rparr>))
        (andthen (modify (\<lambda>s. s\<lparr>mk_sb := \<lparr>sb_magic = FSMAGIC, sb_size = xint (of_nat FSSIZE),
           sb_nblocks = xint (of_nat (nblocks s)), sb_ninodes = xint (of_nat NINODES),
           sb_nlog = xint (of_nat mk_nlog), sb_logstart = xint 2, sb_inodestart = xint (of_nat (2 + mk_nlog)),
           sb_bmapstart = xint (of_nat (2 + mk_nlog + mk_ninodeblocks))\<rparr>\<rparr>))
        (andthen (modify (\<lambda>s. s\<lparr>freeblock := of_nat (nmeta s)\<rparr>))
        (andthen (forM [0..<FSSIZE] (\<lambda>i. wsect (of_nat i) (\<lambda>_. 0)))
        (andthen (bind (gets mk_sb) (\<lambda>w. wsect 1 (put_superblock w (\<lambda>_. 0))))
        (mkfs_root host (drop 2 argv)))))))))))"

section \<open>The image as blocks\<close>

lemma xshort_id [simp]: "xshort x = x"
  using get16_put16 [of "\<lambda>_. 0" 0 x] by (simp add: xshort_def put16_def)

lemma xint_id [simp]: "xint x = x"
  using get32_put32 [of "\<lambda>_. 0" 0 x] by (simp add: xint_def put32_def eval_nat_numeral)

definition meta_blocks :: nat where
  "meta_blocks = 2 + mk_nlog + mk_ninodeblocks + mk_nbitmap"

lemma mk_numbers:
  "FSSIZE = 2000" "meta_blocks = 107" "MAXFILE = 268" "NDIRECT = 12" "mk_nlog = 91" "mk_ninodeblocks = 13" "mk_nbitmap = 1"
  "NINODES = 200" "IPB = 16"
  by (simp_all add: FSSIZE_def meta_blocks_def mk_nlog_def mk_ninodeblocks_def mk_nbitmap_def NINODES_def LOGBLOCKS_def
    MAXOPBLOCKS_def IPB_def BPB_def BSIZE_def MAXFILE_def NDIRECT_def NINDIRECT_def)

definition iblk :: "mkfs \<Rightarrow> uint \<Rightarrow> block" where
  "iblk s b = blk (\<lambda>i. img s (unat b * BSIZE + i))"

definition full :: "mkfs \<Rightarrow> bool" where
  "full s \<longleftrightarrow> img_len s = FSSIZE * BSIZE \<and> FSSIZE * BSIZE \<le> img_max s"

definition put_sect :: "uint \<Rightarrow> block \<Rightarrow> mkfs \<Rightarrow> mkfs" where
  "put_sect b d s = s\<lparr>img := (\<lambda>i. if unat b * BSIZE \<le> i \<and> i < unat b * BSIZE + BSIZE then d (i - unat b * BSIZE)
     else if i < img_len s then img s i else 0)\<rparr>"

lemma sect_off_small:
  assumes "unat b < FSSIZE"
  shows "sect_off b = unat b * BSIZE" "unat b * BSIZE + BSIZE \<le> FSSIZE * BSIZE"
proof -
  show "unat b * BSIZE + BSIZE \<le> FSSIZE * BSIZE"
    using assms mult_le_mono1 [of "Suc (unat b)" FSSIZE BSIZE] by simp
  then show "sect_off b = unat b * BSIZE"
    unfolding sect_off_def by (subst unat_word_ariths(2)) (simp add: mk_numbers BSIZE_def)
qed

lemma rsect_run: "full s \<Longrightarrow> unat b < FSSIZE \<Longrightarrow> rsect b s = Ret (iblk s b) s"
  using sect_off_small [of b] by (simp add: rsect_def full_def iblk_def blk_def)

lemma wsect_run: "full s \<Longrightarrow> unat b < FSSIZE \<Longrightarrow> wsect b d s = Ret () (put_sect b d s)"
  using sect_off_small [of b] by (simp add: wsect_def full_def put_sect_def max_absorb1 Let_def)

lemma put_sect_simps [simp]:
  "img_len (put_sect b d s) = img_len s" "img_max (put_sect b d s) = img_max s" "mk_sb (put_sect b d s) = mk_sb s"
  "freeinode (put_sect b d s) = freeinode s" "freeblock (put_sect b d s) = freeblock s"
  "full (put_sect b d s) = full s"
  by (simp_all add: put_sect_def full_def)

lemma iblk_put_sect:
  assumes "full s" "unat k < FSSIZE"
  shows "iblk (put_sect b d s) k = (if k = b then blk d else iblk s k)"
proof (rule ext)
  fix i
  show "iblk (put_sect b d s) k i = (if k = b then blk d else iblk s k) i"
  proof (cases "k = b \<or> \<not> i < BSIZE")
    case True
    then show ?thesis by (auto simp: iblk_def blk_def put_sect_def)
  next
    case False
    then have "unat k \<noteq> unat b" "i < BSIZE"
      by (auto simp: word_unat_eq_iff)
    then have "unat k * BSIZE + BSIZE \<le> unat b * BSIZE \<or> unat b * BSIZE + BSIZE \<le> unat k * BSIZE"
      using mult_le_mono1 [of "Suc (unat k)" "unat b" BSIZE] mult_le_mono1 [of "Suc (unat b)" "unat k" BSIZE]
      by (cases "unat k < unat b") auto
    moreover have "unat k * BSIZE + i < img_len s"
      using sect_off_small(2) [OF assms(2)] \<open>i < BSIZE\<close> assms(1) by (simp add: full_def)
    ultimately show ?thesis
      using False by (auto simp: iblk_def blk_def put_sect_def)
  qed
qed

section \<open>Where the blocks of a file are\<close>

text \<open>
  The slots of an inode: below \<open>MAXFILE\<close> the address of a block of the file, at \<open>MAXFILE\<close> the address of
  the indirect block. The table \<open>S\<close> gives the slots of the inodes \<open>1 .. N - 1\<close>.
\<close>

definition fslot :: "mkfs \<Rightarrow> dinode \<Rightarrow> nat \<Rightarrow> uint" where
  "fslot s din j =
     (if j < NDIRECT then di_addrs din j
      else if j < MAXFILE then (if di_addrs din NDIRECT = 0 then 0 else get32 (iblk s (di_addrs din NDIRECT)) (4 * (j - NDIRECT)))
      else di_addrs din NDIRECT)"

definition layout :: "nat \<Rightarrow> nat \<Rightarrow> (nat \<Rightarrow> nat \<Rightarrow> uint) \<Rightarrow> bool" where
  "layout fb N S \<longleftrightarrow>
     (\<forall>i j. 0 < i \<and> i < N \<and> j \<le> MAXFILE \<and> S i j \<noteq> 0 \<longrightarrow> meta_blocks \<le> unat (S i j) \<and> unat (S i j) < fb)
     \<and> (\<forall>i j i' j'. 0 < i \<and> i < N \<and> j \<le> MAXFILE \<and> 0 < i' \<and> i' < N \<and> j' \<le> MAXFILE \<and> S i j \<noteq> 0 \<and> S i j = S i' j'
          \<longrightarrow> i = i' \<and> j = j')"

lemma layoutD:
  assumes "layout fb N S" "0 < i" "i < N" "j \<le> MAXFILE" "S i j \<noteq> 0"
  shows "meta_blocks \<le> unat (S i j)" "unat (S i j) < fb"
    "0 < i' \<Longrightarrow> i' < N \<Longrightarrow> j' \<le> MAXFILE \<Longrightarrow> S i' j' = S i j \<longleftrightarrow> i' = i \<and> j' = j"
  using assms unfolding layout_def by metis+

definition mk_state :: "mkfs \<Rightarrow> nat \<Rightarrow> (nat \<Rightarrow> dinode) \<Rightarrow> (nat \<Rightarrow> nat \<Rightarrow> uint) \<Rightarrow> bool" where
  "mk_state s N E S \<longleftrightarrow>
     full s \<and> meta_blocks \<le> unat (freeblock s) \<and> unat (freeblock s) \<le> FSSIZE \<and> layout (unat (freeblock s)) N S
     \<and> (\<forall>b. unat (freeblock s) \<le> unat b \<and> unat b < FSSIZE \<longrightarrow> iblk s b = (\<lambda>_. 0))
     \<and> (\<forall>i. 0 < i \<and> i < N \<longrightarrow> dinode_ok (E i) \<and> (\<forall>j \<le> MAXFILE. fslot s (E i) j = S i j))"

lemma mk_stateD:
  assumes "mk_state s N E S"
  shows "full s" "meta_blocks \<le> unat (freeblock s)" "unat (freeblock s) \<le> FSSIZE" "layout (unat (freeblock s)) N S"
    "unat (freeblock s) \<le> unat b \<Longrightarrow> unat b < FSSIZE \<Longrightarrow> iblk s b = (\<lambda>_. 0)"
    "0 < i \<Longrightarrow> i < N \<Longrightarrow> dinode_ok (E i)" "0 < i \<Longrightarrow> i < N \<Longrightarrow> j \<le> MAXFILE \<Longrightarrow> fslot s (E i) j = S i j"
  using assms unfolding mk_state_def by blast+

text \<open>The next free block becomes a slot that was empty.\<close>

definition set_slot :: "nat \<Rightarrow> nat \<Rightarrow> uint \<Rightarrow> (nat \<Rightarrow> nat \<Rightarrow> uint) \<Rightarrow> nat \<Rightarrow> nat \<Rightarrow> uint" where
  "set_slot i j b S = S(i := (S i)(j := b))"

lemma layout_set_slot:
  assumes "layout (unat b) N S" "meta_blocks \<le> unat b"
  shows "layout (Suc (unat b)) N (set_slot i j b S)"
proof -
  have ne: "S i' j' \<noteq> b" if "0 < i'" "i' < N" "j' \<le> MAXFILE" "S i' j' \<noteq> 0" for i' j'
    using layoutD(2) [OF assms(1) that] by auto
  have b: "b \<noteq> 0"
    using assms(2) by (auto simp: mk_numbers)
  show ?thesis
    unfolding layout_def
  proof (intro conjI allI impI)
    fix i1 j1 assume a: "0 < i1 \<and> i1 < N \<and> j1 \<le> MAXFILE \<and> set_slot i j b S i1 j1 \<noteq> 0"
    then show "meta_blocks \<le> unat (set_slot i j b S i1 j1)" "unat (set_slot i j b S i1 j1) < Suc (unat b)"
      using assms(2) layoutD(1,2) [OF assms(1), of i1 j1] by (auto simp: set_slot_def less_SucI split: if_splits)
  next
    fix i1 j1 i2 j2
    assume a: "0 < i1 \<and> i1 < N \<and> j1 \<le> MAXFILE \<and> 0 < i2 \<and> i2 < N \<and> j2 \<le> MAXFILE
      \<and> set_slot i j b S i1 j1 \<noteq> 0 \<and> set_slot i j b S i1 j1 = set_slot i j b S i2 j2"
    then show "i1 = i2" "j1 = j2"
      using layoutD(3) [OF assms(1), of i1 j1 i2 j2] ne [of i1 j1] ne [of i2 j2] b
      by (auto simp: set_slot_def split: if_splits)
  qed
qed

lemma get32_zero [simp]: "get32 (\<lambda>_. 0) k = 0"
  by (simp add: get32_def)

lemma slot_direct:
  "j < NDIRECT \<Longrightarrow> fslot s (din\<lparr>di_addrs := (di_addrs din)(j := x)\<rparr>) k = (if k = j then x else fslot s din k)"
  by (auto simp: fslot_def)

lemma slot_indirect:
  assumes "di_addrs din NDIRECT = 0" "iblk s x = (\<lambda>_. 0)" "k \<le> MAXFILE"
  shows "fslot s (din\<lparr>di_addrs := (di_addrs din)(NDIRECT := x)\<rparr>) k = (if k = MAXFILE then x else fslot s din k)"
  using assms by (auto simp: fslot_def mk_numbers)

lemma fslot_cong: "(di_addrs din NDIRECT \<noteq> 0 \<Longrightarrow> iblk t (di_addrs din NDIRECT) = iblk s (di_addrs din NDIRECT)) \<Longrightarrow> fslot t din j = fslot s din j"
  by (auto simp: fslot_def)

lemma freeblock_next:
  assumes "mk_state s N E S" "unat (freeblock s) < FSSIZE"
  shows "unat (freeblock s + 1) = Suc (unat (freeblock s))" "freeblock s \<noteq> 0"
proof -
  show "unat (freeblock s + 1) = Suc (unat (freeblock s))"
    using assms(2) by (subst unat_word_ariths(1)) (simp add: mk_numbers)
  show "freeblock s \<noteq> 0"
    using mk_stateD(2) [OF assms(1)] by (auto simp: mk_numbers)
qed

lemma mk_state_take:
  assumes "mk_state s N E S" "unat (freeblock s) < FSSIZE" "dinode_ok din"
    and "\<And>j. j \<le> MAXFILE \<Longrightarrow> fslot s din j = set_slot i k (freeblock s) S i j"
  shows "mk_state (s\<lparr>freeblock := freeblock s + 1\<rparr>) N (E(i := din)) (set_slot i k (freeblock s) S)"
proof -
  note f = freeblock_next [OF assms(1,2)] and st = mk_stateD [OF assms(1)]
  have "layout (Suc (unat (freeblock s))) N (set_slot i k (freeblock s) S)"
    by (rule layout_set_slot [OF st(4,2)])
  moreover have "iblk (s\<lparr>freeblock := b\<rparr>) = iblk s" "full (s\<lparr>freeblock := b\<rparr>) = full s"
    "fslot (s\<lparr>freeblock := b\<rparr>) = fslot s" for b
    by (auto simp: iblk_def full_def fslot_def fun_eq_iff)
  moreover have "fslot s ((E(i := din)) i') j = set_slot i k (freeblock s) S i' j"
    if "0 < i'" "i' < N" "j \<le> MAXFILE" for i' j
    using that assms(4) st(7) [of i' j] by (auto simp: set_slot_def)
  ultimately show ?thesis
    unfolding mk_state_def using f assms(2,3) st(1,2,5,6) by auto
qed

definition slot_of :: "nat \<Rightarrow> nat" where
  "slot_of j = (if j = NDIRECT then MAXFILE else j)"

lemma slot_slot_of:
  assumes "j \<le> NDIRECT"
  shows "fslot s din (slot_of j) = di_addrs din j" "slot_of j \<le> MAXFILE"
  using assms by (cases "j = NDIRECT"; simp add: fslot_def slot_of_def mk_numbers)+

lemma entry_taken:
  assumes "mk_state s N E S" "0 < i" "i < N" "j \<le> NDIRECT" "S i (slot_of j) \<noteq> 0"
  shows "iappend_entry (E i) j s = Ret (E i) s" "di_addrs (E i) j = S i (slot_of j)"
proof -
  show "di_addrs (E i) j = S i (slot_of j)"
    using mk_stateD(7) [OF assms(1-3), of "slot_of j"] by (simp add: slot_slot_of [OF assms(4)])
  with assms(5) show "iappend_entry (E i) j s = Ret (E i) s"
    by (simp add: iappend_entry_def)
qed

lemma entry_fresh:
  assumes "mk_state s N E S" "0 < i" "i < N" "j \<le> NDIRECT" "S i (slot_of j) = 0" "unat (freeblock s) < FSSIZE"
  defines "din \<equiv> (E i)\<lparr>di_addrs := (di_addrs (E i))(j := freeblock s)\<rparr>"
  shows "iappend_entry (E i) j s = Ret din (s\<lparr>freeblock := freeblock s + 1\<rparr>)"
    and "mk_state (s\<lparr>freeblock := freeblock s + 1\<rparr>) N (E(i := din)) (set_slot i (slot_of j) (freeblock s) S)"
proof -
  have z: "di_addrs (E i) j = 0"
    using mk_stateD(7) [OF assms(1-3), of "slot_of j"] assms(5) by (simp add: slot_slot_of [OF assms(4)])
  then show "iappend_entry (E i) j s = Ret din (s\<lparr>freeblock := freeblock s + 1\<rparr>)"
    by (simp add: iappend_entry_def take_block_def din_def)
  have fresh: "iblk s (freeblock s) = (\<lambda>_. 0)"
    using mk_stateD(5) [OF assms(1)] assms(6) by simp
  have "fslot s din k = set_slot i (slot_of j) (freeblock s) S i k" if "k \<le> MAXFILE" for k
    using mk_stateD(7) [OF assms(1-3) that] assms(4) z fresh that unfolding din_def
    by (cases "j = NDIRECT") (simp_all add: slot_direct slot_indirect slot_of_def set_slot_def)
  moreover have "dinode_ok din"
    using mk_stateD(6) [OF assms(1-3)] assms(4) by (simp add: din_def dinode_ok_def)
  ultimately show "mk_state (s\<lparr>freeblock := freeblock s + 1\<rparr>) N (E(i := din)) (set_slot i (slot_of j) (freeblock s) S)"
    by (intro mk_state_take assms)
qed

lemma slot_in_image:
  assumes "mk_state s N E S" "0 < i" "i < N" "j \<le> MAXFILE" "S i j \<noteq> 0"
  shows "meta_blocks \<le> unat (S i j)" "unat (S i j) < unat (freeblock s)" "unat (S i j) < FSSIZE"
  using layoutD(1,2) [OF mk_stateD(4) [OF assms(1)] assms(2-5)] mk_stateD(3) [OF assms(1)] by simp_all

text \<open>A write to the block of one slot leaves the other slots alone, unless it is an indirect block.\<close>

lemma slots_kept:
  assumes "mk_state s N E S" "0 < i" "i < N" "j \<le> MAXFILE" "S i j \<noteq> 0" "0 < i'" "i' < N" "(i, j) \<noteq> (i', MAXFILE)" "j' \<le> MAXFILE"
    and "\<And>b. unat b < FSSIZE \<Longrightarrow> b \<noteq> S i j \<Longrightarrow> iblk t b = iblk s b"
  shows "fslot t (E i') j' = S i' j'"
proof -
  have "fslot t (E i') j' = fslot s (E i') j'"
  proof (rule fslot_cong)
    assume a: "di_addrs (E i') NDIRECT \<noteq> 0"
    have e: "di_addrs (E i') NDIRECT = S i' MAXFILE"
      using mk_stateD(7) [OF assms(1,6,7), of MAXFILE] by (simp add: fslot_def mk_numbers)
    moreover have "S i' MAXFILE \<noteq> S i j"
      using layoutD(3) [OF mk_stateD(4) [OF assms(1)] assms(2-5), of i' MAXFILE] assms(6-8) by auto
    ultimately show "iblk t (di_addrs (E i') NDIRECT) = iblk s (di_addrs (E i') NDIRECT)"
      using assms(10) slot_in_image(3) [OF assms(1,6,7) order_refl] a by simp
  qed
  then show ?thesis
    using mk_stateD(7) [OF assms(1,6,7,9)] by simp
qed

lemma indirect_entry:
  assumes "mk_state s N E S" "0 < i" "i < N" "NDIRECT \<le> j" "j < MAXFILE" "S i MAXFILE \<noteq> 0" "S i j = 0" "unat (freeblock s) < FSSIZE"
  defines "a \<equiv> S i MAXFILE" and "k \<equiv> 4 * (j - NDIRECT)"
  shows "mk_state (put_sect a (put32 (iblk s a) k (freeblock s)) (s\<lparr>freeblock := freeblock s + 1\<rparr>)) N E (set_slot i j (freeblock s) S)"
proof -
  let ?d = "put32 (iblk s a) k (freeblock s)"
  let ?u = "s\<lparr>freeblock := freeblock s + 1\<rparr>"
  let ?t = "put_sect a ?d ?u"
  note st = mk_stateD [OF assms(1)] and f = freeblock_next [OF assms(1,8)]
  have u: "iblk ?u = iblk s" "full ?u"
    using st(1) by (auto simp: iblk_def full_def)
  note a = slot_in_image [OF assms(1-3) order_refl assms(6), folded a_def]
  have ib: "iblk ?t b = (if b = a then blk ?d else iblk s b)" if "unat b < FSSIZE" for b
    using iblk_put_sect [OF u(2) that] u(1) by simp
  have ea: "di_addrs (E i) NDIRECT = a"
    using st(7) [OF assms(2,3), of MAXFILE] by (simp add: fslot_def mk_numbers a_def)
  have ks: "k + 3 < BSIZE" "4 * (j' - NDIRECT) + 3 < BSIZE" if "j' < MAXFILE" for j'
    using assms(5) that by (simp_all add: k_def mk_numbers BSIZE_def)
  have "fslot ?t (E i) j' = set_slot i j (freeblock s) S i j'" if j': "j' \<le> MAXFILE" for j'
  proof (cases "NDIRECT \<le> j' \<and> j' < MAXFILE")
    case True
    have "get32 ?d (4 * (j' - NDIRECT)) = (if j' = j then freeblock s else get32 (iblk s a) (4 * (j' - NDIRECT)))"
    proof (cases "j' = j")
      case False
      then have "k + 4 \<le> 4 * (j' - NDIRECT) \<or> 4 * (j' - NDIRECT) + 4 \<le> k"
        using True assms(4) unfolding k_def by arith
      with False show ?thesis by (simp add: get_put_other(4))
    qed (simp add: k_def)
    with True st(7) [OF assms(2,3) j'] show ?thesis
      using ib [OF a(3)] ea assms(6) ks [of j'] get_blk(2) [of _ ?d] by (auto simp: fslot_def a_def set_slot_def)
  next
    case False
    with st(7) [OF assms(2,3) j'] assms(4,5) show ?thesis
      by (auto simp: fslot_def set_slot_def)
  qed
  moreover have "fslot ?t (E i') j' = set_slot i j (freeblock s) S i' j'" if "i' \<noteq> i" "0 < i'" "i' < N" "j' \<le> MAXFILE" for i' j'
    using slots_kept [OF assms(1-3) order_refl assms(6) that(2,3) _ that(4), of ?t] that(1) ib by (simp add: set_slot_def a_def)
  ultimately have "fslot ?t (E i') j' = set_slot i j (freeblock s) S i' j'" if "0 < i'" "i' < N" "j' \<le> MAXFILE" for i' j'
    using that by (cases "i' = i") simp_all
  moreover have "iblk ?t b = (\<lambda>_. 0)" if "Suc (unat (freeblock s)) \<le> unat b" "unat b < FSSIZE" for b
    using ib [OF that(2)] st(5) [of b] that a(2) by auto
  ultimately show ?thesis
    unfolding mk_state_def using f assms(8) u(2) st(2,6) layout_set_slot [OF st(4,2)] by simp
qed

text \<open>The slots \<open>ks\<close> of inode \<open>i\<close> are there afterwards; those that were not took the next free blocks.\<close>

definition grown :: "nat \<Rightarrow> nat set \<Rightarrow> mkfs \<Rightarrow> (nat \<Rightarrow> nat \<Rightarrow> uint) \<Rightarrow> mkfs \<Rightarrow> (nat \<Rightarrow> nat \<Rightarrow> uint) \<Rightarrow> bool" where
  "grown i ks s S t S' \<longleftrightarrow>
     (\<forall>i' j. S i' j \<noteq> 0 \<longrightarrow> S' i' j = S i' j)
     \<and> (\<forall>i' j. S' i' j \<noteq> 0 \<longleftrightarrow> S i' j \<noteq> 0 \<or> i' = i \<and> j \<in> ks)
     \<and> (\<forall>i' j. S i' j = 0 \<and> S' i' j \<noteq> 0 \<longrightarrow> unat (freeblock s) \<le> unat (S' i' j))
     \<and> unat (freeblock t) = unat (freeblock s) + card {j \<in> ks. S i j = 0}
     \<and> mk_sb t = mk_sb s \<and> freeinode t = freeinode s"

lemma grownD:
  assumes "grown i ks s S t S'"
  shows "S i' j \<noteq> 0 \<Longrightarrow> S' i' j = S i' j" "S' i' j \<noteq> 0 \<longleftrightarrow> S i' j \<noteq> 0 \<or> i' = i \<and> j \<in> ks"
    "S i' j = 0 \<Longrightarrow> S' i' j \<noteq> 0 \<Longrightarrow> unat (freeblock s) \<le> unat (S' i' j)"
    "unat (freeblock t) = unat (freeblock s) + card {j \<in> ks. S i j = 0}" "mk_sb t = mk_sb s" "freeinode t = freeinode s"
  using assms unfolding grown_def by blast+

lemma grown_refl: "\<forall>j \<in> ks. S i j \<noteq> 0 \<Longrightarrow> freeblock t = freeblock s \<Longrightarrow> mk_sb t = mk_sb s \<Longrightarrow> freeinode t = freeinode s \<Longrightarrow> grown i ks s S t S"
  unfolding grown_def by (simp add: card_eq_0_iff) auto

lemma grown_set_slot:
  assumes "mk_state s N E S" "unat (freeblock s) < FSSIZE" "S i j = 0"
    and "freeblock t = freeblock s + 1" "mk_sb t = mk_sb s" "freeinode t = freeinode s"
  shows "grown i {j} s S t (set_slot i j (freeblock s) S)"
proof -
  have "{j' \<in> {j}. S i j' = 0} = {j}"
    using assms(3) by auto
  then show ?thesis
    using freeblock_next [OF assms(1,2)] assms(3-6) by (auto simp: grown_def set_slot_def)
qed

lemma grown_trans:
  assumes "grown i {j} s S t S'" "grown i {k} t S' u S''" "j \<noteq> k"
  shows "grown i {j, k} s S u S''"
proof -
  have "S' i k = 0 \<longleftrightarrow> S i k = 0"
    using assms(1,3) unfolding grown_def by blast
  then have c: "card {l \<in> {j, k}. S i l = 0} = card {l \<in> {j}. S i l = 0} + card {l \<in> {k}. S' i l = 0}"
    using assms(3) by (cases "S i j = 0"; cases "S i k = 0") (auto simp: Collect_conv_if conj_disj_distribR Collect_disj_eq)
  have lo: "unat (freeblock s) \<le> unat (S'' i' l)" if "S i' l = 0" "S'' i' l \<noteq> 0" for i' l
  proof (cases "S' i' l = 0")
    case True
    then have "unat (freeblock t) \<le> unat (S'' i' l)"
      using grownD(3) [OF assms(2)] that(2) by blast
    then show ?thesis
      using grownD(4) [OF assms(1)] by linarith
  next
    case False
    then show ?thesis
      using grownD(3) [OF assms(1) that(1) False] grownD(1) [OF assms(2) False] by simp
  qed
  have kp: "S'' i' l = S i' l" if "S i' l \<noteq> 0" for i' l
    using grownD(1) [OF assms(1) that] grownD(1) [OF assms(2), of i' l] that by simp
  have nz: "S'' i' l \<noteq> 0 \<longleftrightarrow> S i' l \<noteq> 0 \<or> i' = i \<and> l \<in> {j, k}" for i' l
    using grownD(2) [OF assms(1), of i' l] grownD(2) [OF assms(2), of i' l] by auto
  show ?thesis
    unfolding grown_def
  proof (intro conjI allI impI)
    show "unat (freeblock u) = unat (freeblock s) + card {l \<in> {j, k}. S i l = 0}"
      using c grownD(4) [OF assms(1)] grownD(4) [OF assms(2)] by simp
    show "mk_sb u = mk_sb s" "freeinode u = freeinode s"
      using grownD(5,6) [OF assms(1)] grownD(5,6) [OF assms(2)] by simp_all
  qed (use lo kp nz in blast)+
qed

lemma entry_spec:
  assumes "mk_state s N E S" "0 < i" "i < N" "j \<le> NDIRECT" "S i (slot_of j) = 0 \<Longrightarrow> unat (freeblock s) < FSSIZE"
  shows "\<exists>A S' t. iappend_entry (E i) j s = Ret ((E i)\<lparr>di_addrs := A\<rparr>) t \<and> A j = S' i (slot_of j)
    \<and> mk_state t N (E(i := (E i)\<lparr>di_addrs := A\<rparr>)) S' \<and> grown i {slot_of j} s S t S' \<and> iblk t = iblk s"
proof (cases "S i (slot_of j) = 0")
  case True
  let ?A = "(di_addrs (E i))(j := freeblock s)" and ?t = "s\<lparr>freeblock := freeblock s + 1\<rparr>"
  note f = entry_fresh [OF assms(1-4) True assms(5) [OF True]]
  have "grown i {slot_of j} s S ?t (set_slot i (slot_of j) (freeblock s) S)"
    by (rule grown_set_slot [OF assms(1) assms(5) [OF True] True]) simp_all
  moreover have "iblk ?t = iblk s"
    by (auto simp: iblk_def)
  moreover have "?A j = set_slot i (slot_of j) (freeblock s) S i (slot_of j)"
    by (simp add: set_slot_def)
  ultimately show ?thesis
    using f by blast
next
  case False
  note e = entry_taken [OF assms(1-4) False]
  have "grown i {slot_of j} s S s S"
    by (rule grown_refl) (use False in simp_all)
  then show ?thesis
    using e assms(1) by (intro exI [of _ "di_addrs (E i)"] exI [of _ S] exI [of _ s]) simp
qed

text \<open>The address part of \<^verbatim>\<open>iappend\<close>: blocks other than the indirect block keep their contents.\<close>

lemma addr_direct:
  assumes "mk_state s N E S" "0 < i" "i < N" "j < NDIRECT" "S i j = 0 \<Longrightarrow> unat (freeblock s) < FSSIZE"
  shows "\<exists>A S' t. iappend_addr (E i) j s = Ret ((E i)\<lparr>di_addrs := A\<rparr>, S' i j) t
    \<and> mk_state t N (E(i := (E i)\<lparr>di_addrs := A\<rparr>)) S' \<and> grown i {j} s S t S' \<and> iblk t = iblk s"
proof -
  have j: "slot_of j = j" "j \<le> NDIRECT"
    using assms(4) by (simp_all add: slot_of_def)
  obtain A S' t where e: "iappend_entry (E i) j s = Ret ((E i)\<lparr>di_addrs := A\<rparr>) t" "A j = S' i j"
    "mk_state t N (E(i := (E i)\<lparr>di_addrs := A\<rparr>)) S'" "grown i {j} s S t S'" "iblk t = iblk s"
    using entry_spec [OF assms(1-3) j(2)] assms(5) j(1) by auto
  then have "iappend_addr (E i) j s = Ret ((E i)\<lparr>di_addrs := A\<rparr>, S' i j) t"
    using assms(4) by (simp add: iappend_addr_def)
  with e show ?thesis by blast
qed

lemma addr_indirect:
  assumes "mk_state s N E S" "0 < i" "i < N" "NDIRECT \<le> j" "j < MAXFILE"
    and fits: "unat (freeblock s) + card {l \<in> {MAXFILE, j}. S i l = 0} \<le> FSSIZE"
  shows "\<exists>A S' t. iappend_addr (E i) j s = Ret ((E i)\<lparr>di_addrs := A\<rparr>, S' i j) t
    \<and> mk_state t N (E(i := (E i)\<lparr>di_addrs := A\<rparr>)) S' \<and> grown i {MAXFILE, j} s S t S'
    \<and> (\<forall>b. unat b < FSSIZE \<longrightarrow> b \<noteq> S' i MAXFILE \<longrightarrow> iblk t b = iblk s b)"
proof -
  have "0 < card {l \<in> {MAXFILE, j}. S i l = 0}" if "S i MAXFILE = 0"
    using that by (auto simp: card_gt_0_iff)
  then have "S i MAXFILE = 0 \<Longrightarrow> unat (freeblock s) < FSSIZE"
    using fits by fastforce
  then obtain A S1 t1 where e: "iappend_entry (E i) NDIRECT s = Ret ((E i)\<lparr>di_addrs := A\<rparr>) t1" "A NDIRECT = S1 i MAXFILE"
    "mk_state t1 N (E(i := (E i)\<lparr>di_addrs := A\<rparr>)) S1" "grown i {MAXFILE} s S t1 S1" "iblk t1 = iblk s"
    using entry_spec [OF assms(1-3), of NDIRECT] by (auto simp: slot_of_def)
  let ?E = "E(i := (E i)\<lparr>di_addrs := A\<rparr>)" and ?a = "S1 i MAXFILE" and ?k = "4 * (j - NDIRECT)"
  have a: "?a \<noteq> 0"
    using e(4) by (simp add: grown_def)
  note ai = slot_in_image [OF e(3) assms(2,3) order_refl a]
  have r: "rsect ?a t1 = Ret (iblk t1 ?a) t1"
    by (rule rsect_run [OF mk_stateD(1) [OF e(3)] ai(3)])
  have w: "get32 (iblk t1 ?a) ?k = S1 i j"
    using mk_stateD(7) [OF e(3) assms(2,3), of j] assms(4,5) e(2) a by (simp add: fslot_def)
  show ?thesis
  proof (cases "S1 i j = 0")
    case False
    have "iappend_addr (E i) j s = Ret ((E i)\<lparr>di_addrs := A\<rparr>, S1 i j) t1"
      using e(1,2) r w False assms(4) by (simp add: iappend_addr_def Let_def)
    moreover have "grown i {MAXFILE, j} s S t1 S1"
      by (rule grown_trans [OF e(4) grown_refl]) (use False assms(5) in simp_all)
    ultimately show ?thesis
      using e(3,5) by metis
  next
    case True
    let ?u = "t1\<lparr>freeblock := freeblock t1 + 1\<rparr>" and ?S = "set_slot i j (freeblock t1) S1"
    let ?t = "put_sect ?a (put32 (iblk t1 ?a) ?k (freeblock t1)) ?u"
    have "S i j = 0"
      using e(4) True unfolding grown_def by blast
    then have c: "card {l \<in> {MAXFILE, j}. S i l = 0} = card {l \<in> {MAXFILE}. S i l = 0} + 1"
      using assms(5) by (cases "S i MAXFILE = 0") (auto simp: Collect_conv_if conj_disj_distribR Collect_disj_eq)
    then have fb: "unat (freeblock t1) < FSSIZE"
      using e(4) fits unfolding grown_def by linarith
    note st = indirect_entry [OF e(3) assms(2,3,4,5) a True fb]
    have u: "full ?u" "iblk ?u = iblk t1"
      using mk_stateD(1) [OF e(3)] by (auto simp: full_def iblk_def)
    have "wsect ?a (put32 (iblk t1 ?a) ?k (freeblock t1)) ?u = Ret () ?t"
      by (rule wsect_run [OF u(1) ai(3)])
    moreover have "?S i j = freeblock t1" "?S i MAXFILE = ?a"
      using assms(5) by (simp_all add: set_slot_def)
    ultimately have "iappend_addr (E i) j s = Ret ((E i)\<lparr>di_addrs := A\<rparr>, ?S i j) ?t"
      using e(1,2) r w True assms(4) by (simp add: iappend_addr_def Let_def take_block_def)
    moreover have "grown i {MAXFILE, j} s S ?t ?S"
      by (rule grown_trans [OF e(4) grown_set_slot [OF e(3) fb True]]) (use assms(5) in simp_all)
    moreover have "\<forall>b. unat b < FSSIZE \<longrightarrow> b \<noteq> ?S i MAXFILE \<longrightarrow> iblk ?t b = iblk s b"
      using iblk_put_sect [OF u(1)] u(2) e(5) \<open>?S i MAXFILE = ?a\<close> by simp
    ultimately show ?thesis
      using st by metis
  qed
qed

section \<open>Appending\<close>

lemma mk_state_data:
  assumes "mk_state s N E S" "0 < i" "i < N" "j < MAXFILE" "S i j \<noteq> 0"
  shows "mk_state (put_sect (S i j) d s) N E S"
proof -
  note st = mk_stateD [OF assms(1)] and x = slot_in_image [OF assms(1-3) less_imp_le [OF assms(4)] assms(5)]
  have ib: "iblk (put_sect (S i j) d s) b = (if b = S i j then blk d else iblk s b)" if "unat b < FSSIZE" for b
    by (rule iblk_put_sect [OF st(1) that])
  have "fslot (put_sect (S i j) d s) (E i') j' = S i' j'" if "0 < i'" "i' < N" "j' \<le> MAXFILE" for i' j'
    by (rule slots_kept [OF assms(1-3) less_imp_le [OF assms(4)] assms(5) that(1,2) _ that(3)]) (use assms(4) ib in auto)
  moreover have "iblk (put_sect (S i j) d s) b = (\<lambda>_. 0)" if "unat (freeblock s) \<le> unat b" "unat b < FSSIZE" for b
    using ib [OF that(2)] st(5) [OF that] x(2) that(1) by auto
  ultimately show ?thesis
    unfolding mk_state_def using st by simp
qed

definition slots_for :: "nat \<Rightarrow> nat set" where
  "slots_for fbn = (if fbn < NDIRECT then {fbn} else {MAXFILE, fbn})"

lemma addr_spec:
  assumes "mk_state s N E S" "0 < i" "i < N" "j < MAXFILE"
    and fits: "unat (freeblock s) + card {l \<in> slots_for j. S i l = 0} \<le> FSSIZE"
  shows "\<exists>A S' t. iappend_addr (E i) j s = Ret ((E i)\<lparr>di_addrs := A\<rparr>, S' i j) t
    \<and> mk_state t N (E(i := (E i)\<lparr>di_addrs := A\<rparr>)) S' \<and> grown i (slots_for j) s S t S'
    \<and> (\<forall>b. unat b < FSSIZE \<longrightarrow> j < NDIRECT \<or> b \<noteq> S' i MAXFILE \<longrightarrow> iblk t b = iblk s b)"
proof (cases "j < NDIRECT")
  case True
  have "{l \<in> {j}. S i l = 0} = (if S i j = 0 then {j} else {})"
    by auto
  then have "S i j = 0 \<Longrightarrow> unat (freeblock s) < FSSIZE"
    using fits True by (simp add: slots_for_def)
  then obtain A S' t where "iappend_addr (E i) j s = Ret ((E i)\<lparr>di_addrs := A\<rparr>, S' i j) t"
    "mk_state t N (E(i := (E i)\<lparr>di_addrs := A\<rparr>)) S'" "grown i {j} s S t S'" "iblk t = iblk s"
    using addr_direct [OF assms(1-3) True] by blast
  with True show ?thesis
    by (intro exI [of _ A] exI [of _ S'] exI [of _ t]) (simp add: slots_for_def)
next
  case False
  then have ks: "slots_for j = {MAXFILE, j}" and nd: "NDIRECT \<le> j"
    by (simp_all add: slots_for_def)
  show ?thesis
    using addr_indirect [OF assms(1-3) nd assms(4) fits [unfolded ks]] False unfolding ks by simp
qed

text \<open>\<open>D\<close> gives the bytes of each file, with zeros behind them up to the end of the last block; \<open>need n\<close> is the number of blocks a file of \<open>n\<close> bytes takes.\<close>

definition need :: "nat \<Rightarrow> nat" where
  "need n = (n + BSIZE - 1) div BSIZE + (if NDIRECT * BSIZE < n then 1 else 0)"

definition byte_at :: "byte list \<Rightarrow> nat \<Rightarrow> byte" where
  "byte_at bs k = (if k < length bs then bs ! k else 0)"

definition holds :: "mkfs \<Rightarrow> nat \<Rightarrow> (nat \<Rightarrow> nat \<Rightarrow> uint) \<Rightarrow> (nat \<Rightarrow> byte list) \<Rightarrow> bool" where
  "holds s N S D \<longleftrightarrow> (\<forall>i. 0 < i \<and> i < N \<longrightarrow>
     length (D i) \<le> MAXFILE * BSIZE
     \<and> (\<forall>j < MAXFILE. S i j \<noteq> 0 \<longleftrightarrow> j * BSIZE < length (D i))
     \<and> (S i MAXFILE \<noteq> 0 \<longleftrightarrow> NDIRECT * BSIZE < length (D i))
     \<and> (\<forall>k. k div BSIZE < MAXFILE \<and> S i (k div BSIZE) \<noteq> 0 \<longrightarrow> iblk s (S i (k div BSIZE)) (k mod BSIZE) = byte_at (D i) k))"

lemma holdsD:
  assumes "holds s N S D" "0 < i" "i < N"
  shows "length (D i) \<le> MAXFILE * BSIZE" "j < MAXFILE \<Longrightarrow> S i j \<noteq> 0 \<longleftrightarrow> j * BSIZE < length (D i)"
    "S i MAXFILE \<noteq> 0 \<longleftrightarrow> NDIRECT * BSIZE < length (D i)"
    "k div BSIZE < MAXFILE \<Longrightarrow> S i (k div BSIZE) \<noteq> 0 \<Longrightarrow> iblk s (S i (k div BSIZE)) (k mod BSIZE) = byte_at (D i) k"
  using assms unfolding holds_def by blast+

definition mk_files :: "mkfs \<Rightarrow> nat \<Rightarrow> (nat \<Rightarrow> dinode) \<Rightarrow> (nat \<Rightarrow> nat \<Rightarrow> uint) \<Rightarrow> (nat \<Rightarrow> byte list) \<Rightarrow> bool" where
  "mk_files s N E S D \<longleftrightarrow> mk_state s N E S \<and> holds s N S D
     \<and> unat (freeblock s) = meta_blocks + (\<Sum>i \<in> {1..<N}. need (length (D i)))"

lemma need_grows:
  assumes "holds s N S D" "0 < i" "i < N" "0 < n" "length (D i) mod BSIZE + n \<le> BSIZE" "length (D i) div BSIZE < MAXFILE"
  shows "card {l \<in> slots_for (length (D i) div BSIZE). S i l = 0} + need (length (D i)) = need (length (D i) + n)"
proof -
  define q r where "q = length (D i) div BSIZE" and "r = length (D i) mod BSIZE"
  have l: "length (D i) = q * BSIZE + r" and r: "r < BSIZE" "r + n \<le> BSIZE"
    using assms(5) by (simp_all add: q_def r_def BSIZE_def)
  have sq: "S i q = 0 \<longleftrightarrow> r = 0"
    using holdsD(2) [OF assms(1-3), of q, OF assms(6) [folded q_def]] unfolding l by auto
  have sm: "S i MAXFILE = 0 \<longleftrightarrow> \<not> NDIRECT * BSIZE < q * BSIZE + r"
    using holdsD(3) [OF assms(1-3)] l by auto
  have d: "(q * BSIZE + r + BSIZE - 1) div BSIZE = q + (if r = 0 then 0 else 1)"
    "(q * BSIZE + r + n + BSIZE - 1) div BSIZE = q + 1"
  proof -
    have "(q * BSIZE + r + BSIZE - 1) div BSIZE = q + (r + BSIZE - 1) div BSIZE"
      using div_mult_self3 [of BSIZE q "r + BSIZE - 1"] by (simp add: BSIZE_def)
    moreover have "(r + BSIZE - 1) div BSIZE = (if r = 0 then 0 else 1)"
      using r(1) by (auto simp: BSIZE_def div_if)
    ultimately show "(q * BSIZE + r + BSIZE - 1) div BSIZE = q + (if r = 0 then 0 else 1)"
      by simp
    have "(q * BSIZE + r + n + BSIZE - 1) div BSIZE = q + (r + n + BSIZE - 1) div BSIZE"
      using div_mult_self3 [of BSIZE q "r + n + BSIZE - 1"] by (simp add: BSIZE_def)
    moreover have "(r + n + BSIZE - 1) div BSIZE = 1"
      using r(2) assms(4) by (auto simp: BSIZE_def div_if)
    ultimately show "(q * BSIZE + r + n + BSIZE - 1) div BSIZE = q + 1"
      by simp
  qed
  have c: "card {l \<in> slots_for q. S i l = 0} = (if r = 0 then 1 else 0) + (if NDIRECT \<le> q \<and> S i MAXFILE = 0 then 1 else 0)"
    using sq assms(6) [folded q_def] unfolding slots_for_def
    by (cases "r = 0"; cases "S i MAXFILE = 0") (auto simp: Collect_conv_if conj_disj_distribR Collect_disj_eq)
  show ?thesis
    unfolding q_def [symmetric] c need_def unfolding l d sm using r assms(4) by (auto simp: mk_numbers BSIZE_def)
qed

text \<open>What an append keeps: the metadata blocks and the global variables but \<^verbatim>\<open>freeblock\<close>.\<close>

definition meta_same :: "mkfs \<Rightarrow> mkfs \<Rightarrow> bool" where
  "meta_same s t \<longleftrightarrow> (\<forall>b. unat b < meta_blocks \<longrightarrow> iblk t b = iblk s b) \<and> mk_sb t = mk_sb s \<and> freeinode t = freeinode s"

lemma div_BSIZE: "(n :: nat) = n div BSIZE * BSIZE + n mod BSIZE" "n mod BSIZE < BSIZE"
  by (simp_all add: BSIZE_def)

text \<open>The slots there are after an append of \<open>n\<close> bytes that does not cross a block boundary.\<close>

lemma slots_after:
  assumes "holds s N S D" "0 < i" "i < N" "grown i (slots_for (length (D i) div BSIZE)) s S t S'"
    and "length (D i) div BSIZE < MAXFILE" "length (D i) mod BSIZE + n \<le> BSIZE" "0 < n"
  shows "length (D i) + n \<le> MAXFILE * BSIZE"
    and "j < MAXFILE \<Longrightarrow> S' i j \<noteq> 0 \<longleftrightarrow> j * BSIZE < length (D i) + n"
    and "S' i MAXFILE \<noteq> 0 \<longleftrightarrow> NDIRECT * BSIZE < length (D i) + n"
proof -
  define q r where "q = length (D i) div BSIZE" and "r = length (D i) mod BSIZE"
  have l: "length (D i) = q * BSIZE + r" and r: "r < BSIZE" "r + n \<le> BSIZE" "0 < n"
    using assms(6,7) div_BSIZE [of "length (D i)"] by (simp_all add: q_def r_def)
  note fbn = assms(5) [folded q_def] and g = assms(4) [folded q_def]
  have nz: "S' i j \<noteq> 0 \<longleftrightarrow> S i j \<noteq> 0 \<or> j \<in> slots_for q" for j
    using g by (simp add: grown_def)
  show "length (D i) + n \<le> MAXFILE * BSIZE"
    using l r(2) mult_le_mono1 [of "Suc q" MAXFILE BSIZE] fbn by simp
  show "S' i j \<noteq> 0 \<longleftrightarrow> j * BSIZE < length (D i) + n" if "j < MAXFILE"
  proof -
    have "S' i j \<noteq> 0 \<longleftrightarrow> j * BSIZE < length (D i) \<or> j = q"
      using nz [of j] holdsD(2) [OF assms(1-3) that] that by (auto simp: slots_for_def)
    also have "\<dots> \<longleftrightarrow> j * BSIZE < length (D i) + n"
      unfolding l using r by (auto simp: BSIZE_def)
    finally show ?thesis .
  qed
  have "S' i MAXFILE \<noteq> 0 \<longleftrightarrow> NDIRECT * BSIZE < length (D i) \<or> NDIRECT \<le> q"
    using nz [of MAXFILE] holdsD(3) [OF assms(1-3)] fbn by (auto simp: slots_for_def)
  then show "S' i MAXFILE \<noteq> 0 \<longleftrightarrow> NDIRECT * BSIZE < length (D i) + n"
    unfolding l using r by (auto simp: mk_numbers BSIZE_def)
qed

lemma byte_slot:
  assumes "holds s N S D" "0 < i" "i < N" "k < length (D i)"
  shows "k div BSIZE < MAXFILE" "S i (k div BSIZE) \<noteq> 0"
proof -
  show j: "k div BSIZE < MAXFILE"
    using assms(4) holdsD(1) [OF assms(1-3)] by (simp add: div_less_iff_less_mult BSIZE_def)
  show "S i (k div BSIZE) \<noteq> 0"
    using holdsD(2) [OF assms(1-3) j] assms(4) div_mult_mod_eq [of k BSIZE] by simp
qed

text \<open>Allocating the slots of a block changes no block that already belongs to a file.\<close>

lemma grown_blocks:
  assumes "mk_state t N E S'" "0 < i" "i < N" "grown i (slots_for q) s S t S'"
    and same: "\<forall>b. unat b < FSSIZE \<longrightarrow> q < NDIRECT \<or> b \<noteq> S' i MAXFILE \<longrightarrow> iblk t b = iblk s b"
    and "0 < i'" "i' < N" "j < MAXFILE" "S i' j \<noteq> 0"
  shows "S' i' j = S i' j" "unat (S i' j) < FSSIZE" "iblk t (S i' j) = iblk s (S i' j)"
proof -
  show e: "S' i' j = S i' j"
    using assms(4,9) by (simp add: grown_def)
  show u: "unat (S i' j) < FSSIZE"
    using slot_in_image(3) [OF assms(1,6,7), of j] assms(8,9) e by simp
  have "S i' j \<noteq> S' i MAXFILE"
    using layoutD(3) [OF mk_stateD(4) [OF assms(1)] assms(6,7), of j i MAXFILE] assms(2,3,8,9) e by auto
  then show "iblk t (S i' j) = iblk s (S i' j)"
    using same u by simp
qed

text \<open>Before the append, the block it goes to holds what the file has there, or zeros.\<close>

lemma append_block_before:
  assumes "mk_state t N E S'" "0 < i" "i < N" "grown i (slots_for q) s S t S'"
    and same: "\<forall>b. unat b < FSSIZE \<longrightarrow> q < NDIRECT \<or> b \<noteq> S' i MAXFILE \<longrightarrow> iblk t b = iblk s b"
    and "holds s N S D" "q = length (D i) div BSIZE" "q < MAXFILE" "k < BSIZE" "mk_state s N E0 S"
  shows "iblk t (S' i q) k = byte_at (D i) (q * BSIZE + k)"
proof (cases "S i q = 0")
  case False
  then show ?thesis
    using grown_blocks [OF assms(1-4) same assms(2,3,8) False] holdsD(4) [OF assms(6,2,3), of "q * BSIZE + k"] assms(8,9) by simp
next
  case True
  let ?x = "S' i q"
  have x: "?x \<noteq> 0" "unat (freeblock s) \<le> unat ?x"
    using assms(4) True by (auto simp: grown_def slots_for_def)
  have u: "unat ?x < FSSIZE"
    by (rule slot_in_image(3) [OF assms(1-3)]) (use assms(8) x in simp_all)
  have "?x \<noteq> S' i MAXFILE"
    using layoutD(3) [OF mk_stateD(4) [OF assms(1)] assms(2,3), of q i MAXFILE] assms(2,3,8) x(1) by auto
  then have "iblk t ?x = (\<lambda>_. 0)"
    using same u mk_stateD(5) [OF assms(10) x(2) u] by simp
  moreover have "length (D i) \<le> q * BSIZE"
    using holdsD(2) [OF assms(6,2,3,8)] True by simp
  ultimately show ?thesis
    by (simp add: byte_at_def)
qed

lemma append_contents:
  assumes "mk_state t N E S'" "0 < i" "i < N" "holds s N S D" "grown i (slots_for (length (D i) div BSIZE)) s S t S'"
    and fbn: "length (D i) div BSIZE < MAXFILE" and p: "length (D i) mod BSIZE + length p \<le> BSIZE" "p \<noteq> []"
    and same: "\<forall>b. unat b < FSSIZE \<longrightarrow> length (D i) div BSIZE < NDIRECT \<or> b \<noteq> S' i MAXFILE \<longrightarrow> iblk t b = iblk s b"
    and k: "0 < i'" "i' < N" "k div BSIZE < MAXFILE" "S' i' (k div BSIZE) \<noteq> 0"
    and s0: "mk_state s N E0 S"
  defines "x \<equiv> S' i (length (D i) div BSIZE)"
  shows "iblk (put_sect x (put_bytes (length (D i) mod BSIZE) p (iblk t x)) t) (S' i' (k div BSIZE)) (k mod BSIZE)
    = byte_at ((D(i := D i @ p)) i') k"
proof -
  define q r where "q = length (D i) div BSIZE" and "r = length (D i) mod BSIZE"
  have l: "length (D i) = q * BSIZE + r" and r: "r < BSIZE" "r + length p \<le> BSIZE" "0 < length p"
    using p div_BSIZE [of "length (D i)"] by (simp_all add: q_def r_def)
  note fbn = fbn [folded q_def] and same = same [folded q_def] and g = assms(5) [folded q_def]
  have x: "x = S' i q" "x \<noteq> 0"
    using g by (simp_all add: x_def q_def grown_def slots_for_def)
  note old = grown_blocks [OF assms(1-3) g same]
  have ib: "iblk (put_sect x (put_bytes r p (iblk t x)) t) b = (if b = x then blk (put_bytes r p (iblk t x)) else iblk t b)"
    if "unat b < FSSIZE" for b
    by (rule iblk_put_sect [OF mk_stateD(1) [OF assms(1)] that])
  have m: "k = k div BSIZE * BSIZE + k mod BSIZE" "k mod BSIZE < BSIZE"
    by (rule div_BSIZE)+
  show ?thesis
    unfolding q_def [symmetric] r_def [symmetric]
  proof (cases "i' = i \<and> k div BSIZE = q")
    case True
    have u: "unat x < FSSIZE"
      unfolding x(1) by (rule slot_in_image(3) [OF assms(1-3)]) (use fbn x in simp_all)
    have kx: "S' i' (k div BSIZE) = x"
      using True x(1) by simp
    have b: "iblk (put_sect x (put_bytes r p (iblk t x)) t) (S' i' (k div BSIZE)) (k mod BSIZE)
        = (if r \<le> k mod BSIZE \<and> k mod BSIZE < r + length p then p ! (k mod BSIZE - r) else iblk t x (k mod BSIZE))"
      unfolding kx ib [OF u] using m(2) by (simp add: put_bytes_def)
    have kq: "k = q * BSIZE + k mod BSIZE"
      using div_BSIZE(1) [of k] True by metis
    have t: "iblk t x (k mod BSIZE) = byte_at (D i) k"
      using True append_block_before [OF assms(1-3) g same assms(4) q_def fbn m(2) s0] m(1) x(1) by simp
    have "r \<le> k mod BSIZE \<longleftrightarrow> \<not> k < length (D i)" "k mod BSIZE < r + length p \<longleftrightarrow> k < length (D i @ p)"
      "r \<le> k mod BSIZE \<Longrightarrow> k mod BSIZE - r = k - length (D i)"
      unfolding length_append l using kq by linarith+
    with b t True show "iblk (put_sect x (put_bytes r p (iblk t x)) t) (S' i' (k div BSIZE)) (k mod BSIZE) = byte_at ((D(i := D i @ p)) i') k"
      by (auto simp: nth_append byte_at_def)
  next
    case False
    then have "S i' (k div BSIZE) \<noteq> 0"
      using g k(3,4) by (auto simp: grown_def slots_for_def split: if_splits)
    note s = k(3) this
    have "S' i' (k div BSIZE) \<noteq> x"
      using layoutD(3) [OF mk_stateD(4) [OF assms(1)] assms(2,3) less_imp_le [OF fbn], of i' "k div BSIZE"] x False s k(1,2) by auto
    then have "iblk (put_sect x (put_bytes r p (iblk t x)) t) (S' i' (k div BSIZE)) (k mod BSIZE) = byte_at (D i') k"
      using ib old [OF k(1,2) s] holdsD(4) [OF assms(4) k(1,2) s] by simp
    moreover have "byte_at (D i @ p) k = byte_at (D i) k" if "i' = i"
    proof -
      have "k < length (D i)"
      proof (rule ccontr)
        assume "\<not> k < length (D i)"
        moreover have "k div BSIZE * BSIZE < length (D i)"
          using holdsD(2) [OF assms(4,2,3) s(1)] s(2) that by simp
        ultimately have "k div BSIZE * BSIZE < q * BSIZE + r" "q * BSIZE + r \<le> k"
          unfolding l by linarith+
        moreover from this have "k div BSIZE \<le> q"
          using r(1) by (simp add: BSIZE_def)
        then have "Suc (k div BSIZE) * BSIZE \<le> q * BSIZE"
          using False that by (intro mult_le_mono1) simp
        ultimately show False
          using div_BSIZE [of k] by simp
      qed
      then show ?thesis
        by (simp add: byte_at_def nth_append)
    qed
    ultimately show "iblk (put_sect x (put_bytes r p (iblk t x)) t) (S' i' (k div BSIZE)) (k mod BSIZE) = byte_at ((D(i := D i @ p)) i') k"
      by simp
  qed
qed

lemma sum_upd:
  fixes f :: "'a \<Rightarrow> nat"
  assumes "finite A" "i \<in> A"
  shows "(\<Sum>j \<in> A. f ((D(i := v)) j)) + f (D i) = (\<Sum>j \<in> A. f (D j)) + f v"
proof -
  have "(\<Sum>j \<in> A - {i}. f ((D(i := v)) j)) = (\<Sum>j \<in> A - {i}. f (D j))"
    by (rule sum.cong) auto
  then show ?thesis
    using sum.remove [OF assms, of "\<lambda>j. f ((D(i := v)) j)"] sum.remove [OF assms, of "\<lambda>j. f (D j)"] by simp
qed

text \<open>The number of blocks in use when the files are \<open>D\<close>.\<close>

definition blocks_for :: "nat \<Rightarrow> (nat \<Rightarrow> byte list) \<Rightarrow> nat" where
  "blocks_for N D = meta_blocks + (\<Sum>i \<in> {1..<N}. need (length (D i)))"

lemma blocks_for_upd:
  "0 < i \<Longrightarrow> i < N \<Longrightarrow> blocks_for N (D(i := v)) + need (length (D i)) = blocks_for N D + need (length v)"
  using sum_upd [of "{1..<N}" i "\<lambda>x. need (length x)" D v] by (simp add: blocks_for_def)

lemma need_mono: "m \<le> n \<Longrightarrow> need m \<le> need n"
  unfolding need_def by (intro add_mono div_le_mono) auto

lemma meta_same_trans: "meta_same s t \<Longrightarrow> meta_same t u \<Longrightarrow> meta_same s u"
  by (simp add: meta_same_def)

lemma append_piece:
  assumes "mk_files s N E S D" "0 < i" "i < N"
    and fbn: "length (D i) div BSIZE < MAXFILE" and p: "length (D i) mod BSIZE + length p \<le> BSIZE" "p \<noteq> []"
    and fits: "blocks_for N (D(i := D i @ p)) \<le> FSSIZE"
  shows "\<exists>A S' t u x. iappend_addr (E i) (length (D i) div BSIZE) s = Ret ((E i)\<lparr>di_addrs := A\<rparr>, x) t
    \<and> rsect x t = Ret (iblk t x) t \<and> wsect x (put_bytes (length (D i) mod BSIZE) p (iblk t x)) t = Ret () u
    \<and> mk_files u N (E(i := (E i)\<lparr>di_addrs := A\<rparr>)) S' (D(i := D i @ p)) \<and> meta_same s u"
proof -
  let ?q = "length (D i) div BSIZE"
  have st: "mk_state s N E S" and h: "holds s N S D" and fb: "unat (freeblock s) = blocks_for N D"
    using assms(1) by (simp_all add: mk_files_def blocks_for_def)
  have n: "0 < length p"
    using p(2) by simp
  note grow = need_grows [OF h assms(2,3) n p(1) fbn]
  have c: "blocks_for N D + card {l \<in> slots_for ?q. S i l = 0} = blocks_for N (D(i := D i @ p))"
    using blocks_for_upd [OF assms(2,3), of D "D i @ p"] grow by simp
  obtain A S' t where a: "iappend_addr (E i) ?q s = Ret ((E i)\<lparr>di_addrs := A\<rparr>, S' i ?q) t"
    "mk_state t N (E(i := (E i)\<lparr>di_addrs := A\<rparr>)) S'" "grown i (slots_for ?q) s S t S'"
    "\<forall>b. unat b < FSSIZE \<longrightarrow> ?q < NDIRECT \<or> b \<noteq> S' i MAXFILE \<longrightarrow> iblk t b = iblk s b"
    using addr_spec [OF st assms(2,3) fbn] fits c fb by auto
  let ?x = "S' i ?q"
  let ?u = "put_sect ?x (put_bytes (length (D i) mod BSIZE) p (iblk t ?x)) t"
  note sa = slots_after [OF h assms(2,3) a(3) fbn p(1) n]
  have x: "?x \<noteq> 0" and ind: "NDIRECT \<le> ?q \<Longrightarrow> S' i MAXFILE \<noteq> 0"
    using a(3) by (auto simp: grown_def slots_for_def)
  note xi = slot_in_image [OF a(2) assms(2,3) less_imp_le [OF fbn] x]
  have other: "S' i' j = S i' j" if "i' \<noteq> i" for i' j
    using a(3) that unfolding grown_def by metis
  have "holds ?u N S' (D(i := D i @ p))"
    unfolding holds_def using append_contents [OF a(2) assms(2,3) h a(3) fbn p a(4) _ _ _ _ st] sa holdsD(1-3) [OF h] other by simp
  moreover have "mk_state ?u N (E(i := (E i)\<lparr>di_addrs := A\<rparr>)) S'"
    by (rule mk_state_data [OF a(2) assms(2,3) fbn x])
  moreover have "unat (freeblock ?u) = blocks_for N (D(i := D i @ p))"
    using a(3) fb c by (simp add: grown_def)
  ultimately have "mk_files ?u N (E(i := (E i)\<lparr>di_addrs := A\<rparr>)) S' (D(i := D i @ p))"
    unfolding mk_files_def blocks_for_def by blast
  moreover have "iblk ?u b = iblk s b" if b: "unat b < meta_blocks" for b
  proof -
    have "unat b < FSSIZE" "b \<noteq> ?x" "?q < NDIRECT \<or> b \<noteq> S' i MAXFILE"
      using b xi(1) slot_in_image(1) [OF a(2) assms(2,3) order_refl ind] by (auto simp: mk_numbers not_less)
    then show ?thesis
      using iblk_put_sect [OF mk_stateD(1) [OF a(2)]] a(4) by auto
  qed
  then have "meta_same s ?u"
    using a(3) by (simp add: meta_same_def grown_def)
  ultimately show ?thesis
    using a(1) rsect_run [OF mk_stateD(1) [OF a(2)] xi(3)] wsect_run [OF mk_stateD(1) [OF a(2)] xi(3)] by blast
qed

lemma iappend_loop_spec:
  assumes "mk_files s N E S D" "0 < i" "i < N" "length (D i) + length p \<le> MAXFILE * BSIZE"
    and "blocks_for N (D(i := D i @ p)) \<le> FSSIZE"
  shows "\<exists>A S' t. iappend_loop (E i) (length (D i)) p s = Ret ((E i)\<lparr>di_addrs := A\<rparr>, length (D i) + length p) t
    \<and> mk_files t N (E(i := (E i)\<lparr>di_addrs := A\<rparr>)) S' (D(i := D i @ p)) \<and> meta_same s t"
  using assms
proof (induction "length p" arbitrary: p s E S D rule: less_induct)
  case less
  show ?case
  proof (cases "p = []")
    case True
    then have "iappend_loop (E i) (length (D i)) p s = Ret ((E i)\<lparr>di_addrs := di_addrs (E i)\<rparr>, length (D i) + length p) s"
      by (subst iappend_loop.simps) simp
    moreover have "mk_files s N (E(i := (E i)\<lparr>di_addrs := di_addrs (E i)\<rparr>)) S (D(i := D i @ p))"
      using less.prems(1) True by simp
    ultimately show ?thesis
      unfolding meta_same_def by blast
  next
    case False
    let ?off = "length (D i)"
    let ?q = "?off div BSIZE"
    define n where "n = min (length p) ((?q + 1) * BSIZE - ?off)"
    have "(?q + 1) * BSIZE - ?off = BSIZE - ?off mod BSIZE"
      using div_BSIZE [of ?off] unfolding add_mult_distrib by linarith
    then have "n = min (length p) (BSIZE - ?off mod BSIZE)"
      by (simp only: n_def)
    then have n: "?off mod BSIZE + n \<le> BSIZE" "n \<le> length p" "0 < n"
      using div_BSIZE(2) [of ?off] False length_greater_0_conv [of p] by linarith+
    have o: "?off - ?q * BSIZE = ?off mod BSIZE"
      by (simp add: minus_div_mult_eq_mod)
    have "?off < MAXFILE * BSIZE"
      using less.prems(4) False by (cases p) auto
    then have q: "?q < MAXFILE"
      by (simp add: div_less_iff_less_mult BSIZE_def)
    let ?D = "D(i := D i @ take n p)"
    have f1: "blocks_for N ?D \<le> FSSIZE"
      using less.prems(5) blocks_for_upd [OF less.prems(2,3), of D "D i @ take n p"] blocks_for_upd [OF less.prems(2,3), of D "D i @ p"]
        need_mono [of "?off + n" "?off + length p"] n(2) by simp
    obtain A S1 t u x where a: "iappend_addr (E i) ?q s = Ret ((E i)\<lparr>di_addrs := A\<rparr>, x) t" "rsect x t = Ret (iblk t x) t"
      "wsect x (put_bytes (?off mod BSIZE) (take n p) (iblk t x)) t = Ret () u"
      "mk_files u N (E(i := (E i)\<lparr>di_addrs := A\<rparr>)) S1 ?D" "meta_same s u"
      using append_piece [OF less.prems(1-3) q, of "take n p"] n False f1 by (auto simp: min_absorb2)
    let ?E = "E(i := (E i)\<lparr>di_addrs := A\<rparr>)"
    have "length (?D i) + length (drop n p) \<le> MAXFILE * BSIZE" "?D(i := ?D i @ drop n p) = D(i := D i @ p)"
      using less.prems(4) n(2) by simp_all
    then obtain B S' v where b: "iappend_loop (?E i) (length (?D i)) (drop n p) u
        = Ret ((?E i)\<lparr>di_addrs := B\<rparr>, length (?D i) + length (drop n p)) v"
      "mk_files v N (?E(i := (?E i)\<lparr>di_addrs := B\<rparr>)) S' (D(i := D i @ p))" "meta_same u v"
      using less.hyps [of "drop n p" u ?E S1 ?D] n(2,3) False a(4) less.prems(2,3,5) by auto
    have "iappend_loop (E i) ?off p s = iappend_loop ((E i)\<lparr>di_addrs := A\<rparr>) (?off + n) (drop n p) u"
      using False a(1-3) q o by (subst iappend_loop.simps, unfold Let_def, fold n_def) (simp add: assertM_def bind_def whenM_def)
    also have "\<dots> = Ret ((E i)\<lparr>di_addrs := B\<rparr>, ?off + length p) v"
      using b(1) n(2) by simp
    finally show ?thesis
      using b(2) meta_same_trans [OF a(5) b(3)] by auto
  qed
qed

section \<open>Inodes\<close>

definition mkfs_sb :: superblock where
  "mkfs_sb = \<lparr>sb_magic = FSMAGIC, sb_size = of_nat FSSIZE, sb_nblocks = of_nat (FSSIZE - meta_blocks),
     sb_ninodes = of_nat NINODES, sb_nlog = of_nat mk_nlog, sb_logstart = 2, sb_inodestart = of_nat (2 + mk_nlog),
     sb_bmapstart = of_nat (2 + mk_nlog + mk_ninodeblocks)\<rparr>"

definition dnode :: "mkfs \<Rightarrow> nat \<Rightarrow> dinode" where
  "dnode s i = get_dinode (iblk s (IBLOCK i mkfs_sb)) (dinode_off i)"

lemma inode_block_no:
  assumes "i < NINODES"
  shows "unat (IBLOCK i mkfs_sb) = 93 + i div 16"
proof -
  have "IBLOCK i mkfs_sb = of_nat (93 + i div 16)"
    by (simp add: IBLOCK_def mkfs_sb_def mk_numbers)
  moreover have "unat (of_nat (93 + i div 16) :: uint) = 93 + i div 16"
    using assms by (simp add: unat_of_nat take_bit_nat_eq_self mk_numbers del: of_nat_add)
  ultimately show ?thesis
    by (simp only:)
qed

lemma inode_block_in_meta:
  assumes "i < NINODES"
  shows "93 \<le> unat (IBLOCK i mkfs_sb)" "unat (IBLOCK i mkfs_sb) < 106" "unat (IBLOCK i mkfs_sb) < FSSIZE"
    "unat (IBLOCK i mkfs_sb) < meta_blocks"
  using inode_block_no [OF assms] assms by (simp_all add: mk_numbers)

lemma rinode_run:
  assumes "full s" "mk_sb s = mkfs_sb" "unat inum < NINODES"
  shows "rinode inum s = Ret (dnode s (unat inum)) s"
  using rsect_run [OF assms(1) inode_block_in_meta(3) [OF assms(3)]] assms(2)
  by (simp add: rinode_def dnode_def)

definition put_dnode :: "nat \<Rightarrow> dinode \<Rightarrow> mkfs \<Rightarrow> mkfs" where
  "put_dnode i di s = put_sect (IBLOCK i mkfs_sb) (put_dinode (iblk s (IBLOCK i mkfs_sb)) (dinode_off i) di) s"

lemma winode_run:
  assumes "full s" "mk_sb s = mkfs_sb" "unat inum < NINODES"
  shows "winode inum di s = Ret () (put_dnode (unat inum) di s)"
  using rsect_run [OF assms(1) inode_block_in_meta(3) [OF assms(3)]] wsect_run [OF assms(1) inode_block_in_meta(3) [OF assms(3)]]
    assms(2)
  by (simp add: winode_def put_dnode_def)

lemma put_dnode_simps [simp]:
  "mk_sb (put_dnode i di s) = mk_sb s" "freeinode (put_dnode i di s) = freeinode s"
  "freeblock (put_dnode i di s) = freeblock s" "full (put_dnode i di s) = full s"
  by (simp_all add: put_dnode_def)

lemma iblk_put_dnode:
  assumes "full s" "i < NINODES" "unat b < FSSIZE" "unat b < 93 \<or> 106 \<le> unat b"
  shows "iblk (put_dnode i di s) b = iblk s b"
proof -
  have "b \<noteq> IBLOCK i mkfs_sb"
    using inode_block_in_meta [OF assms(2)] assms(4) by auto
  then show ?thesis
    using iblk_put_sect [OF assms(1,3)] by (simp add: put_dnode_def)
qed

lemma dnode_put_dnode:
  assumes "full s" "i < NINODES" "j < NINODES" "dinode_ok di"
  shows "dnode (put_dnode i di s) j = (if j = i then di else dnode s j)"
proof -
  let ?b = "IBLOCK i mkfs_sb" and ?c = "IBLOCK j mkfs_sb"
  have ib: "iblk (put_dnode i di s) ?c = (if ?c = ?b then blk (put_dinode (iblk s ?b) (dinode_off i) di) else iblk s ?c)"
    unfolding put_dnode_def by (rule iblk_put_sect [OF assms(1) inode_block_in_meta(3) [OF assms(3)]])
  show ?thesis
  proof (cases "?c = ?b")
    case True
    then have "j div 16 = i div 16"
      using inode_block_no [OF assms(2)] inode_block_no [OF assms(3)] by simp
    then have "j \<noteq> i \<Longrightarrow> j mod IPB \<noteq> i mod IPB"
      by (metis div_mod_inj mk_numbers(9))
    with True ib assms(4) show ?thesis
      using dinode_off_apart [of i j] dinode_off_bound [of j] dinode_off_bound [of i]
      by (auto simp: dnode_def get_put_dinode)
  next
    case False
    then have "j \<noteq> i" by auto
    with False ib show ?thesis
      by (simp add: dnode_def)
  qed
qed

lemma mk_files_cong:
  assumes "mk_files s N E S D" "full t" "freeblock t = freeblock s"
    and same: "\<And>b. meta_blocks \<le> unat b \<Longrightarrow> unat b < FSSIZE \<Longrightarrow> iblk t b = iblk s b"
  shows "mk_files t N E S D"
proof -
  have st: "mk_state s N E S" and h: "holds s N S D"
    using assms(1) by (simp_all add: mk_files_def)
  have kept: "iblk t (S i j) = iblk s (S i j)" if "0 < i" "i < N" "j \<le> MAXFILE" "S i j \<noteq> 0" for i j
    using slot_in_image [OF st that] by (intro same)
  have "fslot t (E i) j = S i j" if i: "0 < i" "i < N" "j \<le> MAXFILE" for i j
  proof -
    have "di_addrs (E i) NDIRECT = S i MAXFILE"
      using mk_stateD(7) [OF st i(1,2), of MAXFILE] by (simp add: fslot_def mk_numbers)
    then have "fslot t (E i) j = fslot s (E i) j"
      using kept [OF i(1,2), of MAXFILE] by (intro fslot_cong) simp
    then show ?thesis
      using mk_stateD(7) [OF st i] by simp
  qed
  moreover have "iblk t b = (\<lambda>_. 0)" if "unat (freeblock s) \<le> unat b" "unat b < FSSIZE" for b
    using mk_stateD(5) [OF st that] same [of b] that mk_stateD(2) [OF st] by simp
  ultimately have "mk_state t N E S"
    using st assms(2,3) unfolding mk_state_def by auto
  moreover have "holds t N S D"
    using h kept unfolding holds_def by (metis less_imp_le)
  ultimately show ?thesis
    using assms(1,3) by (simp add: mk_files_def)
qed

lemma mk_files_nodes:
  assumes "mk_files s N E S D" "\<And>i. 0 < i \<Longrightarrow> i < N \<Longrightarrow> dinode_ok (E' i) \<and> fslot s (E' i) = fslot s (E i)"
  shows "mk_files s N E' S D"
proof -
  have "mk_state s N E S"
    using assms(1) by (simp add: mk_files_def)
  then have "mk_state s N E' S"
    using assms(2) unfolding mk_state_def by auto
  with assms(1) show ?thesis
    by (simp only: mk_files_def)
qed

text \<open>
  The image under construction: the files \<open>D\<close> of types \<open>T\<close> in the inodes \<open>1 .. N - 1\<close>, the other inodes
  free, the superblock in place and the log empty.
\<close>

definition inode_of :: "ushort \<Rightarrow> nat \<Rightarrow> dinode \<Rightarrow> bool" where
  "inode_of ty n di \<longleftrightarrow> di_type di = ty \<and> di_major di = 0 \<and> di_minor di = 0 \<and> di_nlink di = 1 \<and> di_size di = of_nat n"

definition mk_inv :: "mkfs \<Rightarrow> nat \<Rightarrow> (nat \<Rightarrow> ushort) \<Rightarrow> (nat \<Rightarrow> byte list) \<Rightarrow> bool" where
  "mk_inv s N T D \<longleftrightarrow>
     0 < N \<and> N \<le> NINODES \<and> mk_sb s = mkfs_sb \<and> freeinode s = of_nat N \<and> (\<exists>S. mk_files s N (dnode s) S D)
     \<and> (\<forall>i. 0 < i \<and> i < N \<longrightarrow> inode_of (T i) (length (D i)) (dnode s i))
     \<and> (\<forall>i. N \<le> i \<and> i < NINODES \<longrightarrow> di_type (dnode s i) = 0)
     \<and> (\<forall>b. unat b < 93 \<longrightarrow> iblk s b = (if b = 1 then blk (put_superblock mkfs_sb (\<lambda>_. 0)) else (\<lambda>_. 0)))"

lemma mk_invD:
  assumes "mk_inv s N T D"
  shows "0 < N" "N \<le> NINODES" "mk_sb s = mkfs_sb" "freeinode s = of_nat N" "\<exists>S. mk_files s N (dnode s) S D"
    "0 < i \<Longrightarrow> i < N \<Longrightarrow> inode_of (T i) (length (D i)) (dnode s i)" "N \<le> i \<Longrightarrow> i < NINODES \<Longrightarrow> di_type (dnode s i) = 0"
    "unat b < 93 \<Longrightarrow> iblk s b = (if b = 1 then blk (put_superblock mkfs_sb (\<lambda>_. 0)) else (\<lambda>_. 0))"
  using assms unfolding mk_inv_def by blast+

lemma mk_inv_full: "mk_inv s N T D \<Longrightarrow> full s"
  by (auto simp: mk_inv_def mk_files_def mk_state_def)

lemma unat_inum: "i \<le> NINODES \<Longrightarrow> unat (of_nat i :: uint) = i"
  by (simp add: unat_of_nat take_bit_nat_eq_self mk_numbers)

text \<open>Writing the inode in memory back makes the image consistent again.\<close>

lemma mk_inv_winode:
  assumes "mk_files s N E S D" "mk_sb s = mkfs_sb" "freeinode s = of_nat N" "0 < i" "i < N" "N \<le> NINODES"
    and "\<And>j. j \<noteq> i \<Longrightarrow> j < NINODES \<Longrightarrow> dnode s j = E j" "dinode_ok di" "di_addrs di = di_addrs (E i)"
    and "\<And>j. 0 < j \<Longrightarrow> j < N \<Longrightarrow> j \<noteq> i \<Longrightarrow> inode_of (T j) (length (D j)) (E j)" "inode_of (T i) (length (D i)) di"
    and "\<And>j. N \<le> j \<Longrightarrow> j < NINODES \<Longrightarrow> di_type (E j) = 0"
    and "\<And>b. unat b < 93 \<Longrightarrow> iblk s b = (if b = 1 then blk (put_superblock mkfs_sb (\<lambda>_. 0)) else (\<lambda>_. 0))"
  shows "winode (of_nat i) di s = Ret () (put_dnode i di s)" "mk_inv (put_dnode i di s) N T D"
proof -
  have f: "full s"
    using assms(1) by (simp add: mk_files_def mk_state_def)
  have i: "i < NINODES" "unat (of_nat i :: uint) = i"
    using assms(5,6) unat_inum [of i] by simp_all
  show "winode (of_nat i) di s = Ret () (put_dnode i di s)"
    using winode_run [OF f assms(2), of "of_nat i"] i by simp
  have d: "dnode (put_dnode i di s) j = (if j = i then di else E j)" if "j < NINODES" for j
    using dnode_put_dnode [OF f i(1) that assms(8)] assms(7) that by simp
  have fl: "mk_files (put_dnode i di s) N E S D"
    by (rule mk_files_cong [OF assms(1)]) (use f i(1) iblk_put_dnode in \<open>simp_all add: mk_numbers\<close>)
  then have ok: "dinode_ok (E j)" if "0 < j" "j < N" for j
    using that by (simp add: mk_files_def mk_state_def)
  have "fslot (put_dnode i di s) di = fslot (put_dnode i di s) (E i)"
    using assms(9) by (simp add: fslot_def fun_eq_iff)
  then have "mk_files (put_dnode i di s) N (dnode (put_dnode i di s)) S D"
    using d assms(6,8) ok by (intro mk_files_nodes [OF fl]) simp
  moreover have ib: "iblk (put_dnode i di s) b = iblk s b" if "unat b < 93" for b
    by (rule iblk_put_dnode [OF f i(1)]) (use that in \<open>simp_all add: mk_numbers\<close>)
  ultimately show "mk_inv (put_dnode i di s) N T D"
    unfolding mk_inv_def using assms(2-6,10-13) d by auto
qed

lemma ialloc_spec:
  assumes "mk_inv s N T D" "N < NINODES"
  shows "\<exists>t. mkfs_ialloc ty s = Ret (of_nat N) t \<and> mk_inv t (Suc N) (T(N := ty)) (D(N := []))"
proof -
  obtain S where S: "mk_files s N (dnode s) S D"
    using mk_invD(5) [OF assms(1)] by blast
  let ?di = "\<lparr>di_type = ty, di_major = 0, di_minor = 0, di_nlink = 1, di_size = 0, di_addrs = (\<lambda>_. 0 :: uint)\<rparr>"
  let ?s = "s\<lparr>freeinode := freeinode s + 1\<rparr>"
  let ?E = "(dnode s)(N := ?di)" and ?S = "S(N := (\<lambda>_. 0))" and ?D = "D(N := [])"
  have ib: "iblk ?s = iblk s" "full ?s = full s" "fslot ?s = fslot s" "dnode ?s = dnode s"
    by (auto simp: iblk_def full_def fslot_def dnode_def fun_eq_iff)
  have st: "mk_state s N (dnode s) S" and h: "holds s N S D"
    using S by (simp_all add: mk_files_def)
  have lay: "layout (unat (freeblock s)) (Suc N) ?S"
    unfolding layout_def
  proof (intro conjI allI impI)
    fix i j assume "0 < i \<and> i < Suc N \<and> j \<le> MAXFILE \<and> ?S i j \<noteq> 0"
    then show "meta_blocks \<le> unat (?S i j)" "unat (?S i j) < unat (freeblock s)"
      using layoutD(1,2) [OF mk_stateD(4) [OF st], of i j] by (auto split: if_splits)
  next
    fix i j i' j'
    assume "0 < i \<and> i < Suc N \<and> j \<le> MAXFILE \<and> 0 < i' \<and> i' < Suc N \<and> j' \<le> MAXFILE \<and> ?S i j \<noteq> 0 \<and> ?S i j = ?S i' j'"
    then show "i = i'" "j = j'"
      using layoutD(3) [OF mk_stateD(4) [OF st], of i j i' j'] by (auto split: if_splits)
  qed
  have "mk_state ?s (Suc N) ?E ?S"
    unfolding mk_state_def ib using mk_stateD [OF st] lay by (auto simp: less_Suc_eq fslot_def dinode_ok_def)
  moreover have "holds ?s (Suc N) ?S ?D"
    unfolding holds_def ib using holdsD [OF h] by (auto simp: less_Suc_eq)
  moreover have "(\<Sum>i \<in> {1..<Suc N}. need (length (?D i))) = (\<Sum>i \<in> {1..<N}. need (length (D i)))"
  proof -
    have "(\<Sum>i \<in> {1..<N}. need (length (?D i))) = (\<Sum>i \<in> {1..<N}. need (length (D i)))"
      by (rule sum.cong) auto
    then show ?thesis
      using mk_invD(1) [OF assms(1)] by (simp add: need_def BSIZE_def)
  qed
  ultimately have f: "mk_files ?s (Suc N) ?E ?S ?D"
    using S by (simp add: mk_files_def)
  have "mk_sb ?s = mkfs_sb" "freeinode ?s = of_nat (Suc N)"
    using mk_invD(3,4) [OF assms(1)] by simp_all
  note w = mk_inv_winode [OF f this mk_invD(1) [OF assms(1)] lessI, of ?di "T(N := ty)"]
  have "winode (of_nat N) ?di ?s = Ret () (put_dnode N ?di ?s)" "mk_inv (put_dnode N ?di ?s) (Suc N) (T(N := ty)) ?D"
    by (rule w; use assms(2) mk_invD(6-8) [OF assms(1)] ib in \<open>auto simp: inode_of_def dinode_ok_def less_Suc_eq\<close>)+
  then show ?thesis
    using mk_invD(4) [OF assms(1)] by (simp add: mkfs_ialloc_def)
qed

lemma iappend_spec:
  assumes "mk_inv s N T D" "0 < i" "i < N" "length (D i) + length p \<le> MAXFILE * BSIZE"
    and "blocks_for N (D(i := D i @ p)) \<le> FSSIZE"
  shows "\<exists>t. iappend (of_nat i) p s = Ret () t \<and> mk_inv t N T (D(i := D i @ p))"
proof -
  note inv = mk_invD [OF assms(1)] and f = mk_inv_full [OF assms(1)]
  obtain S where S: "mk_files s N (dnode s) S D"
    using inv(5) by blast
  obtain A S' t where l: "iappend_loop (dnode s i) (length (D i)) p s = Ret ((dnode s i)\<lparr>di_addrs := A\<rparr>, length (D i) + length p) t"
    "mk_files t N ((dnode s)(i := (dnode s i)\<lparr>di_addrs := A\<rparr>)) S' (D(i := D i @ p))" "meta_same s t"
    using iappend_loop_spec [OF S assms(2-5)] by blast
  let ?E = "(dnode s)(i := (dnode s i)\<lparr>di_addrs := A\<rparr>)" and ?D = "D(i := D i @ p)"
  let ?di = "(dnode s i)\<lparr>di_addrs := A, di_size := of_nat (length (D i) + length p)\<rparr>"
  have u: "unat (of_nat i :: uint) = i" "i < NINODES"
    using assms(3) inv(2) unat_inum [of i] by simp_all
  note node = inv(6) [OF assms(2,3)]
  have "unat (di_size (dnode s i)) = length (D i)"
    using node assms(4) by (simp add: inode_of_def unat_of_nat take_bit_nat_eq_self mk_numbers BSIZE_def)
  then have run: "iappend (of_nat i) p s = winode (of_nat i) ?di t"
    using rinode_run [OF f inv(3), of "of_nat i"] u l(1) by (simp add: iappend_def)
  have d: "dnode t j = dnode s j" if "j < NINODES" for j
    using l(3) inode_block_in_meta(4) [OF that] by (simp add: dnode_def meta_same_def)
  have "dinode_ok (?E i)"
    using mk_stateD(6) [of t N ?E S' i] l(2) assms(2,3) by (simp add: mk_files_def)
  then have ok: "dinode_ok ?di"
    by (simp add: dinode_ok_def)
  have g: "mk_sb t = mkfs_sb" "freeinode t = of_nat N"
    using l(3) inv(3,4) by (simp_all add: meta_same_def)
  have low: "iblk t b = (if b = 1 then blk (put_superblock mkfs_sb (\<lambda>_. 0)) else (\<lambda>_. 0))" if "unat b < 93" for b
    using l(3) inv(8) [OF that] that by (simp add: meta_same_def mk_numbers)
  have "winode (of_nat i) ?di t = Ret () (put_dnode i ?di t)" "mk_inv (put_dnode i ?di t) N T ?D"
    by (rule mk_inv_winode [OF l(2) g assms(2,3) inv(2) _ ok];
      use d inv(2,6,7) node low assms(3) in \<open>auto simp: inode_of_def\<close>)+
  with run show ?thesis by simp
qed

section \<open>The files on the command line\<close>

definition file_data :: "host \<Rightarrow> string \<Rightarrow> byte list" where
  "file_data host arg = (case host arg of None \<Rightarrow> [] | Some cs \<Rightarrow> concat (takeWhile (\<lambda>c. c \<noteq> []) cs))"

definition file_name :: "string \<Rightarrow> string" where
  "file_name arg = skip_underscore (shortname arg)"

text \<open>The root directory, and the contents of the inodes.\<close>

definition dir_data :: "string list \<Rightarrow> byte list" where
  "dir_data args = mk_dirent 1 ''.'' @ mk_dirent 1 ''..''
     @ concat (map (\<lambda>k. mk_dirent (of_nat (k + 2)) (file_name (args ! k))) [0..<length args])"

definition mk_tree :: "host \<Rightarrow> string list \<Rightarrow> nat \<Rightarrow> byte list" where
  "mk_tree host args i = (if i = 1 then dir_data args
     else if 2 \<le> i \<and> i < 2 + length args then file_data host (args ! (i - 2)) else [])"

definition types :: "nat \<Rightarrow> ushort" where
  "types i = (if i = 1 then T_DIR else T_FILE)"

text \<open>What \<^verbatim>\<open>mkfs\<close> asserts of an argument, and that everything fits into the image.\<close>

definition legal :: "host \<Rightarrow> string \<Rightarrow> bool" where
  "legal host arg \<longleftrightarrow> CHR ''/'' \<notin> set (shortname arg) \<and> host arg \<noteq> None \<and> length (file_name arg) \<le> DIRSIZ"

definition fits :: "host \<Rightarrow> string list \<Rightarrow> bool" where
  "fits host args \<longleftrightarrow> 2 + length args \<le> NINODES \<and> (\<forall>i < 2 + length args. length (mk_tree host args i) \<le> MAXFILE * BSIZE)
     \<and> blocks_for (2 + length args) (mk_tree host args) \<le> FSSIZE"

lemma blocks_for_mono:
  assumes "N \<le> N'" "\<And>i. 0 < i \<Longrightarrow> i < N \<Longrightarrow> length (D i) \<le> length (D' i)"
  shows "blocks_for N D \<le> blocks_for N' D'"
proof -
  have "(\<Sum>i \<in> {1..<N}. need (length (D i))) \<le> (\<Sum>i \<in> {1..<N}. need (length (D' i)))"
    by (rule sum_mono) (use assms(2) in \<open>auto intro: need_mono\<close>)
  also have "\<dots> \<le> (\<Sum>i \<in> {1..<N'}. need (length (D' i)))"
    by (rule sum_mono2) (use assms(1) in auto)
  finally show ?thesis
    by (simp add: blocks_for_def)
qed

lemma dir_data_snoc: "dir_data (args @ [a]) = dir_data args @ mk_dirent (of_nat (2 + length args)) (file_name a)"
proof -
  have "map (\<lambda>k. mk_dirent (of_nat (k + 2)) (file_name ((args @ [a]) ! k))) [0..<length args]
      = map (\<lambda>k. mk_dirent (of_nat (k + 2)) (file_name (args ! k))) [0..<length args]"
    by (rule map_cong) (auto simp: nth_append)
  then show ?thesis
    by (simp add: dir_data_def add.commute del: map_eq_conv)
qed

lemma tree_snoc:
  "mk_tree host (args @ [a]) = (mk_tree host args)(1 := dir_data args @ mk_dirent (of_nat (2 + length args)) (file_name a),
     2 + length args := file_data host a)"
  by (rule ext) (auto simp: mk_tree_def dir_data_snoc nth_append)

lemma append_chunks:
  assumes "mk_inv s N T D" "0 < i" "i < N" "length (D i) + length (concat cs) \<le> MAXFILE * BSIZE"
    and "blocks_for N (D(i := D i @ concat cs)) \<le> FSSIZE"
  shows "wp (forM cs (iappend (of_nat i))) (\<lambda>_ t. mk_inv t N T (D(i := D i @ concat cs))) never s"
proof (rule wp_forM [where I = "\<lambda>ys t. mk_inv t N T (D(i := D i @ concat ys))"])
  fix ys y zs t
  assume cs: "cs = ys @ y # zs" and inv: "mk_inv t N T (D(i := D i @ concat ys))"
  let ?D = "D(i := D i @ concat ys)"
  have "?D(i := ?D i @ y) = D(i := D i @ concat (ys @ [y]))"
    by simp
  moreover have "blocks_for N (D(i := D i @ concat (ys @ [y]))) \<le> blocks_for N (D(i := D i @ concat cs))"
    by (rule blocks_for_mono) (simp_all add: cs)
  moreover have "length (?D i) + length y \<le> MAXFILE * BSIZE"
    using assms(4) by (simp add: cs)
  ultimately show "wp (iappend (of_nat i) y) (\<lambda>_ t. mk_inv t N T (D(i := D i @ concat (ys @ [y])))) never t"
    unfolding wp_returns using iappend_spec [OF inv assms(2,3), of y] assms(5) by auto
qed (use assms(1) in simp)

lemma ucast_of_nat: "ucast (of_nat n :: uint) = (of_nat n :: ushort)"
  by (simp add: word_unat_eq_iff unsigned_ucast_eq unsigned_of_nat take_bit_take_bit)

lemma add_spec:
  assumes "mk_inv s (2 + length args) types (mk_tree host args)" "legal host a" "fits host (args @ [a])"
  shows "wp (mkfs_add host 1 a) (\<lambda>_ t. mk_inv t (2 + length (args @ [a])) types (mk_tree host (args @ [a]))) never s"
proof -
  let ?N = "2 + length args" and ?D = "mk_tree host args" and ?D' = "mk_tree host (args @ [a])"
  let ?e = "mk_dirent (of_nat ?N) (file_name a)"
  let ?D1 = "?D(1 := ?D 1 @ ?e)"
  have f: "Suc ?N \<le> NINODES" "\<And>i. i < Suc ?N \<Longrightarrow> length (?D' i) \<le> MAXFILE * BSIZE" "blocks_for (Suc ?N) ?D' \<le> FSSIZE"
    using assms(3) by (simp_all add: fits_def)
  obtain cs where cs: "host a = Some cs" and n: "CHR ''/'' \<notin> set (shortname a)" "length (skip_underscore (shortname a)) \<le> DIRSIZ"
    using assms(2) by (auto simp: legal_def file_name_def)
  have D': "?D' = ?D1(?N := ?D1 ?N @ concat (takeWhile (\<lambda>c. c \<noteq> []) cs))"
    unfolding tree_snoc using cs by (auto simp: mk_tree_def file_data_def fun_eq_iff)
  have ty: "types(?N := T_FILE) = types" "?D(?N := []) = ?D"
    by (auto simp: types_def mk_tree_def)
  obtain t where t: "mkfs_ialloc T_FILE s = Ret (of_nat ?N) t" "mk_inv t (Suc ?N) types ?D"
    using ialloc_spec [OF assms(1), of T_FILE] f(1) ty by auto
  have "length (?D 1) + length ?e \<le> MAXFILE * BSIZE"
    using f(2) [of 1] unfolding tree_snoc by (simp add: mk_tree_def)
  moreover have "blocks_for (Suc ?N) ?D1 \<le> blocks_for (Suc ?N) ?D'"
    by (rule blocks_for_mono) (auto simp: D')
  ultimately obtain u where u: "iappend 1 ?e t = Ret () u" "mk_inv u (Suc ?N) types ?D1"
    using iappend_spec [OF t(2), of 1 ?e] f(3) by auto
  have c: "length (?D1 ?N) + length (concat (takeWhile (\<lambda>c. c \<noteq> []) cs)) \<le> MAXFILE * BSIZE"
    using f(2) [of ?N] unfolding D' by simp
  have "mk_dirent (xshort (ucast (of_nat ?N :: uint))) (skip_underscore (shortname a)) = ?e"
    by (simp only: file_name_def ucast_of_nat xshort_id)
  then have eq: "mkfs_add host 1 a s = forM (takeWhile (\<lambda>c. c \<noteq> []) cs) (iappend (of_nat ?N)) u"
    using cs n t(1) u(1) by (simp add: mkfs_add_def assertM_def whenM_def)
  have "wp (forM (takeWhile (\<lambda>c. c \<noteq> []) cs) (iappend (of_nat ?N))) (\<lambda>_ t. mk_inv t (Suc ?N) types ?D') never u"
    unfolding D' by (rule append_chunks [OF u(2) _ lessI c f(3) [unfolded D']]) simp
  moreover have "2 + length (args @ [a]) = Suc ?N"
    by simp
  ultimately show ?thesis
    unfolding wp_def by (simp only: eq)
qed

lemma fits_prefix: "fits host (args @ zs) \<Longrightarrow> fits host args"
proof (induction zs rule: rev_induct)
  case (snoc a zs)
  let ?xs = "args @ zs"
  have le: "length (mk_tree host ?xs i) \<le> length (mk_tree host (?xs @ [a]) i)" for i
    unfolding tree_snoc by (simp add: mk_tree_def)
  have "fits host ?xs"
    unfolding fits_def
  proof (intro conjI allI impI)
    show "2 + length ?xs \<le> NINODES"
      using snoc.prems by (simp add: fits_def)
    show "length (mk_tree host ?xs i) \<le> MAXFILE * BSIZE" if "i < 2 + length ?xs" for i
    proof (rule le_trans [OF le])
      show "length (mk_tree host (?xs @ [a]) i) \<le> MAXFILE * BSIZE"
        using snoc.prems that by (simp add: fits_def)
    qed
    have "blocks_for (2 + length ?xs) (mk_tree host ?xs) \<le> blocks_for (2 + length (?xs @ [a])) (mk_tree host (?xs @ [a]))"
      by (rule blocks_for_mono) (simp_all add: le del: append_assoc)
    then show "blocks_for (2 + length ?xs) (mk_tree host ?xs) \<le> FSSIZE"
      using snoc.prems by (simp add: fits_def)
  qed
  then show ?case
    by (rule snoc.IH)
qed simp

lemma add_all_spec:
  assumes "mk_inv s 2 types (mk_tree host [])" "\<forall>a \<in> set args. legal host a" "fits host args"
  shows "wp (forM args (mkfs_add host 1)) (\<lambda>_ t. mk_inv t (2 + length args) types (mk_tree host args)) never s"
proof (rule wp_forM [where I = "\<lambda>ys t. mk_inv t (2 + length ys) types (mk_tree host ys)"])
  fix ys y zs t
  assume x: "args = ys @ y # zs" and inv: "mk_inv t (2 + length ys) types (mk_tree host ys)"
  show "wp (mkfs_add host 1 y) (\<lambda>_ t. mk_inv t (2 + length (ys @ [y])) types (mk_tree host (ys @ [y]))) never t"
    by (rule add_spec [OF inv]) (use assms(2,3) x fits_prefix [of host "ys @ [y]" zs] in auto)
qed (use assms(1) in simp)

section \<open>The start\<close>

definition zeroed :: "nat \<Rightarrow> mkfs \<Rightarrow> bool" where
  "zeroed n s \<longleftrightarrow> img_len s = n * BSIZE \<and> FSSIZE * BSIZE \<le> img_max s \<and> (\<forall>i < n * BSIZE. img s i = 0)"

lemma zero_loop:
  assumes "img_len s = 0" "FSSIZE * BSIZE \<le> img_max s"
  shows "wp (forM [0..<FSSIZE] (\<lambda>i. wsect (of_nat i) (\<lambda>_. 0)))
    (\<lambda>_ t. zeroed FSSIZE t \<and> mk_sb t = mk_sb s \<and> freeinode t = freeinode s \<and> freeblock t = freeblock s) never s"
proof (rule wp_for [where I = "\<lambda>n t. zeroed n t \<and> mk_sb t = mk_sb s \<and> freeinode t = freeinode s \<and> freeblock t = freeblock s"])
  show "zeroed 0 s \<and> mk_sb s = mk_sb s \<and> freeinode s = freeinode s \<and> freeblock s = freeblock s"
    using assms by (simp add: zeroed_def)
  fix i t
  assume i: "i < FSSIZE" and z: "zeroed i t \<and> mk_sb t = mk_sb s \<and> freeinode t = freeinode s \<and> freeblock t = freeblock s"
  have u: "unat (of_nat i :: uint) = i"
    using i by (simp add: unat_of_nat take_bit_nat_eq_self mk_numbers)
  have "sect_off (of_nat i) = i * BSIZE" "i * BSIZE + BSIZE \<le> img_max t"
    using sect_off_small [of "of_nat i"] i u z by (simp_all add: zeroed_def)
  then show "wp (wsect (of_nat i) (\<lambda>_. 0))
      (\<lambda>_ t. zeroed (Suc i) t \<and> mk_sb t = mk_sb s \<and> freeinode t = freeinode s \<and> freeblock t = freeblock s) never t"
    using z by (auto simp: wp_def wsect_def zeroed_def Let_def)
qed

lemma start_inv:
  assumes "zeroed FSSIZE s" "mk_sb s = mkfs_sb" "freeinode s = 1" "freeblock s = of_nat meta_blocks"
  shows "wsect 1 (put_superblock mkfs_sb (\<lambda>_. 0)) s = Ret () (put_sect 1 (put_superblock mkfs_sb (\<lambda>_. 0)) s)"
    and "mk_inv (put_sect 1 (put_superblock mkfs_sb (\<lambda>_. 0)) s) 1 types (\<lambda>_. [])"
proof -
  let ?t = "put_sect 1 (put_superblock mkfs_sb (\<lambda>_. 0)) s"
  have f: "full s"
    using assms(1) by (simp add: zeroed_def full_def)
  have one: "unat (1 :: uint) < FSSIZE"
    by (simp add: mk_numbers)
  show "wsect 1 (put_superblock mkfs_sb (\<lambda>_. 0)) s = Ret () ?t"
    by (rule wsect_run [OF f one])
  have z: "iblk s b = (\<lambda>_. 0)" if "unat b < FSSIZE" for b
    using assms(1) sect_off_small(2) [OF that] by (auto simp: iblk_def blk_def zeroed_def)
  have ib: "iblk ?t b = (if b = 1 then blk (put_superblock mkfs_sb (\<lambda>_. 0)) else (\<lambda>_. 0))" if "unat b < FSSIZE" for b
    using iblk_put_sect [OF f that] z [OF that] by simp
  have one': "b \<noteq> 1" if "2 \<le> unat b" for b :: uint
    using that by auto
  have "unat (freeblock s) = meta_blocks"
    using assms(4) by (simp add: unat_of_nat take_bit_nat_eq_self mk_numbers)
  then have "mk_files ?t 1 (dnode ?t) (\<lambda>_ _. 0) (\<lambda>_. [])"
    using f ib one' by (simp add: mk_files_def mk_state_def holds_def layout_def mk_numbers)
  moreover have "di_type (dnode ?t i) = 0" if "i < NINODES" for i
    using ib [OF inode_block_in_meta(3) [OF that]] one' inode_block_in_meta(1) [OF that]
    by (simp add: dnode_def get_dinode_def get16_def)
  ultimately show "mk_inv ?t 1 types (\<lambda>_. [])"
    unfolding mk_inv_def using assms(2,3) ib by (auto simp: mk_numbers)
qed

section \<open>The image the kernel finds\<close>

text \<open>The sectors of the disk, and the parts of the image as \<^verbatim>\<open>readsb\<close>, \<^verbatim>\<open>ilock\<close> and the layout of fs.h read them.\<close>

definition kernel_image :: "(nat \<Rightarrow> byte) \<Rightarrow> image" where
  "kernel_image f = (\<lambda>sec i. f (512 * sec + i))"

definition read_superblock :: "block \<Rightarrow> superblock" where
  "read_superblock d = \<lparr>sb_magic = get32 d 0, sb_size = get32 d 4, sb_nblocks = get32 d 8, sb_ninodes = get32 d 12,
     sb_nlog = get32 d 16, sb_logstart = get32 d 20, sb_inodestart = get32 d 24, sb_bmapstart = get32 d 28\<rparr>"

definition image_node :: "image \<Rightarrow> nat \<Rightarrow> dinode" where
  "image_node d i = get_dinode (diskblk d (IBLOCK i mkfs_sb)) (dinode_off i)"

definition file_block :: "image \<Rightarrow> dinode \<Rightarrow> nat \<Rightarrow> uint" where
  "file_block d di j = (if j < NDIRECT then di_addrs di j
     else get32 (diskblk d (di_addrs di NDIRECT)) (4 * (j - NDIRECT)))"

definition file_in_image :: "image \<Rightarrow> nat \<Rightarrow> byte list \<Rightarrow> bool" where
  "file_in_image d i bs \<longleftrightarrow> (\<forall>k < length bs. file_block d (image_node d i) (k div BSIZE) \<noteq> 0
     \<and> diskblk d (file_block d (image_node d i) (k div BSIZE)) (k mod BSIZE) = bs ! k)"

lemma diskblk_image: "diskblk (kernel_image (img t)) b = iblk t b"
  by (simp add: diskblk_def iblk_def kernel_image_def BSIZE_def algebra_simps)

lemma image_node_dnode: "image_node (kernel_image (img t)) = dnode t"
  by (simp add: image_node_def dnode_def diskblk_image fun_eq_iff)

lemma read_put_superblock: "read_superblock (blk (put_superblock w (\<lambda>_. 0))) = w"
  by (simp add: read_superblock_def put_superblock_def get_blk BSIZE_def get_put_other)

lemma bitmap_bits: "bmap_bit (fold bmap_set [0..<n] (\<lambda>_. 0)) b \<longleftrightarrow> b < n"
  by (induction n) (simp add: bmap_bit_def, auto simp: bmap_bits(2) less_Suc_eq)

definition image_ok :: "image \<Rightarrow> nat \<Rightarrow> (nat \<Rightarrow> byte list) \<Rightarrow> bool" where
  "image_ok d N D \<longleftrightarrow>
     read_superblock (diskblk d 1) = mkfs_sb
     \<and> (\<forall>b. 2 \<le> unat b \<and> unat b < 2 + mk_nlog \<longrightarrow> diskblk d b = (\<lambda>_. 0))
     \<and> (\<forall>b < FSSIZE. bmap_bit (diskblk d (BBLOCK b mkfs_sb)) (b mod BPB) \<longleftrightarrow> b < blocks_for N D)
     \<and> (\<forall>i. 0 < i \<and> i < N \<longrightarrow> di_type (image_node d i) = types i \<and> di_nlink (image_node d i) = 1
          \<and> unat (di_size (image_node d i)) = (if i = 1 then (length (D i) div BSIZE + 1) * BSIZE else length (D i))
          \<and> file_in_image d i (D i))
     \<and> (\<forall>i. N \<le> i \<and> i < NINODES \<longrightarrow> di_type (image_node d i) = 0)"

lemma file_in_imageI:
  assumes "mk_files t N (dnode t) S D" "0 < i" "i < N"
  shows "file_in_image (kernel_image (img t)) i (D i)"
  unfolding file_in_image_def
proof (intro allI impI)
  fix k assume k: "k < length (D i)"
  have st: "mk_state t N (dnode t) S" and h: "holds t N S D"
    using assms(1) by (simp_all add: mk_files_def)
  note b = byte_slot [OF h assms(2,3) k]
  have "fslot t (dnode t i) (k div BSIZE) = S i (k div BSIZE)"
    by (rule mk_stateD(7) [OF st assms(2,3)]) (use b(1) in simp)
  then have "file_block (kernel_image (img t)) (dnode t i) (k div BSIZE) = S i (k div BSIZE)"
    using b by (auto simp: file_block_def fslot_def diskblk_image split: if_splits)
  then show "file_block (kernel_image (img t)) (image_node (kernel_image (img t)) i) (k div BSIZE) \<noteq> 0
      \<and> diskblk (kernel_image (img t)) (file_block (kernel_image (img t)) (image_node (kernel_image (img t)) i) (k div BSIZE)) (k mod BSIZE) = D i ! k"
    using b holdsD(4) [OF h assms(2,3) b] k by (simp add: image_node_dnode diskblk_image byte_at_def)
qed

lemma bitmap_block_no:
  assumes "b < FSSIZE"
  shows "BBLOCK b mkfs_sb = 106" "b mod BPB = b" "b < BPB"
  using assms by (simp_all add: BBLOCK_def mkfs_sb_def mk_numbers BPB_def BSIZE_def)

lemma root_size:
  assumes "n \<le> MAXFILE * BSIZE"
  shows "unat ((of_nat n div of_nat BSIZE + 1) * of_nat BSIZE :: uint) = (n div BSIZE + 1) * BSIZE"
proof -
  have n: "unat (of_nat n :: uint) = n"
    using assms by (simp add: unat_of_nat take_bit_nat_eq_self mk_numbers BSIZE_def)
  have d: "unat (of_nat n div of_nat BSIZE :: uint) = n div BSIZE"
    by (simp add: unat_div n BSIZE_def)
  have "n div BSIZE \<le> MAXFILE"
    using div_le_mono [OF assms, of BSIZE] by (simp add: BSIZE_def)
  then have "unat (of_nat n div of_nat BSIZE + 1 :: uint) = n div BSIZE + 1"
    by (subst unat_word_ariths(1)) (simp add: d mk_numbers)
  then show ?thesis
    using \<open>n div BSIZE \<le> MAXFILE\<close> by (subst unat_word_ariths(2)) (simp add: mk_numbers BSIZE_def)
qed

lemma image_okI:
  assumes "mk_files t N (dnode t) S D" "N \<le> NINODES"
    and nodes: "\<And>i. 0 < i \<Longrightarrow> i < N \<Longrightarrow> di_type (dnode t i) = types i \<and> di_nlink (dnode t i) = 1
      \<and> di_size (dnode t i) = (if i = 1 then (of_nat (length (D i)) div of_nat BSIZE + 1) * of_nat BSIZE else of_nat (length (D i)))"
    and "\<And>i. N \<le> i \<Longrightarrow> i < NINODES \<Longrightarrow> di_type (dnode t i) = 0"
    and "\<And>b. unat b < 93 \<Longrightarrow> iblk t b = (if b = 1 then blk (put_superblock mkfs_sb (\<lambda>_. 0)) else (\<lambda>_. 0))"
    and "iblk t 106 = blk (fold bmap_set [0..<blocks_for N D] (\<lambda>_. 0))"
  shows "image_ok (kernel_image (img t)) N D"
  unfolding image_ok_def diskblk_image image_node_dnode
proof (intro conjI allI impI)
  show "read_superblock (iblk t 1) = mkfs_sb"
    using assms(5) [of 1] by (simp add: read_put_superblock)
  show "iblk t b = (\<lambda>_. 0)" if "2 \<le> unat b \<and> unat b < 2 + mk_nlog" for b
    using assms(5) [of b] that by (auto simp: mk_numbers)
  show "bmap_bit (iblk t (BBLOCK b mkfs_sb)) (b mod BPB) \<longleftrightarrow> b < blocks_for N D" if "b < FSSIZE" for b
    unfolding bitmap_block_no(1,2) [OF that] assms(6) bmap_blk [OF bitmap_block_no(3) [OF that]] by (rule bitmap_bits)
  fix i
  show "di_type (dnode t i) = 0" if "N \<le> i \<and> i < NINODES"
    using assms(4) that by blast
  assume i: "0 < i \<and> i < N"
  then show "di_type (dnode t i) = types i" "di_nlink (dnode t i) = 1" "file_in_image (kernel_image (img t)) i (D i)"
    using nodes file_in_imageI [OF assms(1)] by blast+
  have "length (D i) \<le> MAXFILE * BSIZE"
    using assms(1) i by (simp add: mk_files_def holds_def)
  with nodes [of i] i show "unat (di_size (dnode t i)) = (if i = 1 then (length (D i) div BSIZE + 1) * BSIZE else length (D i))"
    using root_size [of "length (D i)"] by (auto simp: unat_of_nat take_bit_nat_eq_self mk_numbers BSIZE_def)
qed

text \<open>The end of \<^verbatim>\<open>main\<close>: the size of the root directory is rounded up and the bitmap written.\<close>

lemma finish_spec:
  assumes "mk_inv s N types D" "1 < N"
  defines "sz \<equiv> (of_nat (length (D 1)) div of_nat BSIZE + 1) * of_nat BSIZE :: uint"
  defines "t1 \<equiv> put_dnode 1 ((dnode s 1)\<lparr>di_size := sz\<rparr>) s"
  defines "t \<equiv> put_sect 106 (fold bmap_set [0..<blocks_for N D] (\<lambda>_. 0)) t1"
  shows "rinode 1 s = Ret (dnode s 1) s" "di_size (dnode s 1) = of_nat (length (D 1))"
    and "winode 1 ((dnode s 1)\<lparr>di_size := sz\<rparr>) s = Ret () t1"
    and "mkfs_balloc (sint (freeblock t1)) t1 = Ret () t" "img_len t = FSSIZE * BSIZE" "image_ok (kernel_image (img t)) N D"
proof -
  note inv = mk_invD [OF assms(1)] and f = mk_inv_full [OF assms(1)]
  obtain S where S: "mk_files s N (dnode s) S D"
    using inv(5) by blast
  have fb: "unat (freeblock s) = blocks_for N D" "blocks_for N D \<le> FSSIZE"
    using S by (simp_all add: mk_files_def mk_state_def blocks_for_def)
  have one: "unat (1 :: uint) = 1" "1 < NINODES"
    by (simp_all add: mk_numbers)
  show "rinode 1 s = Ret (dnode s 1) s"
    using rinode_run [OF f inv(3), of 1] one by simp
  note node = inv(6) [of 1]
  show "di_size (dnode s 1) = of_nat (length (D 1))"
    using node assms(2) by (simp add: inode_of_def)
  show "winode 1 ((dnode s 1)\<lparr>di_size := sz\<rparr>) s = Ret () t1"
    using winode_run [OF f inv(3), of 1] one by (simp add: t1_def)
  have b: "unat (106 :: uint) = 106" "unat (106 :: uint) < FSSIZE"
    by (simp_all add: mk_numbers)
  have f1: "full t1" "freeblock t1 = freeblock s" "mk_sb t1 = mkfs_sb"
    using f inv(3) by (simp_all add: t1_def)
  have "sint (freeblock t1) = int (blocks_for N D)"
    using sint_small [of "freeblock t1"] f1(2) fb by (simp add: mk_numbers)
  then show "mkfs_balloc (sint (freeblock t1)) t1 = Ret () t"
    using wsect_run [OF f1(1) b(2)] fb(2) f1(3)
    by (simp add: mkfs_balloc_def assertM_def whenM_def mkfs_sb_def mk_numbers BPB_def BSIZE_def t_def)
  show "img_len t = FSSIZE * BSIZE"
    using f by (simp add: t_def t1_def put_dnode_def full_def)
  have "dinode_ok (dnode s 1)"
    using S assms(2) by (simp add: mk_files_def mk_state_def)
  then have ok: "dinode_ok ((dnode s 1)\<lparr>di_size := sz\<rparr>)"
    by (simp add: dinode_ok_def)
  have ib: "iblk t k = (if k = 106 then blk (fold bmap_set [0..<blocks_for N D] (\<lambda>_. 0)) else iblk t1 k)" if "unat k < FSSIZE" for k
    unfolding t_def by (rule iblk_put_sect [OF f1(1) that])
  have ib1: "iblk t k = iblk s k" if "unat k < FSSIZE" "unat k < 93 \<or> 107 \<le> unat k" for k
    using ib [OF that(1)] iblk_put_dnode [OF f one(2) that(1)] that(2) by (auto simp: t1_def)
  have d: "dnode t i = (if i = 1 then (dnode s 1)\<lparr>di_size := sz\<rparr> else dnode s i)" if "i < NINODES" for i
  proof -
    have "IBLOCK i mkfs_sb \<noteq> 106"
      using inode_block_in_meta(2) [OF that] by auto
    then have "dnode t i = dnode t1 i"
      using ib [OF inode_block_in_meta(3) [OF that]] by (simp add: dnode_def)
    then show ?thesis
      unfolding t1_def dnode_put_dnode [OF f one(2) that ok] .
  qed
  have "mk_files t N (dnode s) S D"
    by (rule mk_files_cong [OF S]) (use f1 ib1 in \<open>simp_all add: t_def mk_numbers\<close>)
  then have mf: "mk_files t N (dnode t) S D"
    by (rule mk_files_nodes) (use d inv(2) S in \<open>auto simp: fslot_def fun_eq_iff mk_files_def mk_state_def dinode_ok_def\<close>)
  show "image_ok (kernel_image (img t)) N D"
    by (rule image_okI [OF mf inv(2)])
      (use d inv(2,6,7,8) ib [OF b(2)] ib1 node in \<open>auto simp: inode_of_def sz_def mk_numbers\<close>)
qed

lemma root_entries:
  assumes "mk_inv s 1 types (\<lambda>_. [])"
  shows "\<exists>t u v. mkfs_ialloc T_DIR s = Ret 1 t \<and> iappend 1 (mk_dirent 1 ''.'') t = Ret () u
    \<and> iappend 1 (mk_dirent 1 ''..'') u = Ret () v \<and> mk_inv v 2 types (mk_tree host [])"
proof -
  have ty: "types(1 := T_DIR) = types" "(\<lambda>_ :: nat. [] :: byte list)(1 := []) = (\<lambda>_. [])"
    by (auto simp: types_def)
  have len: "length (mk_dirent n x) = 16" for n x
    by (simp add: mk_dirent_def DIRSIZ_def)
  obtain t where t: "mkfs_ialloc T_DIR s = Ret 1 t" "mk_inv t 2 types (\<lambda>_. [])"
    using ialloc_spec [OF assms, of T_DIR, unfolded ty] by (auto simp: mk_numbers numeral_2_eq_2)
  have n: "need 16 = 1" "need 32 = 1"
    by (simp_all add: need_def mk_numbers BSIZE_def)
  have "{1..<2} = {1 :: nat}"
    by auto
  then have b: "blocks_for 2 D = 107 + need (length (D 1))" for D
    by (simp add: blocks_for_def mk_numbers)
  let ?D1 = "(\<lambda>_. [])(1 := mk_dirent 1 ''.'')" and ?D2 = "(\<lambda>_. [])(1 := mk_dirent 1 ''.'' @ mk_dirent 1 ''..'')"
  obtain u where u: "iappend 1 (mk_dirent 1 ''.'') t = Ret () u" "mk_inv u 2 types ?D1"
    using iappend_spec [OF t(2), of 1 "mk_dirent 1 ''.''"] by (auto simp: len b n mk_numbers BSIZE_def)
  obtain v where v: "iappend 1 (mk_dirent 1 ''..'') u = Ret () v" "mk_inv v 2 types ?D2"
    using iappend_spec [OF u(2), of 1 "mk_dirent 1 ''..''"] by (auto simp: len b n mk_numbers BSIZE_def)
  have "?D2 = mk_tree host []"
    by (auto simp: mk_tree_def dir_data_def)
  with t(1) u(1) v show ?thesis by metis
qed

lemma mkfs_root_spec:
  assumes "mk_inv s 1 types (\<lambda>_. [])" "\<forall>a \<in> set args. legal host a" "fits host args"
  shows "wp (mkfs_root host args) (\<lambda>_ t. img_len t = FSSIZE * BSIZE
    \<and> image_ok (kernel_image (img t)) (2 + length args) (mk_tree host args)) never s" (is "wp _ ?Q _ _")
proof -
  obtain u v w where r: "mkfs_ialloc T_DIR s = Ret 1 u" "iappend 1 (mk_dirent 1 ''.'') u = Ret () v"
    "iappend 1 (mk_dirent 1 ''..'') v = Ret () w" "mk_inv w 2 types (mk_tree host [])"
    using root_entries [OF assms(1)] by blast
  have "wp (andthen (forM args (mkfs_add host 1)) (mkfs_finish 1)) ?Q never w"
  proof (rule wp_bindI [OF add_all_spec [OF r(4) assms(2,3)]])
    fix a t assume "mk_inv t (2 + length args) types (mk_tree host args)"
    note f = finish_spec [OF this]
    show "wp (mkfs_finish 1) ?Q never t"
      using f by (simp add: wp_def mkfs_finish_def Let_def)
  qed simp
  with r(1-3) show ?thesis
    by (simp add: wp_def mkfs_root_def assertM_def whenM_def ROOTINO_def)
qed

lemma mkfs_main_spec:
  assumes "2 \<le> length argv" "create (argv ! 1)" "\<forall>a \<in> set (drop 2 argv). legal host a" "fits host (drop 2 argv)"
    and "freeinode s = 1" "FSSIZE * BSIZE \<le> img_max s"
  shows "wp (mkfs_main create host argv) (\<lambda>_ t. img_len t = FSSIZE * BSIZE
    \<and> image_ok (kernel_image (img t)) (2 + length (drop 2 argv)) (mk_tree host (drop 2 argv))) never s" (is "wp _ ?Q _ _")
proof -
  let ?s = "s\<lparr>img_len := 0, nmeta := meta_blocks, nblocks := FSSIZE - meta_blocks, mk_sb := mkfs_sb, freeblock := of_nat meta_blocks\<rparr>"
  let ?sb = "bind (gets mk_sb) (\<lambda>w. wsect 1 (put_superblock w (\<lambda>_. 0)))"
  have main: "mkfs_main create host argv s = andthen (forM [0..<FSSIZE] (\<lambda>i. wsect (of_nat i) (\<lambda>_. 0)))
      (andthen ?sb (mkfs_root host (drop 2 argv))) ?s"
    using assms(1,2) unfolding mkfs_main_def mkfs_sb_def meta_blocks_def
    by (simp add: assertM_def whenM_def BSIZE_def del: forM.simps)
  have "wp (andthen (forM [0..<FSSIZE] (\<lambda>i. wsect (of_nat i) (\<lambda>_. 0))) (andthen ?sb (mkfs_root host (drop 2 argv)))) ?Q never ?s"
  proof (rule wp_bindI [OF zero_loop])
    fix a t
    assume z: "zeroed FSSIZE t \<and> mk_sb t = mk_sb ?s \<and> freeinode t = freeinode ?s \<and> freeblock t = freeblock ?s"
    then have "zeroed FSSIZE t" "mk_sb t = mkfs_sb" "freeinode t = 1" "freeblock t = of_nat meta_blocks"
      using assms(5) by simp_all
    note st = start_inv [OF this]
    show "wp (andthen ?sb (mkfs_root host (drop 2 argv))) ?Q never t"
      using mkfs_root_spec [OF st(2) assms(3,4)] st(1) \<open>mk_sb t = mkfs_sb\<close> by (simp add: wp_def)
  qed (use assms(6) in simp_all)
  then show ?thesis
    unfolding wp_def main .
qed


text \<open>One file of three bytes.\<close>

definition tiny_host :: host where
  "tiny_host a = (if a = ''user/_test'' then Some [[1, 2, 3]] else None)"

definition mkfs_start :: mkfs where
  "mkfs_start = \<lparr>img = (\<lambda>_. 0), img_len = 0, img_max = 2048000, mk_sb = mkfs_sb, nmeta = 0, nblocks = 0, freeinode = 1, freeblock = 0\<rparr>"

lemma tiny_host_ok:
  "legal tiny_host ''user/_test''" "file_data tiny_host ''user/_test'' = [1, 2, 3]" "length (dir_data [''user/_test'']) = 48"
  "blocks_for 3 (mk_tree tiny_host [''user/_test'']) = 109" "fits tiny_host [''user/_test'']"
  "freeinode mkfs_start = 1" "FSSIZE * BSIZE \<le> img_max mkfs_start"
proof -
  show "legal tiny_host ''user/_test''"
    by (simp add: legal_def tiny_host_def file_name_def shortname_def skip_underscore_def DIRSIZ_def)
  show f: "file_data tiny_host ''user/_test'' = [1, 2, 3]"
    by (simp add: file_data_def tiny_host_def)
  show d: "length (dir_data [''user/_test'']) = 48"
    by (simp add: dir_data_def mk_dirent_def DIRSIZ_def)
  have t: "length (mk_tree tiny_host [''user/_test''] i) = (if i = 1 then 48 else if i = 2 then 3 else 0)" for i
    using d f by (auto simp: mk_tree_def)
  have "{1..<3} = {1, 2 :: nat}"
    by auto
  then show b: "blocks_for 3 (mk_tree tiny_host [''user/_test'']) = 109"
    by (simp add: blocks_for_def t need_def mk_numbers BSIZE_def)
  then show "fits tiny_host [''user/_test'']"
    by (simp add: fits_def t mk_numbers BSIZE_def)
  show "freeinode mkfs_start = 1" "FSSIZE * BSIZE \<le> img_max mkfs_start"
    by (simp_all add: mkfs_start_def mk_numbers BSIZE_def)
qed


section \<open>The kernel on the new image\<close>

lemma mkfs_sb_values: "unat (sb_size mkfs_sb) = 2000" "unat (sb_ninodes mkfs_sb) = 200" "unat (sb_logstart mkfs_sb) = 2"
  by (simp_all add: mkfs_sb_def mk_numbers)

lemma image_fs_ok:
  fixes k :: "'z fs_scheme"
  assumes "image_ok d N D" "content k = diskblk d" "sb k = read_superblock (content k 1)" "log_start k = int (unat (sb_logstart (sb k)))"
    and "blocks_for N D \<le> FSSIZE"
  shows "fs_ok k" "free_blocks k = {blocks_for N D..<FSSIZE}"
proof -
  have sb: "sb k = mkfs_sb"
    using assms(1-3) by (simp add: image_ok_def)
  have sz: "fsize k = FSSIZE"
    by (simp add: fsize_def sb mkfs_sb_values mk_numbers)
  have log: "in_log_area k b \<longleftrightarrow> 2 \<le> unat b \<and> unat b < 93" for b
    unfolding in_log_area_def assms(4) sb mkfs_sb_values LOGBLOCKS_def by linarith
  have bm: "bitmap_block k b \<Longrightarrow> b = 106" for b
    unfolding bitmap_block_def sz sb using bitmap_block_no(1) by auto
  have ino: "93 \<le> unat b \<and> unat b < 106" if "inode_block k b" for b
    using that inode_block_in_meta unfolding inode_block_def sb mkfs_sb_values by (auto simp: mk_numbers)
  have used: "used k b \<longleftrightarrow> b < blocks_for N D" if "b < FSSIZE" for b
    using assms(1,2) that unfolding used_def sb image_ok_def by simp
  have "107 \<le> blocks_for N D"
    by (simp add: blocks_for_def mk_numbers)
  moreover have "unat (of_nat b :: uint) = b" if "b < FSSIZE" for b
    using that by (simp add: unat_of_nat take_bit_nat_eq_self mk_numbers)
  ultimately have data: "data_block k (of_nat b)" if "b < FSSIZE" "\<not> used k b" for b
    using that used [OF that(1)] bm [of "of_nat b"] ino [of "of_nat b"] log [of "of_nat b"] unfolding data_block_def sz by fastforce
  have n106: "unat (106 :: uint) = 106"
    by simp
  show "fs_ok k"
    unfolding fs_ok_def sz
  proof (intro conjI allI impI)
    show "FSSIZE < 2 ^ 31"
      by (simp add: mk_numbers)
    show "unat b < 2 ^ 31" "\<not> in_log_area k b" if "bitmap_block k b" for b
      using bm [OF that] log [of b] by simp_all
    show "unat b < 2 ^ 31" "\<not> in_log_area k b" "\<not> bitmap_block k b" if "inode_block k b" for b
      using ino [OF that] log [of b] bm [of b] by auto
  qed (rule data)
  show "free_blocks k = {blocks_for N D..<FSSIZE}"
    using used unfolding free_blocks_def sz by auto
qed

text \<open>
  C38. The image \<^verbatim>\<open>mkfs\<close> builds is a file system for the kernel: a kernel that has read the superblock from it
  and has no block of it in its cache is in a state that satisfies the invariant of fs.c, and the blocks \<^verbatim>\<open>balloc\<close> can
  hand out are exactly those behind the files.
\<close>

theorem mkfs_image_is_file_system:
  fixes host :: host
  assumes "2 \<le> length argv" "create (argv ! 1)" "\<forall>a \<in> set (drop 2 argv). legal host a" "fits host (drop 2 argv)"
    and "freeinode s = 1" "FSSIZE * BSIZE \<le> img_max s"
  shows "\<exists>t. mkfs_main create host argv s = Ret () t \<and> (\<forall>k :: fs. content k = diskblk (kernel_image (img t))
      \<longrightarrow> sb k = read_superblock (content k 1) \<longrightarrow> log_start k = int (unat (sb_logstart (sb k)))
      \<longrightarrow> fs_ok k \<and> free_blocks k = {blocks_for (2 + length (drop 2 argv)) (mk_tree host (drop 2 argv))..<FSSIZE})"
proof -
  obtain t where t: "mkfs_main create host argv s = Ret () t"
    "image_ok (kernel_image (img t)) (2 + length (drop 2 argv)) (mk_tree host (drop 2 argv))"
    using mkfs_main_spec [of argv create host s] assms by (auto simp: wp_returns)
  have "blocks_for (2 + length (drop 2 argv)) (mk_tree host (drop 2 argv)) \<le> FSSIZE"
    using assms(4) by (simp add: fits_def)
  with image_fs_ok [where 'z = unit, OF t(2)] t(1) show ?thesis by blast
qed

text \<open>A kernel with an empty buffer cache and the new image on its disk.\<close>

definition mounted :: "image \<Rightarrow> fs" where
  "mounted d = some_fs\<lparr>disk_image := d, sb := mkfs_sb\<rparr>"

lemma mounted_content: "content (mounted d) = diskblk d"
proof (rule ext)
  fix b
  have "content (mounted d) b = diskblk (disk_image (mounted d)) b"
    by (rule content_absent) (simp add: mounted_def some_bufs_def zero_buf_def caches_def)
  then show "content (mounted d) b = diskblk d b"
    by (simp add: mounted_def)
qed

theorem mkfs_image_is_file_system_witness:
  "\<exists>t. mkfs_main (\<lambda>_. True) tiny_host [''mkfs'', ''fs.img'', ''user/_test''] mkfs_start = Ret () t
    \<and> fs_ok (mounted (kernel_image (img t))) \<and> free_blocks (mounted (kernel_image (img t))) = {109..<2000}"
proof -
  let ?argv = "[''mkfs'', ''fs.img'', ''user/_test'']"
  have h: "2 \<le> length ?argv" "(\<lambda>_. True) (?argv ! 1)" "\<forall>a \<in> set (drop 2 ?argv). legal tiny_host a" "fits tiny_host (drop 2 ?argv)"
    using tiny_host_ok by simp_all
  obtain t where t: "mkfs_main (\<lambda>_. True) tiny_host ?argv mkfs_start = Ret () t"
    and k: "\<And>k :: fs. content k = diskblk (kernel_image (img t)) \<Longrightarrow> sb k = read_superblock (content k 1)
      \<Longrightarrow> log_start k = int (unat (sb_logstart (sb k)))
      \<Longrightarrow> fs_ok k \<and> free_blocks k = {blocks_for (2 + length (drop 2 ?argv)) (mk_tree tiny_host (drop 2 ?argv))..<FSSIZE}"
    using mkfs_image_is_file_system [OF h tiny_host_ok(6,7)] by blast
  have "image_ok (kernel_image (img t)) (2 + length (drop 2 ?argv)) (mk_tree tiny_host (drop 2 ?argv))"
    using mkfs_main_spec [OF h tiny_host_ok(6,7)] t by (simp add: wp_def)
  then have "read_superblock (diskblk (kernel_image (img t)) 1) = mkfs_sb"
    by (simp add: image_ok_def)
  then have "fs_ok (mounted (kernel_image (img t)))
      \<and> free_blocks (mounted (kernel_image (img t))) = {blocks_for (2 + length (drop 2 ?argv)) (mk_tree tiny_host (drop 2 ?argv))..<FSSIZE}"
    by (intro k) (simp_all add: mounted_content, simp_all add: mounted_def mkfs_sb_def)
  with t tiny_host_ok(4) show ?thesis
    by (simp add: mk_numbers)
qed

end
