(* ===== verification/Spec2Isabelle.thy ===== *)
theory Spec2Isabelle
  imports Trap Asm Buddy Mkfs
begin

text \<open>
  This is a verification development for the RISC-V kernel under \<^verbatim>\<open>src/riscv-os\<close>, an operating
  system in the style of xv6: spinlocks and sleeplocks, a page allocator and Sv39 page tables,
  processes, a virtio disk driver, a buffer cache, a redo log, an inode file system, system calls,
  program loading, traps and booting.

  \<^bold>\<open>How the code is modelled.\<close> A C function that works on kernel state is an operation: a function
  from a state to an outcome, either \<open>Ret\<close> with a result and a state, or \<open>Fault\<close> with the reason
  why the call does not return: a panic with its message, an access outside an object (\<open>Wild\<close>), a
  lock that never becomes free, a loop that does not end, or the points where a process gives up the
  hart (\<open>Sleep\<close>, \<open>Yield\<close>, \<open>Exit\<close>). Theory \<open>Prelude\<close> has these types, the combinators for sequences,
  conditions and loops, and the weakest preconditions \<open>wp m Q F s\<close> with one postcondition for
  returning and one for faults. Integers are words of the width of the C type, with the conversions
  of C written out; \<^verbatim>\<open>int\<close> variables whose values stay small are integers. The state is one
  extensible record that grows with the components:

  \<^item> \<open>machine\<close> (theory \<open>Machine\<close>): interrupt enable bit, hart id, the per-hart \<^verbatim>\<open>struct cpu\<close>, spinlocks;
  \<^item> \<open>kmem\<close> (\<open>Kalloc\<close>): byte memory, free list and bitmap; page tables live in the same memory;
  \<^item> \<open>procs\<close> (\<open>Proc\<close>): the process table; \<open>slk\<close> (\<open>Sleeplock\<close>): the sleeplocks;
  \<^item> \<open>vdisk\<close> (\<open>Virtio\<close>): buffers, queue memory, driver state, device registers and the disk;
  \<^item> \<open>klog\<close> (\<open>Log\<close>), \<open>fs\<close> (\<open>Fs\<close>), \<open>cons\<close> (\<open>Console\<close>), \<open>filesys\<close> (\<open>File\<close>), \<open>ksys\<close> (\<open>Exec\<close>),
    \<open>trapst\<close> (\<open>Trap\<close>): log header, superblock and inode table, UART output, file table, ticks, CSRs.

  \<^bold>\<open>The theories, their sources and what they show.\<close>

  \<^item> \<open>Machine\<close>, \<open>Spinlock\<close>: \<^verbatim>\<open>include/riscv.h\<close>, \<^verbatim>\<open>kernel/lib/spinlock.c\<close>. \<^verbatim>\<open>push_off\<close>/\<^verbatim>\<open>pop_off\<close> nest;
    \<^verbatim>\<open>acquire\<close> and \<^verbatim>\<open>release\<close> on one hart; mutual exclusion for every interleaving of the
    instructions of several harts, by an invariant of the step relation \<open>lock_step\<close>.
  \<^item> \<open>Memory\<close>, \<open>Cstring\<close>: \<^verbatim>\<open>kernel/lib/string.c\<close>, \<^verbatim>\<open>kernel/lib/math.c\<close>. Overlapping copies, comparison,
    bounded copy, integer logarithm, termination and value of \<^verbatim>\<open>power\<close>.
  \<^item> \<open>Ring\<close>: \<^verbatim>\<open>kernel/lib/list.c\<close> and the list shape shared with the buffer cache, through the locale
    \<open>linked_nodes\<close>, interpreted for nodes in memory and for buffers.
  \<^item> \<open>Kalloc\<close>: \<^verbatim>\<open>kernel/mm/kalloc.c\<close>. The invariant of free list and bitmap, each operation, and by
    the locale \<open>page_allocator\<close> that no sequence of calls loses or duplicates a page.
  \<^item> \<open>Pagetable\<close>: \<^verbatim>\<open>kernel/mm/vm.c\<close>. Page tables as trees in memory; \<^verbatim>\<open>walk\<close>, \<^verbatim>\<open>mapPages\<close> and lookups.
  \<^item> \<open>Proc\<close>, \<open>Sleeplock\<close>: \<^verbatim>\<open>kernel/proc/proc.c\<close>, \<^verbatim>\<open>kernel/lib/sleeplock.c\<close>. \<^verbatim>\<open>sleep\<close> and \<^verbatim>\<open>wakeup\<close>, killing,
    and for every schedule of processes that compete for a sleeplock: exclusion and no lost wake-up.
  \<^item> \<open>Virtio\<close>: \<^verbatim>\<open>kernel/driver/virtio_disk.c\<close>. A request transfers its block, for every device that
    obeys the specification.
  \<^item> \<open>Bio\<close>: \<^verbatim>\<open>kernel/disk/bio.c\<close>. The cache is coherent, writes persist, and the references that a
    cache hit leaves behind exhaust it.
  \<^item> \<open>Log\<close>, \<open>Fs\<close>, \<open>Console\<close>, \<open>File\<close>, \<open>Sysfile\<close>, \<open>Exec\<close>, \<open>Trap\<close>: \<^verbatim>\<open>kernel/disk\<close>, \<^verbatim>\<open>kernel/lib\<close>,
    \<^verbatim>\<open>kernel/driver\<close>, \<^verbatim>\<open>kernel/trap\<close> and \<^verbatim>\<open>kernel/boot\<close>: the operations as definitions.

  \<^bold>\<open>Concurrency.\<close> An operation runs to its next context switch. Where interleavings matter they are
  explicit: \<open>lock_step\<close> for harts on one spinlock, \<open>sl_reach\<close> for processes on one sleeplock. The
  statements about longer operations are for a calm state: all spinlocks are free and interrupts
  are as the nesting counter says, so that \<^verbatim>\<open>acquire\<close> does not wait.

  \<^bold>\<open>Parameters.\<close> The disk device is a function in the state; the property \<open>blk_device\<close> states what
  the virtio specification promises of it, and \<open>ideal_device\<close> is a device with this property. The
  addresses that the linker assigns and the values that device registers return are fields of the
  state that no operation changes.

  \<^bold>\<open>Bounds and fuel.\<close> The traversals of \<^verbatim>\<open>bget\<close> have \<open>NBUF + 1\<close> rounds, enough for a list of at most
  \<open>NBUF\<close> buffers. The loops of \<^verbatim>\<open>strlen\<close> and \<^verbatim>\<open>power\<close> are partial functions with a proof that they
  end. Other loops recurse over the data they traverse.

  \<^bold>\<open>Not modelled.\<close> Messages that operations below the console print do not appear in their models,
  since they have no effect on the kernel's state. The declarations in \<^verbatim>\<open>include/defs.h\<close> and
  \<^verbatim>\<open>include/user.h\<close>, the build files and the linker scripts have no behaviour of their own. Time,
  caches and memory ordering of the hardware are outside the model; the fences of the spinlocks are
  taken to make each lock step atomic.
\<close>

end
